(* ===== verification/Prelude.thy ===== *)
theory Prelude
  imports Main
begin

text \<open>
  Shared ground of the development: the faults a run of the library can end in, the two monads
  the model is written in (a result monad for functions on a node, a state monad for functions
  that follow pointers), checked \<open>u16\<close> arithmetic, the ranges of \<open>std::ops\<close>, and the generic
  lemmas on lists that the components share.
\<close>

named_theorems runs_intro "rules that run a program over an abstract heap"
named_theorems res_simps "evaluation of the result and program monads"

subsection \<open>Faults\<close>

text \<open>
  Every way the Rust code can stop without a value. The first group are panics (a failed
  \<open>assert!\<close>, \<open>debug_assert!\<close>, \<open>unwrap\<close>, slice index, checked arithmetic of a debug build, an
  explicit \<open>panic!\<close>); the second group is undefined behaviour of the \<open>unsafe\<close> code, which the model
  makes visible; \<open>OutOfFuel\<close> is the bound of the model's own loops.
\<close>

datatype fault =
    AssertFailed
  | IndexOutOfBounds
  | ArithOverflow
  | UnwrapNone
  | Unreachable
  | IterationDone
  | CursorEmpty
  | UninitRead
  | WrongVariant
  | DanglingPointer
  | Misaligned
  | OutOfFuel

type_synonym 'a res = "fault + 'a"

definition bindR :: "'a res \<Rightarrow> ('a \<Rightarrow> 'b res) \<Rightarrow> 'b res" where
  "bindR r f = (case r of Inl e \<Rightarrow> Inl e | Inr a \<Rightarrow> f a)"

definition assertR :: "bool \<Rightarrow> unit res" where
  "assertR b = (if b then Inr () else Inl AssertFailed)"

definition unwrapR :: "'a option \<Rightarrow> 'a res" where
  "unwrapR x = (case x of None \<Rightarrow> Inl UnwrapNone | Some a \<Rightarrow> Inr a)"

definition mapR :: "('a \<Rightarrow> 'b) \<Rightarrow> 'a res \<Rightarrow> 'b res" where
  "mapR f r = bindR r (\<lambda>a. Inr (f a))"

lemma bindR_simps [simp, res_simps]:
  "bindR (Inr a) f = f a"
  "bindR (Inl e) f = Inl e"
  by (simp_all add: bindR_def)

lemma mapR_simps [simp, res_simps]:
  "mapR g (Inr a) = Inr (g a)"
  "mapR g (Inl e) = Inl e"
  by (simp_all add: mapR_def)

lemma assertR_simps [simp, res_simps]:
  "assertR True = Inr ()"
  "assertR False = Inl AssertFailed"
  by (simp_all add: assertR_def)

lemma assertR_holds [simp]: "b \<Longrightarrow> assertR b = Inr ()"
  by (simp add: assertR_def)

lemma unwrapR_simps [simp, res_simps]:
  "unwrapR (Some a) = Inr a"
  "unwrapR None = Inl UnwrapNone"
  by (simp_all add: unwrapR_def)

lemma bindR_Inr_iff: "bindR r f = Inr b \<longleftrightarrow> (\<exists>a. r = Inr a \<and> f a = Inr b)"
  by (cases r) simp_all

subsection \<open>Programs over a store\<close>

type_synonym ('s, 'a) prog = "'s \<Rightarrow> fault + ('a \<times> 's)"

definition ret :: "'a \<Rightarrow> ('s, 'a) prog" where
  "ret a = (\<lambda>s. Inr (a, s))"

definition fail :: "fault \<Rightarrow> ('s, 'a) prog" where
  "fail e = (\<lambda>s. Inl e)"

definition bindP :: "('s, 'a) prog \<Rightarrow> ('a \<Rightarrow> ('s, 'b) prog) \<Rightarrow> ('s, 'b) prog" where
  "bindP m f = (\<lambda>s. case m s of Inl e \<Rightarrow> Inl e | Inr (a, s') \<Rightarrow> f a s')"

definition liftP :: "'a res \<Rightarrow> ('s, 'a) prog" where
  "liftP r = (\<lambda>s. case r of Inl e \<Rightarrow> Inl e | Inr a \<Rightarrow> Inr (a, s))"

definition assertP :: "bool \<Rightarrow> ('s, unit) prog" where
  "assertP b = liftP (assertR b)"

fun for_each :: "'a list \<Rightarrow> ('a \<Rightarrow> ('s, unit) prog) \<Rightarrow> ('s, unit) prog" where
  "for_each [] f = ret ()"
| "for_each (x # xs) f = bindP (f x) (\<lambda>_. for_each xs f)"

lemma ret_apply [simp, res_simps]: "ret a s = Inr (a, s)"
  by (simp add: ret_def)

lemma fail_apply [simp, res_simps]: "fail e s = Inl e"
  by (simp add: fail_def)

lemma liftP_apply [simp, res_simps]:
  "liftP (Inr a) s = Inr (a, s)"
  "liftP (Inl e) s = Inl e"
  by (simp_all add: liftP_def)

lemma assertP_apply [simp, res_simps]:
  "assertP True s = Inr ((), s)"
  "assertP False s = Inl AssertFailed"
  by (simp_all add: assertP_def)

lemma bindP_apply [res_simps]:
  "bindP m f s = (case m s of Inl e \<Rightarrow> Inl e | Inr (a, s') \<Rightarrow> f a s')"
  by (simp add: bindP_def)

lemma bindP_Inr [simp]: "m s = Inr (a, s') \<Longrightarrow> bindP m f s = f a s'"
  by (simp add: bindP_def)

lemma bindP_Inl [simp]: "m s = Inl e \<Longrightarrow> bindP m f s = Inl e"
  by (simp add: bindP_def)

lemma bindP_ret [simp]: "bindP (ret a) f = f a"
  by (simp add: bindP_def fun_eq_iff)

lemma bindP_assoc: "bindP (bindP m f) g = bindP m (\<lambda>x. bindP (f x) g)"
  by (simp add: bindP_def fun_eq_iff split: sum.split prod.split)

lemma bindP_liftP [simp]: "bindP (liftP (Inr a)) f = f a"
  by (simp add: bindP_def fun_eq_iff)

subsection \<open>Machine integers\<close>

text \<open>
  Indices and node lengths are \<open>u16\<close>, lengths and heights \<open>usize\<close>. The model keeps them as \<open>nat\<close>
  and checks what a debug build checks: a \<open>u16\<close> sum that leaves the 16 bits and any subtraction
  below zero are the fault \<open>ArithOverflow\<close>.
\<close>

definition u16_add :: "nat \<Rightarrow> nat \<Rightarrow> nat res" where
  "u16_add a b = (if a + b < 2 ^ 16 then Inr (a + b) else Inl ArithOverflow)"

definition nat_sub :: "nat \<Rightarrow> nat \<Rightarrow> nat res" where
  "nat_sub a b = (if b \<le> a then Inr (a - b) else Inl ArithOverflow)"

lemma u16_add_ok [simp]: "a + b < 65536 \<Longrightarrow> u16_add a b = Inr (a + b)"
  by (simp add: u16_add_def)

lemma nat_sub_ok [simp]: "b \<le> a \<Longrightarrow> nat_sub a b = Inr (a - b)"
  by (simp add: nat_sub_def)

lemma nat_sub_underflow [simp]: "a < b \<Longrightarrow> nat_sub a b = Inl ArithOverflow"
  by (simp add: nat_sub_def)

subsection \<open>Bounds and ranges of \<open>std::ops\<close>\<close>

datatype 'a bound = Included 'a | Excluded 'a | Unbounded

type_synonym 'a bounds = "'a bound \<times> 'a bound"

abbreviation range_of :: "nat \<Rightarrow> nat \<Rightarrow> nat bounds" where
  "range_of a b \<equiv> (Included a, Excluded b)"

abbreviation range_to :: "nat \<Rightarrow> nat bounds" where
  "range_to b \<equiv> (Unbounded, Excluded b)"

subsection \<open>Insertion and removal at an index\<close>

definition ins_at :: "nat \<Rightarrow> 'a \<Rightarrow> 'a list \<Rightarrow> 'a list" where
  "ins_at i x xs = take i xs @ x # drop i xs"

definition del_at :: "nat \<Rightarrow> 'a list \<Rightarrow> 'a list" where
  "del_at i xs = take i xs @ drop (Suc i) xs"

lemma length_ins_at [simp]: "length (ins_at i x xs) = Suc (length xs)"
  by (simp add: ins_at_def)

lemma length_del_at [simp]: "i < length xs \<Longrightarrow> length (del_at i xs) = length xs - 1"
  by (simp add: del_at_def)

lemma set_ins_at [simp]: "set (ins_at i x xs) = insert x (set xs)"
  by (simp add: ins_at_def) (metis append_take_drop_id set_append)

lemma ins_at_append [simp]: "ins_at (length xs) y (xs @ zs) = xs @ y # zs"
  by (simp add: ins_at_def)

lemma ins_at_0 [simp]: "ins_at 0 x xs = x # xs"
  by (simp add: ins_at_def)

lemma ins_at_end [simp]: "n = length xs \<Longrightarrow> ins_at n x xs = xs @ [x]"
  by (simp add: ins_at_def)

lemma del_at_append [simp]: "del_at (length xs) (xs @ y # zs) = xs @ zs"
  by (simp add: del_at_def)

lemma del_at_0 [simp]: "del_at 0 (x # xs) = xs"
  by (simp add: del_at_def)

lemma del_at_ins_at [simp]: "i \<le> length xs \<Longrightarrow> del_at i (ins_at i x xs) = xs"
  by (simp add: del_at_def ins_at_def min_absorb2)

lemma split_at: "i < length xs \<Longrightarrow> xs = take i xs @ xs ! i # drop (Suc i) xs"
  by (simp add: Cons_nth_drop_Suc)

lemma split_atE:
  assumes "i < length xs"
  obtains ys zs where "xs = ys @ xs ! i # zs" and "length ys = i"
  using assms split_at[OF assms] by (metis length_take less_imp_le min_absorb2)

text \<open>
  One step of the rotations in \<open>split_leaf\<close> and \<open>split_internal\<close>: exchanging the pending element
  with the one at the insertion point moves the insertion point and leaves the list that the
  insertion would give unchanged.
\<close>

lemma ins_at_swap_up:
  assumes "i < length xs"
  shows "ins_at (Suc i) (xs ! i) (xs[i := x]) = ins_at i x xs"
  using assms
  by (simp add: ins_at_def take_Suc_conv_app_nth Cons_nth_drop_Suc)

lemma ins_at_swap_down:
  assumes "0 < i" "i \<le> length xs"
  shows "ins_at (i - 1) (xs ! (i - 1)) (xs[i - 1 := x]) = ins_at i x xs"
proof -
  obtain j where i: "i = Suc j" using assms(1) gr0_conv_Suc by blast
  have "j < length xs" using assms(2) i by simp
  then show ?thesis unfolding i
    by (simp add: ins_at_def take_Suc_conv_app_nth upd_conv_take_nth_drop)
qed

end
