(* ===== verification/Node.thy ===== *)
theory Node
  imports Prelude
begin

text \<open>
  The node of the b+tree (\<open>src/src/node.rs\<close>): its record, the untagged union of leaf and internal
  data, the fixed-size arrays of possibly uninitialised slots, and the operations that work on one
  node value. The operations that follow a pointer to another node are in theory \<open>NodeOps\<close>.

  A slot of a \<open>[MaybeUninit<T>; N]\<close> is \<open>None\<close> until it is written; reading such a slot is the
  fault \<open>UninitRead\<close>. Moving a value out of a slot leaves its bits in place, as in the code. The
  union is modelled with a tag that the code does not have, so that reading the wrong side is the
  fault \<open>WrongVariant\<close>. \<open>debug_assert!\<close> is checked, as in a debug build.
\<close>

subsection \<open>Data\<close>

definition M :: nat where
  "M = 8"

type_synonym ptr = nat

record 'v leaf_data =
  vals :: "'v option list"
  leaf_prev :: "ptr option"
  leaf_next :: "ptr option"

record internal_data =
  edges :: "ptr option list"

datatype 'v node_data = Leaf "'v leaf_data" | Internal internal_data

record ('k, 'v) node =
  parent :: "ptr option"
  parent_idx :: "nat option"
  len :: nat
  keys :: "'k option list"
  node_d :: "'v node_data"

definition maybe_uninit_array :: "nat \<Rightarrow> 'a option list" where
  "maybe_uninit_array n = replicate n None"

definition leaf_node :: "('k, 'v) node" where
  "leaf_node =
     \<lparr>parent = None, parent_idx = None, len = 0, keys = maybe_uninit_array M,
      node_d = Leaf \<lparr>vals = maybe_uninit_array M, leaf_prev = None, leaf_next = None\<rparr>\<rparr>"

definition internal_node :: "('k, 'v) node" where
  "internal_node =
     \<lparr>parent = None, parent_idx = None, len = 0, keys = maybe_uninit_array M,
      node_d = Internal \<lparr>edges = maybe_uninit_array (M + 1)\<rparr>\<rparr>"

subsection \<open>The union\<close>

definition d_leaf :: "('k, 'v) node \<Rightarrow> 'v leaf_data res" where
  "d_leaf n = (case node_d n of Leaf l \<Rightarrow> Inr l | Internal _ \<Rightarrow> Inl WrongVariant)"

definition d_internal :: "('k, 'v) node \<Rightarrow> internal_data res" where
  "d_internal n = (case node_d n of Internal i \<Rightarrow> Inr i | Leaf _ \<Rightarrow> Inl WrongVariant)"

definition d_leaf_mut :: "('v leaf_data \<Rightarrow> 'v leaf_data res) \<Rightarrow> ('k, 'v) node \<Rightarrow> ('k, 'v) node res" where
  "d_leaf_mut f n =
     bindR (d_leaf n) (\<lambda>l. bindR (f l) (\<lambda>l'. Inr (n\<lparr>node_d := Leaf l'\<rparr>)))"

definition d_internal_mut :: "(internal_data \<Rightarrow> internal_data res) \<Rightarrow> ('k, 'v) node \<Rightarrow> ('k, 'v) node res" where
  "d_internal_mut f n =
     bindR (d_internal n) (\<lambda>i. bindR (f i) (\<lambda>i'. Inr (n\<lparr>node_d := Internal i'\<rparr>)))"

subsection \<open>Arrays of possibly uninitialised slots\<close>

definition arr_get :: "'a option list \<Rightarrow> nat \<Rightarrow> 'a res" where
  "arr_get a i =
     (if i < length a then (case a ! i of None \<Rightarrow> Inl UninitRead | Some x \<Rightarrow> Inr x)
      else Inl IndexOutOfBounds)"

definition arr_set :: "'a option list \<Rightarrow> nat \<Rightarrow> 'a \<Rightarrow> 'a option list res" where
  "arr_set a i x = (if i < length a then Inr (a[i := Some x]) else Inl IndexOutOfBounds)"

definition arr_slice :: "'a option list \<Rightarrow> nat \<Rightarrow> nat \<Rightarrow> 'a option list res" where
  "arr_slice a i j =
     (if i \<le> j \<and> j \<le> length a then Inr (take (j - i) (drop i a)) else Inl IndexOutOfBounds)"

definition assume_init_slice :: "'a option list \<Rightarrow> 'a list res" where
  "assume_init_slice a = (if None \<in> set a then Inl UninitRead else Inr (map the a))"

definition range_start :: "nat bounds \<Rightarrow> nat" where
  "range_start r = (case fst r of Included n \<Rightarrow> n | Excluded n \<Rightarrow> n + 1 | Unbounded \<Rightarrow> 0)"

definition range_end :: "nat bounds \<Rightarrow> nat \<Rightarrow> nat" where
  "range_end r l = (case snd r of Included n \<Rightarrow> n + 1 | Excluded n \<Rightarrow> n | Unbounded \<Rightarrow> l)"

definition unsafe_copy_slice_overlapping ::
    "'a option list \<Rightarrow> nat bounds \<Rightarrow> nat bounds \<Rightarrow> 'a option list res" where
  "unsafe_copy_slice_overlapping a dst src =
     bindR (nat_sub (range_end src (length a)) (range_start src)) (\<lambda>src_len.
     bindR (nat_sub (range_end dst (length a)) (range_start dst)) (\<lambda>dst_len.
     bindR (assertR (src_len = dst_len)) (\<lambda>_.
     if range_start src + src_len \<le> length a \<and> range_start dst + src_len \<le> length a
     then Inr (take (range_start dst) a @ take src_len (drop (range_start src) a)
               @ drop (range_start dst + src_len) a)
     else Inl IndexOutOfBounds)))"

text \<open>\<open>unsafe_copy_slice_nonoverlapping(&mut a[i..j], src)\<close>: the slice is bounds-checked.\<close>

definition unsafe_copy_slice_nonoverlapping ::
    "'a option list \<Rightarrow> nat \<Rightarrow> nat \<Rightarrow> 'a option list \<Rightarrow> 'a option list res" where
  "unsafe_copy_slice_nonoverlapping a i j src =
     bindR (arr_slice a i j) (\<lambda>dst.
     bindR (assertR (length dst = length src)) (\<lambda>_.
     Inr (take i a @ src @ drop (i + length src) a)))"

subsection \<open>Parent and sibling links\<close>

definition node_parent :: "('k, 'v) node \<Rightarrow> (ptr \<times> nat) option res" where
  "node_parent n =
     (case parent n of None \<Rightarrow> Inr None
      | Some p \<Rightarrow> (case parent_idx n of None \<Rightarrow> Inl UninitRead | Some i \<Rightarrow> Inr (Some (p, i))))"

definition node_parent_idx :: "('k, 'v) node \<Rightarrow> nat option res" where
  "node_parent_idx n =
     (case parent n of None \<Rightarrow> Inr None
      | Some p \<Rightarrow> (case parent_idx n of None \<Rightarrow> Inl UninitRead | Some i \<Rightarrow> Inr (Some i)))"

definition set_parent :: "ptr \<Rightarrow> nat \<Rightarrow> ('k, 'v) node \<Rightarrow> ('k, 'v) node res" where
  "set_parent p i n = Inr (n\<lparr>parent := Some p, parent_idx := Some i\<rparr>)"

definition clear_parent :: "('k, 'v) node \<Rightarrow> ('k, 'v) node res" where
  "clear_parent n = Inr (n\<lparr>parent := None, parent_idx := None\<rparr>)"

text \<open>\<open>n.parent = Some(p)\<close>, which leaves the index alone.\<close>

definition set_parent_ptr :: "ptr \<Rightarrow> ('k, 'v) node \<Rightarrow> ('k, 'v) node res" where
  "set_parent_ptr p n = Inr (n\<lparr>parent := Some p\<rparr>)"

text \<open>\<open>*n.parent_idx.assume_init_mut()\<close> replaced by a function of itself.\<close>

definition map_parent_idx :: "(nat \<Rightarrow> nat res) \<Rightarrow> ('k, 'v) node \<Rightarrow> ('k, 'v) node res" where
  "map_parent_idx f n =
     (case parent_idx n of None \<Rightarrow> Inl UninitRead
      | Some i \<Rightarrow> bindR (f i) (\<lambda>j. Inr (n\<lparr>parent_idx := Some j\<rparr>)))"

definition node_prev :: "('k, 'v) node \<Rightarrow> ptr option res" where
  "node_prev n = bindR (d_leaf n) (\<lambda>l. Inr (leaf_prev l))"

definition set_prev :: "ptr option \<Rightarrow> ('k, 'v) node \<Rightarrow> ('k, 'v) node res" where
  "set_prev p n = d_leaf_mut (\<lambda>l. Inr (l\<lparr>leaf_prev := p\<rparr>)) n"

definition node_next :: "('k, 'v) node \<Rightarrow> ptr option res" where
  "node_next n = bindR (d_leaf n) (\<lambda>l. Inr (leaf_next l))"

definition set_next :: "ptr option \<Rightarrow> ('k, 'v) node \<Rightarrow> ('k, 'v) node res" where
  "set_next p n = d_leaf_mut (\<lambda>l. Inr (l\<lparr>leaf_next := p\<rparr>)) n"

subsection \<open>Reading entries\<close>

definition key :: "nat \<Rightarrow> ('k, 'v) node \<Rightarrow> 'k res" where
  "key i n = bindR (assertR (i < len n)) (\<lambda>_. arr_get (keys n) i)"

definition val :: "nat \<Rightarrow> ('k, 'v) node \<Rightarrow> 'v res" where
  "val i n = bindR (assertR (i < len n)) (\<lambda>_. bindR (d_leaf n) (\<lambda>l. arr_get (vals l) i))"

definition key_val :: "nat \<Rightarrow> ('k, 'v) node \<Rightarrow> ('k \<times> 'v) res" where
  "key_val i n =
     bindR (assertR (i < len n)) (\<lambda>_.
     bindR (arr_get (keys n) i) (\<lambda>k.
     bindR (d_leaf n) (\<lambda>l.
     bindR (arr_get (vals l) i) (\<lambda>v. Inr (k, v)))))"

text \<open>\<open>val_mut(i)\<close> used to overwrite the value, and \<open>write_val\<close>, which does not read the old one.\<close>

definition write_val :: "nat \<Rightarrow> 'v \<Rightarrow> ('k, 'v) node \<Rightarrow> ('k, 'v) node res" where
  "write_val i v n =
     bindR (assertR (i < len n)) (\<lambda>_.
     d_leaf_mut (\<lambda>l. bindR (arr_set (vals l) i v) (\<lambda>vs. Inr (l\<lparr>vals := vs\<rparr>))) n)"

definition read_val :: "nat \<Rightarrow> ('k, 'v) node \<Rightarrow> 'v res" where
  "read_val i n = bindR (assertR (i < len n)) (\<lambda>_. bindR (d_leaf n) (\<lambda>l. arr_get (vals l) i))"

definition read_key_val :: "nat \<Rightarrow> ('k, 'v) node \<Rightarrow> ('k \<times> 'v) res" where
  "read_key_val i n =
     bindR (assertR (i < len n)) (\<lambda>_.
     bindR (arr_get (keys n) i) (\<lambda>k.
     bindR (d_leaf n) (\<lambda>l.
     bindR (arr_get (vals l) i) (\<lambda>v. Inr (k, v)))))"

definition edge :: "nat \<Rightarrow> ('k, 'v) node \<Rightarrow> ptr res" where
  "edge i n =
     bindR (assertR (i < len n + 1)) (\<lambda>_. bindR (d_internal n) (\<lambda>t. arr_get (edges t) i))"

definition node_keys :: "('k, 'v) node \<Rightarrow> 'k list res" where
  "node_keys n = bindR (arr_slice (keys n) 0 (len n)) assume_init_slice"

definition node_vals :: "('k, 'v) node \<Rightarrow> 'v list res" where
  "node_vals n = bindR (d_leaf n) (\<lambda>l. bindR (arr_slice (vals l) 0 (len n)) assume_init_slice)"

definition node_edges :: "('k, 'v) node \<Rightarrow> ptr list res" where
  "node_edges n =
     bindR (d_internal n) (\<lambda>t.
     bindR (u16_add (len n) 1) (\<lambda>l1. bindR (arr_slice (edges t) 0 l1) assume_init_slice))"

definition node_first_key_value :: "('k, 'v) node \<Rightarrow> ('k \<times> 'v) res" where
  "node_first_key_value n =
     bindR (assertR (0 < len n)) (\<lambda>_.
     bindR (arr_get (keys n) 0) (\<lambda>k.
     bindR (d_leaf n) (\<lambda>l.
     bindR (arr_get (vals l) 0) (\<lambda>v. Inr (k, v)))))"

definition node_last_key_value :: "('k, 'v) node \<Rightarrow> ('k \<times> 'v) res" where
  "node_last_key_value n =
     bindR (assertR (0 < len n)) (\<lambda>_.
     bindR (nat_sub (len n) 1) (\<lambda>i.
     bindR (arr_get (keys n) i) (\<lambda>k.
     bindR (d_leaf n) (\<lambda>l.
     bindR (arr_get (vals l) i) (\<lambda>v. Inr (k, v))))))"

subsection \<open>Updates of a leaf\<close>

definition insert_val :: "nat \<Rightarrow> 'k \<Rightarrow> 'v \<Rightarrow> ('k, 'v) node \<Rightarrow> ('k, 'v) node res" where
  "insert_val idx k v n =
     bindR (assertR (idx \<le> len n)) (\<lambda>_.
     bindR (assertR (len n < M)) (\<lambda>_.
     bindR (if idx < len n
            then bindR (unsafe_copy_slice_overlapping (keys n)
                          (range_of (idx + 1) (len n + 1)) (range_of idx (len n))) (\<lambda>ks.
                 d_leaf_mut (\<lambda>l.
                   bindR (unsafe_copy_slice_overlapping (vals l)
                            (range_of (idx + 1) (len n + 1)) (range_of idx (len n))) (\<lambda>vs.
                   Inr (l\<lparr>vals := vs\<rparr>))) (n\<lparr>keys := ks\<rparr>))
            else Inr n) (\<lambda>n.
     bindR (arr_set (keys n) idx k) (\<lambda>ks.
     bindR (d_leaf_mut (\<lambda>l. bindR (arr_set (vals l) idx v) (\<lambda>vs. Inr (l\<lparr>vals := vs\<rparr>)))
              (n\<lparr>keys := ks\<rparr>)) (\<lambda>n.
     bindR (u16_add (len n) 1) (\<lambda>l'.
     Inr (n\<lparr>len := l'\<rparr>)))))))"

definition remove_val :: "nat \<Rightarrow> ('k, 'v) node \<Rightarrow> (('k \<times> 'v) \<times> ('k, 'v) node) res" where
  "remove_val idx n =
     bindR (assertR (idx < len n)) (\<lambda>_.
     bindR (assertR (0 < len n)) (\<lambda>_.
     bindR (arr_get (keys n) idx) (\<lambda>k.
     bindR (d_leaf n) (\<lambda>l.
     bindR (arr_get (vals l) idx) (\<lambda>v.
     bindR (if idx + 1 < len n
            then bindR (unsafe_copy_slice_overlapping (keys n)
                          (range_of idx (len n - 1)) (range_of (idx + 1) (len n))) (\<lambda>ks.
                 d_leaf_mut (\<lambda>l.
                   bindR (unsafe_copy_slice_overlapping (vals l)
                            (range_of idx (len n - 1)) (range_of (idx + 1) (len n))) (\<lambda>vs.
                   Inr (l\<lparr>vals := vs\<rparr>))) (n\<lparr>keys := ks\<rparr>))
            else Inr n) (\<lambda>n.
     bindR (nat_sub (len n) 1) (\<lambda>l'.
     Inr ((k, v), n\<lparr>len := l'\<rparr>))))))))"

definition replace_key :: "nat \<Rightarrow> 'k \<Rightarrow> ('k, 'v) node \<Rightarrow> ('k \<times> ('k, 'v) node) res" where
  "replace_key idx k n =
     bindR (assertR (idx < len n)) (\<lambda>_.
     bindR (arr_get (keys n) idx) (\<lambda>old.
     bindR (arr_set (keys n) idx k) (\<lambda>ks. Inr (old, n\<lparr>keys := ks\<rparr>))))"

definition replace_val :: "nat \<Rightarrow> 'v \<Rightarrow> ('k, 'v) node \<Rightarrow> ('v \<times> ('k, 'v) node) res" where
  "replace_val idx v n =
     bindR (assertR (idx < len n)) (\<lambda>_.
     bindR (d_leaf n) (\<lambda>l.
     bindR (arr_get (vals l) idx) (\<lambda>old.
     bindR (d_leaf_mut (\<lambda>l. bindR (arr_set (vals l) idx v) (\<lambda>vs. Inr (l\<lparr>vals := vs\<rparr>))) n) (\<lambda>n.
     Inr (old, n)))))"

subsection \<open>Splitting a leaf\<close>

text \<open>\<open>swap(self.key_mut(i), key)\<close>, \<open>swap(self.val_mut(i), &mut val)\<close> and
  \<open>swap(self.edge_mut(i), &mut edge)\<close>: the old content and the node.\<close>

definition swap_key :: "nat \<Rightarrow> 'k \<Rightarrow> ('k, 'v) node \<Rightarrow> ('k \<times> ('k, 'v) node) res" where
  "swap_key i k n =
     bindR (key i n) (\<lambda>old. bindR (arr_set (keys n) i k) (\<lambda>ks. Inr (old, n\<lparr>keys := ks\<rparr>)))"

definition swap_val :: "nat \<Rightarrow> 'v \<Rightarrow> ('k, 'v) node \<Rightarrow> ('v \<times> ('k, 'v) node) res" where
  "swap_val i v n = bindR (val i n) (\<lambda>old. bindR (write_val i v n) (\<lambda>n. Inr (old, n)))"

definition swap_edge :: "nat \<Rightarrow> ptr \<Rightarrow> ('k, 'v) node \<Rightarrow> (ptr \<times> ('k, 'v) node) res" where
  "swap_edge i e n =
     bindR (edge i n) (\<lambda>old.
     bindR (d_internal_mut (\<lambda>t. bindR (arr_set (edges t) i e) (\<lambda>es. Inr (t\<lparr>edges := es\<rparr>))) n) (\<lambda>n.
     Inr (old, n)))"

function split_leaf_up ::
    "nat \<Rightarrow> nat \<Rightarrow> 'k \<Rightarrow> 'v \<Rightarrow> ('k, 'v) node \<Rightarrow> (nat \<times> 'k \<times> 'v \<times> ('k, 'v) node) res" where
  "split_leaf_up median idx k v n =
     (if idx < median
      then bindR (swap_key idx k n) (\<lambda>(k', n).
           bindR (swap_val idx v n) (\<lambda>(v', n).
           split_leaf_up median (idx + 1) k' v' n))
      else Inr (idx, k, v, n))"
  by pat_completeness auto
termination
  by (relation "measure (\<lambda>(median, idx, _). median - idx)") auto

function split_leaf_down ::
    "nat \<Rightarrow> nat \<Rightarrow> 'k \<Rightarrow> 'v \<Rightarrow> ('k, 'v) node \<Rightarrow> (nat \<times> 'k \<times> 'v \<times> ('k, 'v) node) res" where
  "split_leaf_down median idx k v n =
     (if median < idx
      then bindR (swap_key (idx - 1) k n) (\<lambda>(k', n).
           bindR (swap_val (idx - 1) v n) (\<lambda>(v', n).
           split_leaf_down median (idx - 1) k' v' n))
      else Inr (idx, k, v, n))"
  by pat_completeness auto
termination
  by (relation "measure (\<lambda>(median, idx, _). idx)") auto

declare split_leaf_up.simps [simp del] split_leaf_down.simps [simp del]

text \<open>The result is the split key, the right node, and \<open>self\<close>, which becomes the left node.\<close>

definition split_leaf ::
    "nat \<Rightarrow> 'k \<Rightarrow> 'v \<Rightarrow> ('k, 'v) node \<Rightarrow> (('k \<times> ('k, 'v) node) \<times> ('k, 'v) node) res" where
  "split_leaf idx k v n =
     bindR (assertR (idx \<le> len n)) (\<lambda>_.
     bindR (assertR (M div 2 \<le> len n)) (\<lambda>_.
     let median = len n div 2 in
     bindR (split_leaf_up median idx k v n) (\<lambda>(idx, k, v, n).
     bindR (split_leaf_down median idx k v n) (\<lambda>(idx, k, v, n).
     bindR (arr_slice (keys n) median (len n)) (\<lambda>sk.
     bindR (unsafe_copy_slice_nonoverlapping (maybe_uninit_array M) 1 (median + 1) sk) (\<lambda>rks.
     bindR (d_leaf n) (\<lambda>l.
     bindR (arr_slice (vals l) median (len n)) (\<lambda>sv.
     bindR (unsafe_copy_slice_nonoverlapping (maybe_uninit_array M) 1 (median + 1) sv) (\<lambda>rvs.
     bindR (arr_set rks 0 k) (\<lambda>rks.
     bindR (arr_set rvs 0 v) (\<lambda>rvs.
     bindR (nat_sub (len n) median) (\<lambda>rl.
     bindR (u16_add rl 1) (\<lambda>rlen.
     Inr ((k, \<lparr>parent = None, parent_idx = None, len = rlen, keys = rks,
               node_d = Leaf \<lparr>vals = rvs, leaf_prev = None, leaf_next = leaf_next l\<rparr>\<rparr>),
          n\<lparr>len := median\<rparr>))))))))))))))"

end
