(* ===== verification/Store.thy ===== *)
theory Store
  imports Node
begin

text \<open>
  The store (\<open>src/src/store.rs\<close>): the arena that holds the nodes of all the maps created in it.
  The arena itself (\<open>rustc_arena_modified::SlabArena\<close>) is a third-party crate. Its choice of the
  slot for a new node is the parameter \<open>pick\<close> of every definition that allocates, a function of the
  history of the arena; what the library relies on, that a new slot is not one that is still
  allocated, is the assumption of the locale \<open>slab\<close>. Slots of discarded nodes can be handed out
  again. Following a pointer into a discarded slot is the fault \<open>DanglingPointer\<close>.
\<close>

datatype slab_event = Alloc ptr | Discard ptr

record ('k, 'v) store =
  nodes :: "ptr \<Rightarrow> ('k, 'v) node option"
  slab_log :: "slab_event list"

type_synonym ('k, 'v, 'a) sprog = "(('k, 'v) store, 'a) prog"

text \<open>The slots in use after a history, the latest event first.\<close>

fun live :: "slab_event list \<Rightarrow> ptr set" where
  "live [] = {}"
| "live (Alloc p # l) = insert p (live l)"
| "live (Discard p # l) = live l - {p}"

definition new_store :: "('k, 'v) store" where
  "new_store = \<lparr>nodes = (\<lambda>_. None), slab_log = []\<rparr>"

definition alloc :: "(slab_event list \<Rightarrow> ptr) \<Rightarrow> ('k, 'v) node \<Rightarrow> ('k, 'v, ptr) sprog" where
  "alloc pick n = (\<lambda>s. let p = pick (slab_log s) in
     Inr (p, s\<lparr>nodes := (nodes s)(p \<mapsto> n), slab_log := Alloc p # slab_log s\<rparr>))"

definition dealloc_and_return :: "ptr \<Rightarrow> ('k, 'v, ('k, 'v) node) sprog" where
  "dealloc_and_return p = (\<lambda>s.
     case nodes s p of
       None \<Rightarrow> Inl DanglingPointer
     | Some n \<Rightarrow> Inr (n, s\<lparr>nodes := (nodes s)(p := None), slab_log := Discard p # slab_log s\<rparr>))"

definition dealloc :: "ptr \<Rightarrow> ('k, 'v, unit) sprog" where
  "dealloc p = bindP (dealloc_and_return p) (\<lambda>_. ret ())"

subsection \<open>Following a pointer\<close>

definition deref :: "ptr \<Rightarrow> ('k, 'v, ('k, 'v) node) sprog" where
  "deref p = (\<lambda>s. case nodes s p of None \<Rightarrow> Inl DanglingPointer | Some n \<Rightarrow> Inr (n, s))"

definition assign :: "ptr \<Rightarrow> ('k, 'v) node \<Rightarrow> ('k, 'v, unit) sprog" where
  "assign p n = (\<lambda>s. case nodes s p of
       None \<Rightarrow> Inl DanglingPointer
     | Some _ \<Rightarrow> Inr ((), s\<lparr>nodes := (nodes s)(p \<mapsto> n)\<rparr>))"

text \<open>\<open>p.as_ref().f()\<close>, \<open>p.as_mut().f()\<close>, and \<open>p.as_mut().f()\<close> with a result.\<close>

definition get_at :: "ptr \<Rightarrow> (('k, 'v) node \<Rightarrow> 'a res) \<Rightarrow> ('k, 'v, 'a) sprog" where
  "get_at p f = bindP (deref p) (\<lambda>n. liftP (f n))"

definition upd_ret_at ::
    "ptr \<Rightarrow> (('k, 'v) node \<Rightarrow> ('a \<times> ('k, 'v) node) res) \<Rightarrow> ('k, 'v, 'a) sprog" where
  "upd_ret_at p f =
     bindP (deref p) (\<lambda>n. bindP (liftP (f n)) (\<lambda>(a, n'). bindP (assign p n') (\<lambda>_. ret a)))"

definition upd_at :: "ptr \<Rightarrow> (('k, 'v) node \<Rightarrow> ('k, 'v) node res) \<Rightarrow> ('k, 'v, unit) sprog" where
  "upd_at p f = bindP (deref p) (\<lambda>n. bindP (liftP (f n)) (\<lambda>n'. assign p n'))"

definition len_at :: "ptr \<Rightarrow> ('k, 'v, nat) sprog" where
  "len_at p = get_at p (\<lambda>n. Inr (len n))"

subsection \<open>Sweeping\<close>

text \<open>
  \<open>retain_shared\<close> hands every allocated node to a closure and discards those for which it returns
  false. The order in which the arena visits its slots is the third-party crate's: the parameter
  \<open>visit\<close>, of which the library relies on every allocated slot being visited once.
\<close>

definition retain_shared ::
    "(slab_event list \<Rightarrow> ptr list) \<Rightarrow> (ptr \<Rightarrow> ('k, 'v) node \<Rightarrow> bool) \<Rightarrow> ('k, 'v, unit) sprog" where
  "retain_shared visit f = (\<lambda>s.
     for_each (visit (slab_log s)) (\<lambda>p.
       bindP (deref p) (\<lambda>n. if f p n then ret () else dealloc p)) s)"

locale visiting =
  fixes visit :: "slab_event list \<Rightarrow> ptr list"
  assumes visit_live: "set (visit l) = live l"
    and visit_once: "distinct (visit l)"

fun live_list :: "slab_event list \<Rightarrow> ptr list" where
  "live_list [] = []"
| "live_list (Alloc p # l) = p # removeAll p (live_list l)"
| "live_list (Discard p # l) = removeAll p (live_list l)"

interpretation visit_latest: visiting live_list
proof
  fix l
  show "set (live_list l) = live l" by (induction l rule: live.induct) auto
  show "distinct (live_list l)" by (induction l rule: live.induct) (auto simp: distinct_removeAll)
qed

subsection \<open>The arena's contract\<close>

locale slab =
  fixes pick :: "slab_event list \<Rightarrow> ptr"
  assumes pick_fresh: "pick l \<notin> live l"
begin

lemma pick_notin: "live l = S \<Longrightarrow> pick l \<notin> S"
  using pick_fresh by auto

end

text \<open>
  Two arenas that keep the contract. \<open>bump\<close> always takes a slot beyond all used ones;
  \<open>reuse\<close> takes the slot discarded last when there is one, as a slab with a free list does.
\<close>

fun bump :: "slab_event list \<Rightarrow> ptr" where
  "bump [] = 0"
| "bump (Alloc p # l) = max (Suc p) (bump l)"
| "bump (Discard p # l) = bump l"

fun free_list :: "slab_event list \<Rightarrow> ptr list" where
  "free_list [] = []"
| "free_list (Alloc p # l) = removeAll p (free_list l)"
| "free_list (Discard p # l) = p # free_list l"

definition reuse :: "slab_event list \<Rightarrow> ptr" where
  "reuse l = (case free_list l of [] \<Rightarrow> bump l | p # _ \<Rightarrow> p)"

lemma live_less_bump: "p \<in> live l \<Longrightarrow> p < bump l"
  by (induction l rule: live.induct) (auto simp: less_max_iff_disj)

lemma free_list_not_live: "p \<in> set (free_list l) \<Longrightarrow> p \<notin> live l"
  by (induction l rule: live.induct) auto

interpretation bump_slab: slab bump
  by unfold_locales (use live_less_bump in blast)

interpretation reuse_slab: slab reuse
proof
  fix l
  show "reuse l \<notin> live l"
    using free_list_not_live[of _ l] live_less_bump[of "bump l" l]
    by (cases "free_list l") (auto simp: reuse_def)
qed

end
