(* ===== verification/NodeOps.thy ===== *)
theory NodeOps
  imports Store
begin

text \<open>
  The operations of \<open>src/src/node.rs\<close> that reach other nodes through pointers: inserting and
  removing edges (which renumber the children that move), splitting an internal node, merging a
  node with its sibling, and stepping an address to the next or previous entry.
\<close>

subsection \<open>Edges\<close>

text \<open>\<open>for edge in self.edges[i..j].iter_mut() { *edge.as_mut().parent_idx = f(..) }\<close>\<close>

definition for_edges :: "ptr \<Rightarrow> nat \<Rightarrow> nat \<Rightarrow> (nat \<Rightarrow> nat res) \<Rightarrow> ('k, 'v, unit) sprog" where
  "for_edges self i j f =
     bindP (get_at self (\<lambda>n. bindR (d_internal n) (\<lambda>t.
              bindR (arr_slice (edges t) i j) assume_init_slice))) (\<lambda>es.
     for_each es (\<lambda>e. upd_at e (map_parent_idx f)))"

definition insert_edge :: "ptr \<Rightarrow> nat \<Rightarrow> bool \<Rightarrow> 'k \<Rightarrow> ptr \<Rightarrow> ('k, 'v, unit) sprog" where
  "insert_edge self idx after_key k e =
     bindP (len_at self) (\<lambda>l.
     bindP (assertP (idx \<le> l)) (\<lambda>_.
     bindP (assertP (l < M)) (\<lambda>_.
     bindP (get_at e node_parent_idx) (\<lambda>pi.
     bindP (assertP (pi = Some (if after_key then idx + 1 else idx))) (\<lambda>_.
     bindP (if idx < l
            then upd_at self (\<lambda>n.
                   bindR (unsafe_copy_slice_overlapping (keys n)
                            (range_of (idx + 1) (l + 1)) (range_of idx l)) (\<lambda>ks.
                   Inr (n\<lparr>keys := ks\<rparr>)))
            else ret ()) (\<lambda>_.
     let after_edge_idx = (if after_key then idx + 1 else idx) in
     bindP (if after_edge_idx < l + 1
            then bindP (upd_at self (d_internal_mut (\<lambda>t.
                          bindR (unsafe_copy_slice_overlapping (edges t)
                                   (range_of (after_edge_idx + 1) (l + 2))
                                   (range_of after_edge_idx (l + 1))) (\<lambda>es.
                          Inr (t\<lparr>edges := es\<rparr>))))) (\<lambda>_.
                 for_edges self (after_edge_idx + 1) (l + 2) (\<lambda>i. u16_add i 1))
            else ret ()) (\<lambda>_.
     bindP (upd_at self (\<lambda>n. bindR (arr_set (keys n) idx k) (\<lambda>ks. Inr (n\<lparr>keys := ks\<rparr>)))) (\<lambda>_.
     bindP (upd_at self (d_internal_mut (\<lambda>t.
              bindR (arr_set (edges t) (if after_key then idx + 1 else idx) e) (\<lambda>es.
              Inr (t\<lparr>edges := es\<rparr>))))) (\<lambda>_.
     upd_at self (\<lambda>n. bindR (u16_add (len n) 1) (\<lambda>l'. Inr (n\<lparr>len := l'\<rparr>))))))))))))"

definition set_last_edge :: "ptr \<Rightarrow> ptr \<Rightarrow> ('k, 'v, unit) sprog" where
  "set_last_edge self e =
     bindP (len_at self) (\<lambda>l.
     bindP (get_at e node_parent_idx) (\<lambda>pi.
     bindP (assertP (pi = Some l)) (\<lambda>_.
     upd_at self (d_internal_mut (\<lambda>t.
       bindR (arr_set (edges t) l e) (\<lambda>es. Inr (t\<lparr>edges := es\<rparr>)))))))"

definition remove_edge :: "ptr \<Rightarrow> nat \<Rightarrow> bool \<Rightarrow> ('k, 'v, 'k \<times> ptr) sprog" where
  "remove_edge self idx after_key =
     bindP (len_at self) (\<lambda>l.
     bindP (assertP (idx < l)) (\<lambda>_.
     bindP (assertP (0 < l)) (\<lambda>_.
     let edge_idx = (if after_key then idx + 1 else idx) in
     bindP (get_at self (edge edge_idx)) (\<lambda>e0.
     bindP (get_at e0 node_parent_idx) (\<lambda>pi.
     bindP (assertP (pi = Some edge_idx)) (\<lambda>_.
     bindP (get_at self (\<lambda>n. arr_get (keys n) idx)) (\<lambda>k.
     bindP (get_at self (\<lambda>n. bindR (d_internal n) (\<lambda>t. arr_get (edges t) edge_idx))) (\<lambda>e.
     bindP (if idx + 1 < l
            then upd_at self (\<lambda>n.
                   bindR (unsafe_copy_slice_overlapping (keys n)
                            (range_of idx (l - 1)) (range_of (idx + 1) l)) (\<lambda>ks.
                   Inr (n\<lparr>keys := ks\<rparr>)))
            else ret ()) (\<lambda>_.
     bindP (if edge_idx < l
            then bindP (upd_at self (d_internal_mut (\<lambda>t.
                          bindR (unsafe_copy_slice_overlapping (edges t)
                                   (range_of edge_idx l) (range_of (edge_idx + 1) (l + 1))) (\<lambda>es.
                          Inr (t\<lparr>edges := es\<rparr>))))) (\<lambda>_.
                 for_edges self edge_idx l (\<lambda>i. nat_sub i 1))
            else ret ()) (\<lambda>_.
     bindP (upd_at self (\<lambda>n. bindR (nat_sub (len n) 1) (\<lambda>l'. Inr (n\<lparr>len := l'\<rparr>)))) (\<lambda>_.
     ret (k, e))))))))))))"

definition remove_last_edge :: "ptr \<Rightarrow> ('k, 'v, 'k \<times> ptr) sprog" where
  "remove_last_edge self =
     bindP (len_at self) (\<lambda>l.
     bindP (assertP (0 < l)) (\<lambda>_.
     bindP (get_at self (edge l)) (\<lambda>e0.
     bindP (get_at e0 node_parent_idx) (\<lambda>pi.
     bindP (assertP (pi = Some l)) (\<lambda>_.
     bindP (get_at self (\<lambda>n. bindR (nat_sub l 1) (arr_get (keys n)))) (\<lambda>k.
     bindP (get_at self (\<lambda>n. bindR (d_internal n) (\<lambda>t. arr_get (edges t) l))) (\<lambda>e.
     bindP (upd_at self (\<lambda>n. bindR (nat_sub (len n) 1) (\<lambda>l'. Inr (n\<lparr>len := l'\<rparr>)))) (\<lambda>_.
     ret (k, e)))))))))"

subsection \<open>Splitting an internal node\<close>

text \<open>\<open>while idx < median { .. }\<close> and \<open>while idx > median { .. }\<close>\<close>

function split_internal_up ::
    "ptr \<Rightarrow> nat \<Rightarrow> nat \<Rightarrow> 'k \<Rightarrow> ptr \<Rightarrow> ('k, 'v, nat \<times> 'k \<times> ptr) sprog" where
  "split_internal_up self median idx k e =
     (if idx < median
      then bindP (upd_ret_at self (swap_key idx k)) (\<lambda>k'.
           bindP (upd_ret_at self (swap_edge (idx + 1) e)) (\<lambda>e'.
           bindP (get_at e' node_parent_idx) (\<lambda>pi.
           bindP (assertP (pi = Some (idx + 1))) (\<lambda>_.
           bindP (upd_at e' (\<lambda>n. Inr (n\<lparr>parent_idx := Some (idx + 1 + 1)\<rparr>))) (\<lambda>_.
           split_internal_up self median (idx + 1) k' e')))))
      else ret (idx, k, e))"
  by pat_completeness auto
termination
  by (relation "measure (\<lambda>(_, median, idx, _). median - idx)") auto

function split_internal_down ::
    "ptr \<Rightarrow> nat \<Rightarrow> nat \<Rightarrow> 'k \<Rightarrow> ptr \<Rightarrow> ('k, 'v, nat \<times> 'k \<times> ptr) sprog" where
  "split_internal_down self median idx k e =
     (if median < idx
      then bindP (upd_ret_at self (swap_key (idx - 1) k)) (\<lambda>k'.
           bindP (upd_ret_at self (swap_edge (idx - 1 + 1) e)) (\<lambda>e'.
           bindP (get_at e' node_parent_idx) (\<lambda>pi.
           bindP (assertP (pi = Some (idx - 1 + 1))) (\<lambda>_.
           split_internal_down self median (idx - 1) k' e'))))
      else ret (idx, k, e))"
  by pat_completeness auto
termination
  by (relation "measure (\<lambda>(_, median, idx, _). idx)") auto

declare split_internal_up.simps [simp del] split_internal_down.simps [simp del]

text \<open>\<open>for (idx, mut edge) in edges.iter_mut().enumerate() { *edge.parent_idx = idx }\<close>\<close>

fun number_edges :: "nat \<Rightarrow> ptr list \<Rightarrow> ('k, 'v, unit) sprog" where
  "number_edges i [] = ret ()"
| "number_edges i (e # es) =
     bindP (upd_at e (map_parent_idx (\<lambda>_. Inr i))) (\<lambda>_. number_edges (i + 1) es)"

text \<open>The arrays of the right node, filled from \<open>self\<close> after the rotations.\<close>

definition right_keys :: "nat \<Rightarrow> ('k, 'v) node \<Rightarrow> 'k option list res" where
  "right_keys median n =
     bindR (arr_slice (keys n) median (len n)) (\<lambda>sk.
     unsafe_copy_slice_nonoverlapping (maybe_uninit_array M) 0 median sk)"

definition right_edges :: "nat \<Rightarrow> ptr \<Rightarrow> ('k, 'v) node \<Rightarrow> ptr option list res" where
  "right_edges median e n =
     bindR (d_internal n) (\<lambda>t.
     bindR (arr_slice (edges t) (median + 1) (len n + 1)) (\<lambda>se.
     bindR (unsafe_copy_slice_nonoverlapping (maybe_uninit_array (M + 1)) 1 (median + 1) se) (\<lambda>res.
     arr_set res 0 e)))"

text \<open>The result is the split key and the right node, which the caller allocates.\<close>

definition split_internal :: "ptr \<Rightarrow> nat \<Rightarrow> 'k \<Rightarrow> ptr \<Rightarrow> ('k, 'v, 'k \<times> ('k, 'v) node) sprog" where
  "split_internal self idx k e =
     bindP (len_at self) (\<lambda>l.
     bindP (assertP (idx \<le> l)) (\<lambda>_.
     bindP (assertP (M div 2 \<le> l)) (\<lambda>_.
     bindP (get_at e node_parent_idx) (\<lambda>pi.
     bindP (assertP (pi = Some (idx + 1))) (\<lambda>_.
     let median = l div 2 in
     bindP (split_internal_up self median idx k e) (\<lambda>(idx, k, e).
     bindP (split_internal_down self median idx k e) (\<lambda>(idx, k, e).
     bindP (get_at self (right_keys median)) (\<lambda>rks.
     bindP (get_at self (right_edges median e)) (\<lambda>res.
     bindP (liftP (bindR (arr_slice res 0 (median + 1)) assume_init_slice)) (\<lambda>es.
     bindP (number_edges 0 es) (\<lambda>_.
     bindP (liftP (nat_sub l median)) (\<lambda>rlen.
     bindP (upd_at self (\<lambda>n. Inr (n\<lparr>len := median\<rparr>))) (\<lambda>_.
     ret (k, \<lparr>parent = None, parent_idx = None, len = rlen, keys = rks,
              node_d = Internal \<lparr>edges = res\<rparr>\<rparr>))))))))))))))"

subsection \<open>Merging siblings\<close>

text \<open>The sanity checks that open each merge: \<open>left\<close> and \<open>right\<close> are adjacent children.\<close>

definition assert_siblings :: "ptr \<Rightarrow> ptr \<Rightarrow> ('k, 'v, unit) sprog" where
  "assert_siblings left right =
     bindP (deref left) (\<lambda>ln.
     bindP (deref right) (\<lambda>rn.
     bindP (assertP (parent ln = parent rn)) (\<lambda>_.
     bindP (liftP (bindR (node_parent_idx ln) unwrapR)) (\<lambda>li.
     bindP (liftP (bindR (node_parent_idx rn) unwrapR)) (\<lambda>ri.
     assertP (li + 1 = ri))))))"

text \<open>The array work of the merges, on the node that survives.\<close>

definition absorb_prev_leaf :: "('k, 'v) node \<Rightarrow> nat \<Rightarrow> ('k, 'v) node \<Rightarrow> ('k, 'v) node res" where
  "absorb_prev_leaf prev new_len n =
     bindR (unsafe_copy_slice_overlapping (keys n)
              (range_of (len prev) new_len) (range_to (len n))) (\<lambda>ks.
     bindR (d_leaf n) (\<lambda>l.
     bindR (unsafe_copy_slice_overlapping (vals l)
              (range_of (len prev) new_len) (range_to (len n))) (\<lambda>vs.
     bindR (arr_slice (keys prev) 0 (len prev)) (\<lambda>pks.
     bindR (unsafe_copy_slice_nonoverlapping ks 0 (len prev) pks) (\<lambda>ks.
     bindR (d_leaf prev) (\<lambda>pl.
     bindR (arr_slice (vals pl) 0 (len prev)) (\<lambda>pvs.
     bindR (unsafe_copy_slice_nonoverlapping vs 0 (len prev) pvs) (\<lambda>vs.
     bindR (node_prev prev) (\<lambda>pp.
     Inr (n\<lparr>keys := ks, len := new_len,
            node_d := Leaf (l\<lparr>vals := vs, leaf_prev := pp\<rparr>)\<rparr>))))))))))"

definition absorb_next_leaf :: "('k, 'v) node \<Rightarrow> nat \<Rightarrow> ('k, 'v) node \<Rightarrow> ('k, 'v) node res" where
  "absorb_next_leaf next' new_len n =
     bindR (arr_slice (keys next') 0 (len next')) (\<lambda>nks.
     bindR (unsafe_copy_slice_nonoverlapping (keys n) (len n) new_len nks) (\<lambda>ks.
     bindR (d_leaf n) (\<lambda>l.
     bindR (d_leaf next') (\<lambda>nl.
     bindR (arr_slice (vals nl) 0 (len next')) (\<lambda>nvs.
     bindR (unsafe_copy_slice_nonoverlapping (vals l) (len n) new_len nvs) (\<lambda>vs.
     bindR (node_next next') (\<lambda>nx.
     Inr (n\<lparr>keys := ks, len := new_len,
            node_d := Leaf (l\<lparr>vals := vs, leaf_next := nx\<rparr>)\<rparr>))))))))"

definition make_room_internal :: "nat \<Rightarrow> nat \<Rightarrow> ('k, 'v) node \<Rightarrow> ('k, 'v) node res" where
  "make_room_internal prev_len new_len n =
     bindR (unsafe_copy_slice_overlapping (keys n)
              (range_of (prev_len + 1) new_len) (range_to (len n))) (\<lambda>ks.
     d_internal_mut (\<lambda>t.
       bindR (unsafe_copy_slice_overlapping (edges t)
                (range_of (prev_len + 1) (new_len + 1)) (range_to (len n + 1))) (\<lambda>es.
       Inr (t\<lparr>edges := es\<rparr>))) (n\<lparr>keys := ks\<rparr>))"

definition absorb_prev_internal ::
    "'k \<Rightarrow> ('k, 'v) node \<Rightarrow> nat \<Rightarrow> ('k, 'v) node \<Rightarrow> ('k, 'v) node res" where
  "absorb_prev_internal middle_key prev new_len n =
     bindR (arr_slice (keys prev) 0 (len prev)) (\<lambda>pks.
     bindR (unsafe_copy_slice_nonoverlapping (keys n) 0 (len prev) pks) (\<lambda>ks.
     bindR (d_internal prev) (\<lambda>pt.
     bindR (arr_slice (edges pt) 0 (len prev + 1)) (\<lambda>pes.
     bindR (d_internal_mut (\<lambda>t.
              bindR (unsafe_copy_slice_nonoverlapping (edges t) 0 (len prev + 1) pes) (\<lambda>es.
              Inr (t\<lparr>edges := es\<rparr>))) (n\<lparr>keys := ks\<rparr>)) (\<lambda>n.
     bindR (arr_set (keys n) (len prev) middle_key) (\<lambda>ks.
     Inr (n\<lparr>keys := ks, len := new_len\<rparr>)))))))"

definition absorb_next_internal ::
    "'k \<Rightarrow> ('k, 'v) node \<Rightarrow> nat \<Rightarrow> ('k, 'v) node \<Rightarrow> ('k, 'v) node res" where
  "absorb_next_internal middle_key next' new_len n =
     bindR (arr_set (keys n) (len n) middle_key) (\<lambda>ks.
     bindR (arr_slice (keys next') 0 (len next')) (\<lambda>nks.
     bindR (unsafe_copy_slice_nonoverlapping ks (len n + 1) new_len nks) (\<lambda>ks.
     bindR (d_internal next') (\<lambda>nt.
     bindR (arr_slice (edges nt) 0 (len next' + 1)) (\<lambda>nes.
     d_internal_mut (\<lambda>t.
       bindR (unsafe_copy_slice_nonoverlapping (edges t) (len n + 1) (new_len + 1) nes) (\<lambda>es.
       Inr (t\<lparr>edges := es\<rparr>))) (n\<lparr>keys := ks\<rparr>))))))"

definition merge_prev_leaf :: "ptr \<Rightarrow> ptr \<Rightarrow> ('k, 'v, unit) sprog" where
  "merge_prev_leaf self prev =
     bindP (get_at self node_prev) (\<lambda>sp.
     bindP (assertP (sp = Some prev)) (\<lambda>_.
     bindP (assert_siblings prev self) (\<lambda>_.
     bindP (deref prev) (\<lambda>pn.
     bindP (get_at self (\<lambda>n. u16_add (len pn) (len n))) (\<lambda>new_len.
     bindP (assertP (new_len \<le> M)) (\<lambda>_.
     upd_at self (absorb_prev_leaf pn new_len)))))))"

definition merge_next_leaf :: "ptr \<Rightarrow> ptr \<Rightarrow> ('k, 'v, unit) sprog" where
  "merge_next_leaf self next' =
     bindP (get_at self node_next) (\<lambda>sn.
     bindP (assertP (sn = Some next')) (\<lambda>_.
     bindP (assert_siblings self next') (\<lambda>_.
     bindP (deref next') (\<lambda>nn.
     bindP (get_at self (\<lambda>n. u16_add (len n) (len nn))) (\<lambda>new_len.
     bindP (assertP (new_len \<le> M)) (\<lambda>_.
     upd_at self (absorb_next_leaf nn new_len)))))))"

definition merge_prev_internal :: "ptr \<Rightarrow> 'k \<Rightarrow> ptr \<Rightarrow> ('k, 'v, unit) sprog" where
  "merge_prev_internal self middle_key prev =
     bindP (assert_siblings prev self) (\<lambda>_.
     bindP (deref prev) (\<lambda>pn.
     bindP (len_at self) (\<lambda>l.
     bindP (liftP (u16_add (len pn) l)) (\<lambda>sum.
     bindP (assertP (sum < M)) (\<lambda>_.
     bindP (liftP (u16_add sum 1)) (\<lambda>new_len.
     bindP (upd_at self (make_room_internal (len pn) new_len)) (\<lambda>_.
     bindP (for_edges self (len pn + 1) (new_len + 1)
              (\<lambda>i. bindR (u16_add (len pn) 1) (u16_add i))) (\<lambda>_.
     upd_at self (absorb_prev_internal middle_key pn new_len)))))))))"

definition merge_next_internal :: "ptr \<Rightarrow> 'k \<Rightarrow> ptr \<Rightarrow> ('k, 'v, unit) sprog" where
  "merge_next_internal self middle_key next' =
     bindP (assert_siblings self next') (\<lambda>_.
     bindP (deref next') (\<lambda>nn.
     bindP (len_at self) (\<lambda>l.
     bindP (liftP (u16_add l (len nn))) (\<lambda>sum.
     bindP (assertP (sum < M)) (\<lambda>_.
     bindP (liftP (u16_add sum 1)) (\<lambda>new_len.
     bindP (upd_at self (absorb_next_internal middle_key nn new_len)) (\<lambda>_.
     bindP (for_edges self (l + 1) (new_len + 1) (\<lambda>i. bindR (u16_add l 1) (u16_add i))) (\<lambda>_.
     upd_at self (\<lambda>n. Inr (n\<lparr>len := new_len\<rparr>))))))))))"

subsection \<open>Addresses of entries\<close>

definition normalize_address :: "ptr \<Rightarrow> nat \<Rightarrow> ('k, 'v, (ptr \<times> nat) option) sprog" where
  "normalize_address node idx =
     bindP (len_at node) (\<lambda>l.
     if idx < l then ret (Some (node, idx))
     else bindP (assertP (idx = l)) (\<lambda>_.
          bindP (get_at node node_next) (\<lambda>nx.
          ret (map_option (\<lambda>q. (q, 0)) nx))))"

definition address_before :: "ptr \<Rightarrow> nat \<Rightarrow> ('k, 'v, (ptr \<times> nat) option) sprog" where
  "address_before node idx =
     (if 0 < idx then ret (Some (node, idx - 1))
      else bindP (get_at node node_prev) (\<lambda>pv.
           case pv of None \<Rightarrow> ret None
           | Some q \<Rightarrow> bindP (len_at q) (\<lambda>l.
                       bindP (liftP (nat_sub l 1)) (\<lambda>i. ret (Some (q, i))))))"

definition address_after :: "ptr \<Rightarrow> nat \<Rightarrow> ('k, 'v, (ptr \<times> nat) option) sprog" where
  "address_after node idx =
     bindP (len_at node) (\<lambda>l.
     bindP (liftP (nat_sub l 1)) (\<lambda>last_idx.
     if idx < last_idx then ret (Some (node, idx + 1))
     else if idx = last_idx
          then bindP (get_at node node_next) (\<lambda>nx. ret (map_option (\<lambda>q. (q, 0)) nx))
          else bindP (assertP (idx = l)) (\<lambda>_.
               bindP (get_at node node_next) (\<lambda>nx. ret (map_option (\<lambda>q. (q, 1)) nx)))))"

end
