(* ===== verification/NodeView.thy ===== *)
theory NodeView
  imports NodeOps
begin

text \<open>
  The abstraction the proofs work in. A \<open>view\<close> is a node without its unused slots: the parent
  link, the first \<open>len\<close> keys, and the values and sibling links of a leaf or the edges of an
  internal node. A store \<open>shows\<close> an abstract heap of views; \<open>runs m A Q\<close> says that from every store
  that shows \<open>A\<close> the program \<open>m\<close> ends without a fault, in a store that shows a heap on which \<open>Q\<close>
  holds. The lemmas give each primitive a rule for \<open>runs\<close>.
\<close>

subsection \<open>Views\<close>

type_synonym par = "(ptr \<times> nat) option"

datatype ('k, 'v) view =
    VLeaf par "'k list" "'v list" "ptr option" "ptr option"
  | VInt par "'k list" "ptr list"
  | VRaw "('k, 'v) node"

type_synonym ('k, 'v) vheap = "ptr \<Rightarrow> ('k, 'v) view option"

definition holds :: "'a option list \<Rightarrow> nat \<Rightarrow> 'a list \<Rightarrow> bool" where
  "holds a n xs \<longleftrightarrow> length a = n \<and> (\<exists>junk. a = map Some xs @ junk)"

definition par_ok :: "('k, 'v) node \<Rightarrow> par \<Rightarrow> bool" where
  "par_ok n par \<longleftrightarrow> parent n = map_option fst par \<and> parent_idx n = map_option snd par"

fun node_view :: "('k, 'v) node \<Rightarrow> ('k, 'v) view \<Rightarrow> bool" where
  "node_view n (VLeaf par ks vs pv nx) \<longleftrightarrow>
     par_ok n par \<and> len n = length ks \<and> length vs = length ks \<and> holds (keys n) M ks \<and>
     (\<exists>l. node_d n = Leaf l \<and> holds (vals l) M vs \<and> leaf_prev l = pv \<and> leaf_next l = nx)"
| "node_view n (VInt par ks es) \<longleftrightarrow>
     par_ok n par \<and> len n = length ks \<and> length es = length ks + 1 \<and> holds (keys n) M ks \<and>
     (\<exists>t. node_d n = Internal t \<and> holds (edges t) (M + 1) es)"
| "node_view n (VRaw m) \<longleftrightarrow> n = m"

fun vpar :: "('k, 'v) view \<Rightarrow> par" where
  "vpar (VLeaf par ks vs pv nx) = par"
| "vpar (VInt par ks es) = par"
| "vpar (VRaw n) = None"

fun vset_par :: "par \<Rightarrow> ('k, 'v) view \<Rightarrow> ('k, 'v) view" where
  "vset_par p (VLeaf par ks vs pv nx) = VLeaf p ks vs pv nx"
| "vset_par p (VInt par ks es) = VInt p ks es"
| "vset_par p (VRaw n) = VRaw n"

fun vlen :: "('k, 'v) view \<Rightarrow> nat" where
  "vlen (VLeaf par ks vs pv nx) = length ks"
| "vlen (VInt par ks es) = length ks"
| "vlen (VRaw n) = len n"

fun raw :: "('k, 'v) view \<Rightarrow> bool" where
  "raw (VRaw n) = True"
| "raw _ = False"

lemma vset_par_simps [simp]:
  "\<not> raw v \<Longrightarrow> vpar (vset_par p v) = p"
  "raw (vset_par p v) = raw v"
  "vset_par p (vset_par q v) = vset_par p v"
  "vlen (vset_par p v) = vlen v"
  "vset_par (vpar v) v = v"
  by (cases v; simp)+

lemma par_ok_simps [simp]:
  "par_ok n None \<longleftrightarrow> parent n = None \<and> parent_idx n = None"
  "par_ok n (Some (q, i)) \<longleftrightarrow> parent n = Some q \<and> parent_idx n = Some i"
  by (auto simp: par_ok_def)

lemma par_ok_cong:
  "parent n = parent m \<Longrightarrow> parent_idx n = parent_idx m \<Longrightarrow> par_ok n par = par_ok m par"
  by (simp add: par_ok_def)

lemma node_view_len: "node_view n v \<Longrightarrow> len n = vlen v"
  by (cases v) auto

lemma node_view_par: "node_view n v \<Longrightarrow> \<not> raw v \<Longrightarrow> par_ok n (vpar v)"
  by (cases v) auto

lemma node_view_vlen_le: "node_view n v \<Longrightarrow> \<not> raw v \<Longrightarrow> vlen v \<le> M"
  by (cases v) (auto simp: holds_def)

subsection \<open>Stores and runs\<close>

definition shows_heap :: "('k, 'v) store \<Rightarrow> ('k, 'v) vheap \<Rightarrow> bool" where
  "shows_heap s A \<longleftrightarrow> dom A = live (slab_log s) \<and> dom (nodes s) = live (slab_log s) \<and>
     (\<forall>p n v. nodes s p = Some n \<longrightarrow> A p = Some v \<longrightarrow> node_view n v)"

definition runs ::
    "('k, 'v, 'a) sprog \<Rightarrow> ('k, 'v) vheap \<Rightarrow> ('a \<Rightarrow> ('k, 'v) vheap \<Rightarrow> bool) \<Rightarrow> bool" where
  "runs m A Q \<longleftrightarrow>
     (\<forall>s. shows_heap s A \<longrightarrow> (\<exists>r s' A'. m s = Inr (r, s') \<and> shows_heap s' A' \<and> Q r A'))"

definition faults :: "('k, 'v, 'a) sprog \<Rightarrow> ('k, 'v) vheap \<Rightarrow> fault \<Rightarrow> bool" where
  "faults m A e \<longleftrightarrow> (\<forall>s. shows_heap s A \<longrightarrow> m s = Inl e)"

lemma shows_new_store [simp]: "shows_heap new_store (\<lambda>_. None)"
  by (simp add: shows_heap_def new_store_def)

lemma shows_heapE:
  assumes "shows_heap s A" "A p = Some v"
  obtains n where "nodes s p = Some n" "node_view n v"
  using assms unfolding shows_heap_def by (metis domD domI)

lemma shows_heap_upd:
  assumes "shows_heap s A" "p \<in> dom A" "node_view n v"
  shows "shows_heap (s\<lparr>nodes := (nodes s)(p \<mapsto> n)\<rparr>) (A(p \<mapsto> v))"
  using assms by (auto simp: shows_heap_def)

lemma runsD:
  assumes "runs m A Q" "shows_heap s A"
  obtains r s' A' where "m s = Inr (r, s')" "shows_heap s' A'" "Q r A'"
  using assms unfolding runs_def by blast

lemma runs_ret [runs_intro]: "Q a A \<Longrightarrow> runs (ret a) A Q"
  by (auto simp: runs_def)

lemma runs_ret_eta: "Q a A \<Longrightarrow> runs (\<lambda>s. Inr (a, s)) A Q"
  using runs_ret[of Q a A] by (simp add: ret_def)

lemma runs_bind:
  assumes "runs m A (\<lambda>a A'. runs (f a) A' Q)"
  shows "runs (bindP m f) A Q"
  unfolding runs_def
proof (intro allI impI)
  fix s assume "shows_heap s A"
  then obtain a s1 A1 where "m s = Inr (a, s1)" "shows_heap s1 A1" "runs (f a) A1 Q"
    using runsD[OF assms] by blast
  then show "\<exists>r s' A'. bindP m f s = Inr (r, s') \<and> shows_heap s' A' \<and> Q r A'"
    unfolding runs_def by simp
qed

lemma runs_conseq:
  assumes "runs m A P" "\<And>r A'. P r A' \<Longrightarrow> Q r A'"
  shows "runs m A Q"
  using assms unfolding runs_def by meson

lemma runs_lift [runs_intro]: "r = Inr a \<Longrightarrow> Q a A \<Longrightarrow> runs (liftP r) A Q"
  by (auto simp: runs_def)

lemma runs_assert [runs_intro]: "b \<Longrightarrow> Q () A \<Longrightarrow> runs (assertP b) A Q"
  by (auto simp: runs_def)

lemma runs_if:
  "(b \<Longrightarrow> runs m A Q) \<Longrightarrow> (\<not> b \<Longrightarrow> runs m' A Q) \<Longrightarrow> runs (if b then m else m') A Q"
  by simp

lemma faults_bind_now: "faults m A e \<Longrightarrow> faults (bindP m f) A e"
  by (simp add: faults_def)

lemma faults_bind_later:
  assumes "runs m A (\<lambda>a A'. faults (f a) A' e)"
  shows "faults (bindP m f) A e"
  unfolding faults_def
proof (intro allI impI)
  fix s assume "shows_heap s A"
  then obtain a s1 A1 where "m s = Inr (a, s1)" "shows_heap s1 A1" "faults (f a) A1 e"
    using runsD[OF assms] by blast
  then show "bindP m f s = Inl e" by (simp add: faults_def)
qed

text \<open>A first step that only reads.\<close>

lemma runs_then: "runs m A (\<lambda>r A'. r = a \<and> A' = A) \<Longrightarrow> runs (f a) A Q \<Longrightarrow> runs (bindP m f) A Q"
  by (rule runs_bind, erule runs_conseq) simp

lemma faults_then: "runs m A (\<lambda>r A'. r = a \<and> A' = A) \<Longrightarrow> faults (f a) A e \<Longrightarrow> faults (bindP m f) A e"
  by (rule faults_bind_later, erule runs_conseq) simp

lemma faults_lift: "r = Inl e \<Longrightarrow> faults (liftP r) A e"
  by (simp add: faults_def)

subsection \<open>Following pointers\<close>

lemma runs_deref:
  assumes "A p = Some v" "\<And>n. node_view n v \<Longrightarrow> Q n A"
  shows "runs (deref p) A Q"
  unfolding runs_def
proof (intro allI impI)
  fix s assume s: "shows_heap s A"
  then obtain n where "nodes s p = Some n" "node_view n v" using assms(1) by (rule shows_heapE)
  then show "\<exists>r s' A'. deref p s = Inr (r, s') \<and> shows_heap s' A' \<and> Q r A'"
    using s assms(2) by (auto simp: deref_def)
qed

lemma runs_get_at:
  assumes "A p = Some v" "\<And>n. node_view n v \<Longrightarrow> f n = Inr r" "Q r A"
  shows "runs (get_at p f) A Q"
  unfolding get_at_def
  by (intro runs_bind runs_deref[where A = A, OF assms(1)] runs_lift[OF assms(2)] assms(3))

lemma faults_get_at:
  assumes "A p = Some v" "\<And>n. node_view n v \<Longrightarrow> f n = Inl e"
  shows "faults (get_at p f) A e"
  unfolding get_at_def
  by (intro faults_bind_later runs_deref[where A = A, OF assms(1)] faults_lift assms(2))

lemma runs_assign:
  assumes "p \<in> dom A" "node_view n v" "Q () (A(p \<mapsto> v))"
  shows "runs (assign p n) A Q"
  unfolding runs_def
proof (intro allI impI)
  fix s assume s: "shows_heap s A"
  then obtain m where "nodes s p = Some m" using assms(1) by (auto elim: shows_heapE)
  then show "\<exists>r s' A'. assign p n s = Inr (r, s') \<and> shows_heap s' A' \<and> Q r A'"
    using shows_heap_upd[OF s assms(1,2)] assms(3) by (auto simp: assign_def)
qed

definition node_upd :: "(('k, 'v) node \<Rightarrow> ('k, 'v) node res) \<Rightarrow> ('k, 'v) view \<Rightarrow> ('k, 'v) view \<Rightarrow> bool" where
  "node_upd f v v' \<longleftrightarrow> (\<forall>n. node_view n v \<longrightarrow> (\<exists>n'. f n = Inr n' \<and> node_view n' v'))"

definition node_upd_ret ::
    "(('k, 'v) node \<Rightarrow> ('a \<times> ('k, 'v) node) res) \<Rightarrow> ('k, 'v) view \<Rightarrow> 'a \<Rightarrow> ('k, 'v) view \<Rightarrow> bool" where
  "node_upd_ret f v a v' \<longleftrightarrow> (\<forall>n. node_view n v \<longrightarrow> (\<exists>n'. f n = Inr (a, n') \<and> node_view n' v'))"

lemma runs_upd_at:
  assumes "A p = Some v" "node_upd f v v'" "Q () (A(p \<mapsto> v'))"
  shows "runs (upd_at p f) A Q"
  unfolding upd_at_def
proof (intro runs_bind runs_deref[where A = A, OF assms(1)])
  fix n assume "node_view n v"
  then obtain n' where "f n = Inr n'" "node_view n' v'" using assms(2) by (auto simp: node_upd_def)
  then show "runs (liftP (f n)) A (\<lambda>a A'. runs (assign p a) A' Q)"
    using assms(1,3) by (intro runs_lift runs_assign) auto
qed

lemma runs_upd_ret_at:
  assumes "A p = Some v" "node_upd_ret f v a v'" "Q a (A(p \<mapsto> v'))"
  shows "runs (upd_ret_at p f) A Q"
  unfolding upd_ret_at_def
proof (intro runs_bind runs_deref[where A = A, OF assms(1)])
  fix n assume "node_view n v"
  then obtain n' where "f n = Inr (a, n')" "node_view n' v'"
    using assms(2) by (auto simp: node_upd_ret_def)
  then show "runs (liftP (f n)) A (\<lambda>a A'. runs (case a of (a, n') \<Rightarrow>
      bindP (assign p n') (\<lambda>_. ret a)) A' Q)"
    using assms(1,3) by (intro runs_lift) (auto intro!: runs_bind runs_assign runs_ret)
qed

lemma runs_len_at [runs_intro]:
  assumes "A p = Some v" "Q (vlen v) A"
  shows "runs (len_at p) A Q"
  unfolding len_at_def using assms by (intro runs_get_at) (auto simp: node_view_len)

text \<open>Opening a node to its record and closing it to a view again.\<close>

lemma runs_open:
  assumes "A p = Some v" "\<And>n. node_view n v \<Longrightarrow> runs m (A(p \<mapsto> VRaw n)) Q"
  shows "runs m A Q"
  unfolding runs_def
proof (intro allI impI)
  fix s assume s: "shows_heap s A"
  then obtain n where n: "nodes s p = Some n" "node_view n v" using assms(1) by (rule shows_heapE)
  have "shows_heap s (A(p \<mapsto> VRaw n))"
    using s n assms(1) by (auto simp: shows_heap_def)
  with assms(2)[OF n(2)] show "\<exists>r s' A'. m s = Inr (r, s') \<and> shows_heap s' A' \<and> Q r A'"
    by (auto simp: runs_def)
qed

lemma runs_close:
  assumes "A p = Some (VRaw n)" "node_view n v" "runs m (A(p \<mapsto> v)) Q"
  shows "runs m A Q"
  unfolding runs_def
proof (intro allI impI)
  fix s assume s: "shows_heap s A"
  have "node_view m v" if "nodes s p = Some m" for m
    using s assms(1,2) that unfolding shows_heap_def by (metis node_view.simps(3))
  then have "shows_heap s (A(p \<mapsto> v))"
    using s assms(1) by (auto simp: shows_heap_def)
  with assms(3) show "\<exists>r s' A'. m s = Inr (r, s') \<and> shows_heap s' A' \<and> Q r A'"
    by (auto simp: runs_def)
qed

lemma node_upd_raw [simp]: "node_upd f (VRaw n) v' \<longleftrightarrow> (\<exists>n'. f n = Inr n' \<and> node_view n' v')"
  by (simp add: node_upd_def)

subsection \<open>Allocation\<close>

lemma runs_alloc:
  assumes "slab pick" "node_view n v" "\<And>p. p \<notin> dom A \<Longrightarrow> Q p (A(p \<mapsto> v))"
  shows "runs (alloc pick n) A Q"
  unfolding runs_def
proof (intro allI impI)
  fix s assume s: "shows_heap s A"
  let ?p = "pick (slab_log s)"
  have "?p \<notin> dom A" using s slab.pick_fresh[OF assms(1)] by (simp add: shows_heap_def)
  then show "\<exists>r s' A'. alloc pick n s = Inr (r, s') \<and> shows_heap s' A' \<and> Q r A'"
    using s assms(2) assms(3)[of ?p]
    by (intro exI[of _ ?p] exI[of _ "s\<lparr>nodes := (nodes s)(?p \<mapsto> n), slab_log := Alloc ?p # slab_log s\<rparr>"]
          exI[of _ "A(?p \<mapsto> v)"]) (auto simp: alloc_def Let_def shows_heap_def)
qed

lemma runs_dealloc:
  assumes "A p = Some v" "Q () (A(p := None))"
  shows "runs (dealloc p) A Q"
  unfolding runs_def
proof (intro allI impI)
  fix s assume s: "shows_heap s A"
  then obtain n where n: "nodes s p = Some n" "node_view n v" using assms(1) by (rule shows_heapE)
  then show "\<exists>r s' A'. dealloc p s = Inr (r, s') \<and> shows_heap s' A' \<and> Q r A'"
    using s assms(2)
    by (intro exI[of _ "()"] exI[of _ "A(p := None)"]
          exI[of _ "s\<lparr>nodes := (nodes s)(p := None), slab_log := Discard p # slab_log s\<rparr>"])
       (auto simp: dealloc_def dealloc_and_return_def bindP_apply shows_heap_def)
qed

end
