(* ===== verification/NodeSpec.thy ===== *)
theory NodeSpec
  imports NodeView
begin

text \<open>
  What the operations on one node do to its view: the array code (shifting a part of a
  partially initialised array, copying between arrays, the rotations of \<open>split_leaf\<close>) against
  insertion and removal in lists.
\<close>

subsection \<open>Arrays\<close>

lemma holdsD: "holds a n xs \<Longrightarrow> length a = n \<and> length xs \<le> n"
  by (auto simp: holds_def)

lemma holds_lengths: "holds a n xs \<Longrightarrow> length a = n" "holds a n xs \<Longrightarrow> length xs \<le> n"
  by (auto simp: holds_def)

lemma holds_empty: "holds (maybe_uninit_array n) n []"
  by (simp add: holds_def maybe_uninit_array_def)

lemma holds_take: "holds a n xs \<Longrightarrow> holds a n (take i xs)"
  unfolding holds_def by (metis append.assoc append_take_drop_id map_append)

lemma holds_prefix: "holds a n (xs @ ys) \<Longrightarrow> holds a n xs"
  by (auto simp: holds_def)

lemma arr_get_holds [simp]: "holds a n xs \<Longrightarrow> i < length xs \<Longrightarrow> arr_get a i = Inr (xs ! i)"
  by (auto simp: holds_def arr_get_def nth_append)

lemma arr_set_holds [simp]:
  assumes "holds a n xs" "i < length xs"
  shows "arr_set a i x = Inr (a[i := Some x])" "holds (a[i := Some x]) n (xs[i := x])"
  using assms by (auto simp: holds_def arr_set_def list_update_append map_update)

lemma arr_set_end:
  assumes "holds a n xs" "length xs < n"
  shows "arr_set a (length xs) x = Inr (a[length xs := Some x])"
    "holds (a[length xs := Some x]) n (xs @ [x])"
proof -
  obtain junk where a: "a = map Some xs @ junk" using assms(1) by (auto simp: holds_def)
  then obtain j js where "junk = j # js" using assms by (cases junk) (auto simp: holds_def)
  then show "arr_set a (length xs) x = Inr (a[length xs := Some x])"
    "holds (a[length xs := Some x]) n (xs @ [x])"
    using assms a by (auto simp: holds_def arr_set_def list_update_append)
qed

lemma arr_slice_holds:
  assumes "holds a n xs" "i \<le> j" "j \<le> length xs"
  shows "arr_slice a i j = Inr (map Some (take (j - i) (drop i xs)))"
  using assms by (auto simp: holds_def arr_slice_def take_map drop_map)

lemma assume_init_slice_Some [simp]: "assume_init_slice (map Some xs) = Inr xs"
  by (auto simp: assume_init_slice_def comp_def)

lemma copy_overlapping:
  assumes "s + k \<le> length a" "d + k \<le> length a"
  shows "unsafe_copy_slice_overlapping a (range_of d (d + k)) (range_of s (s + k)) =
    Inr (take d a @ take k (drop s a) @ drop (d + k) a)"
    "unsafe_copy_slice_overlapping a (range_of d (d + k)) (range_to k) =
    (if k \<le> length a then Inr (take d a @ take k a @ drop (d + k) a) else Inl IndexOutOfBounds)"
  using assms by (simp_all add: unsafe_copy_slice_overlapping_def range_start_def range_end_def)

lemma copy_shift_up:
  assumes "holds a n xs" "i < length xs" "length xs < n"
  obtains a' where
    "unsafe_copy_slice_overlapping a (range_of (i + 1) (length xs + 1)) (range_of i (length xs)) = Inr a'"
    "length a' = n" "i < n" "holds (a'[i := Some x]) n (ins_at i x xs)"
proof -
  let ?k = "length xs - i"
  let ?a' = "take (i + 1) a @ take ?k (drop i a) @ drop (i + 1 + ?k) a"
  have len: "length a = n" using assms by (simp add: holds_lengths)
  obtain junk where a: "a = map Some xs @ junk" using assms(1) by (auto simp: holds_def)
  obtain j js where junk: "junk = j # js" using a len assms(3) by (cases junk) auto
  have "unsafe_copy_slice_overlapping a (range_of (i + 1) (i + 1 + ?k)) (range_of i (i + ?k)) = Inr ?a'"
    by (rule copy_overlapping) (use assms len in auto)
  moreover have k: "i + 1 + ?k = length xs + 1" "i + ?k = length xs" using assms(2) by simp_all
  ultimately have copy: "unsafe_copy_slice_overlapping a (range_of (i + 1) (length xs + 1))
      (range_of i (length xs)) = Inr ?a'" by (simp only: k)
  have len': "length ?a' = n" using assms len by simp
  have upd: "?a'[i := Some x] = map Some (ins_at i x xs) @ js"
  proof -
    have "?a' = take (i + 1) a @ map Some (drop i xs) @ js"
      using assms a junk by (simp add: take_map drop_map)
    then have "?a'[i := Some x] = (take (i + 1) a)[i := Some x] @ map Some (drop i xs) @ js"
      using assms len by (simp add: list_update_append)
    also have "(take (i + 1) a)[i := Some x] = take i a @ [Some x]"
      using assms len by (simp add: take_Suc_conv_app_nth list_update_append)
    also have "take i a = map Some (take i xs)" using a assms by (simp add: take_map)
    finally show ?thesis by (simp add: ins_at_def)
  qed
  have "i < n" using assms by simp
  moreover have "holds (?a'[i := Some x]) n (ins_at i x xs)"
    unfolding holds_def upd using len' upd by (metis length_list_update)
  ultimately show ?thesis by (rule that[OF copy len'])
qed

lemma copy_shift_down:
  assumes "holds a n xs" "i + 1 < length xs"
  obtains a' where
    "unsafe_copy_slice_overlapping a (range_of i (length xs - 1)) (range_of (i + 1) (length xs)) = Inr a'"
    "holds a' n (del_at i xs)"
proof -
  let ?k = "length xs - (i + 1)"
  let ?a' = "take i a @ take ?k (drop (i + 1) a) @ drop (i + ?k) a"
  have len: "length a = n" "length xs \<le> n" using assms by (simp_all add: holds_lengths)
  obtain junk where a: "a = map Some xs @ junk" using assms(1) by (auto simp: holds_def)
  have "unsafe_copy_slice_overlapping a (range_of i (i + ?k)) (range_of (i + 1) (i + 1 + ?k)) = Inr ?a'"
    by (rule copy_overlapping) (use assms len in auto)
  moreover have k: "i + 1 + ?k = length xs" "i + ?k = length xs - 1" using assms(2) by simp_all
  ultimately have copy: "unsafe_copy_slice_overlapping a (range_of i (length xs - 1))
      (range_of (i + 1) (length xs)) = Inr ?a'" by (simp only: k)
  have "length ?a' = n" using assms len by simp
  moreover have "?a' = map Some (del_at i xs) @ drop (i + ?k) a"
    using assms a by (simp add: del_at_def take_map drop_map)
  ultimately have "holds ?a' n (del_at i xs)" unfolding holds_def by blast
  with copy show ?thesis by (rule that)
qed

lemma holds_del_last: "holds a n xs \<Longrightarrow> i + 1 = length xs \<Longrightarrow> holds a n (del_at i xs)"
  using holds_take[of a n xs i] by (simp add: del_at_def)

lemma copy_nonoverlapping:
  assumes "holds a n xs" "i \<le> length xs" "i + length ys \<le> n" "j = i + length ys"
  shows "\<exists>a'. unsafe_copy_slice_nonoverlapping a i j (map Some ys) = Inr a' \<and>
    holds a' n (take i xs @ ys) \<and> length a' = n"
proof -
  obtain junk where a: "a = map Some xs @ junk" using assms(1) by (auto simp: holds_def)
  have len: "length a = n" using assms(1) by (simp add: holds_lengths)
  have "take i a = map Some (take i xs)" using a assms(2) by (simp add: take_map)
  then show ?thesis using assms len
    by (auto simp: unsafe_copy_slice_nonoverlapping_def arr_slice_def holds_def)
qed

subsection \<open>Parent and sibling links\<close>

lemma node_parent_view [simp]: "node_view n v \<Longrightarrow> \<not> raw v \<Longrightarrow> node_parent n = Inr (vpar v)"
  by (cases v; cases "vpar v") (auto simp: node_parent_def)

lemma node_parent_idx_view [simp]:
  "node_view n v \<Longrightarrow> \<not> raw v \<Longrightarrow> node_parent_idx n = Inr (map_option snd (vpar v))"
  by (cases v; cases "vpar v") (auto simp: node_parent_idx_def)

lemma upd_set_parent: "\<not> raw v \<Longrightarrow> node_upd (set_parent p i) v (vset_par (Some (p, i)) v)"
  by (cases v) (auto simp: node_upd_def set_parent_def)

lemma upd_clear_parent: "\<not> raw v \<Longrightarrow> node_upd clear_parent v (vset_par None v)"
  by (cases v) (auto simp: node_upd_def clear_parent_def)

lemma upd_set_parent_ptr:
  "\<not> raw v \<Longrightarrow> vpar v = Some (q, i) \<Longrightarrow> node_upd (set_parent_ptr p) v (vset_par (Some (p, i)) v)"
  by (cases v) (auto simp: node_upd_def set_parent_ptr_def)

lemma upd_parent_idx:
  "\<not> raw v \<Longrightarrow> vpar v = Some (q, i) \<Longrightarrow>
   node_upd (\<lambda>n. Inr (n\<lparr>parent_idx := Some j\<rparr>)) v (vset_par (Some (q, j)) v)"
  by (cases v) (auto simp: node_upd_def)

lemma upd_map_parent_idx:
  "\<not> raw v \<Longrightarrow> vpar v = Some (q, i) \<Longrightarrow> f i = Inr j \<Longrightarrow>
   node_upd (map_parent_idx f) v (vset_par (Some (q, j)) v)"
  by (cases v) (auto simp: node_upd_def map_parent_idx_def)

lemma node_prev_view [simp]: "node_view n (VLeaf par ks vs pv nx) \<Longrightarrow> node_prev n = Inr pv"
  by (auto simp: node_prev_def d_leaf_def)

lemma node_next_view [simp]: "node_view n (VLeaf par ks vs pv nx) \<Longrightarrow> node_next n = Inr nx"
  by (auto simp: node_next_def d_leaf_def)

lemma node_next_wrong: "node_view n (VInt par ks es) \<Longrightarrow> node_next n = Inl WrongVariant"
  by (auto simp: node_next_def d_leaf_def)

lemma upd_set_prev: "node_upd (set_prev p) (VLeaf par ks vs pv nx) (VLeaf par ks vs p nx)"
  by (cases par) (auto simp: node_upd_def set_prev_def d_leaf_mut_def d_leaf_def)

lemma upd_set_next: "node_upd (set_next p) (VLeaf par ks vs pv nx) (VLeaf par ks vs pv p)"
  by (cases par) (auto simp: node_upd_def set_next_def d_leaf_mut_def d_leaf_def)

subsection \<open>Reading entries\<close>

lemma key_view [simp]:
  "node_view n (VLeaf par ks vs pv nx) \<Longrightarrow> i < length ks \<Longrightarrow> key i n = Inr (ks ! i)"
  "node_view n (VInt par ks es) \<Longrightarrow> i < length ks \<Longrightarrow> key i n = Inr (ks ! i)"
  by (auto simp: key_def)

lemma val_view [simp]:
  "node_view n (VLeaf par ks vs pv nx) \<Longrightarrow> i < length ks \<Longrightarrow> val i n = Inr (vs ! i)"
  by (auto simp: val_def d_leaf_def)

lemma read_val_view [simp]:
  "node_view n (VLeaf par ks vs pv nx) \<Longrightarrow> i < length ks \<Longrightarrow> read_val i n = Inr (vs ! i)"
  by (auto simp: read_val_def d_leaf_def)

lemma key_val_view [simp]:
  "node_view n (VLeaf par ks vs pv nx) \<Longrightarrow> i < length ks \<Longrightarrow> key_val i n = Inr (ks ! i, vs ! i)"
  by (auto simp: key_val_def d_leaf_def)

lemma read_key_val_view [simp]:
  "node_view n (VLeaf par ks vs pv nx) \<Longrightarrow> i < length ks \<Longrightarrow> read_key_val i n = Inr (ks ! i, vs ! i)"
  by (auto simp: read_key_val_def d_leaf_def)

lemma edge_view [simp]:
  "node_view n (VInt par ks es) \<Longrightarrow> i \<le> length ks \<Longrightarrow> edge i n = Inr (es ! i)"
  by (auto simp: edge_def d_internal_def)

lemma edge_wrong:
  "node_view n (VLeaf par ks vs pv nx) \<Longrightarrow> i \<le> length ks \<Longrightarrow> edge i n = Inl WrongVariant"
  by (auto simp: edge_def d_internal_def)

lemma node_keys_view [simp]:
  "node_view n (VLeaf par ks vs pv nx) \<Longrightarrow> node_keys n = Inr ks"
  "node_view n (VInt par ks es) \<Longrightarrow> node_keys n = Inr ks"
  by (auto simp: node_keys_def arr_slice_holds)

lemma node_vals_view [simp]: "node_view n (VLeaf par ks vs pv nx) \<Longrightarrow> node_vals n = Inr vs"
  by (auto simp: node_vals_def d_leaf_def arr_slice_holds)

lemma node_edges_view [simp]:
  assumes "node_view n (VInt par ks es)"
  shows "node_edges n = Inr es"
proof -
  have "length ks \<le> M" using assms by (auto dest: holds_lengths)
  then show ?thesis
    using assms by (auto simp: node_edges_def d_internal_def arr_slice_holds M_def)
qed

lemma node_first_view [simp]:
  "node_view n (VLeaf par ks vs pv nx) \<Longrightarrow> ks \<noteq> [] \<Longrightarrow>
   node_first_key_value n = Inr (ks ! 0, vs ! 0)"
  by (auto simp: node_first_key_value_def d_leaf_def)

lemma node_last_view [simp]:
  "node_view n (VLeaf par ks vs pv nx) \<Longrightarrow> ks \<noteq> [] \<Longrightarrow>
   node_last_key_value n = Inr (ks ! (length ks - 1), vs ! (length ks - 1))"
  by (auto simp: node_last_key_value_def d_leaf_def Suc_le_eq)

subsection \<open>Updates of a leaf\<close>

lemma upd_write_val:
  assumes "i < length ks"
  shows "node_upd (write_val i v) (VLeaf par ks vs pv nx) (VLeaf par ks (vs[i := v]) pv nx)"
  using assms
  by (cases par) (auto simp: node_upd_def write_val_def d_leaf_mut_def d_leaf_def)

lemma upd_replace_val:
  assumes "i < length ks"
  shows "node_upd_ret (replace_val i v) (VLeaf par ks vs pv nx) (vs ! i)
           (VLeaf par ks (vs[i := v]) pv nx)"
  using assms
  by (cases par) (auto simp: node_upd_ret_def replace_val_def d_leaf_mut_def d_leaf_def)

lemma upd_replace_key:
  assumes "i < length ks"
  shows "node_upd_ret (replace_key i k) (VInt par ks es) (ks ! i) (VInt par (ks[i := k]) es)"
  using assms
  by (cases par) (auto simp: node_upd_ret_def replace_key_def)

lemma insert_val_view:
  assumes "node_view n (VLeaf par ks vs pv nx)" "i \<le> length ks" "length ks < M"
  shows "\<exists>n'. insert_val i k v n = Inr n' \<and>
    node_view n' (VLeaf par (ins_at i k ks) (ins_at i v vs) pv nx)"
proof -
  from assms(1) obtain l where n: "len n = length ks" "length vs = length ks" "holds (keys n) M ks"
      "node_d n = Leaf l" "holds (vals l) M vs" "leaf_prev l = pv" "leaf_next l = nx" "par_ok n par"
    by auto
  have u16: "u16_add (length ks) 1 = Inr (length ks + 1)"
    using assms(3) by (simp add: M_def)
  show ?thesis
  proof (cases "i < length ks")
    case True
    obtain ks' where ks': "unsafe_copy_slice_overlapping (keys n) (range_of (i + 1) (length ks + 1))
        (range_of i (length ks)) = Inr ks'" "length ks' = M" "i < M"
        "holds (ks'[i := Some k]) M (ins_at i k ks)"
      using copy_shift_up[OF n(3) True assms(3)] .
    obtain vs' where vs': "unsafe_copy_slice_overlapping (vals l) (range_of (i + 1) (length vs + 1))
        (range_of i (length vs)) = Inr vs'" "length vs' = M"
        "holds (vs'[i := Some v]) M (ins_at i v vs)"
      using copy_shift_up[of "vals l" M vs i v] n True assms(3) by metis
    show ?thesis
      using n True assms(3) ks' vs' u16
      by (cases par) (auto simp: insert_val_def d_leaf_mut_def d_leaf_def arr_set_def)
  next
    case False
    with assms(2) have i: "i = length ks" by simp
    note k = arr_set_end[OF n(3) assms(3), of k]
    note w = arr_set_end[OF n(5), of v]
    show ?thesis
      using n i k w assms(3) u16
      by (cases par) (auto simp: insert_val_def d_leaf_mut_def d_leaf_def)
  qed
qed

lemma upd_insert_val:
  "i \<le> length ks \<Longrightarrow> length ks < M \<Longrightarrow>
   node_upd (insert_val i k v) (VLeaf par ks vs pv nx)
     (VLeaf par (ins_at i k ks) (ins_at i v vs) pv nx)"
  unfolding node_upd_def by (intro allI impI insert_val_view)

lemma remove_val_view:
  assumes "node_view n (VLeaf par ks vs pv nx)" "i < length ks"
  shows "\<exists>n'. remove_val i n = Inr ((ks ! i, vs ! i), n') \<and>
    node_view n' (VLeaf par (del_at i ks) (del_at i vs) pv nx)"
proof -
  from assms(1) obtain l where n: "len n = length ks" "length vs = length ks" "holds (keys n) M ks"
      "node_d n = Leaf l" "holds (vals l) M vs" "leaf_prev l = pv" "leaf_next l = nx" "par_ok n par"
    by auto
  have sub: "nat_sub (length ks) 1 = Inr (length ks - 1)" "ks \<noteq> []" using assms(2) by auto
  show ?thesis
  proof (cases "i + 1 < length ks")
    case True
    obtain ks' where ks': "unsafe_copy_slice_overlapping (keys n) (range_of i (length ks - 1))
        (range_of (i + 1) (length ks)) = Inr ks'" "holds ks' M (del_at i ks)"
      using copy_shift_down[OF n(3) True] .
    obtain vs' where vs': "unsafe_copy_slice_overlapping (vals l) (range_of i (length vs - 1))
        (range_of (i + 1) (length vs)) = Inr vs'" "holds vs' M (del_at i vs)"
      using copy_shift_down[of "vals l" M vs i] n True by metis
    show ?thesis
      using n True ks' vs' sub assms(2)
      by (cases par) (auto simp: remove_val_def d_leaf_mut_def d_leaf_def)
  next
    case False
    with assms(2) have i: "i + 1 = length ks" by simp
    show ?thesis
      using n i holds_del_last[OF n(3) i] holds_del_last[OF n(5), of i] sub assms(2)
      by (cases par) (auto simp: remove_val_def d_leaf_mut_def d_leaf_def)
  qed
qed

lemma upd_remove_val:
  "i < length ks \<Longrightarrow>
   node_upd_ret (remove_val i) (VLeaf par ks vs pv nx) (ks ! i, vs ! i)
     (VLeaf par (del_at i ks) (del_at i vs) pv nx)"
  unfolding node_upd_ret_def by (intro allI impI remove_val_view)

subsection \<open>Splitting a leaf\<close>

lemma upd_swap_key_leaf:
  assumes "i < length ks"
  shows "node_upd_ret (swap_key i k) (VLeaf par ks vs pv nx) (ks ! i) (VLeaf par (ks[i := k]) vs pv nx)"
  using assms by (cases par) (auto simp: node_upd_ret_def swap_key_def key_def)

lemma upd_swap_val:
  assumes "i < length ks"
  shows "node_upd_ret (swap_val i v) (VLeaf par ks vs pv nx) (vs ! i) (VLeaf par ks (vs[i := v]) pv nx)"
  unfolding node_upd_ret_def
proof (intro allI impI)
  fix n assume n: "node_view n (VLeaf par ks vs pv nx)"
  obtain n' where "write_val i v n = Inr n'" "node_view n' (VLeaf par ks (vs[i := v]) pv nx)"
    using upd_write_val[OF assms, of v par vs pv nx] n unfolding node_upd_def by blast
  with val_view[OF n assms] show "\<exists>n'. swap_val i v n = Inr (vs ! i, n') \<and>
      node_view n' (VLeaf par ks (vs[i := v]) pv nx)"
    by (simp add: swap_val_def)
qed

lemma swap_key_val_leaf:
  assumes "node_view n (VLeaf par ks vs pv nx)" "i < length ks"
  obtains n1 n2 where "swap_key i k n = Inr (ks ! i, n1)" "swap_val i v n1 = Inr (vs ! i, n2)"
    "node_view n2 (VLeaf par (ks[i := k]) (vs[i := v]) pv nx)"
proof -
  from upd_swap_key_leaf[OF assms(2), of k par vs pv nx] assms(1) obtain n1 where
    n1: "swap_key i k n = Inr (ks ! i, n1)" "node_view n1 (VLeaf par (ks[i := k]) vs pv nx)"
    unfolding node_upd_ret_def by blast
  from upd_swap_val[of i "ks[i := k]" v par vs pv nx] assms(2) n1(2) obtain n2 where
    "swap_val i v n1 = Inr (vs ! i, n2)" "node_view n2 (VLeaf par (ks[i := k]) (vs[i := v]) pv nx)"
    unfolding node_upd_ret_def by auto
  with n1(1) show ?thesis by (rule that)
qed

text \<open>Both rotations keep the list that the insertion would give.\<close>

lemma split_leaf_up_view:
  assumes "node_view n (VLeaf par ks vs pv nx)" "m \<le> length ks"
  shows "\<exists>k' v' n' ks' vs'. split_leaf_up m i k v n = Inr (max i m, k', v', n') \<and>
    node_view n' (VLeaf par ks' vs' pv nx) \<and> length ks' = length ks \<and>
    ins_at (max i m) k' ks' = ins_at i k ks \<and> ins_at (max i m) v' vs' = ins_at i v vs"
  using assms
proof (induction m i k v n arbitrary: ks vs rule: split_leaf_up.induct)
  case (1 m i k v n)
  show ?case
  proof (cases "i < m")
    case True
    with "1.prems" have i: "i < length ks" by simp
    obtain n1 n2 where s: "swap_key i k n = Inr (ks ! i, n1)" "swap_val i v n1 = Inr (vs ! i, n2)"
      "node_view n2 (VLeaf par (ks[i := k]) (vs[i := v]) pv nx)"
      using swap_key_val_leaf[OF "1.prems"(1) i] .
    have vs: "i < length vs" using "1.prems"(1) i by simp
    have "m \<le> length (ks[i := k])" using "1.prems"(2) by simp
    note IH = "1.IH"[OF True s(3) this]
    have "max (i + 1) m = max i m" using True by simp
    moreover have "split_leaf_up m i k v n = split_leaf_up m (i + 1) (ks ! i) (vs ! i) n2"
      using s True by (simp add: split_leaf_up.simps[of m i])
    ultimately show ?thesis
      using IH[of "ks ! i" "vs ! i"] ins_at_swap_up[OF i, of k] ins_at_swap_up[OF vs, of v]
      by (simp del: node_view.simps)
  next
    case False
    then show ?thesis using "1.prems" by (auto simp: split_leaf_up.simps[of m i])
  qed
qed

lemma split_leaf_down_view:
  assumes "node_view n (VLeaf par ks vs pv nx)" "i \<le> length ks" "m \<le> i"
  shows "\<exists>k' v' n' ks' vs'. split_leaf_down m i k v n = Inr (m, k', v', n') \<and>
    node_view n' (VLeaf par ks' vs' pv nx) \<and> length ks' = length ks \<and>
    ins_at m k' ks' = ins_at i k ks \<and> ins_at m v' vs' = ins_at i v vs"
  using assms
proof (induction m i k v n arbitrary: ks vs rule: split_leaf_down.induct)
  case (1 m i k v n)
  show ?case
  proof (cases "m < i")
    case True
    then have i0: "0 < i" by simp
    with "1.prems" have i: "i - 1 < length ks" by linarith
    obtain n1 n2 where s: "swap_key (i - 1) k n = Inr (ks ! (i - 1), n1)"
      "swap_val (i - 1) v n1 = Inr (vs ! (i - 1), n2)"
      "node_view n2 (VLeaf par (ks[i - 1 := k]) (vs[i - 1 := v]) pv nx)"
      using swap_key_val_leaf[OF "1.prems"(1) i] .
    have vs: "i \<le> length vs" using "1.prems" by simp
    have "i - 1 \<le> length (ks[i - 1 := k])" "m \<le> i - 1" using "1.prems"(2) True by auto
    note IH = "1.IH"[OF True s(3) this]
    have eq: "split_leaf_down m i k v n =
        split_leaf_down m (i - 1) (ks ! (i - 1)) (vs ! (i - 1)) n2"
      using s True by (simp add: split_leaf_down.simps[of m i])
    show ?thesis
      using IH[of "ks ! (i - 1)" "vs ! (i - 1)"]
      unfolding eq ins_at_swap_down[OF i0 "1.prems"(2), of k] ins_at_swap_down[OF i0 vs, of v]
      by (simp del: node_view.simps)
  next
    case False
    with "1.prems"(3) have "m = i" by simp
    then have "split_leaf_down m i k v n = Inr (m, k, v, n)"
      by (subst split_leaf_down.simps) simp
    with "1.prems"(1) \<open>m = i\<close> show ?thesis by blast
  qed
qed

lemma ins_at_split:
  assumes "ins_at m k' ks' = xs" "m \<le> length ks'"
  shows "take m ks' = take m xs" "k' = xs ! m" "drop m ks' = drop (Suc m) xs"
    "k' # drop m ks' = drop m xs"
  using assms by (auto simp: ins_at_def nth_append)

lemma split_leaf_view:
  fixes k :: 'k and v :: 'v
  assumes n: "node_view n (VLeaf par ks vs pv nx)" and l: "length ks = M" and i: "i \<le> length ks"
  defines "KS \<equiv> ins_at i k ks" and "VS \<equiv> ins_at i v vs"
  shows "\<exists>right n'. split_leaf i k v n = Inr ((KS ! (M div 2), right), n') \<and>
    node_view n' (VLeaf par (take (M div 2) KS) (take (M div 2) VS) pv nx) \<and>
    node_view right (VLeaf None (drop (M div 2) KS) (drop (M div 2) VS) None nx)"
proof -
  let ?m = "M div 2"
  have m: "?m \<le> length ks" "?m = 4" "M = 8" using l by (auto simp: M_def)
  obtain k1 v1 n1 ks1 vs1 where up: "split_leaf_up ?m i k v n = Inr (max i ?m, k1, v1, n1)"
      "node_view n1 (VLeaf par ks1 vs1 pv nx)" "length ks1 = length ks"
      "ins_at (max i ?m) k1 ks1 = KS" "ins_at (max i ?m) v1 vs1 = VS"
    using split_leaf_up_view[OF n m(1), of i k v] unfolding KS_def VS_def by blast
  have "max i ?m \<le> length ks1" "?m \<le> max i ?m" using up(3) m(1) i by auto
  from split_leaf_down_view[OF up(2) this, of k1 v1] up(3,4,5)
  obtain k2 v2 n2 ks2 vs2 where down: "split_leaf_down ?m (max i ?m) k1 v1 n1 = Inr (?m, k2, v2, n2)"
      "node_view n2 (VLeaf par ks2 vs2 pv nx)" "length ks2 = length ks"
      "ins_at ?m k2 ks2 = KS" "ins_at ?m v2 vs2 = VS"
    by metis
  from down(2) obtain d where d: "len n2 = length ks2" "length vs2 = length ks2" "holds (keys n2) M ks2"
      "node_d n2 = Leaf d" "holds (vals d) M vs2" "leaf_prev d = pv" "leaf_next d = nx" "par_ok n2 par"
    by auto
  note ks2 = ins_at_split[OF down(4)] and vs2 = ins_at_split[OF down(5)]
  have len: "len n = 8" "len n2 = 8" "length ks2 = 8" "length vs2 = 8" "length KS = 9" "length VS = 9"
    using n d l down(3) m by (auto simp: KS_def VS_def)
  have sk: "arr_slice (keys n2) 4 8 = Inr (map Some (drop 4 ks2))"
    and sv: "arr_slice (vals d) 4 8 = Inr (map Some (drop 4 vs2))"
    using arr_slice_holds[OF d(3), of 4 8] arr_slice_holds[OF d(5), of 4 8] len by simp_all
  have sk': "unsafe_copy_slice_nonoverlapping (maybe_uninit_array 8) 1 5 (map Some (drop 4 ks2)) =
      Inr (None # map Some (drop 4 ks2) @ [None, None, None])"
    and sv': "unsafe_copy_slice_nonoverlapping (maybe_uninit_array 8) 1 5 (map Some (drop 4 vs2)) =
      Inr (None # map Some (drop 4 vs2) @ [None, None, None])"
    using len by (auto simp: unsafe_copy_slice_nonoverlapping_def maybe_uninit_array_def
        arr_slice_def numeral_eq_Suc)
  let ?rks = "map Some (k2 # drop 4 ks2) @ [None, None, None]"
  let ?rvs = "map Some (v2 # drop 4 vs2) @ [None, None, None]"
  let ?r = "\<lparr>parent = None, parent_idx = None, len = 5, keys = ?rks,
     node_d = Leaf \<lparr>vals = ?rvs, leaf_prev = None, leaf_next = nx\<rparr>\<rparr>"
  have "split_leaf i k v n = Inr ((k2, ?r), n2\<lparr>len := 4\<rparr>)"
    using up(1) down(1) i l d sk sv sk' sv' len m(2,3)
    by (simp add: split_leaf_def Let_def d_leaf_def arr_set_def)
  moreover have "node_view (n2\<lparr>len := 4\<rparr>) (VLeaf par (take 4 KS) (take 4 VS) pv nx)"
    using d len ks2(1) vs2(1) m holds_take[OF d(3), of 4] holds_take[OF d(5), of 4]
    by (cases par) auto
  moreover have "k2 # drop 4 ks2 = drop 4 KS" "v2 # drop 4 vs2 = drop 4 VS" and k2: "k2 = KS ! 4"
    using ks2 vs2 len m(2) by simp_all
  then have "node_view ?r (VLeaf None (drop 4 KS) (drop 4 VS) None nx)"
    using len unfolding node_view.simps holds_def m(3) by (auto simp flip: list.map(2) append_Cons)
  ultimately show ?thesis unfolding m(2) k2 by blast
qed

end
