(* ===== verification/EdgeSpec.thy ===== *)
theory EdgeSpec
  imports NodeSpec
begin

text \<open>
  Rules for the operations that renumber children: what inserting, removing and splitting edges and
  merging siblings do to the abstract heap, the views of the moved children included.
\<close>

subsection \<open>Changing the parent link of a list of children\<close>

definition repar :: "(par \<Rightarrow> par) \<Rightarrow> ptr list \<Rightarrow> ('k, 'v) vheap \<Rightarrow> ('k, 'v) vheap" where
  "repar f es A = (\<lambda>q. if q \<in> set es then map_option (\<lambda>v. vset_par (f (vpar v)) v) (A q) else A q)"

abbreviation shift_idx :: "(nat \<Rightarrow> nat) \<Rightarrow> par \<Rightarrow> par" where
  "shift_idx f \<equiv> map_option (apsnd f)"

abbreviation new_parent :: "ptr \<Rightarrow> par \<Rightarrow> par" where
  "new_parent p \<equiv> map_option (apfst (\<lambda>_. p))"

lemma repar_Nil [simp]: "repar f [] A = A"
  by (simp add: repar_def)

lemma repar_other [simp]: "q \<notin> set es \<Longrightarrow> repar f es A q = A q"
  by (simp add: repar_def)

lemma repar_in: "q \<in> set es \<Longrightarrow> A q = Some v \<Longrightarrow> repar f es A q = Some (vset_par (f (vpar v)) v)"
  by (simp add: repar_def)

lemma repar_upd [simp]: "p \<notin> set es \<Longrightarrow> repar f es (A(p \<mapsto> v)) = (repar f es A)(p \<mapsto> v)"
  by (auto simp: repar_def)

lemma dom_repar [simp]: "dom (repar f es A) = dom A"
  by (auto simp: repar_def dom_def)

lemma repar_Cons:
  assumes "e \<notin> set es" "A e = Some v"
  shows "repar f (e # es) A = repar f es (A(e \<mapsto> vset_par (f (vpar v)) v))"
  using assms by (auto simp: repar_def fun_eq_iff)

definition is_child :: "('k, 'v) vheap \<Rightarrow> ptr \<Rightarrow> ptr \<Rightarrow> nat \<Rightarrow> bool" where
  "is_child A c p i \<longleftrightarrow> (\<exists>v. A c = Some v \<and> \<not> raw v \<and> vpar v = Some (p, i))"

lemma is_child_upd [simp]: "c \<noteq> q \<Longrightarrow> is_child (A(q \<mapsto> v)) c p i = is_child A c p i"
  by (simp add: is_child_def)

lemma is_child_repar_other [simp]: "c \<notin> set es \<Longrightarrow> is_child (repar f es A) c p i = is_child A c p i"
  by (simp add: is_child_def)

lemma runs_raw_upd:
  "A p = Some (VRaw n) \<Longrightarrow> f n = Inr n' \<Longrightarrow> Q () (A(p \<mapsto> VRaw n')) \<Longrightarrow> runs (upd_at p f) A Q"
  by (rule runs_upd_at[where v = "VRaw n" and v' = "VRaw n'"]) simp_all

lemma runs_raw_get:
  "A p = Some (VRaw n) \<Longrightarrow> f n = Inr r \<Longrightarrow> Q r A \<Longrightarrow> runs (get_at p f) A Q"
  by (rule runs_get_at[where v = "VRaw n"]) simp_all

lemma runs_raw_len: "A p = Some (VRaw n) \<Longrightarrow> Q (len n) A \<Longrightarrow> runs (len_at p) A Q"
  by (rule runs_len_at[where v = "VRaw n"]) simp_all

lemma runs_parent_idx:
  assumes "is_child A e p i" "Q (Some i) A"
  shows "runs (get_at e node_parent_idx) A Q"
  using assms unfolding is_child_def by (auto intro!: runs_get_at)

lemma runs_for_each_upd:
  assumes "distinct es"
    "\<And>e. e \<in> set es \<Longrightarrow> \<exists>v. A e = Some v \<and> node_upd g v (vset_par (f (vpar v)) v)"
    "Q () (repar f es A)"
  shows "runs (for_each es (\<lambda>e. upd_at e g)) A Q"
  using assms
proof (induction es arbitrary: A)
  case Nil
  then show ?case unfolding for_each.simps by (intro runs_ret) simp
next
  case (Cons e es)
  from Cons.prems(2)[of e] obtain v where v: "A e = Some v" "node_upd g v (vset_par (f (vpar v)) v)"
    by auto
  have e: "e \<notin> set es" "distinct es" using Cons.prems(1) by simp_all
  have "runs (for_each es (\<lambda>e. upd_at e g)) (A(e \<mapsto> vset_par (f (vpar v)) v)) Q"
  proof (rule Cons.IH[OF e(2)])
    fix c assume "c \<in> set es"
    with Cons.prems(2)[of c] e(1)
    show "\<exists>w. (A(e \<mapsto> vset_par (f (vpar v)) v)) c = Some w \<and> node_upd g w (vset_par (f (vpar w)) w)"
      by auto
  next
    show "Q () (repar f es (A(e \<mapsto> vset_par (f (vpar v)) v)))"
      using Cons.prems(3) unfolding repar_Cons[OF e(1), of A v f, OF v(1)] .
  qed
  then show ?case using v by (auto intro!: runs_bind runs_upd_at)
qed

lemma runs_for_each_idx:
  assumes "distinct es" "\<And>e. e \<in> set es \<Longrightarrow> \<exists>p i. is_child A e p i \<and> g i = Inr (f i)"
    "Q () (repar (shift_idx f) es A)"
  shows "runs (for_each es (\<lambda>e. upd_at e (map_parent_idx g))) A Q"
  using assms(1)
proof (rule runs_for_each_upd)
  fix e assume "e \<in> set es"
  from assms(2)[OF this] obtain v p i where "A e = Some v" "\<not> raw v" "vpar v = Some (p, i)" "g i = Inr (f i)"
    unfolding is_child_def by blast
  then show "\<exists>v. A e = Some v \<and> node_upd (map_parent_idx g) v (vset_par (shift_idx f (vpar v)) v)"
    using upd_map_parent_idx[of v p i g "f i"] by auto
qed (rule assms(3))

lemma runs_for_each_parent:
  assumes "distinct es" "\<And>e. e \<in> set es \<Longrightarrow> \<exists>q i. is_child A e q i" "Q () (repar (new_parent p) es A)"
  shows "runs (for_each es (\<lambda>e. upd_at e (set_parent_ptr p))) A Q"
  using assms(1)
proof (rule runs_for_each_upd)
  fix e assume "e \<in> set es"
  from assms(2)[OF this] obtain v q i where "A e = Some v" "\<not> raw v" "vpar v = Some (q, i)"
    unfolding is_child_def by blast
  then show "\<exists>v. A e = Some v \<and> node_upd (set_parent_ptr p) v (vset_par (new_parent p (vpar v)) v)"
    using upd_set_parent_ptr[of v q i p] by auto
qed (rule assms(3))

lemma runs_for_edges:
  assumes "A self = Some (VRaw n)" "node_d n = Internal t" "arr_slice (edges t) i j = Inr (map Some es)"
    "distinct es" "\<And>e. e \<in> set es \<Longrightarrow> \<exists>p i. is_child A e p i \<and> g i = Inr (f i)"
    "Q () (repar (shift_idx f) es A)"
  shows "runs (for_edges self i j g) A Q"
  unfolding for_edges_def
  by (intro runs_bind runs_raw_get[where A = A, OF assms(1), of _ es] runs_for_each_idx[OF assms(4,5)] assms(6))
     (simp add: d_internal_def assms)

subsection \<open>Inserting an edge\<close>

lemma copy_for_insert:
  assumes "holds a n xs" "i \<le> length xs" "length xs < n"
  obtains a' where
    "i < length xs \<Longrightarrow> unsafe_copy_slice_overlapping a (range_of (i + 1) (length xs + 1))
       (range_of i (length xs)) = Inr a'"
    "i = length xs \<Longrightarrow> a' = a" "length a' = n" "i < n" "holds (a'[i := Some x]) n (ins_at i x xs)"
    "arr_slice a' (i + 1) (length xs + 1) = Inr (map Some (drop i xs))"
proof -
  have slice: "arr_slice a' (i + 1) (length xs + 1) = Inr (map Some (drop i xs))"
    if "holds (a'[i := Some x]) n (ins_at i x xs)" for a'
  proof -
    have "arr_slice a' (i + 1) (length xs + 1) = arr_slice (a'[i := Some x]) (i + 1) (length xs + 1)"
      by (simp add: arr_slice_def)
    then show ?thesis using arr_slice_holds[OF that, of "i + 1" "length xs + 1"] assms
      by (simp add: ins_at_def)
  qed
  show ?thesis
  proof (cases "i < length xs")
    case True
    from copy_shift_up[OF assms(1) True assms(3), of x] slice that True show ?thesis by blast
  next
    case False
    with assms(2) have i: "i = length xs" by simp
    show ?thesis
      using that[of a] slice[of a] arr_set_end(2)[OF assms(1,3), of x] assms i holds_lengths[OF assms(1)]
      by simp
  qed
qed

lemma runs_insert_edge:
  fixes A :: "('k, 'v) vheap"
  assumes A: "A self = Some (VInt par ks es)" and idx: "idx \<le> length ks" "length ks < M"
    and ai: "ai = (if ak then idx + 1 else idx)"
    and e: "is_child A e q ai" "e \<noteq> self"
    and es: "distinct es" "self \<notin> set es"
    and ch: "\<And>c. c \<in> set (drop ai es) \<Longrightarrow> \<exists>p i. is_child A c p i \<and> i \<le> M"
    and Q: "Q () ((repar (shift_idx Suc) (drop ai es) A)
                 (self \<mapsto> VInt par (ins_at idx k ks) (ins_at ai e es)))"
  shows "runs (insert_edge self idx ak k e) A Q"
proof (rule runs_open[where p = self and A = A, OF A])
  fix n :: "('k, 'v) node" assume "node_view n (VInt par ks es)"
  then obtain t where n: "len n = length ks" "length es = length ks + 1" "holds (keys n) M ks"
    "node_d n = Internal t" "holds (edges t) (M + 1) es" "par_ok n par" by auto
  let ?l = "length ks"
  obtain ka where ka: "idx < ?l \<Longrightarrow> unsafe_copy_slice_overlapping (keys n) (range_of (idx + 1) (?l + 1))
       (range_of idx ?l) = Inr ka" "idx = ?l \<Longrightarrow> ka = keys n" "length ka = M" "idx < M"
       "holds (ka[idx := Some k]) M (ins_at idx k ks)"
    by (rule copy_for_insert[OF n(3) idx, of k]) blast
  have ai': "ai \<le> length es" "length es < M + 1" using n(2) idx ai by auto
  obtain ea where ea: "ai < ?l + 1 \<Longrightarrow> unsafe_copy_slice_overlapping (edges t) (range_of (ai + 1) (?l + 2))
       (range_of ai (?l + 1)) = Inr ea" "ai = ?l + 1 \<Longrightarrow> ea = edges t" "length ea = M + 1" "ai < M + 1"
       "holds (ea[ai := Some e]) (M + 1) (ins_at ai e es)"
       "arr_slice ea (ai + 1) (?l + 2) = Inr (map Some (drop ai es))"
    by (rule copy_for_insert[OF n(5) ai', of e]) (simp add: n(2))
  let ?A = "A(self \<mapsto> VRaw n)"
  let ?n1 = "n\<lparr>keys := ka\<rparr>" and ?n2 = "n\<lparr>keys := ka, node_d := Internal (t\<lparr>edges := ea\<rparr>)\<rparr>"
  let ?R = "repar (shift_idx Suc) (drop ai es)"
  let ?n3 = "?n2\<lparr>keys := ka[idx := Some k]\<rparr>"
  let ?n4 = "?n3\<lparr>node_d := Internal (t\<lparr>edges := ea[ai := Some e]\<rparr>)\<rparr>"
  have self: "self \<notin> set (drop ai es)" using es(2) by (meson in_set_dropD)
  have u16: "u16_add ?l 1 = Inr (?l + 1)" using idx by (simp add: M_def)
  have v: "node_view (?n4\<lparr>len := ?l + 1\<rparr>) (VInt par (ins_at idx k ks) (ins_at ai e es))"
    using n ka(5) ea(5) by (cases par) auto
  have keys: "runs (if idx < ?l
            then upd_at self (\<lambda>n.
                   bindR (unsafe_copy_slice_overlapping (keys n)
                            (range_of (idx + 1) (?l + 1)) (range_of idx ?l)) (\<lambda>ks.
                   Inr (n\<lparr>keys := ks\<rparr>)))
            else ret ()) ?A (\<lambda>_ B. B = A(self \<mapsto> VRaw ?n1))"
  proof (rule runs_if)
    assume "idx < ?l"
    with ka(1) show "runs (upd_at self (\<lambda>n.
                   bindR (unsafe_copy_slice_overlapping (keys n)
                            (range_of (idx + 1) (?l + 1)) (range_of idx ?l)) (\<lambda>ks.
                   Inr (n\<lparr>keys := ks\<rparr>)))) ?A (\<lambda>_ B. B = A(self \<mapsto> VRaw ?n1))"
      by (intro runs_raw_upd[where n = n and n' = ?n1]) simp_all
  next
    assume "\<not> idx < ?l"
    with ka(2) idx(1) show "runs (ret ()) ?A (\<lambda>_ B. B = A(self \<mapsto> VRaw ?n1))"
      by (intro runs_ret) simp
  qed
  have ch': "\<exists>p i. is_child (A(self \<mapsto> m)) c p i \<and> u16_add i 1 = Inr (Suc i)" if "c \<in> set (drop ai es)" for c m
  proof -
    from that self have "c \<noteq> self" by auto
    moreover from ch[OF that] obtain p i where "is_child A c p i" "i \<le> M" by blast
    ultimately have "is_child (A(self \<mapsto> m)) c p i \<and> u16_add i 1 = Inr (Suc i)"
      by (simp add: M_def)
    then show ?thesis by blast
  qed
  have edges: "runs (if ai < ?l + 1
            then bindP (upd_at self (d_internal_mut (\<lambda>t.
                          bindR (unsafe_copy_slice_overlapping (edges t)
                                   (range_of (ai + 1) (?l + 2)) (range_of ai (?l + 1))) (\<lambda>es.
                          Inr (t\<lparr>edges := es\<rparr>))))) (\<lambda>_.
                 for_edges self (ai + 1) (?l + 2) (\<lambda>i. u16_add i 1))
            else ret ()) (A(self \<mapsto> VRaw ?n1)) (\<lambda>_ B. B = (?R A)(self \<mapsto> VRaw ?n2))"
  proof (rule runs_if)
    assume lt: "ai < ?l + 1"
    show "runs (bindP (upd_at self (d_internal_mut (\<lambda>t.
                          bindR (unsafe_copy_slice_overlapping (edges t)
                                   (range_of (ai + 1) (?l + 2)) (range_of ai (?l + 1))) (\<lambda>es.
                          Inr (t\<lparr>edges := es\<rparr>))))) (\<lambda>_.
                 for_edges self (ai + 1) (?l + 2) (\<lambda>i. u16_add i 1))) (A(self \<mapsto> VRaw ?n1))
                 (\<lambda>_ B. B = (?R A)(self \<mapsto> VRaw ?n2))"
      apply (rule runs_bind, rule runs_raw_upd[where n = ?n1 and n' = ?n2], simp)
      using ea(1)[OF lt] n(4) apply (simp add: d_internal_mut_def d_internal_def)
      apply (rule runs_for_edges[where n = ?n2 and t = "t\<lparr>edges := ea\<rparr>" and
            es = "drop ai es" and f = Suc, OF _ _ _ distinct_drop[OF es(1)]])
      using ea(6) ch' self by (simp_all del: set_drop_subset)
  next
    assume "\<not> ai < ?l + 1"
    then have "ai = ?l + 1" using ai' n(2) by simp
    then show "runs (ret ()) (A(self \<mapsto> VRaw ?n1)) (\<lambda>_ B. B = (?R A)(self \<mapsto> VRaw ?n2))"
      using ea(2) n(2,4) by (intro runs_ret) (cases n, cases t, simp)
  qed
  show "runs (insert_edge self idx ak k e) ?A Q"
    unfolding insert_edge_def Let_def ai[symmetric]
    apply (rule runs_bind, rule runs_raw_len[where n = n], simp)
    apply (rule runs_bind, rule runs_assert, simp add: n idx)
    apply (rule runs_bind, rule runs_assert, simp add: n idx)
    apply (rule runs_bind, rule runs_parent_idx[where i = ai and p = q], simp add: e)
    apply (rule runs_bind, rule runs_assert, simp)
    apply (rule runs_bind, unfold n(1), rule runs_conseq[OF keys], erule ssubst)
    apply (rule runs_bind, rule runs_conseq[OF edges], erule ssubst)
    apply (rule runs_bind, rule runs_raw_upd[where n = ?n2 and n' = ?n3], simp)
     apply (simp add: arr_set_def ka)
    apply (rule runs_bind, rule runs_raw_upd[where n = ?n3 and n' = ?n4], simp)
     using ea(4) apply (simp add: arr_set_def ea(3) d_internal_mut_def d_internal_def)
    apply (rule runs_upd_at[where v = "VRaw ?n4" and
          v' = "VInt par (ins_at idx k ks) (ins_at ai e es)"], simp)
    using v u16 n(1) apply (simp del: node_view.simps(1,2))
    using Q by (simp only: fun_upd_upd)
qed

subsection \<open>The first edge of a new root\<close>

lemma runs_set_last_edge_new:
  fixes A :: "('k, 'v) vheap"
  assumes A: "A self = Some (VRaw internal_node)" and e: "is_child A e q 0" "e \<noteq> self"
    and Q: "Q () (A(self \<mapsto> VInt None [] [e]))"
  shows "runs (set_last_edge self e) A Q"
proof -
  let ?n = "internal_node\<lparr>node_d := Internal \<lparr>edges = (maybe_uninit_array (M + 1))[0 := Some e]\<rparr>\<rparr>
     :: ('k, 'v) node"
  have v: "node_view ?n (VInt None [] [e])"
    by (simp add: internal_node_def holds_def maybe_uninit_array_def M_def numeral_eq_Suc)
  show ?thesis
    unfolding set_last_edge_def
    apply (rule runs_bind, rule runs_raw_len[where A = A, OF A])
    apply (rule runs_bind, rule runs_parent_idx[OF e(1)])
    apply (rule runs_bind, rule runs_assert, simp add: internal_node_def)
    apply (rule runs_upd_at[where A = A and v = "VRaw internal_node" and v' = "VInt None [] [e]", OF A])
    using v apply (simp add: d_internal_mut_def d_internal_def arr_set_def internal_node_def
        maybe_uninit_array_def del: node_view.simps(1,2))
    by (rule Q)
qed

subsection \<open>Removing an edge\<close>

lemma copy_for_remove:
  assumes "holds a n xs" "i < length xs"
  obtains a' where
    "i + 1 < length xs \<Longrightarrow> unsafe_copy_slice_overlapping a (range_of i (length xs - 1))
       (range_of (i + 1) (length xs)) = Inr a'"
    "i + 1 = length xs \<Longrightarrow> a' = a" "holds a' n (del_at i xs)"
    "arr_slice a' i (length xs - 1) = Inr (map Some (drop (i + 1) xs))"
proof -
  have slice: "arr_slice a' i (length xs - 1) = Inr (map Some (drop (i + 1) xs))"
    if "holds a' n (del_at i xs)" for a'
    using arr_slice_holds[OF that, of i "length xs - 1"] assms(2) by (simp add: del_at_def)
  show ?thesis
  proof (cases "i + 1 < length xs")
    case True
    obtain a' where a': "unsafe_copy_slice_overlapping a (range_of i (length xs - 1))
        (range_of (i + 1) (length xs)) = Inr a'" "holds a' n (del_at i xs)"
      by (rule copy_shift_down[OF assms(1) True])
    show ?thesis by (rule that[OF a'(1) _ a'(2) slice[OF a'(2)]]) (use True in simp)
  next
    case False
    then have i: "i + 1 = length xs" using assms(2) by simp
    show ?thesis
      by (rule that[OF _ _ holds_del_last[OF assms(1) i] slice[OF holds_del_last[OF assms(1) i]]])
        (use i in simp_all)
  qed
qed

lemma runs_remove_edge:
  fixes A :: "('k, 'v) vheap"
  assumes A: "A self = Some (VInt par ks es)" and idx: "idx < length ks" and es_len: "length es = length ks + 1"
    and ei: "ei = (if ak then idx + 1 else idx)"
    and e: "is_child A (es ! ei) q ei"
    and es: "distinct es" "self \<notin> set es"
    and ch: "\<And>c. c \<in> set (drop (ei + 1) es) \<Longrightarrow> \<exists>p i. is_child A c p i \<and> 1 \<le> i"
    and Q: "Q (ks ! idx, es ! ei) ((repar (shift_idx (\<lambda>i. i - 1)) (drop (ei + 1) es) A)
                 (self \<mapsto> VInt par (del_at idx ks) (del_at ei es)))"
  shows "runs (remove_edge self idx ak) A Q"
proof (rule runs_open[where p = self and A = A, OF A])
  fix n :: "('k, 'v) node" assume nv: "node_view n (VInt par ks es)"
  then obtain t where n: "len n = length ks" "length es = length ks + 1" "holds (keys n) M ks"
    "node_d n = Internal t" "holds (edges t) (M + 1) es" "par_ok n par" by auto
  let ?l = "length ks"
  obtain ka where ka: "idx + 1 < ?l \<Longrightarrow> unsafe_copy_slice_overlapping (keys n) (range_of idx (?l - 1))
       (range_of (idx + 1) ?l) = Inr ka" "idx + 1 = ?l \<Longrightarrow> ka = keys n" "holds ka M (del_at idx ks)"
    by (rule copy_for_remove[OF n(3) idx]) blast
  have ei': "ei < length es" using n(2) idx ei by auto
  obtain ea where ea: "ei < ?l \<Longrightarrow> unsafe_copy_slice_overlapping (edges t) (range_of ei ?l)
       (range_of (ei + 1) (?l + 1)) = Inr ea" "ei = ?l \<Longrightarrow> ea = edges t" "holds ea (M + 1) (del_at ei es)"
       "arr_slice ea ei ?l = Inr (map Some (drop (ei + 1) es))"
    by (rule copy_for_remove[OF n(5) ei']) (simp add: n(2))
  let ?A = "A(self \<mapsto> VRaw n)" and ?R = "repar (shift_idx (\<lambda>i. i - 1)) (drop (ei + 1) es)"
  let ?n1 = "n\<lparr>keys := ka\<rparr>" and ?n2 = "n\<lparr>keys := ka, node_d := Internal (t\<lparr>edges := ea\<rparr>)\<rparr>"
  have self: "self \<notin> set (drop (ei + 1) es)" "es ! ei \<noteq> self"
    using es(2) ei' by (meson in_set_dropD, metis nth_mem)
  have v: "node_view (?n2\<lparr>len := ?l - 1\<rparr>) (VInt par (del_at idx ks) (del_at ei es))"
    using n ka(3) ea(3) idx ei' by (cases par) auto
  have keys: "runs (if idx + 1 < ?l
            then upd_at self (\<lambda>n.
                   bindR (unsafe_copy_slice_overlapping (keys n)
                            (range_of idx (?l - 1)) (range_of (idx + 1) ?l)) (\<lambda>ks.
                   Inr (n\<lparr>keys := ks\<rparr>)))
            else ret ()) ?A (\<lambda>_ B. B = A(self \<mapsto> VRaw ?n1))"
  proof (rule runs_if)
    assume "idx + 1 < ?l"
    with ka(1) show "runs (upd_at self (\<lambda>n.
                   bindR (unsafe_copy_slice_overlapping (keys n)
                            (range_of idx (?l - 1)) (range_of (idx + 1) ?l)) (\<lambda>ks.
                   Inr (n\<lparr>keys := ks\<rparr>)))) ?A (\<lambda>_ B. B = A(self \<mapsto> VRaw ?n1))"
      by (intro runs_raw_upd[where n = n and n' = ?n1]) simp_all
  next
    assume "\<not> idx + 1 < ?l"
    with ka(2) idx show "runs (ret ()) ?A (\<lambda>_ B. B = A(self \<mapsto> VRaw ?n1))"
      by (intro runs_ret) simp
  qed
  have ch': "\<exists>p i. is_child (A(self \<mapsto> m)) c p i \<and> nat_sub i 1 = Inr (i - 1)"
    if "c \<in> set (drop (ei + 1) es)" for c m
  proof -
    from that self have "c \<noteq> self" by auto
    moreover from ch[OF that] obtain p i where "is_child A c p i" "1 \<le> i" by blast
    ultimately have "is_child (A(self \<mapsto> m)) c p i \<and> nat_sub i 1 = Inr (i - 1)" by simp
    then show ?thesis by blast
  qed
  have edges: "runs (if ei < ?l
            then bindP (upd_at self (d_internal_mut (\<lambda>t.
                          bindR (unsafe_copy_slice_overlapping (edges t)
                                   (range_of ei ?l) (range_of (ei + 1) (?l + 1))) (\<lambda>es.
                          Inr (t\<lparr>edges := es\<rparr>))))) (\<lambda>_.
                 for_edges self ei ?l (\<lambda>i. nat_sub i 1))
            else ret ()) (A(self \<mapsto> VRaw ?n1)) (\<lambda>_ B. B = (?R A)(self \<mapsto> VRaw ?n2))"
  proof (rule runs_if)
    assume lt: "ei < ?l"
    show "runs (bindP (upd_at self (d_internal_mut (\<lambda>t.
                          bindR (unsafe_copy_slice_overlapping (edges t)
                                   (range_of ei ?l) (range_of (ei + 1) (?l + 1))) (\<lambda>es.
                          Inr (t\<lparr>edges := es\<rparr>))))) (\<lambda>_.
                 for_edges self ei ?l (\<lambda>i. nat_sub i 1))) (A(self \<mapsto> VRaw ?n1))
                 (\<lambda>_ B. B = (?R A)(self \<mapsto> VRaw ?n2))"
      apply (rule runs_bind, rule runs_raw_upd[where n = ?n1 and n' = ?n2], simp)
      using ea(1)[OF lt] n(4) apply (simp add: d_internal_mut_def d_internal_def)
      apply (rule runs_for_edges[where n = ?n2 and t = "t\<lparr>edges := ea\<rparr>" and
            es = "drop (ei + 1) es" and f = "\<lambda>i. i - 1", OF _ _ _ distinct_drop[OF es(1)]])
      using ea(4) ch' self(1) by (simp_all del: set_drop_subset)
  next
    assume "\<not> ei < ?l"
    then have "ei = ?l" using ei' n(2) by simp
    then show "runs (ret ()) (A(self \<mapsto> VRaw ?n1)) (\<lambda>_ B. B = (?R A)(self \<mapsto> VRaw ?n2))"
      using ea(2) n(2,4) by (intro runs_ret) (cases n, cases t, simp)
  qed
  show "runs (remove_edge self idx ak) ?A Q"
    unfolding remove_edge_def Let_def ei[symmetric]
    apply (rule runs_bind, rule runs_raw_len[where n = n], simp)
    apply (rule runs_bind, rule runs_assert, simp add: n idx)
    apply (rule runs_bind, rule runs_assert, use n idx in force)
    apply (rule runs_bind, rule runs_raw_get[where n = n and r = "es ! ei"], simp)
    using edge_view[OF nv, of ei] ei' n(2) apply simp
    apply (rule runs_bind, rule runs_parent_idx[where i = ei and p = q])
    using e self(2) apply simp
    apply (rule runs_bind, rule runs_assert, simp)
    apply (rule runs_bind, rule runs_raw_get[where n = n and r = "ks ! idx"], simp)
    using n(3) idx apply simp
    apply (rule runs_bind, rule runs_raw_get[where n = n and r = "es ! ei"], simp)
    using n(4,5) ei' apply (simp add: d_internal_def)
    apply (rule runs_bind, unfold n(1), rule runs_conseq[OF keys], erule ssubst)
    apply (rule runs_bind, rule runs_conseq[OF edges], erule ssubst)
    apply (rule runs_bind, rule runs_upd_at[where v = "VRaw ?n2" and
          v' = "VInt par (del_at idx ks) (del_at ei es)"], simp)
    using v n(1) idx apply (simp del: node_view.simps(1,2))
    apply (rule runs_ret)
    using Q by (simp only: fun_upd_upd)
qed

lemma runs_remove_last_edge:
  fixes A :: "('k, 'v) vheap"
  assumes A: "A self = Some (VInt par ks es)" and len: "ks \<noteq> []" "length es = length ks + 1"
    and e: "is_child A (last es) q (length ks)" "last es \<noteq> self"
    and Q: "Q (last ks, last es) (A(self \<mapsto> VInt par (butlast ks) (butlast es)))"
  shows "runs (remove_last_edge self) A Q"
proof (rule runs_open[where p = self and A = A, OF A])
  fix n :: "('k, 'v) node" assume nv: "node_view n (VInt par ks es)"
  then obtain t where n: "len n = length ks" "length es = length ks + 1" "holds (keys n) M ks"
    "node_d n = Internal t" "holds (edges t) (M + 1) es" "par_ok n par" by auto
  have es_last: "last es = es ! length ks" "last ks = ks ! (length ks - 1)"
    using len by (simp_all add: last_conv_nth) (metis last_conv_nth add_diff_cancel_right' length_0_conv
        nat.simps(3) Suc_eq_plus1)
  have v: "node_view (n\<lparr>len := length ks - 1\<rparr>) (VInt par (butlast ks) (butlast es))"
    using n len holds_take[OF n(3), of "length ks - 1"] holds_take[OF n(5), of "length ks"]
    by (cases par) (auto simp: butlast_conv_take)
  have pos: "0 < length ks" using len by simp
  show "runs (remove_last_edge self) (A(self \<mapsto> VRaw n)) Q"
    unfolding remove_last_edge_def
    apply (rule runs_bind, rule runs_raw_len[where n = n], simp)
    apply (rule runs_bind, rule runs_assert, use n pos in simp)
    apply (rule runs_bind, rule runs_raw_get[where n = n and r = "last es"], simp)
    using edge_view[OF nv, of "length ks"] n(1) es_last apply simp
    apply (rule runs_bind, rule runs_parent_idx[where i = "length ks" and p = q])
    using e apply simp
    apply (rule runs_bind, rule runs_assert, simp add: n)
    apply (rule runs_bind, rule runs_raw_get[where n = n and r = "last ks"], simp)
    using n(1,3) pos es_last apply (simp add: Suc_le_eq)
    apply (rule runs_bind, rule runs_raw_get[where n = n and r = "last es"], simp)
    using n len es_last apply (simp add: d_internal_def)
    apply (rule runs_bind, rule runs_upd_at[where v = "VRaw n" and
          v' = "VInt par (butlast ks) (butlast es)"], simp)
    using v n(1) pos apply (simp add: Suc_le_eq del: node_view.simps(1,2))
    apply (rule runs_ret)
    using Q by (simp only: fun_upd_upd)
qed

end
