(* ===== verification/MergeSpec.thy ===== *)
theory MergeSpec
  imports EdgeSpec
begin

text \<open>
  Rules for the four merges of sibling nodes: the surviving node shows the concatenation of both
  nodes, with the separator of the parent between the keys of internal nodes.
\<close>

subsection \<open>Making room on the left\<close>

lemma copy_right:
  assumes "holds a n xs" "d + length xs \<le> n"
  obtains ys zs where
    "unsafe_copy_slice_overlapping a (range_of d (d + length xs)) (range_to (length xs)) =
       Inr (ys @ map Some xs @ zs)" "length ys = d" "d + length xs + length zs = n"
proof -
  have len: "length a = n" using assms(1) by (simp add: holds_lengths)
  have "take (length xs) a = map Some xs" using assms(1) by (auto simp: holds_def)
  then have "unsafe_copy_slice_overlapping a (range_of d (d + length xs)) (range_to (length xs)) =
      Inr (take d a @ map Some xs @ drop (d + length xs) a)"
    using copy_overlapping(2)[of 0 "length xs" a d] assms(2) len by simp
  then show ?thesis by (rule that) (use len assms(2) in simp_all)
qed

lemma blit_front:
  assumes "length ys = length ws"
  shows "unsafe_copy_slice_nonoverlapping (ys @ rest) 0 (length ws) ws = Inr (ws @ rest)"
  using assms by (simp add: unsafe_copy_slice_nonoverlapping_def arr_slice_def)

lemma slice_all: "holds a n xs \<Longrightarrow> arr_slice a 0 (length xs) = Inr (map Some xs)"
  by (simp add: arr_slice_holds)

subsection \<open>Leaves\<close>

lemma runs_assert_siblings:
  assumes "A l = Some lv" "\<not> raw lv" "vpar lv = Some (p, i)"
    "A r = Some rv" "\<not> raw rv" "vpar rv = Some (p, i + 1)" "Q () A"
  shows "runs (assert_siblings l r) A Q"
  unfolding assert_siblings_def
proof (intro runs_bind runs_deref[where A = A, OF assms(1)] runs_deref[where A = A, OF assms(4)])
  fix ln rn assume l: "node_view ln lv" and r: "node_view rn rv"
  have "parent ln = parent rn"
    using node_view_par[OF l assms(2)] node_view_par[OF r assms(5)] assms(3,6) by simp
  then show "runs (assertP (parent ln = parent rn)) A (\<lambda>_ A. runs
      (bindP (liftP (bindR (node_parent_idx ln) unwrapR)) (\<lambda>li.
       bindP (liftP (bindR (node_parent_idx rn) unwrapR)) (\<lambda>ri. assertP (li + 1 = ri)))) A Q)"
    using l r assms by (intro runs_assert runs_bind runs_lift) (auto intro!: runs_assert)
qed

lemma absorb_prev_leaf_view:
  assumes nv: "node_view n (VLeaf par ks vs (Some prev) nx)"
    and pv: "node_view pn (VLeaf ppar pks pvs ppv pnx)"
    and len: "length pks + length ks \<le> M"
  shows "\<exists>n'. absorb_prev_leaf pn (length pks + length ks) n = Inr n' \<and>
    node_view n' (VLeaf par (pks @ ks) (pvs @ vs) ppv nx)"
proof -
  from nv obtain l where n: "len n = length ks" "length vs = length ks" "holds (keys n) M ks"
      "node_d n = Leaf l" "holds (vals l) M vs" "leaf_next l = nx" "par_ok n par"
    by auto
  from pv obtain pl where pl: "len pn = length pks" "length pvs = length pks" "holds (keys pn) M pks"
      "node_d pn = Leaf pl" "holds (vals pl) M pvs" "leaf_prev pl = ppv"
    by auto
  obtain ys zs where c1: "unsafe_copy_slice_overlapping (keys n)
      (range_of (length pks) (length pks + length ks)) (range_to (length ks)) =
      Inr (ys @ map Some ks @ zs)" "length ys = length pks" "length pks + length ks + length zs = M"
    by (rule copy_right[OF n(3) len])
  have "length pvs + length vs \<le> M" using len n pl by simp
  then obtain ys' zs' where c2: "unsafe_copy_slice_overlapping (vals l)
      (range_of (length pvs) (length pvs + length vs)) (range_to (length vs)) =
      Inr (ys' @ map Some vs @ zs')" "length ys' = length pvs" "length pvs + length vs + length zs' = M"
    by (rule copy_right[OF n(5)])
  note b1 = blit_front[of ys "map Some pks" "map Some ks @ zs"]
    and b2 = blit_front[of ys' "map Some pvs" "map Some vs @ zs'"]
    and s1 = slice_all[OF pl(3)] and s2 = slice_all[OF pl(5)]
  show ?thesis
    using n pl c1 c2 b1 b2 s1 s2 pv
    by (cases par) (simp_all add: absorb_prev_leaf_def d_leaf_def node_prev_def holds_def par_ok_def)
qed

lemma absorb_next_leaf_view:
  assumes nv: "node_view n (VLeaf par ks vs pv nx)"
    and nn: "node_view nn (VLeaf npar nks nvs npv nnx)"
    and len: "length ks + length nks \<le> M"
  shows "\<exists>n'. absorb_next_leaf nn (length ks + length nks) n = Inr n' \<and>
    node_view n' (VLeaf par (ks @ nks) (vs @ nvs) pv nnx)"
proof -
  from nv obtain l where n: "len n = length ks" "length vs = length ks" "holds (keys n) M ks"
      "node_d n = Leaf l" "holds (vals l) M vs" "leaf_prev l = pv" "par_ok n par"
    by auto
  from nn obtain nl where nl: "len nn = length nks" "length nvs = length nks" "holds (keys nn) M nks"
      "node_d nn = Leaf nl" "holds (vals nl) M nvs" "leaf_next nl = nnx"
    by auto
  obtain ks' where k: "unsafe_copy_slice_nonoverlapping (keys n) (length ks) (length ks + length nks)
      (map Some nks) = Inr ks'" "holds ks' M (ks @ nks)"
    using copy_nonoverlapping[OF n(3) order.refl len refl] by auto
  have "length vs + length nvs \<le> M" using len n nl by simp
  then obtain vs' where w: "unsafe_copy_slice_nonoverlapping (vals l) (length vs) (length vs + length nvs)
      (map Some nvs) = Inr vs'" "holds vs' M (vs @ nvs)"
    using copy_nonoverlapping[OF n(5) order.refl _ refl] by auto
  note s1 = slice_all[OF nl(3)] and s2 = slice_all[OF nl(5)]
  show ?thesis
    using n nl k w s1 s2
    by (cases par) (simp_all add: absorb_next_leaf_def d_leaf_def node_next_def par_ok_def)
qed

lemma runs_merge_prev_leaf:
  fixes A :: "('k, 'v) vheap"
  assumes A: "A self = Some (VLeaf (Some (p, i + 1)) ks vs (Some prev) nx)"
    and P: "A prev = Some (VLeaf (Some (p, i)) pks pvs ppv pnx)"
    and len: "length pks + length ks \<le> M"
    and Q: "Q () (A(self \<mapsto> VLeaf (Some (p, i + 1)) (pks @ ks) (pvs @ vs) ppv nx))"
  shows "runs (merge_prev_leaf self prev) A Q"
proof -
  have u16: "u16_add (length pks) (length ks) = Inr (length pks + length ks)"
    using len by (simp add: M_def)
  show ?thesis
    unfolding merge_prev_leaf_def
    apply (rule runs_bind, rule runs_get_at[where A = A, OF A node_prev_view])
     apply assumption
    apply (rule runs_bind, rule runs_assert, simp)
    apply (rule runs_bind, rule runs_assert_siblings[where A = A, OF P _ _ A];
        (simp only: raw.simps vpar.simps not_False_eq_True)?)
    apply (rule runs_bind, rule runs_deref[where A = A, OF P])
    apply (rule runs_bind, rule runs_get_at[where A = A and r = "length pks + length ks", OF A])
    using u16 apply (simp add: node_view_len)
    apply (rule runs_bind, rule runs_assert, rule len)
    apply (rule runs_upd_at[where A = A, OF A])
     apply (unfold node_upd_def, intro allI impI, erule (1) absorb_prev_leaf_view[OF _ _ len])
    by (rule Q)
qed

lemma runs_merge_next_leaf:
  fixes A :: "('k, 'v) vheap"
  assumes A: "A self = Some (VLeaf (Some (p, i)) ks vs pv (Some next'))"
    and N: "A next' = Some (VLeaf (Some (p, i + 1)) nks nvs npv nnx)"
    and len: "length ks + length nks \<le> M"
    and Q: "Q () (A(self \<mapsto> VLeaf (Some (p, i)) (ks @ nks) (vs @ nvs) pv nnx))"
  shows "runs (merge_next_leaf self next') A Q"
proof -
  have u16: "u16_add (length ks) (length nks) = Inr (length ks + length nks)"
    using len by (simp add: M_def)
  show ?thesis
    unfolding merge_next_leaf_def
    apply (rule runs_bind, rule runs_get_at[where A = A, OF A node_next_view])
     apply assumption
    apply (rule runs_bind, rule runs_assert, simp)
    apply (rule runs_bind, rule runs_assert_siblings[where A = A, OF A _ _ N];
        (simp only: raw.simps vpar.simps not_False_eq_True)?)
    apply (rule runs_bind, rule runs_deref[where A = A, OF N])
    apply (rule runs_bind, rule runs_get_at[where A = A and r = "length ks + length nks", OF A])
    using u16 apply (simp add: node_view_len)
    apply (rule runs_bind, rule runs_assert, rule len)
    apply (rule runs_upd_at[where A = A, OF A])
     apply (unfold node_upd_def, intro allI impI, erule (1) absorb_next_leaf_view[OF _ _ len])
    by (rule Q)
qed

subsection \<open>Internal nodes\<close>

lemma runs_merge_prev_internal:
  fixes A :: "('k, 'v) vheap"
  assumes A: "A self = Some (VInt (Some (p, i + 1)) ks es)"
    and P: "A prev = Some (VInt (Some (p, i)) pks pes)"
    and len: "length pks + length ks < M"
    and es: "distinct es" "self \<notin> set es"
    and ch: "\<And>c. c \<in> set es \<Longrightarrow> \<exists>q j. is_child A c q j \<and> j \<le> M"
    and Q: "Q () ((repar (shift_idx (\<lambda>j. j + (length pks + 1))) es A)
                 (self \<mapsto> VInt (Some (p, i + 1)) (pks @ mk # ks) (pes @ es)))"
  shows "runs (merge_prev_internal self mk prev) A Q"
proof (rule runs_conseq[where P = "\<lambda>_ B. B = (repar (shift_idx (\<lambda>j. j + (length pks + 1))) es A)
                 (self \<mapsto> VInt (Some (p, i + 1)) (pks @ mk # ks) (pes @ es))"])
  let ?l = "length ks" and ?pl = "length pks"
  let ?R = "repar (shift_idx (\<lambda>j. j + (?pl + 1))) es"
  let ?V = "VInt (Some (p, i + 1)) (pks @ mk # ks) (pes @ es)"
  have M8: "M = 8" by (simp add: M_def)
  have deref: "runs (bindP (deref prev) (\<lambda>pn.
     bindP (len_at self) (\<lambda>l.
     bindP (liftP (u16_add (len pn) l)) (\<lambda>sum.
     bindP (assertP (sum < M)) (\<lambda>_.
     bindP (liftP (u16_add sum 1)) (\<lambda>new_len.
     bindP (upd_at self (make_room_internal (len pn) new_len)) (\<lambda>_.
     bindP (for_edges self (len pn + 1) (new_len + 1)
              (\<lambda>i. bindR (u16_add (len pn) 1) (u16_add i))) (\<lambda>_.
     upd_at self (absorb_prev_internal mk pn new_len))))))))) A (\<lambda>_ B. B = (?R A)(self \<mapsto> ?V))"
  proof (rule runs_bind, rule runs_deref[where A = A, OF P],
      rule runs_open[where p = self and A = A, OF A])
    fix pn n :: "('k, 'v) node"
    assume "node_view pn (VInt (Some (p, i)) pks pes)" and "node_view n (VInt (Some (p, i + 1)) ks es)"
    then obtain pt t where pn: "len pn = ?pl" "length pes = ?pl + 1" "holds (keys pn) M pks"
        "node_d pn = Internal pt" "holds (edges pt) (M + 1) pes"
      and n: "len n = ?l" "length es = ?l + 1" "holds (keys n) M ks"
        "node_d n = Internal t" "holds (edges t) (M + 1) es" "parent n = Some p" "parent_idx n = Some (i + 1)"
      by auto
    have le: "?pl + 1 + length ks \<le> M" "?pl + 1 + length es \<le> M + 1" using len n(2) by simp_all
    obtain ys zs where k: "unsafe_copy_slice_overlapping (keys n)
        (range_of (?pl + 1) (?pl + 1 + length ks)) (range_to (length ks)) = Inr (ys @ map Some ks @ zs)"
        "length ys = ?pl + 1" "?pl + 1 + length ks + length zs = M"
      by (rule copy_right[OF n(3) le(1)])
    obtain ys' zs' where e: "unsafe_copy_slice_overlapping (edges t)
        (range_of (?pl + 1) (?pl + 1 + length es)) (range_to (length es)) = Inr (ys' @ map Some es @ zs')"
        "length ys' = ?pl + 1" "?pl + 1 + length es + length zs' = M + 1"
      by (rule copy_right[OF n(5) le(2)])
    obtain y1 y where y: "ys = y1 @ [y]" "length y1 = ?pl"
      using k(2) by (cases ys rule: rev_cases) auto
    let ?n1 = "n\<lparr>keys := ys @ map Some ks @ zs, node_d := Internal (t\<lparr>edges := ys' @ map Some es @ zs'\<rparr>)\<rparr>"
    let ?A = "A(self \<mapsto> VRaw n)"
    have up: "make_room_internal ?pl (?pl + ?l + 1) n = Inr ?n1"
      using k(1) e(1) n(1,2,4) by (simp add: make_room_internal_def d_internal_mut_def d_internal_def)
    have slice: "arr_slice (ys' @ map Some es @ zs') (?pl + 1) (?pl + ?l + 1 + 1) = Inr (map Some es)"
      using e(2,3) n(2) by (simp add: arr_slice_def)
    have ch': "\<exists>q j. is_child (A(self \<mapsto> m)) c q j \<and>
        bindR (u16_add ?pl 1) (u16_add j) = Inr (j + (?pl + 1))" if "c \<in> set es" for c m
    proof -
      from ch[OF that] obtain q j where "is_child A c q j" "j \<le> M" by blast
      moreover have "c \<noteq> self" using that es(2) by auto
      ultimately show ?thesis using len M8 by (intro exI[of _ q] exI[of _ j]) simp
    qed
    have fin: "\<exists>n'. absorb_prev_internal mk pn (?pl + ?l + 1) ?n1 = Inr n' \<and> node_view n' ?V"
      using pn n k e y blit_front[of y1 "map Some pks" "y # map Some ks @ zs"]
        blit_front[of ys' "map Some pes" "map Some es @ zs'"] slice_all[OF pn(3)] slice_all[OF pn(5)]
      by (simp add: absorb_prev_internal_def d_internal_mut_def d_internal_def arr_set_def holds_def
          list_update_append)
    show "runs (bindP (len_at self) (\<lambda>l.
       bindP (liftP (u16_add (len pn) l)) (\<lambda>sum.
       bindP (assertP (sum < M)) (\<lambda>_.
       bindP (liftP (u16_add sum 1)) (\<lambda>new_len.
       bindP (upd_at self (make_room_internal (len pn) new_len)) (\<lambda>_.
       bindP (for_edges self (len pn + 1) (new_len + 1)
                (\<lambda>i. bindR (u16_add (len pn) 1) (u16_add i))) (\<lambda>_.
       upd_at self (absorb_prev_internal mk pn new_len)))))))) ?A (\<lambda>_ B. B = (?R A)(self \<mapsto> ?V))"
      unfolding pn(1)
      apply (rule runs_bind, rule runs_raw_len[where n = n], simp)
      apply (rule runs_bind, rule runs_lift[where a = "?pl + ?l"], use len M8 n(1) in simp)
      apply (rule runs_bind, rule runs_assert, rule len)
      apply (rule runs_bind, rule runs_lift[where a = "?pl + ?l + 1"], use len M8 in simp)
      apply (rule runs_bind, rule runs_raw_upd[where n = n and n' = ?n1], simp, rule up)
      apply (rule runs_bind, rule runs_for_edges[where n = ?n1 and
            t = "t\<lparr>edges := ys' @ map Some es @ zs'\<rparr>" and es = es and f = "\<lambda>j. j + (?pl + 1)"])
      apply (simp, simp, use slice in simp, rule es(1), simp only: fun_upd_upd, erule ch')
      apply (rule runs_upd_at[where v = "VRaw ?n1" and v' = ?V])
      using fin es(2) by (simp_all del: node_view.simps(1,2))
  qed
  show "runs (merge_prev_internal self mk prev) A (\<lambda>_ B. B = (?R A)(self \<mapsto> ?V))"
    unfolding merge_prev_internal_def
    apply (rule runs_bind, rule runs_assert_siblings[where A = A, OF P _ _ A];
        (simp only: raw.simps vpar.simps not_False_eq_True)?)
    by (rule deref)
qed (use Q in simp)

lemma runs_merge_next_internal:
  fixes A :: "('k, 'v) vheap"
  assumes A: "A self = Some (VInt (Some (p, i)) ks es)"
    and N: "A next' = Some (VInt (Some (p, i + 1)) nks nes)"
    and len: "length ks + length nks < M"
    and es: "distinct nes" "self \<notin> set nes"
    and ch: "\<And>c. c \<in> set nes \<Longrightarrow> \<exists>q j. is_child A c q j \<and> j \<le> M"
    and Q: "Q () ((repar (shift_idx (\<lambda>j. j + (length ks + 1))) nes A)
                 (self \<mapsto> VInt (Some (p, i)) (ks @ mk # nks) (es @ nes)))"
  shows "runs (merge_next_internal self mk next') A Q"
proof (rule runs_conseq[where P = "\<lambda>_ B. B = (repar (shift_idx (\<lambda>j. j + (length ks + 1))) nes A)
                 (self \<mapsto> VInt (Some (p, i)) (ks @ mk # nks) (es @ nes))"])
  let ?l = "length ks" and ?nl = "length nks"
  let ?R = "repar (shift_idx (\<lambda>j. j + (?l + 1))) nes"
  let ?V = "VInt (Some (p, i)) (ks @ mk # nks) (es @ nes)"
  have M8: "M = 8" by (simp add: M_def)
  have deref: "runs (bindP (deref next') (\<lambda>nn.
     bindP (len_at self) (\<lambda>l.
     bindP (liftP (u16_add l (len nn))) (\<lambda>sum.
     bindP (assertP (sum < M)) (\<lambda>_.
     bindP (liftP (u16_add sum 1)) (\<lambda>new_len.
     bindP (upd_at self (absorb_next_internal mk nn new_len)) (\<lambda>_.
     bindP (for_edges self (l + 1) (new_len + 1) (\<lambda>i. bindR (u16_add l 1) (u16_add i))) (\<lambda>_.
     upd_at self (\<lambda>n. Inr (n\<lparr>len := new_len\<rparr>)))))))))) A (\<lambda>_ B. B = (?R A)(self \<mapsto> ?V))"
  proof (rule runs_bind, rule runs_deref[where A = A, OF N],
      rule runs_open[where p = self and A = A, OF A])
    fix nn n :: "('k, 'v) node"
    assume "node_view nn (VInt (Some (p, i + 1)) nks nes)" and "node_view n (VInt (Some (p, i)) ks es)"
    then obtain nt t where nn: "len nn = ?nl" "length nes = ?nl + 1" "holds (keys nn) M nks"
        "node_d nn = Internal nt" "holds (edges nt) (M + 1) nes"
      and n: "len n = ?l" "length es = ?l + 1" "holds (keys n) M ks"
        "node_d n = Internal t" "holds (edges t) (M + 1) es" "parent n = Some p" "parent_idx n = Some i"
      by auto
    from arr_set_end[OF n(3), of mk] len obtain ks1 where k1: "arr_set (keys n) ?l mk = Inr ks1"
        "holds ks1 M (ks @ [mk])" by auto
    obtain ks2 where k2: "unsafe_copy_slice_nonoverlapping ks1 (?l + 1) (?l + ?nl + 1) (map Some nks) = Inr ks2"
        "holds ks2 M (ks @ mk # nks)"
      using copy_nonoverlapping[OF k1(2) order.refl _ refl, of nks] len by auto
    obtain es2 where e2: "unsafe_copy_slice_nonoverlapping (edges t) (?l + 1) (?l + ?nl + 1 + 1) (map Some nes) = Inr es2"
        "holds es2 (M + 1) (es @ nes)"
      using copy_nonoverlapping[OF n(5) order.refl _ refl, of nes] len n(2) nn(2) by auto
    let ?n1 = "n\<lparr>keys := ks2, node_d := Internal (t\<lparr>edges := es2\<rparr>)\<rparr>"
    let ?A = "A(self \<mapsto> VRaw n)"
    have up: "absorb_next_internal mk nn (?l + ?nl + 1) n = Inr ?n1"
      using k1 k2 e2 n nn slice_all[OF nn(3)] slice_all[OF nn(5)]
      by (simp add: absorb_next_internal_def d_internal_mut_def d_internal_def)
    have slice: "arr_slice es2 (?l + 1) (?l + ?nl + 1 + 1) = Inr (map Some nes)"
      using arr_slice_holds[OF e2(2), of "?l + 1" "?l + ?nl + 1 + 1"] n(2) nn(2) by simp
    have ch': "\<exists>q j. is_child (A(self \<mapsto> m)) c q j \<and>
        bindR (u16_add ?l 1) (u16_add j) = Inr (j + (?l + 1))" if "c \<in> set nes" for c m
    proof -
      from ch[OF that] obtain q j where "is_child A c q j" "j \<le> M" by blast
      moreover have "c \<noteq> self" using that es(2) by auto
      ultimately show ?thesis using len M8 by (intro exI[of _ q] exI[of _ j]) simp
    qed
    have fin: "node_view (?n1\<lparr>len := ?l + ?nl + 1\<rparr>) ?V" using n nn k2 e2 by simp
    show "runs (bindP (len_at self) (\<lambda>l.
       bindP (liftP (u16_add l (len nn))) (\<lambda>sum.
       bindP (assertP (sum < M)) (\<lambda>_.
       bindP (liftP (u16_add sum 1)) (\<lambda>new_len.
       bindP (upd_at self (absorb_next_internal mk nn new_len)) (\<lambda>_.
       bindP (for_edges self (l + 1) (new_len + 1) (\<lambda>i. bindR (u16_add l 1) (u16_add i))) (\<lambda>_.
       upd_at self (\<lambda>n. Inr (n\<lparr>len := new_len\<rparr>))))))))) ?A (\<lambda>_ B. B = (?R A)(self \<mapsto> ?V))"
      unfolding nn(1)
      apply (rule runs_bind, rule runs_raw_len[where n = n], simp)
      apply (rule runs_bind, rule runs_lift[where a = "?l + ?nl"], use len M8 n(1) in simp)
      apply (rule runs_bind, rule runs_assert, rule len)
      apply (rule runs_bind, rule runs_lift[where a = "?l + ?nl + 1"], use len M8 in simp)
      apply (rule runs_bind, rule runs_raw_upd[where n = n and n' = ?n1], simp, rule up)
      apply (rule runs_bind, unfold n(1), rule runs_for_edges[where n = ?n1 and
            t = "t\<lparr>edges := es2\<rparr>" and es = nes and f = "\<lambda>j. j + (?l + 1)"])
      apply (simp, simp, use slice in simp, rule es(1), simp only: fun_upd_upd, erule ch')
      apply (rule runs_upd_at[where v = "VRaw ?n1" and v' = ?V])
      using fin es(2) by (simp_all del: node_view.simps(1,2))
  qed
  show "runs (merge_next_internal self mk next') A (\<lambda>_ B. B = (?R A)(self \<mapsto> ?V))"
    unfolding merge_next_internal_def
    apply (rule runs_bind, rule runs_assert_siblings[where A = A, OF A _ _ N];
        (simp only: raw.simps vpar.simps not_False_eq_True)?)
    by (rule deref)
qed (use Q in simp)

end
