(* ===== verification/SplitSpec.thy ===== *)
theory SplitSpec
  imports EdgeSpec
begin

text \<open>
  Rules for splitting a full internal node: the rotations keep the list of edges that the insertion
  would give, and only the parent links of the children change.
\<close>

subsection \<open>Heaps that differ in parent links\<close>

definition same_but_pars :: "ptr set \<Rightarrow> ('k, 'v) vheap \<Rightarrow> ('k, 'v) vheap \<Rightarrow> bool" where
  "same_but_pars S A B \<longleftrightarrow>
     (\<forall>q. q \<notin> S \<longrightarrow> B q = A q) \<and> (\<forall>q\<in>S. \<exists>p. B q = map_option (vset_par p) (A q))"

lemma same_but_pars_refl [simp]:
  assumes "\<And>q. q \<in> S \<Longrightarrow> \<exists>p i. is_child A q p i"
  shows "same_but_pars S A A"
  unfolding same_but_pars_def
proof (intro conjI allI impI ballI refl)
  fix q assume "q \<in> S"
  from assms[OF this] obtain v where "A q = Some v" by (auto simp: is_child_def)
  then show "\<exists>p. A q = map_option (vset_par p) (A q)"
    by (intro exI[of _ "vpar v"]) simp
qed

lemma same_but_pars_trans:
  assumes "same_but_pars S A B" "same_but_pars S B C"
  shows "same_but_pars S A C"
  unfolding same_but_pars_def
proof (intro conjI allI impI ballI)
  fix q assume q: "q \<in> S"
  then obtain p p' where "B q = map_option (vset_par p) (A q)" "C q = map_option (vset_par p') (B q)"
    using assms unfolding same_but_pars_def by blast
  then show "\<exists>p. C q = map_option (vset_par p) (A q)"
    by (intro exI[of _ p']) (simp add: option.map_comp comp_def)
qed (use assms in \<open>simp add: same_but_pars_def\<close>)

lemma same_but_pars_step:
  assumes "q \<in> S" "A q = Some v" "\<And>q. q \<in> S \<Longrightarrow> \<exists>p i. is_child A q p i"
  shows "same_but_pars S A (A(q \<mapsto> vset_par p v))"
  using same_but_pars_refl[OF assms(3)] assms(1,2) unfolding same_but_pars_def by auto

lemma same_but_pars_child:
  assumes "same_but_pars S A B" "c \<in> S" "A c = Some v" "is_child B c p i"
  shows "B c = Some (vset_par (Some (p, i)) v)"
proof -
  from assms(1,2) obtain p' where "B c = map_option (vset_par p') (A c)"
    unfolding same_but_pars_def by blast
  then have B: "B c = Some (vset_par p' v)" using assms(3) by simp
  with assms(4) have "\<not> raw v" "vpar (vset_par p' v) = Some (p, i)" by (auto simp: is_child_def)
  with B show ?thesis by simp
qed

lemma same_but_pars_mono:
  assumes "same_but_pars S A B" "S \<subseteq> T" "\<And>q. q \<in> T - S \<Longrightarrow> \<exists>p i. is_child A q p i"
  shows "same_but_pars T A B"
  unfolding same_but_pars_def
proof (intro conjI allI impI ballI)
  fix q assume q: "q \<in> T"
  show "\<exists>p. B q = map_option (vset_par p) (A q)"
  proof (cases "q \<in> S")
    case True
    with assms(1) show ?thesis by (simp add: same_but_pars_def)
  next
    case False
    with q assms(3)[of q] obtain v where "A q = Some v" by (auto simp: is_child_def)
    moreover have "B q = A q" using assms(1) False by (simp add: same_but_pars_def)
    ultimately show ?thesis by (intro exI[of _ "vpar v"]) simp
  qed
qed (use assms in \<open>auto simp: same_but_pars_def\<close>)

subsection \<open>Numbering children\<close>

lemma is_child_self: "A c = Some v \<Longrightarrow> \<not> raw v \<Longrightarrow> is_child (A(c \<mapsto> vset_par (Some (p, i)) v)) c p i"
  by (simp add: is_child_def)

lemma runs_number_edges:
  assumes "distinct es" "\<And>e. e \<in> set es \<Longrightarrow> \<exists>i. is_child A e p i"
    "\<And>B. (\<And>j. j < length es \<Longrightarrow> is_child B (es ! j) p (n + j)) \<Longrightarrow> same_but_pars (set es) A B \<Longrightarrow> Q () B"
  shows "runs (number_edges n es) A Q"
  using assms
proof (induction n es arbitrary: A rule: number_edges.induct)
  case (1 n)
  have "same_but_pars (set []) A A" by (simp add: same_but_pars_def)
  with "1.prems"(3)[of A] show ?case unfolding number_edges.simps by (intro runs_ret) simp
next
  case (2 n e es)
  from "2.prems"(2)[of e] obtain v i where v: "A e = Some v" "\<not> raw v" "vpar v = Some (p, i)"
    by (auto simp: is_child_def)
  let ?A = "A(e \<mapsto> vset_par (Some (p, n)) v)"
  have e: "e \<notin> set es" "distinct es" using "2.prems"(1) by simp_all
  have ch: "\<exists>p i. is_child A c p i" if "c \<in> set (e # es)" for c using "2.prems"(2)[OF that] by blast
  show ?case unfolding number_edges.simps
  proof (intro runs_bind runs_upd_at[where A = A, OF v(1)])
    show "node_upd (map_parent_idx (\<lambda>_. Inr n)) v (vset_par (Some (p, n)) v)"
      by (rule upd_map_parent_idx[OF v(2,3)]) simp
    show "runs (number_edges (n + 1) es) ?A Q"
    proof (rule "2.IH"[OF e(2)])
      fix c assume "c \<in> set es"
      moreover from this e(1) have "c \<noteq> e" by auto
      ultimately show "\<exists>i. is_child ?A c p i" using "2.prems"(2)[of c] by simp
    next
      fix B assume B: "\<And>j. j < length es \<Longrightarrow> is_child B (es ! j) p (n + 1 + j)"
        "same_but_pars (set es) ?A B"
      have "B e = ?A e" using B(2) e(1) by (simp add: same_but_pars_def)
      then have Be: "is_child B e p n" using v(2) by (simp add: is_child_def)
      show "Q () B"
      proof (rule "2.prems"(3))
        fix j assume "j < length (e # es)"
        with Be B(1)[of "j - 1"] show "is_child B ((e # es) ! j) p (n + j)" by (cases j) auto
      next
        have "same_but_pars (set (e # es)) ?A B"
          by (rule same_but_pars_mono[OF B(2)]) (use v(2) in \<open>auto simp: is_child_def\<close>)
        then show "same_but_pars (set (e # es)) A B"
          by (intro same_but_pars_trans[OF same_but_pars_step[where A = A and q = e, OF _ v(1) ch]]) simp_all
      qed
    qed
  qed
qed

subsection \<open>The rotations\<close>

lemma upd_swap_key_int:
  assumes "i < length ks"
  shows "node_upd_ret (swap_key i k) (VInt par ks es) (ks ! i) (VInt par (ks[i := k]) es)"
  using assms by (cases par) (auto simp: node_upd_ret_def swap_key_def key_def)

lemma upd_swap_edge:
  assumes "i < length es" "length es = length ks + 1"
  shows "node_upd_ret (swap_edge i e) (VInt par ks es) (es ! i) (VInt par ks (es[i := e]))"
  using assms
  by (cases par) (auto simp: node_upd_ret_def swap_edge_def edge_def d_internal_def d_internal_mut_def)

text \<open>
  The state of a rotation: \<open>idx\<close>, \<open>k\<close> and \<open>e\<close> are pending, inserting them gives \<open>KS\<close> and \<open>ES\<close>, and the
  children know their index in \<open>self\<close>, those beyond the pending edge by \<open>old\<close>.
\<close>

definition rotating ::
    "ptr \<Rightarrow> par \<Rightarrow> 'k list \<Rightarrow> ptr list \<Rightarrow> (nat \<Rightarrow> nat \<Rightarrow> bool) \<Rightarrow> nat \<Rightarrow> 'k \<Rightarrow> ptr \<Rightarrow> ('k, 'v) vheap \<Rightarrow>
     ('k, 'v) vheap \<Rightarrow> bool" where
  "rotating self par KS ES old idx k e A B \<longleftrightarrow>
     (\<exists>ks es. B self = Some (VInt par ks es) \<and> length es = length ks + 1 \<and>
        ins_at idx k ks = KS \<and> ins_at (idx + 1) e es = ES \<and> idx \<le> length ks) \<and>
     same_but_pars (set ES) A (B(self := A self)) \<and>
     (\<forall>j < length ES. j \<le> idx + 1 \<longrightarrow> is_child B (ES ! j) self j) \<and>
     (\<forall>j < length ES. idx + 1 < j \<longrightarrow> (\<exists>i. is_child B (ES ! j) self i \<and> old j i))"

lemma rotating_step_up:
  assumes R: "rotating self par KS ES (\<lambda>j i. i + 1 = j) idx k e A B"
    and B: "B self = Some (VInt par ks es)" and i: "idx < length ks"
    and ES: "distinct ES" "self \<notin> set ES"
  shows "is_child B (es ! (idx + 1)) self (idx + 1)"
    and "es ! (idx + 1) \<noteq> self"
    and "B (es ! (idx + 1)) = Some v \<Longrightarrow>
      rotating self par KS ES (\<lambda>j i. i + 1 = j) (idx + 1) (ks ! idx) (es ! (idx + 1)) A
        (B(self \<mapsto> VInt par (ks[idx := k]) (es[idx + 1 := e]),
           es ! (idx + 1) \<mapsto> vset_par (Some (self, idx + 1 + 1)) v))"
proof -
  have len: "length es = length ks + 1" and KS: "ins_at idx k ks = KS" and ES': "ins_at (idx + 1) e es = ES"
    using R B unfolding rotating_def by auto
  have nth: "ES ! (idx + 1 + 1) = es ! (idx + 1)" "idx + 1 + 1 < length ES"
    using i len unfolding ES'[symmetric] by (simp_all add: ins_at_def nth_append)
  show c: "is_child B (es ! (idx + 1)) self (idx + 1)"
    using R nth unfolding rotating_def by fastforce
  have in_ES: "es ! (idx + 1) \<in> set ES" using nth by (metis nth_mem)
  with ES(2) show ne: "es ! (idx + 1) \<noteq> self" by auto
  assume v: "B (es ! (idx + 1)) = Some v"
  have not_raw: "\<not> raw v" using c v by (simp add: is_child_def)
  let ?B = "B(self \<mapsto> VInt par (ks[idx := k]) (es[idx + 1 := e]),
           es ! (idx + 1) \<mapsto> vset_par (Some (self, idx + 1 + 1)) v)"
  have other: "is_child ?B (ES ! j) p i = is_child B (ES ! j) p i" if "j < length ES" "j \<noteq> idx + 1 + 1" for j p i
  proof -
    have "ES ! j \<noteq> ES ! (idx + 1 + 1)" using nth_eq_iff_index_eq[OF ES(1)] that nth(2) by blast
    moreover have "ES ! j \<noteq> self" using ES(2) that(1) by (metis nth_mem)
    ultimately show ?thesis using nth(1) by (simp add: is_child_def)
  qed
  show "rotating self par KS ES (\<lambda>j i. i + 1 = j) (idx + 1) (ks ! idx) (es ! (idx + 1)) A ?B"
    unfolding rotating_def
  proof (intro conjI allI impI)
    show "\<exists>ks' es'. ?B self = Some (VInt par ks' es') \<and> length es' = length ks' + 1 \<and>
        ins_at (idx + 1) (ks ! idx) ks' = KS \<and> ins_at (idx + 1 + 1) (es ! (idx + 1)) es' = ES \<and>
        idx + 1 \<le> length ks'"
      using ne len i KS ES' ins_at_swap_up[OF i, of k] ins_at_swap_up[of "idx + 1" es e] by auto
    have "same_but_pars (set ES) A (B(self := A self))" using R unfolding rotating_def by blast
    moreover have "?B(self := A self) = (B(self := A self))(es ! (idx + 1) \<mapsto> vset_par (Some (self, idx + 1 + 1)) v)"
      using ne by auto
    moreover have "same_but_pars (set ES) (B(self := A self))
        ((B(self := A self))(es ! (idx + 1) \<mapsto> vset_par (Some (self, idx + 1 + 1)) v))"
    proof (rule same_but_pars_step[OF in_ES])
      fix q assume "q \<in> set ES"
      then obtain j where j: "j < length ES" "ES ! j = q" by (auto simp: in_set_conv_nth)
      moreover have "q \<noteq> self" using \<open>q \<in> set ES\<close> ES(2) by auto
      ultimately show "\<exists>p i. is_child (B(self := A self)) q p i"
        using R unfolding rotating_def is_child_def by (metis fun_upd_other not_le)
    qed (use v ne in simp)
    ultimately show "same_but_pars (set ES) A (?B(self := A self))"
      using same_but_pars_trans by metis
  next
    fix j assume j: "j < length ES" "j \<le> idx + 1 + 1"
    show "is_child ?B (ES ! j) self j"
    proof (cases "j = idx + 1 + 1")
      case True
      then show ?thesis using nth not_raw by (simp add: is_child_def)
    next
      case False
      with j R show ?thesis unfolding other[OF j(1) False] rotating_def by simp
    qed
  next
    fix j assume j: "j < length ES" "idx + 1 + 1 < j"
    with R show "\<exists>i. is_child ?B (ES ! j) self i \<and> i + 1 = j"
      by (subst other) (auto simp: rotating_def)
  qed
qed

lemma rotating_step_down:
  assumes R: "rotating self par KS ES (\<lambda>_ _. True) idx k e A B"
    and B: "B self = Some (VInt par ks es)" and i: "0 < idx"
    and ES: "self \<notin> set ES"
  shows "is_child B (es ! idx) self idx" and "es ! idx \<noteq> self" and "idx \<le> length ks"
    and "rotating self par KS ES (\<lambda>_ _. True) (idx - 1) (ks ! (idx - 1)) (es ! idx) A
        (B(self \<mapsto> VInt par (ks[idx - 1 := k]) (es[idx := e])))"
proof -
  have len: "length es = length ks + 1" and KS: "ins_at idx k ks = KS" and ES': "ins_at (idx + 1) e es = ES"
    and le: "idx \<le> length ks" using R B unfolding rotating_def by auto
  show "idx \<le> length ks" by (rule le)
  have nth: "ES ! idx = es ! idx" "idx < length ES"
    using le len unfolding ES'[symmetric] by (simp_all add: ins_at_def nth_append)
  have "\<forall>j < length ES. j \<le> idx + 1 \<longrightarrow> is_child B (ES ! j) self j"
    using R unfolding rotating_def by blast
  with nth(2) have "is_child B (ES ! idx) self idx" by simp
  then show "is_child B (es ! idx) self idx" by (simp only: nth(1))
  show ne: "es ! idx \<noteq> self" using nth ES by (metis nth_mem)
  let ?B = "B(self \<mapsto> VInt par (ks[idx - 1 := k]) (es[idx := e]))"
  have other: "is_child ?B (ES ! j) p i = is_child B (ES ! j) p i" if "j < length ES" for j p i
    using ES that by (metis is_child_upd nth_mem)
  have swap: "ins_at idx (es ! idx) (es[idx := e]) = ES"
    using ins_at_swap_down[of "idx + 1" es e] le len ES' by simp
  have swap': "ins_at (idx - 1) (ks ! (idx - 1)) (ks[idx - 1 := k]) = KS"
    using ins_at_swap_down[OF i le, of k] KS by simp
  show "rotating self par KS ES (\<lambda>_ _. True) (idx - 1) (ks ! (idx - 1)) (es ! idx) A ?B"
    unfolding rotating_def
  proof (intro conjI allI impI)
    show "\<exists>ks' es'. ?B self = Some (VInt par ks' es') \<and> length es' = length ks' + 1 \<and>
        ins_at (idx - 1) (ks ! (idx - 1)) ks' = KS \<and> ins_at (idx - 1 + 1) (es ! idx) es' = ES \<and>
        idx - 1 \<le> length ks'"
      using len i le swap swap' by auto
    show "same_but_pars (set ES) A (?B(self := A self))"
      using R unfolding rotating_def by simp
  next
    fix j assume "j < length ES" "j \<le> idx - 1 + 1"
    with R i show "is_child ?B (ES ! j) self j" by (subst other) (auto simp: rotating_def)
  next
    fix j assume "j < length ES" "idx - 1 + 1 < j"
    then have j: "j < length ES" "idx < j" using i by simp_all
    have "\<exists>i. is_child B (ES ! j) self i"
    proof (cases "j \<le> idx + 1")
      case True
      with R j show ?thesis unfolding rotating_def by blast
    next
      case False
      then have "idx + 1 < j" by simp
      with R j show ?thesis unfolding rotating_def by blast
    qed
    then show "\<exists>i. is_child ?B (ES ! j) self i \<and> True" by (simp only: other[OF j(1)] simp_thms)
  qed
qed

lemma runs_split_internal_up:
  assumes "rotating self par KS ES (\<lambda>j i. i + 1 = j) idx k e A B" "m + 1 < length KS"
    "distinct ES" "self \<notin> set ES"
    "\<And>k' e' B'. rotating self par KS ES (\<lambda>j i. i + 1 = j) (max idx m) k' e' A B' \<Longrightarrow> Q (max idx m, k', e') B'"
  shows "runs (split_internal_up self m idx k e) B Q"
  using assms
proof (induction self m idx k e arbitrary: B rule: split_internal_up.induct)
  case (1 self m idx k e)
  from "1.prems"(1) obtain ks es where B: "B self = Some (VInt par ks es)" "length es = length ks + 1"
      "ins_at idx k ks = KS" "ins_at (idx + 1) e es = ES"
    unfolding rotating_def by blast
  show ?case
  proof (cases "idx < m")
    case True
    have i: "idx < length ks" "idx + 1 < length es"
      using True "1.prems"(2) B(2) unfolding B(3)[symmetric] by simp_all
    note step = rotating_step_up[OF "1.prems"(1) B(1) i(1) "1.prems"(3,4)]
    from step(1) obtain v where v: "B (es ! (idx + 1)) = Some v" "\<not> raw v" "vpar v = Some (self, idx + 1)"
      by (auto simp: is_child_def)
    let ?B1 = "B(self \<mapsto> VInt par (ks[idx := k]) es)"
    let ?B2 = "B(self \<mapsto> VInt par (ks[idx := k]) (es[idx + 1 := e]))"
    show ?thesis
      apply (subst split_internal_up.simps, simp only: True if_True)
      apply (rule runs_bind, rule runs_upd_ret_at[where A = B, OF B(1) upd_swap_key_int[OF i(1)]])
      apply (rule runs_bind, rule runs_upd_ret_at[where A = ?B1, OF _ upd_swap_edge[OF i(2)]])
        apply (simp, simp add: B(2), simp only: fun_upd_upd)
      apply (rule runs_bind, rule runs_parent_idx[where p = self and i = "idx + 1"])
      using step(1,2) apply simp
      apply (rule runs_bind, rule runs_assert, simp)
      apply (rule runs_bind, rule runs_upd_at[where v = v])
      using v(1) step(2) apply simp
       apply (rule upd_parent_idx[OF v(2,3)])
      apply (rule "1.IH"[OF True step(3)[OF v(1)] "1.prems"(2-4)])
      using "1.prems"(5) True by (simp add: max_def)
  next
    case False
    then have "max idx m = idx" by simp
    with "1.prems"(1,5) show ?thesis
      by (subst split_internal_up.simps) (simp only: False if_False, intro runs_ret, simp)
  qed
qed

lemma runs_split_internal_down:
  assumes "rotating self par KS ES (\<lambda>_ _. True) idx k e A B" "m \<le> idx" "self \<notin> set ES"
    "\<And>k' e' B'. rotating self par KS ES (\<lambda>_ _. True) m k' e' A B' \<Longrightarrow> Q (m, k', e') B'"
  shows "runs (split_internal_down self m idx k e) B Q"
  using assms
proof (induction self m idx k e arbitrary: B rule: split_internal_down.induct)
  case (1 self m idx k e)
  from "1.prems"(1) obtain ks es where B: "B self = Some (VInt par ks es)" "length es = length ks + 1"
      "ins_at idx k ks = KS" "ins_at (idx + 1) e es = ES"
    unfolding rotating_def by blast
  show ?case
  proof (cases "m < idx")
    case True
    then have pos: "0 < idx" by simp
    note step = rotating_step_down[OF "1.prems"(1) B(1) pos "1.prems"(3)]
    have i: "idx - 1 < length ks" "idx - 1 + 1 < length es" "idx - 1 + 1 = idx"
      using step(3) pos B(2) by simp_all
    let ?B1 = "B(self \<mapsto> VInt par (ks[idx - 1 := k]) es)"
    show ?thesis
      apply (subst split_internal_down.simps, simp only: True if_True)
      apply (rule runs_bind, rule runs_upd_ret_at[where A = B, OF B(1) upd_swap_key_int[OF i(1)]])
      apply (rule runs_bind, rule runs_upd_ret_at[where A = ?B1, OF _ upd_swap_edge[OF i(2)]])
        apply (simp, simp add: B(2), simp only: fun_upd_upd i(3))
      apply (rule runs_bind, rule runs_parent_idx[where p = self and i = idx])
      using step(1,2) apply simp
      apply (rule runs_bind, rule runs_assert, simp)
      apply (rule "1.IH"[OF True])
      using step(4) apply (simp only: i(3) fun_upd_upd One_nat_def)
      using True "1.prems"(3,4) by simp_all
  next
    case False
    with "1.prems"(2) have "m = idx" by simp
    with "1.prems"(1,4) show ?thesis
      by (subst split_internal_down.simps) (simp only: less_irrefl if_False, intro runs_ret, simp)
  qed
qed

subsection \<open>The split\<close>

lemma right_arrays:
  assumes "node_view n (VInt par ks es)" "length ks = M"
  shows "right_keys 4 n = Inr (map Some (drop 4 ks) @ replicate 4 None)"
    and "right_edges 4 e n = Inr (map Some (e # drop 5 es) @ replicate 4 None)"
proof -
  from assms obtain t where n: "len n = 8" "length es = 9" "holds (keys n) M ks" "length ks = 8"
    "node_d n = Internal t" "holds (edges t) (M + 1) es" by (auto simp: M_def)
  have "arr_slice (keys n) 4 8 = Inr (map Some (drop 4 ks))"
    "arr_slice (edges t) 5 9 = Inr (map Some (drop 5 es))"
    using arr_slice_holds[OF n(3), of 4 8] arr_slice_holds[OF n(6), of 5 9] n by simp_all
  then show "right_keys 4 n = Inr (map Some (drop 4 ks) @ replicate 4 None)"
    "right_edges 4 e n = Inr (map Some (e # drop 5 es) @ replicate 4 None)"
    using n by (simp_all add: right_keys_def right_edges_def d_internal_def arr_set_def arr_slice_def
        unsafe_copy_slice_nonoverlapping_def maybe_uninit_array_def M_def)
qed

lemma runs_split_internal:
  fixes A :: "('k, 'v) vheap" and k :: 'k
  assumes A: "A self = Some (VInt par ks es)" "length ks = M" "length es = M + 1" and idx: "idx \<le> M"
    and e: "is_child A e self (idx + 1)" and ch: "\<And>j. j < length es \<Longrightarrow> is_child A (es ! j) self j"
  defines "KS \<equiv> ins_at idx k ks" and "ES \<equiv> ins_at (idx + 1) e es"
  assumes ES: "distinct ES" "self \<notin> set ES"
    and Q: "\<And>right B. node_view right (VInt None (drop 5 KS) (drop 5 ES)) \<Longrightarrow>
      B self = Some (VInt par (take 4 KS) (take 5 ES)) \<Longrightarrow>
      (\<And>j. j < 5 \<Longrightarrow> is_child B (ES ! j) self j) \<Longrightarrow>
      (\<And>j. j < 5 \<Longrightarrow> is_child B (ES ! (5 + j)) self j) \<Longrightarrow>
      same_but_pars (set ES) A (B(self := A self)) \<Longrightarrow> Q (KS ! 4, right) B"
  shows "runs (split_internal self idx k e) A Q"
proof -
  have M8: "M = 8" by (simp add: M_def)
  have len: "length KS = 9" "length ES = 10" using A M8 by (simp_all add: KS_def ES_def)
  have nth: "ES ! j = (if j < idx + 1 then es ! j else if j = idx + 1 then e else es ! (j - 1))"
    if "j < 10" for j
    using that A(3) idx M8 by (auto simp: ES_def ins_at_def nth_append nth_Cons' intro!: arg_cong[where f = "(!) es"])
  have child: "is_child A (ES ! j) self (if j \<le> idx + 1 then j else j - 1)" if "j < length ES" for j
    using that nth[of j] e ch[of j] ch[of "j - 1"] A(3) idx len M8 by (auto split: if_splits)
  have start: "rotating self par KS ES (\<lambda>j i. i + 1 = j) idx k e A A"
    unfolding rotating_def
  proof (intro conjI allI impI)
    have "\<exists>p i. is_child A q p i" if "q \<in> set ES" for q
      using that child unfolding in_set_conv_nth by blast
    then show "same_but_pars (set ES) A (A(self := A self))" by simp
  next
    fix j assume "j < length ES" "j \<le> idx + 1"
    with child[of j] show "is_child A (ES ! j) self j" by simp
  next
    fix j assume "j < length ES" "idx + 1 < j"
    with child[of j] show "\<exists>i. is_child A (ES ! j) self i \<and> i + 1 = j" by auto
  qed (use A idx KS_def ES_def in \<open>auto\<close>)
  have rest: "runs (bindP (split_internal_down self 4 (max idx 4) k1 e1) (\<lambda>(idx, k, e).
       bindP (get_at self (right_keys 4)) (\<lambda>rks.
       bindP (get_at self (right_edges 4 e)) (\<lambda>res.
       bindP (liftP (bindR (arr_slice res 0 (4 + 1)) assume_init_slice)) (\<lambda>es.
       bindP (number_edges 0 es) (\<lambda>_.
       bindP (liftP (nat_sub M 4)) (\<lambda>rlen.
       bindP (upd_at self (\<lambda>n. Inr (n\<lparr>len := 4\<rparr>))) (\<lambda>_.
       ret (k, \<lparr>parent = None, parent_idx = None, len = rlen, keys = rks,
              node_d = Internal \<lparr>edges = res\<rparr>\<rparr>))))))))) B1 Q"
    if up: "rotating self par KS ES (\<lambda>j i. i + 1 = j) (max idx 4) k1 e1 A B1" for k1 e1 B1
  proof (rule runs_bind, rule runs_split_internal_down[where par = par and KS = KS and ES = ES and A = A])
    show "rotating self par KS ES (\<lambda>_ _. True) (max idx 4) k1 e1 A B1"
      using up unfolding rotating_def by blast
    fix k' e' B2 assume R: "rotating self par KS ES (\<lambda>_ _. True) 4 k' e' A B2"
    then obtain ks2 es2 where B2: "B2 self = Some (VInt par ks2 es2)" "length es2 = length ks2 + 1"
        "ins_at 4 k' ks2 = KS" "ins_at (4 + 1) e' es2 = ES"
      unfolding rotating_def by blast
    have len2: "length ks2 = M" using len(1) M8 unfolding B2(3)[symmetric] by simp
    note k = ins_at_split[OF B2(3)] and e = ins_at_split[OF B2(4)]
    have es2: "e' # drop 5 es2 = drop 5 ES" "length (drop 5 es2) = 4"
      using e(4) B2(2) len2 M8 by simp_all
    have es5: "bindR (arr_slice (map Some (e' # drop 5 es2) @ replicate 4 None) 0 (4 + 1))
        assume_init_slice = Inr (drop 5 ES)"
      using es2 len assume_init_slice_Some[of "drop 5 ES"] by (simp add: arr_slice_def)
    have old: "\<exists>i. is_child B2 (ES ! j) self i" if "j < length ES" for j
    proof (cases "j \<le> 4 + 1")
      case True
      with R that show ?thesis unfolding rotating_def by blast
    next
      case False
      then have "4 + 1 < j" by simp
      with R that show ?thesis unfolding rotating_def by blast
    qed
    have right_ch: "\<exists>i. is_child B2 c self i" if "c \<in> set (drop 5 ES)" for c
      using in_set_dropD[OF that] old by (auto simp: in_set_conv_nth)
    have B3_self: "B3 self = Some (VInt par ks2 es2)" if "same_but_pars (set (drop 5 ES)) B2 B3" for B3
      using that B2(1) ES(2) in_set_dropD[of self 5 ES] unfolding same_but_pars_def by metis
    have shorten: "node_upd (\<lambda>n. Inr (n\<lparr>len := 4\<rparr>)) (VInt par ks2 es2) (VInt par (take 4 KS) (take 5 ES))"
      unfolding node_upd_def
    proof (intro allI impI)
      fix n assume "node_view n (VInt par ks2 es2)"
      then have "node_view (n\<lparr>len := 4\<rparr>) (VInt par (take 4 ks2) (take 5 es2))"
        using len2 B2(2) M8 by (cases par) (auto intro: holds_take)
      moreover have "take 4 ks2 = take 4 KS" "take 5 es2 = take 5 ES"
        using k(1) e(1) len2 B2(2) M8 by simp_all
      ultimately show "\<exists>n'. Inr (n\<lparr>len := 4\<rparr>) = Inr n' \<and> node_view n' (VInt par (take 4 KS) (take 5 ES))"
        by simp
    qed
    have result: "Q (KS ! 4, \<lparr>parent = None, parent_idx = None, len = 4,
          keys = map Some (drop 4 ks2) @ replicate 4 None,
          node_d = Internal \<lparr>edges = map Some (e' # drop 5 es2) @ replicate 4 None\<rparr>\<rparr>)
        (B3(self \<mapsto> VInt par (take 4 KS) (take 5 ES)))"
      if c: "\<And>j. j < length (drop 5 ES) \<Longrightarrow> is_child B3 (drop 5 ES ! j) self (0 + j)"
        and same: "same_but_pars (set (drop 5 ES)) B2 B3" for B3
    proof (rule Q)
      have "drop 4 ks2 = drop 5 KS" using k(3) len2 M8 by simp
      then show "node_view \<lparr>parent = None, parent_idx = None, len = 4,
          keys = map Some (drop 4 ks2) @ replicate 4 None,
          node_d = Internal \<lparr>edges = map Some (e' # drop 5 es2) @ replicate 4 None\<rparr>\<rparr>
          (VInt None (drop 5 KS) (drop 5 ES))"
        unfolding es2(1) using len M8 by (auto simp: holds_def)
      have ne: "ES ! j \<noteq> self" if "j < 10" for j using ES(2) len(2) that by (metis nth_mem)
      have sub: "set (drop 5 ES) \<subseteq> set ES" by (rule set_drop_subset)
      show "is_child (B3(self \<mapsto> VInt par (take 4 KS) (take 5 ES))) (ES ! j) self j" if "j < 5" for j
      proof -
        have "ES ! j \<notin> set (drop 5 ES)"
          using that ES(1) len(2) by (auto simp: in_set_conv_nth nth_eq_iff_index_eq)
        then have "B3 (ES ! j) = B2 (ES ! j)" using same by (simp add: same_but_pars_def)
        moreover have "is_child B2 (ES ! j) self j" using R that len(2) unfolding rotating_def by auto
        ultimately show ?thesis using ne[of j] that by (simp add: is_child_def)
      qed
      show "is_child (B3(self \<mapsto> VInt par (take 4 KS) (take 5 ES))) (ES ! (5 + j)) self j" if "j < 5" for j
        using c[of j] ne[of "5 + j"] that len(2) by simp
      have "self \<notin> set (drop 5 ES)" using ES(2) sub by blast
      then have "same_but_pars (set (drop 5 ES)) (B2(self := A self)) (B3(self := A self))"
        using same by (auto simp: same_but_pars_def)
      then have "same_but_pars (set ES) (B2(self := A self)) (B3(self := A self))"
      proof (rule same_but_pars_mono[OF _ sub])
        fix q assume "q \<in> set ES - set (drop 5 ES)"
        then obtain j where "j < length ES" "ES ! j = q" "q \<noteq> self"
          using ES(2) by (auto simp: in_set_conv_nth)
        with old[of j] show "\<exists>p i. is_child (B2(self := A self)) q p i"
          by (auto simp: is_child_def)
      qed
      moreover have "same_but_pars (set ES) A (B2(self := A self))" using R unfolding rotating_def by blast
      ultimately show "same_but_pars (set ES) A
          ((B3(self \<mapsto> VInt par (take 4 KS) (take 5 ES)))(self := A self))"
        using same_but_pars_trans by simp blast
    qed simp
    have k4: "k' = KS ! 4" using k(2) len2 M8 by simp
    show "runs (case (4, k', e') of (idx, k, e) \<Rightarrow>
       bindP (get_at self (right_keys 4)) (\<lambda>rks.
       bindP (get_at self (right_edges 4 e)) (\<lambda>res.
       bindP (liftP (bindR (arr_slice res 0 (4 + 1)) assume_init_slice)) (\<lambda>es.
       bindP (number_edges 0 es) (\<lambda>_.
       bindP (liftP (nat_sub M 4)) (\<lambda>rlen.
       bindP (upd_at self (\<lambda>n. Inr (n\<lparr>len := 4\<rparr>))) (\<lambda>_.
       ret (k, \<lparr>parent = None, parent_idx = None, len = rlen, keys = rks,
              node_d = Internal \<lparr>edges = res\<rparr>\<rparr>)))))))) B2 Q"
      unfolding prod.case
      apply (rule runs_bind, rule runs_get_at[where A = B2, OF B2(1) right_arrays(1)])
        apply (assumption, rule len2)
      apply (rule runs_bind, rule runs_get_at[where A = B2, OF B2(1) right_arrays(2)])
        apply (assumption, rule len2)
      apply (rule runs_bind, rule runs_lift[where a = "drop 5 ES"])
      using es5 apply simp
      apply (rule runs_bind, rule runs_number_edges[where p = self, OF distinct_drop[OF ES(1)]])
       apply (erule right_ch)
      apply (rule runs_bind, rule runs_lift[where a = 4], simp add: M8)
      apply (rule runs_bind, rule runs_upd_at[OF B3_self shorten])
       apply assumption
      apply (rule runs_ret)
      unfolding k4
      by (rule result)
  qed (use ES in simp_all)
  have l: "vlen (VInt par ks es) = M" "M div 2 = 4" using A M8 by simp_all
  show ?thesis
    unfolding split_internal_def Let_def
    apply (rule runs_bind, rule runs_len_at[where A = A, OF A(1)], unfold l)
    apply (rule runs_bind, rule runs_assert, rule idx)
    apply (rule runs_bind, rule runs_assert, simp add: M8)
    apply (rule runs_bind, rule runs_parent_idx[OF e])
    apply (rule runs_bind, rule runs_assert, simp)
    apply (rule runs_bind, rule runs_split_internal_up[where par = par and KS = KS and ES = ES and A = A])
        apply (rule start, simp add: len, rule ES, rule ES)
    unfolding prod.case
    by (erule rest)
qed

end
