(* ===== verification/Tree.thy ===== *)
theory Tree
  imports MergeSpec SplitSpec
begin

text \<open>
  The tree a map denotes: a datatype of leaves and internal nodes that carry their pointers, the
  predicate that a heap represents it (parent links and edges), the doubly linked list of the
  leaves, balance and fill, and the ordering invariant. A path from a node up to the root is a list
  of frames, so that the loops that climb parent pointers are proved by induction on it.

  The order of a tree is stated on its flat list of items: \<open>Sep k\<close> for a separator of an internal
  node, \<open>Ent k v\<close> for an entry of a leaf. The tree is ordered when their marks increase strictly, a
  separator coming just before an entry with the same key.
\<close>

subsection \<open>Marks\<close>

datatype 'k mark = SepAt 'k | EntAt 'k

fun mark_key :: "'k mark \<Rightarrow> 'k" where
  "mark_key (SepAt k) = k"
| "mark_key (EntAt k) = k"

fun is_ent :: "'k mark \<Rightarrow> bool" where
  "is_ent (SepAt k) = False"
| "is_ent (EntAt k) = True"

instantiation mark :: (linorder) linorder
begin

definition less_eq_mark :: "'a mark \<Rightarrow> 'a mark \<Rightarrow> bool" where
  "less_eq_mark a b \<longleftrightarrow> mark_key a < mark_key b \<or> mark_key a = mark_key b \<and> (is_ent a \<longrightarrow> is_ent b)"

definition less_mark :: "'a mark \<Rightarrow> 'a mark \<Rightarrow> bool" where
  "less_mark a b \<longleftrightarrow> mark_key a < mark_key b \<or> mark_key a = mark_key b \<and> \<not> is_ent a \<and> is_ent b"

instance
proof
  fix x y z :: "'a mark"
  show "(x < y) = (x \<le> y \<and> \<not> y \<le> x)" by (auto simp: less_eq_mark_def less_mark_def)
  show "x \<le> x" by (simp add: less_eq_mark_def)
  show "x \<le> y \<Longrightarrow> y \<le> z \<Longrightarrow> x \<le> z" by (auto simp: less_eq_mark_def)
  show "x \<le> y \<Longrightarrow> y \<le> x \<Longrightarrow> x = y" by (cases x; cases y) (auto simp: less_eq_mark_def)
  show "x \<le> y \<or> y \<le> x" by (auto simp: less_eq_mark_def)
qed

end

lemma less_mark_simps [simp]:
  "SepAt a < SepAt b \<longleftrightarrow> a < b"
  "SepAt a < EntAt b \<longleftrightarrow> a \<le> b"
  "EntAt a < SepAt b \<longleftrightarrow> a < b"
  "EntAt a < EntAt b \<longleftrightarrow> a < b"
  by (auto simp: less_mark_def)

datatype ('k, 'v) item = Sep 'k | Ent 'k 'v

fun mark_of :: "('k, 'v) item \<Rightarrow> 'k mark" where
  "mark_of (Sep k) = SepAt k"
| "mark_of (Ent k v) = EntAt k"

definition ordered :: "('k::linorder, 'v) item list \<Rightarrow> bool" where
  "ordered its \<longleftrightarrow> sorted_wrt (<) (map mark_of its)"

lemma ordered_append:
  "ordered (xs @ ys) \<longleftrightarrow> ordered xs \<and> ordered ys \<and> (\<forall>x\<in>set xs. \<forall>y\<in>set ys. mark_of x < mark_of y)"
  by (auto simp: ordered_def sorted_wrt_append)

lemma ordered_Cons: "ordered (x # xs) \<longleftrightarrow> ordered xs \<and> (\<forall>y\<in>set xs. mark_of x < mark_of y)"
  by (auto simp: ordered_def)

lemma ordered_Nil [simp]: "ordered []"
  by (simp add: ordered_def)

fun ents :: "('k, 'v) item list \<Rightarrow> ('k \<times> 'v) list" where
  "ents [] = []"
| "ents (Sep k # its) = ents its"
| "ents (Ent k v # its) = (k, v) # ents its"

lemma ents_append [simp]: "ents (xs @ ys) = ents xs @ ents ys"
  by (induction xs rule: ents.induct) auto

lemma set_ents: "(k, v) \<in> set (ents its) \<longleftrightarrow> Ent k v \<in> set its"
  by (induction its rule: ents.induct) auto

subsection \<open>Trees\<close>

datatype ('k, 'v) bt =
    Lf ptr "'k list" "'v list"
  | Nd ptr "'k list" "('k, 'v) bt list"

fun root_of :: "('k, 'v) bt \<Rightarrow> ptr" where
  "root_of (Lf p ks vs) = p"
| "root_of (Nd p ks ts) = p"

fun ptrs :: "('k, 'v) bt \<Rightarrow> ptr list" where
  "ptrs (Lf p ks vs) = [p]"
| "ptrs (Nd p ks ts) = p # concat (map ptrs ts)"

abbreviation ptrss :: "('k, 'v) bt list \<Rightarrow> ptr set" where
  "ptrss ts \<equiv> (\<Union>t\<in>set ts. set (ptrs t))"

fun leaves :: "('k, 'v) bt \<Rightarrow> ptr list" where
  "leaves (Lf p ks vs) = [p]"
| "leaves (Nd p ks ts) = concat (map leaves ts)"

fun sep_after :: "'k list \<Rightarrow> ('k, 'v) item list list \<Rightarrow> ('k, 'v) item list" where
  "sep_after (k # ks) (x # xs) = x @ Sep k # sep_after ks xs"
| "sep_after _ _ = []"

fun sep_before :: "'k list \<Rightarrow> ('k, 'v) item list list \<Rightarrow> ('k, 'v) item list" where
  "sep_before (k # ks) (x # xs) = Sep k # x @ sep_before ks xs"
| "sep_before _ _ = []"

fun weave :: "'k list \<Rightarrow> ('k, 'v) item list list \<Rightarrow> ('k, 'v) item list" where
  "weave ks [] = []"
| "weave ks (x # xs) = x @ sep_before ks xs"

fun flat :: "('k, 'v) bt \<Rightarrow> ('k, 'v) item list" where
  "flat (Lf p ks vs) = map2 Ent ks vs"
| "flat (Nd p ks ts) = weave ks (map flat ts)"

definition entries :: "('k, 'v) bt \<Rightarrow> ('k \<times> 'v) list" where
  "entries t = ents (flat t)"

lemma weave_split:
  "length kl = length xl \<Longrightarrow>
   weave (kl @ kr) (xl @ x # xr) = sep_after kl xl @ x @ sep_before kr xr"
proof (induction kl xl rule: list_induct2)
  case (Cons k kl y xl)
  then show ?case by (cases xl; cases kl) auto
qed simp

lemma ents_leaf [simp]: "length ks = length vs \<Longrightarrow> ents (map2 Ent ks vs) = zip ks vs"
  by (induction ks vs rule: list_induct2) auto

lemma set_leaf_items: "set (map2 Ent ks vs) = (\<lambda>(k, v). Ent k v) ` set (zip ks vs)"
  by auto

lemma root_in_ptrs [simp]: "root_of t \<in> set (ptrs t)"
  by (cases t) auto

lemma leaves_in_ptrs: "set (leaves t) \<subseteq> set (ptrs t)"
  by (induction t rule: leaves.induct) auto

lemma distinct_leaves: "distinct (ptrs t) \<Longrightarrow> distinct (leaves t)"
proof (induction t rule: leaves.induct)
  case (2 p ks ts)
  then have "distinct (concat (map ptrs ts))" by simp
  with "2.IH" show ?case
  proof (induction ts)
    case (Cons t ts)
    have d: "distinct (ptrs t)" "distinct (concat (map ptrs ts))" "set (ptrs t) \<inter> ptrss ts = {}"
      using Cons.prems(2) by auto
    have "distinct (leaves (Nd p ks ts))" by (rule Cons.IH[OF _ d(2)]) (use Cons.prems(1) in simp)
    moreover have "distinct (leaves t)" using Cons.prems(1)[of t] d(1) by simp
    moreover have "set (leaves t) \<inter> set (leaves u) = {}" if "u \<in> set ts" for u
    proof -
      have "set (leaves t) \<inter> set (leaves u) \<subseteq> set (ptrs t) \<inter> set (ptrs u)"
        using leaves_in_ptrs[of t] leaves_in_ptrs[of u] by blast
      also have "\<dots> \<subseteq> set (ptrs t) \<inter> ptrss ts" using that by blast
      finally show ?thesis using d(3) by simp
    qed
    ultimately show ?case by auto
  qed simp
qed simp

subsection \<open>Balance and fill\<close>

fun bal :: "nat \<Rightarrow> ('k, 'v) bt \<Rightarrow> bool" where
  "bal h (Lf p ks vs) \<longleftrightarrow> h = 0 \<and> length vs = length ks"
| "bal h (Nd p ks ts) \<longleftrightarrow>
     (case h of 0 \<Rightarrow> False | Suc h' \<Rightarrow> length ts = length ks + 1 \<and> (\<forall>t\<in>set ts. bal h' t))"

fun nkeys :: "('k, 'v) bt \<Rightarrow> nat" where
  "nkeys (Lf p ks vs) = length ks"
| "nkeys (Nd p ks ts) = length ks"

fun filled :: "nat \<Rightarrow> ('k, 'v) bt \<Rightarrow> bool" where
  "filled m (Lf p ks vs) \<longleftrightarrow> m \<le> length ks \<and> length ks \<le> M"
| "filled m (Nd p ks ts) \<longleftrightarrow> m \<le> length ks \<and> length ks \<le> M \<and> (\<forall>t\<in>set ts. filled (M div 2) t)"

lemma filled_mono: "filled m t \<Longrightarrow> m' \<le> m \<Longrightarrow> filled m' t"
  by (cases t) auto

lemma filled_nkeys: "filled m t \<Longrightarrow> m \<le> nkeys t \<and> nkeys t \<le> M"
  by (cases t) auto

lemma filled_of_nkeys: "filled m t \<Longrightarrow> m' \<le> nkeys t \<Longrightarrow> filled m' t"
  by (cases t) auto

lemma bal_leaf_cases: "bal 0 t \<longleftrightarrow> (\<exists>p ks vs. t = Lf p ks vs \<and> length vs = length ks)"
  by (cases t) auto

lemma bal_Suc_cases:
  "bal (Suc h) t \<longleftrightarrow> (\<exists>p ks ts. t = Nd p ks ts \<and> length ts = length ks + 1 \<and> (\<forall>u\<in>set ts. bal h u))"
  by (cases t) auto

subsection \<open>Trees in a heap\<close>

fun rep :: "('k, 'v) vheap \<Rightarrow> par \<Rightarrow> ('k, 'v) bt \<Rightarrow> bool"
and reps :: "('k, 'v) vheap \<Rightarrow> ptr \<Rightarrow> nat \<Rightarrow> ('k, 'v) bt list \<Rightarrow> bool" where
  "rep A par (Lf p ks vs) \<longleftrightarrow> (\<exists>pv nx. A p = Some (VLeaf par ks vs pv nx))"
| "rep A par (Nd p ks ts) \<longleftrightarrow> A p = Some (VInt par ks (map root_of ts)) \<and> reps A p 0 ts"
| "reps A p i [] \<longleftrightarrow> True"
| "reps A p i (t # ts) \<longleftrightarrow> rep A (Some (p, i)) t \<and> reps A p (Suc i) ts"

definition links :: "('k, 'v) vheap \<Rightarrow> ptr \<Rightarrow> (ptr option \<times> ptr option) option" where
  "links A l = (case A l of Some (VLeaf par ks vs pv nx) \<Rightarrow> Some (pv, nx) | _ \<Rightarrow> None)"

definition hd_or :: "ptr list \<Rightarrow> ptr option \<Rightarrow> ptr option" where
  "hd_or ls nx = (case ls of [] \<Rightarrow> nx | l # _ \<Rightarrow> Some l)"

definition last_or :: "ptr option \<Rightarrow> ptr list \<Rightarrow> ptr option" where
  "last_or pv ls = (if ls = [] then pv else Some (last ls))"

fun linked :: "('k, 'v) vheap \<Rightarrow> ptr option \<Rightarrow> ptr list \<Rightarrow> ptr option \<Rightarrow> bool" where
  "linked A pv [] nx \<longleftrightarrow> True"
| "linked A pv (l # ls) nx \<longleftrightarrow> links A l = Some (pv, hd_or ls nx) \<and> linked A (Some l) ls nx"

definition tree_in :: "('k, 'v) vheap \<Rightarrow> ('k, 'v) bt \<Rightarrow> bool" where
  "tree_in A t \<longleftrightarrow> rep A None t \<and> distinct (ptrs t) \<and> linked A None (leaves t) None"

lemma hd_or_simps [simp]: "hd_or [] nx = nx" "hd_or (l # ls) nx = Some l"
  by (simp_all add: hd_or_def)

lemma hd_or_append: "hd_or (xs @ ys) nx = hd_or xs (hd_or ys nx)"
  by (cases xs) auto

lemma last_or_simps [simp]:
  "last_or pv [] = pv" "last_or pv (l # ls) = last_or (Some l) ls" "last_or pv (ls @ [l]) = Some l"
  by (simp_all add: last_or_def)

lemma last_or_append: "last_or pv (xs @ ys) = last_or (last_or pv xs) ys"
  by (simp add: last_or_def)

lemma linked_append:
  "linked A pv (xs @ ys) nx \<longleftrightarrow> linked A pv xs (hd_or ys nx) \<and> linked A (last_or pv xs) ys nx"
  by (induction xs arbitrary: pv) (auto simp: hd_or_append)

lemma linked_cong:
  "(\<And>l. l \<in> set ls \<Longrightarrow> links A l = links B l) \<Longrightarrow> linked A pv ls nx = linked B pv ls nx"
  by (induction ls arbitrary: pv) auto

lemma reps_append: "reps A p i (ts @ us) \<longleftrightarrow> reps A p i ts \<and> reps A p (i + length ts) us"
  by (induction ts arbitrary: i) auto

lemma reps_nth: "reps A p i ts \<Longrightarrow> j < length ts \<Longrightarrow> rep A (Some (p, i + j)) (ts ! j)"
proof (induction ts arbitrary: i j)
  case (Cons t ts)
  then show ?case using Cons.IH[of "Suc i" "j - 1"] by (cases j) auto
qed simp

lemma reps_iff: "reps A p i ts \<longleftrightarrow> (\<forall>j < length ts. rep A (Some (p, i + j)) (ts ! j))"
proof (induction ts arbitrary: i)
  case (Cons t ts)
  show ?case
    unfolding reps.simps Cons.IH by (auto simp: nth_Cons' less_Suc_eq_0_disj All_less_Suc2)
qed simp

subsection \<open>Congruence\<close>

fun strip :: "('k, 'v) view \<Rightarrow> ('k, 'v) view" where
  "strip (VLeaf par ks vs pv nx) = VLeaf par ks vs None None"
| "strip v = v"

lemma strip_leaf: "strip v = VLeaf par ks vs None None \<Longrightarrow> \<exists>pv nx. v = VLeaf par ks vs pv nx"
  by (cases v) auto

lemma strip_int: "strip v = VInt par ks es \<Longrightarrow> v = VInt par ks es"
  by (cases v) auto

lemma rep_strip:
  "rep A par t \<Longrightarrow> (\<And>q. q \<in> set (ptrs t) \<Longrightarrow> map_option strip (B q) = map_option strip (A q)) \<Longrightarrow> rep B par t"
  "reps A p i ts \<Longrightarrow> (\<And>q. q \<in> ptrss ts \<Longrightarrow> map_option strip (B q) = map_option strip (A q)) \<Longrightarrow> reps B p i ts"
proof (induction A par t and A p i ts rule: rep_reps.induct)
  case (1 A par p ks vs)
  then have "map_option strip (B p) = Some (VLeaf par ks vs None None)" by auto
  then show ?case using strip_leaf by fastforce
next
  case (2 A par p ks ts)
  then have "map_option strip (B p) = Some (VInt par ks (map root_of ts))" by auto
  then have "B p = Some (VInt par ks (map root_of ts))" using strip_int by fastforce
  moreover have "reps B p 0 ts" by (rule "2.IH") (use "2.prems" in auto)
  ultimately show ?case by simp
qed auto

lemma rep_cong:
  "rep A par t \<Longrightarrow> (\<And>q. q \<in> set (ptrs t) \<Longrightarrow> B q = A q) \<Longrightarrow> rep B par t"
  by (erule rep_strip(1)) simp

lemma reps_cong:
  "reps A p i ts \<Longrightarrow> (\<And>q. q \<in> ptrss ts \<Longrightarrow> B q = A q) \<Longrightarrow> reps B p i ts"
  by (erule rep_strip(2)) simp

lemma rep_root: "rep A par t \<Longrightarrow> \<exists>v. A (root_of t) = Some v \<and> \<not> raw v \<and> vpar v = par"
  by (cases t) auto

lemma rep_is_child: "rep A (Some (p, i)) t \<Longrightarrow> is_child A (root_of t) p i"
  using rep_root[of A "Some (p, i)" t] by (auto simp: is_child_def)

lemma rep_dom:
  "rep A par t \<Longrightarrow> set (ptrs t) \<subseteq> dom A"
  "reps A p i ts \<Longrightarrow> ptrss ts \<subseteq> dom A"
  by (induction A par t and A p i ts rule: rep_reps.induct) auto

lemma rep_reparent:
  assumes "rep A par t" "distinct (ptrs t)"
    "B (root_of t) = map_option (vset_par par') (A (root_of t))"
    "\<And>q. q \<in> set (ptrs t) \<Longrightarrow> q \<noteq> root_of t \<Longrightarrow> B q = A q"
  shows "rep B par' t"
proof (cases t)
  case (Lf p ks vs)
  with assms show ?thesis by auto
next
  case (Nd p ks ts)
  with assms have "reps A p 0 ts" "p \<notin> ptrss ts" by auto
  have "reps B p 0 ts" by (rule reps_cong[OF \<open>reps A p 0 ts\<close>]) (use assms(4) Nd \<open>p \<notin> ptrss ts\<close> in auto)
  with Nd assms show ?thesis by simp
qed

lemma distinct_concat_nth:
  assumes "distinct (concat xss)" "i < length xss" "j < length xss" "i \<noteq> j"
  shows "set (xss ! i) \<inter> set (xss ! j) = {}"
  using assms
proof (induction xss arbitrary: i j)
  case (Cons xs xss)
  have *: "set xs \<inter> set (xss ! k) = {}" if "k < length xss" for k
    using Cons.prems(1) nth_mem[OF that] by auto
  show ?case
  proof (cases i)
    case 0
    with Cons.prems *[of "j - 1"] show ?thesis by (cases j) auto
  next
    case (Suc i')
    with Cons.prems Cons.IH[of i' "j - 1"] *[of i'] show ?thesis by (cases j) auto
  qed
qed simp

lemma reps_reparent:
  assumes "reps A p i ts" "distinct (concat (map ptrs ts))"
    "\<And>j. j < length ts \<Longrightarrow>
       B (root_of (ts ! j)) = map_option (vset_par (Some (p', i' + j))) (A (root_of (ts ! j)))"
    "\<And>q. q \<in> ptrss ts \<Longrightarrow> q \<notin> root_of ` set ts \<Longrightarrow> B q = A q"
  shows "reps B p' i' ts"
  unfolding reps_iff
proof (intro allI impI)
  fix j assume j: "j < length ts"
  show "rep B (Some (p', i' + j)) (ts ! j)"
  proof (rule rep_reparent[OF reps_nth[OF assms(1) j]])
    show "distinct (ptrs (ts ! j))" using assms(2) j by (auto simp: distinct_concat_iff)
    fix q assume q: "q \<in> set (ptrs (ts ! j))" "q \<noteq> root_of (ts ! j)"
    have "q \<notin> root_of ` set ts"
    proof
      assume "q \<in> root_of ` set ts"
      then obtain i where i: "i < length ts" "q = root_of (ts ! i)" by (auto simp: in_set_conv_nth)
      with q(2) have "i \<noteq> j" by auto
      with distinct_concat_nth[OF assms(2), of i j] i(1) j
      have "set (ptrs (ts ! i)) \<inter> set (ptrs (ts ! j)) = {}" by simp
      with root_in_ptrs[of "ts ! i"] q(1) i(2) show False by blast
    qed
    moreover have "q \<in> ptrss ts" using q(1) j by (auto intro!: bexI[of _ "ts ! j"])
    ultimately show "B q = A q" using assms(4) by blast
  qed (rule assms(3)[OF j])
qed

end
