(* ===== verification/Path.thy ===== *)
theory Path
  imports Tree
begin

text \<open>
  Paths in a tree: a frame is an internal node with a hole for one of its children, a path is the
  list of frames from a node up to the root. \<open>plug\<close> puts a tree into the hole. Every notion of theory
  \<open>Tree\<close> has a counterpart on paths and a lemma that splits it along \<open>plug\<close>.
\<close>

subsection \<open>Frames and paths\<close>

datatype ('k, 'v) frame = Fr ptr "'k list" "('k, 'v) bt list" "'k list" "('k, 'v) bt list"

type_synonym ('k, 'v) path = "('k, 'v) frame list"

fun plug :: "('k, 'v) path \<Rightarrow> ('k, 'v) bt \<Rightarrow> ('k, 'v) bt" where
  "plug [] t = t"
| "plug (Fr p ks1 ts1 ks2 ts2 # c) t = plug c (Nd p (ks1 @ ks2) (ts1 @ t # ts2))"

fun left_items :: "('k, 'v) path \<Rightarrow> ('k, 'v) item list" where
  "left_items [] = []"
| "left_items (Fr p ks1 ts1 ks2 ts2 # c) = left_items c @ sep_after ks1 (map flat ts1)"

fun right_items :: "('k, 'v) path \<Rightarrow> ('k, 'v) item list" where
  "right_items [] = []"
| "right_items (Fr p ks1 ts1 ks2 ts2 # c) = sep_before ks2 (map flat ts2) @ right_items c"

fun left_leaves :: "('k, 'v) path \<Rightarrow> ptr list" where
  "left_leaves [] = []"
| "left_leaves (Fr p ks1 ts1 ks2 ts2 # c) = left_leaves c @ concat (map leaves ts1)"

fun right_leaves :: "('k, 'v) path \<Rightarrow> ptr list" where
  "right_leaves [] = []"
| "right_leaves (Fr p ks1 ts1 ks2 ts2 # c) = concat (map leaves ts2) @ right_leaves c"

fun path_ptrs :: "('k, 'v) path \<Rightarrow> ptr list" where
  "path_ptrs [] = []"
| "path_ptrs (Fr p ks1 ts1 ks2 ts2 # c) = p # concat (map ptrs (ts1 @ ts2)) @ path_ptrs c"

fun path_shape :: "nat \<Rightarrow> ('k, 'v) path \<Rightarrow> bool" where
  "path_shape h [] \<longleftrightarrow> True"
| "path_shape h (Fr p ks1 ts1 ks2 ts2 # c) \<longleftrightarrow>
     length ts1 = length ks1 \<and> length ts2 = length ks2 \<and> (\<forall>t\<in>set ts1 \<union> set ts2. bal h t) \<and>
     path_shape (Suc h) c"

fun path_filled :: "('k, 'v) path \<Rightarrow> bool" where
  "path_filled [] \<longleftrightarrow> True"
| "path_filled (Fr p ks1 ts1 ks2 ts2 # c) \<longleftrightarrow>
     (if c = [] then 1 else M div 2) \<le> length ks1 + length ks2 \<and> length ks1 + length ks2 \<le> M \<and>
     (\<forall>t\<in>set ts1 \<union> set ts2. filled (M div 2) t) \<and> path_filled c"

text \<open>The least number of keys of the tree in the hole.\<close>

definition min_fill :: "('k, 'v) path \<Rightarrow> nat" where
  "min_fill c = (if c = [] then 1 else M div 2)"

text \<open>The heap represents the path; \<open>q\<close> is the pointer in the hole and \<open>par\<close> its parent link.\<close>

fun path_rep :: "('k, 'v) vheap \<Rightarrow> ('k, 'v) path \<Rightarrow> ptr \<Rightarrow> par \<Rightarrow> bool" where
  "path_rep A [] q par \<longleftrightarrow> par = None"
| "path_rep A (Fr p ks1 ts1 ks2 ts2 # c) q par \<longleftrightarrow>
     par = Some (p, length ts1) \<and> reps A p 0 ts1 \<and> reps A p (Suc (length ts1)) ts2 \<and>
     (\<exists>ppar. A p = Some (VInt ppar (ks1 @ ks2) (map root_of ts1 @ q # map root_of ts2)) \<and> path_rep A c p ppar)"

subsection \<open>Splitting along \<open>plug\<close>\<close>

lemma plug_flat:
  "path_shape h c \<Longrightarrow> flat (plug c t) = left_items c @ flat t @ right_items c"
proof (induction c t arbitrary: h rule: plug.induct)
  case (2 p ks1 ts1 ks2 ts2 c t)
  then have "flat (plug c (Nd p (ks1 @ ks2) (ts1 @ t # ts2))) =
      left_items c @ weave (ks1 @ ks2) (map flat ts1 @ flat t # map flat ts2) @ right_items c"
    using "2.IH"[of "Suc h"] by simp
  also have "weave (ks1 @ ks2) (map flat ts1 @ flat t # map flat ts2) =
      sep_after ks1 (map flat ts1) @ flat t @ sep_before ks2 (map flat ts2)"
    by (rule weave_split) (use "2.prems" in simp)
  finally show ?case by simp
qed simp

lemma plug_leaves: "leaves (plug c t) = left_leaves c @ leaves t @ right_leaves c"
  by (induction c t rule: plug.induct) auto

lemma plug_ptrs: "set (ptrs (plug c t)) = set (path_ptrs c) \<union> set (ptrs t)"
  by (induction c t rule: plug.induct) auto

lemma plug_distinct:
  "distinct (ptrs (plug c t)) \<longleftrightarrow>
   distinct (path_ptrs c) \<and> distinct (ptrs t) \<and> set (path_ptrs c) \<inter> set (ptrs t) = {}"
proof (induction c t rule: plug.induct)
  case (2 p ks1 ts1 ks2 ts2 c t)
  show ?case
    unfolding plug.simps "2.IH" path_ptrs.simps ptrs.simps map_append list.map concat_append concat.simps
      distinct.simps distinct_append set_append set_simps by blast
qed simp

lemma plug_bal:
  "path_shape h c \<Longrightarrow> bal (h + length c) (plug c t) \<longleftrightarrow> bal h t"
proof (induction c t arbitrary: h rule: plug.induct)
  case (2 p ks1 ts1 ks2 ts2 c t)
  then show ?case using "2.IH"[of "Suc h"] by auto
qed simp

lemma plug_filled: "filled 1 (plug c t) \<longleftrightarrow> path_filled c \<and> filled (min_fill c) t"
  if "path_shape h c"
  using that
proof (induction c t arbitrary: h rule: plug.induct)
  case (2 p ks1 ts1 ks2 ts2 c t)
  then show ?case using "2.IH"[of "Suc h"] by (auto simp: min_fill_def)
qed (simp add: min_fill_def)

lemma path_rep_det: "path_rep A c q par \<Longrightarrow> path_rep A c q par' \<Longrightarrow> par' = par"
  by (cases "(A, c, q, par)" rule: path_rep.cases) auto

lemma plug_rep: "rep A None (plug c t) \<longleftrightarrow> (\<exists>par. path_rep A c (root_of t) par \<and> rep A par t)"
proof (induction c t rule: plug.induct)
  case (2 p ks1 ts1 ks2 ts2 c t)
  show ?case unfolding plug.simps "2.IH" by (auto simp: reps_append)
qed simp

lemma path_rep_par:
  "path_rep A c q par \<Longrightarrow>
   par = (case c of [] \<Rightarrow> None | Fr p ks1 ts1 ks2 ts2 # _ \<Rightarrow> Some (p, length ts1))"
  by (cases "(A, c, q, par)" rule: path_rep.cases) auto

lemma path_rep_strip:
  "path_rep A c q par \<Longrightarrow>
   (\<And>r. r \<in> set (path_ptrs c) \<Longrightarrow> map_option strip (B r) = map_option strip (A r)) \<Longrightarrow>
   path_rep B c q par"
proof (induction A c q par rule: path_rep.induct)
  case (2 A p ks1 ts1 ks2 ts2 c q par)
  from "2.prems"(1) obtain ppar where P: "par = Some (p, length ts1)" "reps A p 0 ts1"
      "reps A p (Suc (length ts1)) ts2"
      "A p = Some (VInt ppar (ks1 @ ks2) (map root_of ts1 @ q # map root_of ts2))" "path_rep A c p ppar"
    by auto
  have "map_option strip (B p) = Some (VInt ppar (ks1 @ ks2) (map root_of ts1 @ q # map root_of ts2))"
    using "2.prems"(2)[of p] P(4) by simp
  then have "B p = Some (VInt ppar (ks1 @ ks2) (map root_of ts1 @ q # map root_of ts2))"
    using strip_int by fastforce
  moreover have "reps B p 0 ts1" by (rule rep_strip(2)[OF P(2)]) (use "2.prems"(2) in auto)
  moreover have "reps B p (Suc (length ts1)) ts2"
    by (rule rep_strip(2)[OF P(3)]) (use "2.prems"(2) in auto)
  moreover have "path_rep B c p ppar" by (rule "2.IH"[OF P(5)]) (use "2.prems"(2) in auto)
  ultimately show ?case using P(1) by auto
qed simp

lemma path_rep_cong:
  "path_rep A c q par \<Longrightarrow> (\<And>r. r \<in> set (path_ptrs c) \<Longrightarrow> B r = A r) \<Longrightarrow> path_rep B c q par"
  by (erule path_rep_strip) simp

lemma path_rep_dom: "path_rep A c q par \<Longrightarrow> set (path_ptrs c) \<subseteq> dom A"
proof (induction A c q par rule: path_rep.induct)
  case (2 A p ks1 ts1 ks2 ts2 c q par)
  then have "ptrss ts1 \<subseteq> dom A" "ptrss ts2 \<subseteq> dom A" "p \<in> dom A" "set (path_ptrs c) \<subseteq> dom A"
    using rep_dom(2)[of A p 0 ts1] rep_dom(2)[of A p "Suc (length ts1)" ts2] by auto
  then show ?case by auto
qed simp

lemma length_path_ptrs: "length c \<le> length (path_ptrs c)"
  by (induction c rule: path_ptrs.induct) auto

end
