(* ===== verification/BMap.thy ===== *)
theory BMap
  imports NodeOps
begin

text \<open>
  The map (\<open>src/src/map.rs\<close>): its record, lookup, insertion, removal, update and teardown. The map
  does not own its nodes: they live in the store, and every operation is a program over the store
  that returns the updated record of the map beside its result. A loop that climbs parent pointers
  carries fuel; the fuel given by the callers is one more than the height, and the theorems show
  that it is never used up.
\<close>

subsection \<open>The map\<close>

record bmap =
  root :: "ptr option"
  mlength :: nat
  height :: nat

datatype found = NoRoot | Before ptr nat | At ptr nat

definition new_in :: bmap where
  "new_in = \<lparr>root = None, mlength = 0, height = 0\<rparr>"

definition map_len :: "bmap \<Rightarrow> nat" where
  "map_len m = mlength m"

definition map_is_empty :: "bmap \<Rightarrow> bool" where
  "map_is_empty m \<longleftrightarrow> root m = None"

subsection \<open>Descending\<close>

text \<open>\<open>[K]::binary_search_by\<close> with a comparison of keys: \<open>Inr\<close> for \<open>Ok\<close>, \<open>Inl\<close> for \<open>Err\<close>.\<close>

function search_loop :: "('k::linorder) list \<Rightarrow> 'k \<Rightarrow> nat \<Rightarrow> nat \<Rightarrow> nat + nat" where
  "search_loop ks k left right =
     (if left < right
      then let mid = left + (right - left) div 2 in
           if ks ! mid < k then search_loop ks k (mid + 1) right
           else if k < ks ! mid then search_loop ks k left mid
           else Inr mid
      else Inl left)"
  by pat_completeness auto
termination
  by (relation "measure (\<lambda>(_, _, left, right). right - left)") (auto simp: Let_def)

declare search_loop.simps [simp del]

definition binary_search :: "('k::linorder) list \<Rightarrow> 'k \<Rightarrow> nat + nat" where
  "binary_search ks k = search_loop ks k 0 (length ks)"

fun find_loop :: "nat \<Rightarrow> ptr \<Rightarrow> 'k::linorder \<Rightarrow> ('k, 'v, found) sprog" where
  "find_loop 0 node k =
     bindP (get_at node node_keys) (\<lambda>ks.
     case binary_search ks k of Inr idx \<Rightarrow> ret (At node idx) | Inl idx \<Rightarrow> ret (Before node idx))"
| "find_loop (Suc h) node k =
     bindP (get_at node node_keys) (\<lambda>ks.
     case binary_search ks k of
       Inr idx \<Rightarrow> bindP (get_at node (edge (idx + 1))) (\<lambda>c. find_loop h c k)
     | Inl idx \<Rightarrow> bindP (get_at node (edge idx)) (\<lambda>c. find_loop h c k))"

definition find_key :: "bmap \<Rightarrow> 'k::linorder \<Rightarrow> ('k, 'v, found) sprog" where
  "find_key m k =
     (case root m of None \<Rightarrow> ret NoRoot | Some node \<Rightarrow> find_loop (height m) node k)"

fun first_leaf_loop :: "nat \<Rightarrow> ptr \<Rightarrow> ('k, 'v, ptr) sprog" where
  "first_leaf_loop 0 node = ret node"
| "first_leaf_loop (Suc h) node = bindP (get_at node (edge 0)) (first_leaf_loop h)"

fun last_leaf_loop :: "nat \<Rightarrow> ptr \<Rightarrow> ('k, 'v, ptr) sprog" where
  "last_leaf_loop 0 node = ret node"
| "last_leaf_loop (Suc h) node = bindP (get_at node (\<lambda>n. edge (len n) n)) (last_leaf_loop h)"

definition first_leaf :: "bmap \<Rightarrow> ('k, 'v, ptr option) sprog" where
  "first_leaf m =
     (case root m of None \<Rightarrow> ret None
      | Some node \<Rightarrow> bindP (first_leaf_loop (height m) node) (\<lambda>l. ret (Some l)))"

definition last_leaf :: "bmap \<Rightarrow> ('k, 'v, ptr option) sprog" where
  "last_leaf m =
     (case root m of None \<Rightarrow> ret None
      | Some node \<Rightarrow> bindP (last_leaf_loop (height m) node) (\<lambda>l. ret (Some l)))"

subsection \<open>Retrieval\<close>

definition at_entry :: "(nat \<Rightarrow> ('k, 'v) node \<Rightarrow> 'a res) \<Rightarrow> found \<Rightarrow> ('k, 'v, 'a option) sprog" where
  "at_entry f r =
     (case r of At node idx \<Rightarrow> bindP (get_at node (f idx)) (\<lambda>a. ret (Some a)) | _ \<Rightarrow> ret None)"

definition contains_key :: "bmap \<Rightarrow> 'k::linorder \<Rightarrow> ('k, 'v, bool) sprog" where
  "contains_key m k =
     bindP (find_key m k) (\<lambda>r. ret (case r of At _ _ \<Rightarrow> True | _ \<Rightarrow> False))"

definition map_get :: "bmap \<Rightarrow> 'k::linorder \<Rightarrow> ('k, 'v, 'v option) sprog" where
  "map_get m k = bindP (find_key m k) (at_entry val)"

definition get_key :: "bmap \<Rightarrow> 'k::linorder \<Rightarrow> ('k, 'v, 'k option) sprog" where
  "get_key m k = bindP (find_key m k) (at_entry key)"

definition get_key_value :: "bmap \<Rightarrow> 'k::linorder \<Rightarrow> ('k, 'v, ('k \<times> 'v) option) sprog" where
  "get_key_value m k = bindP (find_key m k) (at_entry key_val)"

text \<open>\<open>get_mut(k)\<close>, whose caller then replaces the value by \<open>f\<close> of it; the old value is the result.\<close>

definition get_mut :: "bmap \<Rightarrow> 'k::linorder \<Rightarrow> ('v \<Rightarrow> 'v) \<Rightarrow> ('k, 'v, 'v option) sprog" where
  "get_mut m k f =
     bindP (find_key m k) (\<lambda>r.
     case r of
       At node idx \<Rightarrow>
         bindP (upd_ret_at node (\<lambda>n. bindR (val idx n) (\<lambda>v. bindR (write_val idx (f v) n) (\<lambda>n'. Inr (v, n')))))
           (\<lambda>v. ret (Some v))
     | _ \<Rightarrow> ret None)"

definition first_key_value :: "bmap \<Rightarrow> ('k, 'v, ('k \<times> 'v) option) sprog" where
  "first_key_value m =
     bindP (first_leaf m) (\<lambda>l. case l of None \<Rightarrow> ret None
       | Some node \<Rightarrow> bindP (get_at node node_first_key_value) (\<lambda>kv. ret (Some kv)))"

definition last_key_value :: "bmap \<Rightarrow> ('k, 'v, ('k \<times> 'v) option) sprog" where
  "last_key_value m =
     bindP (last_leaf m) (\<lambda>l. case l of None \<Rightarrow> ret None
       | Some node \<Rightarrow> bindP (get_at node node_last_key_value) (\<lambda>kv. ret (Some kv)))"

subsection \<open>Insertion\<close>

definition insert_root ::
    "(slab_event list \<Rightarrow> ptr) \<Rightarrow> bmap \<Rightarrow> 'k \<Rightarrow> 'v \<Rightarrow> ('k, 'v, bmap) sprog" where
  "insert_root pick m k v =
     bindP (assertP (mlength m = 0)) (\<lambda>_.
     bindP (liftP (insert_val 0 k v leaf_node)) (\<lambda>n.
     bindP (alloc pick n) (\<lambda>p.
     ret (m\<lparr>root := Some p, mlength := mlength m + 1\<rparr>))))"

text \<open>The new root above a split root.\<close>

definition grow_root ::
    "(slab_event list \<Rightarrow> ptr) \<Rightarrow> bmap \<Rightarrow> ptr \<Rightarrow> 'k \<Rightarrow> ptr \<Rightarrow> ('k, 'v, bmap) sprog" where
  "grow_root pick m left k right =
     bindP (alloc pick internal_node) (\<lambda>r.
     bindP (upd_at left (set_parent r 0)) (\<lambda>_.
     bindP (upd_at right (set_parent r 0)) (\<lambda>_.
     bindP (set_last_edge r right) (\<lambda>_.
     bindP (insert_edge r 0 False k left) (\<lambda>_.
     ret (m\<lparr>root := Some r, height := height m + 1\<rparr>))))))"

text \<open>The loop of \<open>insert_before\<close>: \<open>node\<close> was split, \<open>k\<close> and \<open>right\<close> go into its parent.\<close>

fun insert_up ::
    "(slab_event list \<Rightarrow> ptr) \<Rightarrow> nat \<Rightarrow> bmap \<Rightarrow> ptr \<Rightarrow> 'k \<Rightarrow> ptr \<Rightarrow> ('k, 'v, bmap) sprog" where
  "insert_up pick 0 m node k right = fail OutOfFuel"
| "insert_up pick (Suc fuel) m node k right =
     bindP (get_at node node_parent) (\<lambda>par.
     case par of
       None \<Rightarrow> grow_root pick m node k right
     | Some (p, idx) \<Rightarrow>
         bindP (liftP (u16_add idx 1)) (\<lambda>idx1.
         bindP (upd_at right (set_parent p idx1)) (\<lambda>_.
         bindP (len_at p) (\<lambda>l.
         if l < M
         then bindP (insert_edge p idx True k right) (\<lambda>_. ret m)
         else bindP (split_internal p idx k right) (\<lambda>(k', rn).
              bindP (alloc pick rn) (\<lambda>r.
              bindP (get_at r node_edges) (\<lambda>es.
              bindP (for_each es (\<lambda>c. upd_at c (set_parent_ptr r))) (\<lambda>_.
              insert_up pick fuel m p k' r))))))))"

text \<open>The split of a full leaf and the repair of the list of leaves.\<close>

definition insert_split ::
    "(slab_event list \<Rightarrow> ptr) \<Rightarrow> 'k \<Rightarrow> 'v \<Rightarrow> ptr \<Rightarrow> nat \<Rightarrow> ('k, 'v, 'k \<times> ptr) sprog" where
  "insert_split pick k v node idx =
     bindP (upd_ret_at node (split_leaf idx k v)) (\<lambda>(k', rn).
     bindP (alloc pick rn) (\<lambda>right.
     bindP (upd_at node (set_next (Some right))) (\<lambda>_.
     bindP (upd_at right (set_prev (Some node))) (\<lambda>_.
     bindP (get_at right node_next) (\<lambda>nx.
     bindP (case nx of None \<Rightarrow> ret () | Some rnx \<Rightarrow> upd_at rnx (set_prev (Some right))) (\<lambda>_.
     ret (k', right)))))))"

definition insert_before ::
    "(slab_event list \<Rightarrow> ptr) \<Rightarrow> bmap \<Rightarrow> 'k \<Rightarrow> 'v \<Rightarrow> ptr \<Rightarrow> nat \<Rightarrow> ('k, 'v, bmap) sprog" where
  "insert_before pick m k v node idx =
     bindP (len_at node) (\<lambda>l.
     bindP (if l < M
            then bindP (upd_at node (insert_val idx k v)) (\<lambda>_. ret m)
            else bindP (insert_split pick k v node idx) (\<lambda>(k', right).
                 insert_up pick (Suc (height m)) m node k' right)) (\<lambda>m.
     ret (m\<lparr>mlength := mlength m + 1\<rparr>)))"

definition map_insert ::
    "(slab_event list \<Rightarrow> ptr) \<Rightarrow> bmap \<Rightarrow> 'k::linorder \<Rightarrow> 'v \<Rightarrow> ('k, 'v, 'v option \<times> bmap) sprog" where
  "map_insert pick m k v =
     bindP (find_key m k) (\<lambda>r.
     case r of
       NoRoot \<Rightarrow> bindP (insert_root pick m k v) (\<lambda>m. ret (None, m))
     | Before node idx \<Rightarrow> bindP (insert_before pick m k v node idx) (\<lambda>m. ret (None, m))
     | At node idx \<Rightarrow> bindP (upd_ret_at node (replace_val idx v)) (\<lambda>old. ret (Some old, m)))"

text \<open>The result is the value that the returned reference points to.\<close>

definition get_or_insert ::
    "(slab_event list \<Rightarrow> ptr) \<Rightarrow> bmap \<Rightarrow> 'k::linorder \<Rightarrow> 'v \<Rightarrow> ('k, 'v, 'v \<times> bmap) sprog" where
  "get_or_insert pick m k v =
     bindP (find_key m k) (\<lambda>r.
     case r of
       NoRoot \<Rightarrow>
         bindP (insert_root pick m k v) (\<lambda>m.
         bindP (liftP (unwrapR (root m))) (\<lambda>p.
         bindP (get_at p (val 0)) (\<lambda>w. ret (w, m))))
     | Before node idx \<Rightarrow>
         bindP (insert_before pick m k v node idx) (\<lambda>m.
         bindP (map_get m k) (\<lambda>w.
         bindP (liftP (unwrapR w)) (\<lambda>w. ret (w, m))))
     | At node idx \<Rightarrow> bindP (get_at node (val idx)) (\<lambda>w. ret (w, m)))"

fun map_extend ::
    "(slab_event list \<Rightarrow> ptr) \<Rightarrow> bmap \<Rightarrow> ('k::linorder \<times> 'v) list \<Rightarrow> ('k, 'v, bmap) sprog" where
  "map_extend pick m [] = ret m"
| "map_extend pick m ((k, v) # kvs) =
     bindP (map_insert pick m k v) (\<lambda>(_, m). map_extend pick m kvs)"

subsection \<open>Removal\<close>

text \<open>The root has no sibling to borrow from: it may run out of keys.\<close>

definition shrink_root :: "bmap \<Rightarrow> bool \<Rightarrow> ptr \<Rightarrow> ('k, 'v, bmap) sprog" where
  "shrink_root m is_leaf node =
     bindP (len_at node) (\<lambda>l.
     if is_leaf then ret (if l = 0 then m\<lparr>root := None\<rparr> else m)
     else if l < 1
          then bindP (liftP (nat_sub (height m) 1)) (\<lambda>h.
               bindP (get_at node (edge 0)) (\<lambda>e.
               bindP (dealloc node) (\<lambda>_.
               bindP (upd_at e clear_parent) (\<lambda>_.
               ret (m\<lparr>root := Some e, height := h\<rparr>)))))
          else ret m)"

definition borrow_prev_leaf :: "ptr \<Rightarrow> ptr \<Rightarrow> nat \<Rightarrow> ptr \<Rightarrow> ('k, 'v, unit) sprog" where
  "borrow_prev_leaf node p idx prev =
     bindP (get_at prev (\<lambda>n. nat_sub (len n) 1)) (\<lambda>i.
     bindP (upd_ret_at prev (remove_val i)) (\<lambda>(k, v).
     bindP (upd_at node (insert_val 0 k v)) (\<lambda>_.
     bindP (upd_ret_at p (replace_key (idx - 1) k)) (\<lambda>_. ret ()))))"

definition borrow_prev_internal :: "ptr \<Rightarrow> ptr \<Rightarrow> nat \<Rightarrow> ptr \<Rightarrow> ('k, 'v, unit) sprog" where
  "borrow_prev_internal node p idx prev =
     bindP (remove_last_edge prev) (\<lambda>(k, e).
     bindP (upd_ret_at p (replace_key (idx - 1) k)) (\<lambda>k.
     bindP (upd_at e (set_parent node 0)) (\<lambda>_.
     insert_edge node 0 False k e)))"

definition borrow_next_leaf :: "ptr \<Rightarrow> ptr \<Rightarrow> nat \<Rightarrow> ptr \<Rightarrow> ('k, 'v, unit) sprog" where
  "borrow_next_leaf node p idx next' =
     bindP (get_at next' (key 1)) (\<lambda>k1.
     bindP (upd_ret_at p (replace_key idx k1)) (\<lambda>_.
     bindP (upd_ret_at next' (remove_val 0)) (\<lambda>(k, v).
     upd_at node (\<lambda>n. insert_val (len n) k v n))))"

definition borrow_next_internal :: "ptr \<Rightarrow> ptr \<Rightarrow> nat \<Rightarrow> ptr \<Rightarrow> ('k, 'v, unit) sprog" where
  "borrow_next_internal node p idx next' =
     bindP (remove_edge next' 0 False) (\<lambda>(k, e).
     bindP (upd_ret_at p (replace_key idx k)) (\<lambda>k.
     bindP (len_at node) (\<lambda>l.
     bindP (liftP (u16_add l 1)) (\<lambda>l1.
     bindP (upd_at e (set_parent node l1)) (\<lambda>_.
     insert_edge node l True k e)))))"

text \<open>Redistribution with the previous and the next sibling; the result says whether it was done.\<close>

definition try_borrow_prev :: "bool \<Rightarrow> ptr \<Rightarrow> ptr \<Rightarrow> nat \<Rightarrow> ('k, 'v, bool) sprog" where
  "try_borrow_prev is_leaf node p idx =
     (if 0 < idx
      then bindP (get_at p (edge (idx - 1))) (\<lambda>prev.
           bindP (len_at prev) (\<lambda>pl.
           if M div 2 < pl
           then bindP (if is_leaf then borrow_prev_leaf node p idx prev
                       else borrow_prev_internal node p idx prev) (\<lambda>_. ret True)
           else ret False))
      else ret False)"

definition try_borrow_next :: "bool \<Rightarrow> ptr \<Rightarrow> ptr \<Rightarrow> nat \<Rightarrow> ('k, 'v, bool) sprog" where
  "try_borrow_next is_leaf node p idx =
     bindP (len_at p) (\<lambda>pl.
     if idx < pl
     then bindP (get_at p (edge (idx + 1))) (\<lambda>next'.
          bindP (len_at next') (\<lambda>nl.
          if M div 2 < nl
          then bindP (if is_leaf then borrow_next_leaf node p idx next'
                      else borrow_next_internal node p idx next') (\<lambda>_. ret True)
          else ret False))
     else ret False)"

text \<open>Merging with the previous sibling, or with the next one when there is no previous.\<close>

definition merge_with_prev :: "bool \<Rightarrow> ptr \<Rightarrow> ptr \<Rightarrow> nat \<Rightarrow> ('k, 'v, unit) sprog" where
  "merge_with_prev is_leaf node p idx =
     bindP (get_at p (edge (idx - 1))) (\<lambda>prev.
     bindP (if is_leaf
            then bindP (merge_prev_leaf node prev) (\<lambda>_.
                 bindP (get_at node node_prev) (\<lambda>pv.
                 case pv of None \<Rightarrow> ret () | Some np \<Rightarrow> upd_at np (set_next (Some node))))
            else bindP (get_at p (key (idx - 1))) (\<lambda>k.
                 bindP (get_at prev node_edges) (\<lambda>es.
                 bindP (for_each es (\<lambda>c. upd_at c (set_parent_ptr node))) (\<lambda>_.
                 merge_prev_internal node k prev)))) (\<lambda>_.
     bindP (remove_edge p (idx - 1) False) (\<lambda>(_, e).
     bindP (assertP (e = prev)) (\<lambda>_.
     dealloc prev))))"

definition merge_with_next :: "bool \<Rightarrow> ptr \<Rightarrow> ptr \<Rightarrow> nat \<Rightarrow> ('k, 'v, unit) sprog" where
  "merge_with_next is_leaf node p idx =
     bindP (get_at p (edge (idx + 1))) (\<lambda>next'.
     bindP (if is_leaf
            then bindP (merge_next_leaf node next') (\<lambda>_.
                 bindP (get_at node node_next) (\<lambda>nx.
                 case nx of None \<Rightarrow> ret () | Some nn \<Rightarrow> upd_at nn (set_prev (Some node))))
            else bindP (get_at p (key idx)) (\<lambda>k.
                 bindP (get_at next' node_edges) (\<lambda>es.
                 bindP (for_each es (\<lambda>c. upd_at c (set_parent_ptr node))) (\<lambda>_.
                 merge_next_internal node k next')))) (\<lambda>_.
     bindP (remove_edge p idx True) (\<lambda>(_, e).
     bindP (assertP (e = next')) (\<lambda>_.
     dealloc next'))))"

text \<open>The loop of \<open>post_removal\<close>.\<close>

fun rebalance :: "nat \<Rightarrow> bmap \<Rightarrow> bool \<Rightarrow> ptr \<Rightarrow> ('k, 'v, bmap) sprog" where
  "rebalance 0 m is_leaf node = fail OutOfFuel"
| "rebalance (Suc fuel) m is_leaf node =
     bindP (len_at node) (\<lambda>l.
     if l < M div 2
     then bindP (get_at node node_parent) (\<lambda>par.
          case par of
            None \<Rightarrow> shrink_root m is_leaf node
          | Some (p, idx) \<Rightarrow>
              bindP (try_borrow_prev is_leaf node p idx) (\<lambda>done1.
              if done1 then ret m
              else bindP (try_borrow_next is_leaf node p idx) (\<lambda>done2.
                   if done2 then ret m
                   else bindP (if 0 < idx then merge_with_prev is_leaf node p idx
                               else merge_with_next is_leaf node p idx) (\<lambda>_.
                        rebalance fuel m False p))))
     else ret m)"

definition post_removal :: "bmap \<Rightarrow> ptr \<Rightarrow> ('k, 'v, bmap) sprog" where
  "post_removal m node =
     bindP (liftP (nat_sub (mlength m) 1)) (\<lambda>l.
     rebalance (Suc (height m)) (m\<lparr>mlength := l\<rparr>) True node)"

text \<open>\<open>node.remove_val(idx)\<close> followed by \<open>post_removal(node)\<close>.\<close>

definition remove_at :: "bmap \<Rightarrow> ptr \<Rightarrow> nat \<Rightarrow> ('k, 'v, ('k \<times> 'v) \<times> bmap) sprog" where
  "remove_at m node idx =
     bindP (upd_ret_at node (remove_val idx)) (\<lambda>kv.
     bindP (post_removal m node) (\<lambda>m. ret (kv, m)))"

definition remove_key_value ::
    "bmap \<Rightarrow> 'k::linorder \<Rightarrow> ('k, 'v, ('k \<times> 'v) option \<times> bmap) sprog" where
  "remove_key_value m k =
     bindP (find_key m k) (\<lambda>r.
     case r of
       At node idx \<Rightarrow> bindP (remove_at m node idx) (\<lambda>(kv, m). ret (Some kv, m))
     | _ \<Rightarrow> ret (None, m))"

definition map_remove :: "bmap \<Rightarrow> 'k::linorder \<Rightarrow> ('k, 'v, 'v option \<times> bmap) sprog" where
  "map_remove m k =
     bindP (remove_key_value m k) (\<lambda>(kv, m). ret (map_option snd kv, m))"

definition pop_first :: "bmap \<Rightarrow> ('k, 'v, ('k \<times> 'v) option \<times> bmap) sprog" where
  "pop_first m =
     bindP (first_leaf m) (\<lambda>l.
     case l of None \<Rightarrow> ret (None, m)
     | Some node \<Rightarrow> bindP (remove_at m node 0) (\<lambda>(kv, m). ret (Some kv, m)))"

definition pop_last :: "bmap \<Rightarrow> ('k, 'v, ('k \<times> 'v) option \<times> bmap) sprog" where
  "pop_last m =
     bindP (last_leaf m) (\<lambda>l.
     case l of None \<Rightarrow> ret (None, m)
     | Some node \<Rightarrow>
         bindP (get_at node (\<lambda>n. nat_sub (len n) 1)) (\<lambda>idx.
         bindP (remove_at m node idx) (\<lambda>(kv, m). ret (Some kv, m))))"

subsection \<open>Teardown\<close>

text \<open>\<open>drop_node_ptr\<close>: the keys and values that it drops, in order.\<close>

fun drop_node_ptr :: "nat \<Rightarrow> ptr \<Rightarrow> ('k, 'v, 'k list \<times> 'v list) sprog"
and drop_nodes :: "nat \<Rightarrow> ptr list \<Rightarrow> ('k, 'v, 'k list \<times> 'v list) sprog" where
  "drop_node_ptr 0 node =
     bindP (get_at node node_keys) (\<lambda>ks.
     bindP (get_at node node_vals) (\<lambda>vs.
     bindP (dealloc node) (\<lambda>_. ret (ks, vs))))"
| "drop_node_ptr (Suc h) node =
     bindP (get_at node node_keys) (\<lambda>ks.
     bindP (get_at node node_edges) (\<lambda>es.
     bindP (drop_nodes h es) (\<lambda>(ks', vs').
     bindP (dealloc node) (\<lambda>_. ret (ks @ ks', vs')))))"
| "drop_nodes h [] = ret ([], [])"
| "drop_nodes h (e # es) =
     bindP (drop_node_ptr h e) (\<lambda>(ks, vs).
     bindP (drop_nodes h es) (\<lambda>(ks', vs'). ret (ks @ ks', vs @ vs')))"

text \<open>
  \<open>panicking\<close> is what \<open>std::thread::panicking\<close> answers: a map dropped while its thread unwinds
  frees nothing, and its nodes stay in the store.
\<close>

definition drop_map :: "bool \<Rightarrow> bmap \<Rightarrow> ('k, 'v, 'k list \<times> 'v list) sprog" where
  "drop_map panicking m =
     (if panicking then ret ([], [])
      else case root m of None \<Rightarrow> ret ([], []) | Some p \<Rightarrow> drop_node_ptr (height m) p)"

definition map_clear :: "bmap \<Rightarrow> ('k, 'v, ('k list \<times> 'v list) \<times> bmap) sprog" where
  "map_clear m =
     bindP (case root m of None \<Rightarrow> ret ([], []) | Some p \<Rightarrow> drop_node_ptr (height m) p) (\<lambda>dropped.
     ret (dropped, m\<lparr>root := None, mlength := 0\<rparr>))"

subsection \<open>Update\<close>

text \<open>
  The closure may panic: it then has no result (\<open>None\<close>), and so has \<open>update_and_return\<close>, which
  resumes the panic after it has removed the entry.
\<close>

definition update_and_return ::
    "(slab_event list \<Rightarrow> ptr) \<Rightarrow> bmap \<Rightarrow> 'k::linorder \<Rightarrow> ('v option \<Rightarrow> ('v option \<times> 'r) option) \<Rightarrow>
     ('k, 'v, 'r option \<times> bmap) sprog" where
  "update_and_return pick m k update =
     bindP (find_key m k) (\<lambda>r.
     case r of
       NoRoot \<Rightarrow>
         (case update None of
            None \<Rightarrow> ret (None, m)
          | Some (None, a) \<Rightarrow> ret (Some a, m)
          | Some (Some v, a) \<Rightarrow> bindP (insert_root pick m k v) (\<lambda>m. ret (Some a, m)))
     | At node idx \<Rightarrow>
         bindP (get_at node (read_val idx)) (\<lambda>v.
         case update (Some v) of
            None \<Rightarrow> bindP (remove_at m node idx) (\<lambda>(_, m). ret (None, m))
          | Some (None, a) \<Rightarrow> bindP (remove_at m node idx) (\<lambda>(_, m). ret (Some a, m))
          | Some (Some w, a) \<Rightarrow> bindP (upd_at node (write_val idx w)) (\<lambda>_. ret (Some a, m)))
     | Before node idx \<Rightarrow>
         (case update None of
            None \<Rightarrow> ret (None, m)
          | Some (None, a) \<Rightarrow> ret (Some a, m)
          | Some (Some v, a) \<Rightarrow> bindP (insert_before pick m k v node idx) (\<lambda>m. ret (Some a, m))))"

definition map_update ::
    "(slab_event list \<Rightarrow> ptr) \<Rightarrow> bmap \<Rightarrow> 'k::linorder \<Rightarrow> ('v option \<Rightarrow> 'v option option) \<Rightarrow>
     ('k, 'v, unit option \<times> bmap) sprog" where
  "map_update pick m k update =
     update_and_return pick m k (\<lambda>v. map_option (\<lambda>w. (w, ())) (update v))"

end
