(* ===== verification/SortedMap.thy ===== *)
theory SortedMap
  imports Main
begin

text \<open>
  The abstract map: an association list whose keys increase strictly. This is the value that an
  ordered map promises to be; the theorems about \<open>BTreeMap\<close> and \<open>BTreeSet\<close> relate their operations to
  the operations of this theory.
\<close>

definition kv_sorted :: "('k::linorder \<times> 'v) list \<Rightarrow> bool" where
  "kv_sorted kvs \<longleftrightarrow> sorted_wrt (<) (map fst kvs)"

fun kv_insert :: "'k::linorder \<Rightarrow> 'v \<Rightarrow> ('k \<times> 'v) list \<Rightarrow> ('k \<times> 'v) list" where
  "kv_insert k v [] = [(k, v)]"
| "kv_insert k v ((a, b) # kvs) =
     (if k < a then (k, v) # (a, b) # kvs
      else if k = a then (k, v) # kvs
      else (a, b) # kv_insert k v kvs)"

definition kv_delete :: "'k \<Rightarrow> ('k \<times> 'v) list \<Rightarrow> ('k \<times> 'v) list" where
  "kv_delete k kvs = filter (\<lambda>kv. fst kv \<noteq> k) kvs"

lemma kv_sorted_Nil [simp]: "kv_sorted []"
  by (simp add: kv_sorted_def)

lemma kv_sorted_Cons [simp]: "kv_sorted ((k, v) # kvs) \<longleftrightarrow> (\<forall>kv\<in>set kvs. k < fst kv) \<and> kv_sorted kvs"
  by (auto simp: kv_sorted_def)

lemma kv_sorted_append:
  "kv_sorted (xs @ ys) \<longleftrightarrow> kv_sorted xs \<and> kv_sorted ys \<and> (\<forall>x\<in>set xs. \<forall>y\<in>set ys. fst x < fst y)"
  by (auto simp: kv_sorted_def sorted_wrt_append)

lemma kv_insert_between:
  assumes "\<forall>x\<in>set xs. fst x < k" "\<forall>y\<in>set ys. k < fst y"
  shows "kv_insert k v (xs @ ys) = xs @ (k, v) # ys"
  using assms
proof (induction xs)
  case Nil
  then show ?case by (cases ys) auto
next
  case (Cons x xs)
  then show ?case by (cases x) auto
qed

lemma kv_insert_at:
  assumes "\<forall>x\<in>set xs. fst x < k"
  shows "kv_insert k v (xs @ (k, w) # ys) = xs @ (k, v) # ys"
  using assms by (induction xs) auto

lemma key_not_in:
  fixes k :: "'k::linorder"
  shows "\<forall>x\<in>set xs. fst x < k \<Longrightarrow> k \<notin> fst ` set xs"
    and "\<forall>x\<in>set xs. k < fst x \<Longrightarrow> k \<notin> fst ` set xs"
  by force+

lemma kv_delete_absent: "k \<notin> fst ` set kvs \<Longrightarrow> kv_delete k kvs = kvs"
  by (auto simp: kv_delete_def filter_id_conv)

lemma kv_delete_at:
  fixes k :: "'k::linorder"
  assumes "\<forall>x\<in>set xs. fst x < k" "\<forall>y\<in>set ys. k < fst y"
  shows "kv_delete k (xs @ (k, w) # ys) = xs @ ys"
  using kv_delete_absent[OF key_not_in(1)[OF assms(1)]] kv_delete_absent[OF key_not_in(2)[OF assms(2)]]
  by (simp add: kv_delete_def)

lemma map_of_between:
  fixes k :: "'k::linorder"
  assumes "\<forall>x\<in>set xs. fst x < k" "\<forall>y\<in>set ys. k < fst y"
  shows "map_of (xs @ ys) k = None"
  using key_not_in(1)[OF assms(1)] key_not_in(2)[OF assms(2)] by (auto simp: map_of_eq_None_iff)

lemma map_of_at:
  fixes k :: "'k::linorder"
  assumes "\<forall>x\<in>set xs. fst x < k"
  shows "map_of (xs @ (k, v) # ys) k = Some v"
proof -
  have "map_of xs k = None" using key_not_in(1)[OF assms(1)] by (simp add: map_of_eq_None_iff)
  then show ?thesis by (simp add: map_add_def)
qed

lemma set_kv_insert: "set (kv_insert k v kvs) \<subseteq> insert (k, v) (set kvs)"
  by (induction k v kvs rule: kv_insert.induct) auto

lemma kv_sorted_insert: "kv_sorted kvs \<Longrightarrow> kv_sorted (kv_insert k v kvs)"
proof (induction k v kvs rule: kv_insert.induct)
  case (2 k v a b kvs)
  then show ?case using set_kv_insert[of k v kvs] by auto
qed simp

lemma kv_sorted_delete: "kv_sorted kvs \<Longrightarrow> kv_sorted (kv_delete k kvs)"
  by (induction kvs) (auto simp: kv_delete_def)

lemma map_of_kv_insert: "map_of (kv_insert k v kvs) = (map_of kvs)(k \<mapsto> v)"
  by (induction k v kvs rule: kv_insert.induct) (auto simp: fun_upd_twist)

lemma map_of_kv_delete: "map_of (kv_delete k kvs) = (map_of kvs)(k := None)"
proof (induction kvs)
  case (Cons kv kvs)
  then show ?case by (cases kv) (auto simp: kv_delete_def)
qed (simp add: kv_delete_def)

lemma kv_sorted_distinct: "kv_sorted kvs \<Longrightarrow> distinct (map fst kvs)"
  unfolding kv_sorted_def by (simp add: strict_sorted_iff)

text \<open>A strictly increasing list is determined by the map it stands for.\<close>

lemma kv_sorted_unique:
  "kv_sorted xs \<Longrightarrow> kv_sorted ys \<Longrightarrow> map_of xs = map_of ys \<Longrightarrow> xs = ys"
proof -
  assume xs: "kv_sorted xs" and ys: "kv_sorted ys" and eq: "map_of xs = map_of ys"
  have "set xs = set ys"
    using map_of_inject_set[OF kv_sorted_distinct[OF xs] kv_sorted_distinct[OF ys]] eq by simp
  then have "set (map fst xs) = set (map fst ys)" by simp
  then have keys: "map fst xs = map fst ys"
    using xs ys unfolding kv_sorted_def by (intro strict_sorted_equal)
  have "map snd xs = map (the \<circ> map_of xs) (map fst xs)" if "kv_sorted xs" for xs :: "('a \<times> 'b) list"
    using kv_sorted_distinct[OF that] by (auto simp: map_of_eq_Some_iff[OF kv_sorted_distinct[OF that]])
  from this[OF xs] this[OF ys] have "map snd xs = map snd ys" using eq keys by simp
  with keys show "xs = ys" by (metis zip_map_fst_snd)
qed

end
