(* ===== verification/FindSpec.thy ===== *)
theory FindSpec
  imports Path BMap SortedMap
begin

text \<open>
  Lookup. The binary search agrees with a linear search on an increasing list; the descent from the
  root ends in the leaf where the key is, or where it has to go, and hands back the path to it.
\<close>

subsection \<open>Binary search\<close>

definition linear_search :: "('k::linorder) list \<Rightarrow> 'k \<Rightarrow> nat + nat" where
  "linear_search ks k =
     (let i = length (takeWhile (\<lambda>x. x < k) ks) in if i < length ks \<and> ks ! i = k then Inr i else Inl i)"

lemma search_loop_sound:
  assumes "sorted_wrt (<) ks" "right \<le> length ks" "left \<le> right"
    "\<And>j. j < left \<Longrightarrow> ks ! j < k" "\<And>j. right \<le> j \<Longrightarrow> j < length ks \<Longrightarrow> k < ks ! j"
  shows "case search_loop ks k left right of
     Inr i \<Rightarrow> i < length ks \<and> ks ! i = k
   | Inl i \<Rightarrow> i \<le> length ks \<and> (\<forall>j < i. ks ! j < k) \<and> (\<forall>j < length ks. i \<le> j \<longrightarrow> k < ks ! j)"
  using assms
proof (induction ks k left right rule: search_loop.induct)
  case (1 ks k left right)
  have mono: "ks ! i < ks ! j" if "i < j" "j < length ks" for i j
    using "1.prems"(1) that by (simp add: sorted_wrt_iff_nth_less)
  show ?case
  proof (cases "left < right")
    case True
    let ?mid = "left + (right - left) div 2"
    have mid: "?mid < right" "left \<le> ?mid" "?mid < length ks" using True "1.prems"(2) by linarith+
    consider "ks ! ?mid < k" | "k < ks ! ?mid" | "ks ! ?mid = k" by fastforce
    then show ?thesis
    proof cases
      case 1
      have below: "ks ! j < k" if "j < ?mid + 1" for j
        using that mono[of j ?mid] mid 1 by (cases "j = ?mid") auto
      have "?mid + 1 \<le> right" using mid by simp
      note IH = "1.IH"(1)[OF True refl 1 "1.prems"(1,2) this below "1.prems"(5)]
      show ?thesis using IH 1 True by (subst search_loop.simps) (simp add: Let_def)
    next
      case 2
      have above: "k < ks ! j" if "?mid \<le> j" "j < length ks" for j
        using that mono[of ?mid j] 2 by (cases "j = ?mid") auto
      have "\<not> ks ! ?mid < k" "?mid \<le> length ks" using 2 mid by auto
      note IH = "1.IH"(2)[OF True refl this(1) 2 "1.prems"(1) this(2) mid(2) "1.prems"(4) above]
      show ?thesis using IH 2 True \<open>\<not> ks ! ?mid < k\<close> by (subst search_loop.simps) (simp add: Let_def)
    next
      case 3
      then have eq: "search_loop ks k left right = Inr ?mid"
        using True by (subst search_loop.simps) (simp add: Let_def)
      show ?thesis unfolding eq using 3 mid by simp
    qed
  next
    case False
    with "1.prems"(3) have lr: "left = right" by simp
    then have eq: "search_loop ks k left right = Inl left"
      by (subst search_loop.simps) simp
    show ?thesis unfolding eq using "1.prems"(2,4,5) lr by simp
  qed
qed

lemma binary_search_sound:
  assumes "sorted_wrt (<) ks"
  shows "binary_search ks k = Inr i \<Longrightarrow> i < length ks \<and> ks ! i = k"
    and "binary_search ks k = Inl i \<Longrightarrow>
      i \<le> length ks \<and> (\<forall>j < i. ks ! j < k) \<and> (\<forall>j < length ks. i \<le> j \<longrightarrow> k < ks ! j)"
  using search_loop_sound[OF assms order.refl le0, of k] unfolding binary_search_def by force+

lemma takeWhile_prefix_length:
  assumes "i \<le> length ks" "\<forall>j < i. P (ks ! j)" "i < length ks \<longrightarrow> \<not> P (ks ! i)"
  shows "length (takeWhile P ks) = i"
proof -
  have "takeWhile P ks = take i ks"
    using assms by (cases "i < length ks") (auto intro!: takeWhile_eq_take_P_nth simp: in_set_conv_nth)
  then show ?thesis using assms(1) by simp
qed

lemma binary_search_linear:
  assumes "sorted_wrt (<) ks"
  shows "binary_search ks k = linear_search ks k"
proof (cases "binary_search ks k")
  case (Inl i)
  note s = binary_search_sound(2)[OF assms Inl]
  then have "length (takeWhile (\<lambda>x. x < k) ks) = i"
    by (intro takeWhile_prefix_length) (auto dest: order.asym)
  with s Inl show ?thesis by (auto simp: linear_search_def)
next
  case (Inr i)
  note s = binary_search_sound(1)[OF assms Inr]
  have "\<forall>j < i. ks ! j < k" using s assms by (auto simp: sorted_wrt_iff_nth_less)
  then have "length (takeWhile (\<lambda>x. x < k) ks) = i"
    using s by (intro takeWhile_prefix_length) auto
  with s Inr show ?thesis by (simp add: linear_search_def)
qed

subsection \<open>The leaf of a key\<close>

abbreviation items_below :: "'k::linorder \<Rightarrow> ('k, 'v) item list \<Rightarrow> bool" where
  "items_below k its \<equiv> \<forall>x\<in>set its. mark_of x < EntAt k"

abbreviation items_above :: "'k::linorder \<Rightarrow> ('k, 'v) item list \<Rightarrow> bool" where
  "items_above k its \<equiv> \<forall>x\<in>set its. EntAt k < mark_of x"

text \<open>What \<open>find\<close> promises about a tree: the path to the leaf, and the key's place in it.\<close>

definition locates :: "('k::linorder, 'v) bt \<Rightarrow> nat \<Rightarrow> 'k \<Rightarrow> found \<Rightarrow> bool" where
  "locates t h k r \<longleftrightarrow> (\<exists>c p ks vs i.
     t = plug c (Lf p ks vs) \<and> path_shape 0 c \<and> length c = h \<and> length vs = length ks \<and>
     items_below k (left_items c @ map2 Ent (take i ks) (take i vs)) \<and>
     (r = At p i \<and> i < length ks \<and> ks ! i = k \<and>
        items_above k (map2 Ent (drop (Suc i) ks) (drop (Suc i) vs) @ right_items c)
      \<or> r = Before p i \<and> i \<le> length ks \<and>
        items_above k (map2 Ent (drop i ks) (drop i vs) @ right_items c)))"

lemma items_below_take:
  "length vs = length ks \<Longrightarrow> (\<forall>j < i. j < length ks \<longrightarrow> ks ! j < k) \<Longrightarrow> items_below k (map2 Ent (take i ks) (take i vs))"
  by (auto simp: set_zip)

lemma items_above_drop:
  "length vs = length ks \<Longrightarrow> (\<forall>j < length ks. i \<le> j \<longrightarrow> k < ks ! j) \<Longrightarrow>
   items_above k (map2 Ent (drop i ks) (drop i vs))"
  by (auto simp: set_zip)

lemma ordered_leaf_keys:
  "ordered (map2 Ent ks vs) \<Longrightarrow> length vs = length ks \<Longrightarrow> sorted_wrt (<) ks"
  by (auto simp: ordered_def sorted_wrt_map sorted_wrt_iff_nth_less)

lemma find_leaf:
  assumes "path_shape 0 c" "length vs = length ks" "ordered (map2 Ent ks vs)"
    "items_below k (left_items c)" "items_above k (right_items c)" "t = plug c (Lf p ks vs)"
  shows "locates t (length c) k (case binary_search ks k of Inr i \<Rightarrow> At p i | Inl i \<Rightarrow> Before p i)"
proof -
  have ks: "sorted_wrt (<) ks" using assms(2,3) by (intro ordered_leaf_keys)
  show ?thesis
  proof (cases "binary_search ks k")
    case (Inl i)
    note s = binary_search_sound(2)[OF ks Inl]
    have "items_below k (map2 Ent (take i ks) (take i vs))" "items_above k (map2 Ent (drop i ks) (drop i vs))"
      using items_below_take[OF assms(2)] items_above_drop[OF assms(2)] s by blast+
    then have "items_below k (left_items c @ map2 Ent (take i ks) (take i vs))"
        "items_above k (map2 Ent (drop i ks) (drop i vs) @ right_items c)"
      using assms(4,5) by auto
    with s assms Inl show ?thesis unfolding locates_def
      by (intro exI[of _ c] exI[of _ p] exI[of _ ks] exI[of _ vs] exI[of _ i]) simp
  next
    case (Inr i)
    note s = binary_search_sound(1)[OF ks Inr]
    have "\<forall>j < i. j < length ks \<longrightarrow> ks ! j < k" "\<forall>j < length ks. Suc i \<le> j \<longrightarrow> k < ks ! j"
      using s ks by (auto simp: sorted_wrt_iff_nth_less)
    then have "items_below k (map2 Ent (take i ks) (take i vs))"
        "items_above k (map2 Ent (drop (Suc i) ks) (drop (Suc i) vs))"
      using items_below_take[OF assms(2)] items_above_drop[OF assms(2)] by blast+
    then have "items_below k (left_items c @ map2 Ent (take i ks) (take i vs))"
        "items_above k (map2 Ent (drop (Suc i) ks) (drop (Suc i) vs) @ right_items c)"
      using assms(4,5) by auto
    with s assms Inr show ?thesis unfolding locates_def
      by (intro exI[of _ c] exI[of _ p] exI[of _ ks] exI[of _ vs] exI[of _ i]) simp
  qed
qed

lemma items_below_seps:
  "length xs = length ks \<Longrightarrow> ordered (sep_after ks xs) \<Longrightarrow> \<forall>a\<in>set ks. a \<le> k \<Longrightarrow>
   items_below k (sep_after ks xs)"
proof (induction xs ks rule: list_induct2)
  case (Cons x xs a ks)
  from Cons.prems have "ordered (x @ [Sep a])" "ordered (sep_after ks xs)" "a \<le> k"
    by (simp_all add: ordered_append ordered_Cons)
  then have "\<forall>i\<in>set x. mark_of i < SepAt a" "items_below k (sep_after ks xs)"
    using Cons by (simp_all add: ordered_append)
  moreover have "SepAt a < EntAt k" using \<open>a \<le> k\<close> by simp
  ultimately show ?case by (auto intro: less_trans)
qed simp

lemma items_above_seps:
  "length xs = length ks \<Longrightarrow> ordered (sep_before ks xs) \<Longrightarrow> \<forall>a\<in>set ks. k < a \<Longrightarrow>
   items_above k (sep_before ks xs)"
proof (induction xs ks rule: list_induct2)
  case (Cons x xs a ks)
  from Cons.prems have "\<forall>i\<in>set x. SepAt a < mark_of i" "ordered (sep_before ks xs)" "k < a"
    by (simp_all add: ordered_append ordered_Cons)
  moreover have "EntAt k < SepAt a" using \<open>k < a\<close> by simp
  ultimately show ?case using Cons by (auto intro: less_trans[of "EntAt k" "SepAt a"])
qed simp

lemma ordered_seps_sorted: "length xs = length ks \<Longrightarrow> ordered (sep_before ks xs) \<Longrightarrow> sorted_wrt (<) ks"
proof (induction xs ks rule: list_induct2)
  case (Cons x xs a ks)
  have seps: "Sep b \<in> set (sep_before ks xs)" if "b \<in> set ks" for b
    using \<open>length xs = length ks\<close> that by (induction xs ks rule: list_induct2) auto
  from Cons.prems have "\<forall>i\<in>set (sep_before ks xs). SepAt a < mark_of i" "ordered (sep_before ks xs)"
    by (simp_all add: ordered_append ordered_Cons)
  with seps Cons.IH show ?case by fastforce
qed simp

lemma ordered_weave_sorted:
  "length xs = length ks + 1 \<Longrightarrow> ordered (weave ks xs) \<Longrightarrow> sorted_wrt (<) ks"
  by (cases xs) (auto simp: ordered_append intro: ordered_seps_sorted)

text \<open>One step down: the frame of a child, and the bounds it adds.\<close>

definition child_frame :: "ptr \<Rightarrow> 'k list \<Rightarrow> ('k, 'v) bt list \<Rightarrow> nat \<Rightarrow> ('k, 'v) frame" where
  "child_frame p ks ts i = Fr p (take i ks) (take i ts) (drop i ks) (drop (Suc i) ts)"

lemma plug_child:
  "i < length ts \<Longrightarrow> plug (child_frame p ks ts i # c) (ts ! i) = plug c (Nd p ks ts)"
  by (simp add: child_frame_def Cons_nth_drop_Suc)

lemma child_frame_shape:
  "path_shape (Suc h) c \<Longrightarrow> bal (Suc h) (Nd p ks ts) \<Longrightarrow> i < length ts \<Longrightarrow>
   path_shape h (child_frame p ks ts i # c)"
  by (auto simp: child_frame_def dest: in_set_takeD in_set_dropD)

lemma flat_child:
  assumes "length ts = length ks + 1" "i < length ts"
  shows "flat (Nd p ks ts) = sep_after (take i ks) (map flat (take i ts)) @ flat (ts ! i) @
     sep_before (drop i ks) (map flat (drop (Suc i) ts))"
proof -
  have "length (take i ks) = length (map flat (take i ts))" using assms by simp
  from weave_split[OF this, of "drop i ks" "flat (ts ! i)" "map flat (drop (Suc i) ts)"]
  have "weave ks (map flat (take i ts) @ flat (ts ! i) # map flat (drop (Suc i) ts)) =
      sep_after (take i ks) (map flat (take i ts)) @ flat (ts ! i) @
      sep_before (drop i ks) (map flat (drop (Suc i) ts))" by simp
  moreover have "map flat (take i ts) @ flat (ts ! i) # map flat (drop (Suc i) ts) = map flat ts"
    using assms(2) by (metis (no_types) Cons_nth_drop_Suc append_take_drop_id list.simps(9) map_append)
  ultimately show ?thesis by simp
qed

lemma descend_bounds:
  assumes "bal (Suc h) (Nd p ks ts)" "i < length ts"
    "ordered (left_items c @ flat (Nd p ks ts) @ right_items c)"
    "items_below k (left_items c)" "items_above k (right_items c)"
    "\<forall>j < i. ks ! j \<le> k" "\<forall>j < length ks. i \<le> j \<longrightarrow> k < ks ! j"
  shows "items_below k (left_items (child_frame p ks ts i # c))"
    and "items_above k (right_items (child_frame p ks ts i # c))"
    and "ordered (left_items (child_frame p ks ts i # c) @ flat (ts ! i) @
           right_items (child_frame p ks ts i # c))"
proof -
  have len: "length ts = length ks + 1" using assms(1) by simp
  note flat = flat_child[OF len assms(2), of p]
  have o: "ordered (sep_after (take i ks) (map flat (take i ts)))"
      "ordered (sep_before (drop i ks) (map flat (drop (Suc i) ts)))"
    using assms(3) unfolding flat by (simp_all add: ordered_append)
  have "\<forall>a\<in>set (take i ks). a \<le> k" "\<forall>a\<in>set (drop i ks). k < a"
    using assms(6,7) by (auto simp: in_set_conv_nth)
  then have "items_below k (sep_after (take i ks) (map flat (take i ts)))"
      "items_above k (sep_before (drop i ks) (map flat (drop (Suc i) ts)))"
    using o len assms(2) by (intro items_below_seps items_above_seps; simp)+
  with assms(4,5) show "items_below k (left_items (child_frame p ks ts i # c))"
      "items_above k (right_items (child_frame p ks ts i # c))"
    by (auto simp: child_frame_def)
  show "ordered (left_items (child_frame p ks ts i # c) @ flat (ts ! i) @
           right_items (child_frame p ks ts i # c))"
    using assms(3) unfolding flat by (simp add: child_frame_def)
qed

subsection \<open>The descent in the heap\<close>

lemma runs_keys_leaf: "A p = Some (VLeaf par ks vs pv nx) \<Longrightarrow> Q ks A \<Longrightarrow> runs (get_at p node_keys) A Q"
  by (rule runs_get_at, assumption, erule node_keys_view(1))

lemma runs_keys_int: "A p = Some (VInt par ks es) \<Longrightarrow> Q ks A \<Longrightarrow> runs (get_at p node_keys) A Q"
  by (rule runs_get_at, assumption, erule node_keys_view(2))

lemma runs_edge: "A p = Some (VInt par ks es) \<Longrightarrow> i \<le> length ks \<Longrightarrow> Q (es ! i) A \<Longrightarrow> runs (get_at p (edge i)) A Q"
  by (rule runs_get_at, assumption, erule edge_view)

lemma rep_child_edge:
  assumes "rep A par (Nd p ks ts)" "length ts = length ks + 1" "i < length ts" "Q (root_of (ts ! i)) A"
  shows "runs (get_at p (edge i)) A Q"
proof -
  from assms(1) have "A p = Some (VInt par ks (map root_of ts))" by simp
  then show ?thesis
    by (rule runs_edge) (use assms in simp_all)
qed

lemma runs_find_loop:
  fixes A :: "('k::linorder, 'v) vheap"
  assumes "rep A par t" "bal h t" "path_shape h c"
    "ordered (left_items c @ flat t @ right_items c)"
    "items_below k (left_items c)" "items_above k (right_items c)"
    "\<And>r. locates (plug c t) (h + length c) k r \<Longrightarrow> Q r A"
  shows "runs (find_loop h (root_of t) k) A Q"
  using assms
proof (induction h arbitrary: t c par)
  case 0
  from "0.prems"(2) obtain p ks vs where t: "t = Lf p ks vs" "length vs = length ks"
    by (auto simp: bal_leaf_cases)
  have ord: "ordered (map2 Ent ks vs)" using "0.prems"(4) t by (simp add: ordered_append)
  note L = find_leaf[OF "0.prems"(3) t(2) ord "0.prems"(5,6) refl, of p]
  from "0.prems"(1) t obtain pv nx where A: "A p = Some (VLeaf par ks vs pv nx)" by auto
  show ?case
    unfolding t(1) find_loop.simps root_of.simps
  proof (rule runs_bind, rule runs_keys_leaf[where A = A, OF A])
    show "runs (case binary_search ks k of Inl idx \<Rightarrow> ret (Before p idx) | Inr idx \<Rightarrow> ret (At p idx)) A Q"
      using L "0.prems"(7) t(1) by (cases "binary_search ks k") (auto intro: runs_ret)
  qed
next
  case (Suc h)
  from Suc.prems(2) obtain p ks ts where t: "t = Nd p ks ts" "length ts = length ks + 1" "\<forall>u\<in>set ts. bal h u"
    by (auto simp: bal_Suc_cases)
  have ks: "sorted_wrt (<) ks"
    using Suc.prems(4) t by (auto simp: ordered_append intro!: ordered_weave_sorted[of "map flat ts"])
  have rep: "A p = Some (VInt par ks (map root_of ts))" "reps A p 0 ts" using Suc.prems(1) t by auto
  have down: "runs (bindP (get_at p (edge i)) (\<lambda>c. find_loop h c k)) A Q"
    if i: "i < length ts" "\<forall>j < i. ks ! j \<le> k" "\<forall>j < length ks. i \<le> j \<longrightarrow> k < ks ! j" for i
  proof (rule runs_bind, rule rep_child_edge[OF Suc.prems(1)[unfolded t(1)] t(2) i(1)])
    note b = descend_bounds[OF Suc.prems(2)[unfolded t(1)] i(1) Suc.prems(4)[unfolded t(1)] Suc.prems(5,6) i(2,3)]
    show "runs (find_loop h (root_of (ts ! i)) k) A Q"
    proof (rule Suc.IH[OF reps_nth[OF rep(2) i(1)] _ _ b(3,1,2)])
      show "bal h (ts ! i)" using t(3) i(1) by simp
      show "path_shape h (child_frame p ks ts i # c)"
        using child_frame_shape[OF Suc.prems(3) _ i(1)] Suc.prems(2) t(1) by simp
      fix r assume "locates (plug (child_frame p ks ts i # c) (ts ! i)) (h + length (child_frame p ks ts i # c)) k r"
      then have "locates (plug c t) (Suc h + length c) k r" unfolding plug_child[OF i(1)] t(1) by simp
      then show "Q r A" by (rule Suc.prems(7))
    qed
  qed
  show ?case
    unfolding t(1) find_loop.simps root_of.simps
  proof (rule runs_bind, rule runs_keys_int[where A = A, OF rep(1)])
    show "runs (case binary_search ks k of
        Inl idx \<Rightarrow> bindP (get_at p (edge idx)) (\<lambda>c. find_loop h c k)
      | Inr idx \<Rightarrow> bindP (get_at p (edge (idx + 1))) (\<lambda>c. find_loop h c k)) A Q"
    proof (cases "binary_search ks k")
      case (Inl i)
      from binary_search_sound(2)[OF ks Inl] have "i < length ts" "\<forall>j < i. ks ! j \<le> k"
          "\<forall>j < length ks. i \<le> j \<longrightarrow> k < ks ! j" using t(2) by auto
      from down[OF this] show ?thesis by (simp add: Inl)
    next
      case (Inr i)
      note s = binary_search_sound(1)[OF ks Inr]
      have "i + 1 < length ts" using s t(2) by simp
      moreover have "ks ! j \<le> k" if "j < i + 1" for j
      proof (cases "j = i")
        case False
        with that s have "j < i" by simp
        then have "ks ! j < ks ! i" using sorted_wrt_nth_less[OF ks, of j i] s by simp
        with s show ?thesis by simp
      qed (use s in simp)
      moreover have "k < ks ! j" if "j < length ks" "i + 1 \<le> j" for j
        using that s ks by (auto simp: sorted_wrt_iff_nth_less)
      ultimately show ?thesis using down[of "i + 1"] by (simp add: Inr)
    qed
  qed
qed

subsection \<open>The first and the last leaf\<close>

lemma runs_first_leaf_loop:
  assumes "rep A par t" "bal h t" "path_shape h c"
    "left_items c = []" "left_leaves c = []"
    "\<And>c' p ks vs. plug c' (Lf p ks vs) = plug c t \<Longrightarrow> path_shape 0 c' \<Longrightarrow> length c' = h + length c \<Longrightarrow>
       length vs = length ks \<Longrightarrow> left_items c' = [] \<Longrightarrow> left_leaves c' = [] \<Longrightarrow> Q p A"
  shows "runs (first_leaf_loop h (root_of t)) A Q"
  using assms
proof (induction h arbitrary: t c par)
  case 0
  from "0.prems"(2) obtain p ks vs where t: "t = Lf p ks vs" "length vs = length ks"
    by (auto simp: bal_leaf_cases)
  with "0.prems"(6)[of c p ks vs] "0.prems"(3-5) show ?case
    unfolding t(1) first_leaf_loop.simps by (intro runs_ret) simp
next
  case (Suc h)
  from Suc.prems(2) obtain p ks ts where t: "t = Nd p ks ts" "length ts = length ks + 1" "\<forall>u\<in>set ts. bal h u"
    by (auto simp: bal_Suc_cases)
  have i: "0 < length ts" using t(2) by simp
  have rep: "reps A p 0 ts" using Suc.prems(1) t by auto
  show ?case
    unfolding t(1) first_leaf_loop.simps root_of.simps
  proof (rule runs_bind, rule rep_child_edge[OF Suc.prems(1)[unfolded t(1)] t(2) i])
    show "runs (first_leaf_loop h (root_of (ts ! 0))) A Q"
    proof (rule Suc.IH[OF reps_nth[OF rep i, simplified] _ child_frame_shape[OF Suc.prems(3) Suc.prems(2)[unfolded t(1)] i]])
      show "bal h (ts ! 0)" using t(3) i by simp
      show "left_items (child_frame p ks ts 0 # c) = []" "left_leaves (child_frame p ks ts 0 # c) = []"
        using Suc.prems(4,5) by (simp_all add: child_frame_def)
      fix c' q ks' vs'
      assume "plug c' (Lf q ks' vs') = plug (child_frame p ks ts 0 # c) (ts ! 0)"
        "path_shape 0 c'" "length c' = h + length (child_frame p ks ts 0 # c)"
        "length vs' = length ks'" "left_items c' = []" "left_leaves c' = []"
      then show "Q q A" unfolding plug_child[OF i] using Suc.prems(6)[of c' q ks' vs'] t(1) by simp
    qed
  qed
qed

lemma runs_last_leaf_loop:
  assumes "rep A par t" "bal h t" "path_shape h c"
    "right_items c = []" "right_leaves c = []"
    "\<And>c' p ks vs. plug c' (Lf p ks vs) = plug c t \<Longrightarrow> path_shape 0 c' \<Longrightarrow> length c' = h + length c \<Longrightarrow>
       length vs = length ks \<Longrightarrow> right_items c' = [] \<Longrightarrow> right_leaves c' = [] \<Longrightarrow> Q p A"
  shows "runs (last_leaf_loop h (root_of t)) A Q"
  using assms
proof (induction h arbitrary: t c par)
  case 0
  from "0.prems"(2) obtain p ks vs where t: "t = Lf p ks vs" "length vs = length ks"
    by (auto simp: bal_leaf_cases)
  with "0.prems"(6)[of c p ks vs] "0.prems"(3-5) show ?case
    unfolding t(1) last_leaf_loop.simps by (intro runs_ret) simp
next
  case (Suc h)
  from Suc.prems(2) obtain p ks ts where t: "t = Nd p ks ts" "length ts = length ks + 1" "\<forall>u\<in>set ts. bal h u"
    by (auto simp: bal_Suc_cases)
  let ?i = "length ks"
  have i: "?i < length ts" using t(2) by simp
  have rep: "A p = Some (VInt par ks (map root_of ts))" "reps A p 0 ts" using Suc.prems(1) t by auto
  show ?case
    unfolding t(1) last_leaf_loop.simps root_of.simps
  proof (rule runs_bind, rule runs_get_at[where A = A and r = "root_of (ts ! ?i)", OF rep(1)])
    fix n :: "('a, 'b) node" assume n: "node_view n (VInt par ks (map root_of ts))"
    then show "edge (len n) n = Inr (root_of (ts ! ?i))"
      using i t(2) edge_view[OF n, of "length ks"] node_view_len[OF n] by simp
  next
    show "runs (last_leaf_loop h (root_of (ts ! ?i))) A Q"
    proof (rule Suc.IH[OF reps_nth[OF rep(2) i] _ child_frame_shape[OF Suc.prems(3) Suc.prems(2)[unfolded t(1)] i]])
      show "bal h (ts ! ?i)" using t(3) i by simp
      show "right_items (child_frame p ks ts ?i # c) = []" "right_leaves (child_frame p ks ts ?i # c) = []"
        using Suc.prems(4,5) t(2) by (simp_all add: child_frame_def)
      fix c' q ks' vs'
      assume "plug c' (Lf q ks' vs') = plug (child_frame p ks ts ?i # c) (ts ! ?i)"
        "path_shape 0 c'" "length c' = h + length (child_frame p ks ts ?i # c)"
        "length vs' = length ks'" "right_items c' = []" "right_leaves c' = []"
      then show "Q q A" unfolding plug_child[OF i] using Suc.prems(6)[of c' q ks' vs'] t(1) by simp
    qed
  qed
qed

end
