(* ===== verification/NodeProps.thy ===== *)
theory NodeProps
  imports MergeSpec SplitSpec FindSpec
begin

text \<open>
  The properties of the node operations, stated on node records and stores: each operation of
  \<open>src/src/node.rs\<close> refines the operation on lists that it stands for.
\<close>

text \<open>C20. \<open>Node::insert_val\<close> on a leaf with room ends without a fault and leaves a leaf that shows the
  old keys and values with the new ones inserted at the index; parent and sibling links are kept.
  \<open>Node::remove_val\<close> at the same index gives the entry back and the old keys and values.\<close>

theorem insert_val_correct:
  assumes "node_view n (VLeaf par ks vs pv nx)" "idx \<le> length ks" "length ks < M"
  shows "\<exists>n'. insert_val idx k v n = Inr n' \<and>
    node_view n' (VLeaf par (ins_at idx k ks) (ins_at idx v vs) pv nx) \<and>
    (\<exists>n''. remove_val idx n' = Inr ((k, v), n'') \<and> node_view n'' (VLeaf par ks vs pv nx))"
proof -
  obtain n' where n': "insert_val idx k v n = Inr n'" "node_view n' (VLeaf par (ins_at idx k ks) (ins_at idx v vs) pv nx)"
    using insert_val_view[OF assms] by blast
  have vs: "length vs = length ks" using assms(1) by auto
  then have "ins_at idx k ks ! idx = k" "ins_at idx v vs ! idx = v" using assms(2) by (simp_all add: ins_at_def nth_append)
  with remove_val_view[OF n'(2), of idx] n' assms(2) vs show ?thesis by auto
qed

lemma leaf_node_view: "node_view leaf_node (VLeaf None [] [] None None)"
  by (simp add: leaf_node_def holds_empty)

theorem insert_val_correct_witness:
  "\<exists>n'. insert_val 0 (5 :: nat) True leaf_node = Inr n' \<and> node_view n' (VLeaf None [5] [True] None None) \<and>
    (\<exists>n''. remove_val 0 n' = Inr ((5, True), n'') \<and> node_view n'' (VLeaf None [] [] None None))"
  using insert_val_correct[OF leaf_node_view, of 0 5 True] by (simp add: M_def del: node_view.simps)

text \<open>C19. \<open>Node::split_leaf\<close> on a full leaf: together, the left half that stays in the node and the right half
  that is returned hold the old entries and the new one, in order; the left has 4 of them and the right 5,
  so both are half full; the separator is the first key of the right half; the right half has no parent and
  no previous leaf yet, and takes over the next one.\<close>

theorem split_leaf_correct:
  assumes "node_view n (VLeaf par ks vs pv nx)" "length ks = M" "idx \<le> length ks"
  shows "\<exists>sep right left ks1 vs1 ks2 vs2. split_leaf idx k v n = Inr ((sep, right), left) \<and>
    node_view left (VLeaf par ks1 vs1 pv nx) \<and> node_view right (VLeaf None ks2 vs2 None nx) \<and>
    ks1 @ ks2 = ins_at idx k ks \<and> vs1 @ vs2 = ins_at idx v vs \<and>
    length ks1 = M div 2 \<and> length ks2 = M div 2 + 1 \<and> sep = hd ks2"
proof -
  let ?KS = "ins_at idx k ks" and ?VS = "ins_at idx v vs"
  have len: "length ?KS = 9" "M div 2 = 4" using assms(2) by (simp_all add: M_def)
  then have hd: "hd (drop (M div 2) ?KS) = ?KS ! (M div 2)" by (simp add: hd_drop_conv_nth)
  from split_leaf_view[OF assms, of k v] obtain right left where
    s: "split_leaf idx k v n = Inr ((?KS ! (M div 2), right), left)"
      "node_view left (VLeaf par (take (M div 2) ?KS) (take (M div 2) ?VS) pv nx)"
      "node_view right (VLeaf None (drop (M div 2) ?KS) (drop (M div 2) ?VS) None nx)" by blast
  show ?thesis
    by (rule exI[of _ "?KS ! (M div 2)"], rule exI[of _ right], rule exI[of _ left], rule exI[of _ "take (M div 2) ?KS"],
        rule exI[of _ "take (M div 2) ?VS"], rule exI[of _ "drop (M div 2) ?KS"], rule exI[of _ "drop (M div 2) ?VS"])
      (use s hd len in \<open>simp del: node_view.simps\<close>)
qed

definition full_leaf :: "(nat, bool) node" where
  "full_leaf = \<lparr>parent = None, parent_idx = None, len = 8, keys = map Some [1, 2, 3, 4, 5, 6, 7, 8],
     node_d = Leaf \<lparr>vals = map Some (replicate 8 True), leaf_prev = None, leaf_next = None\<rparr>\<rparr>"

lemma full_leaf_view: "node_view full_leaf (VLeaf None [1, 2, 3, 4, 5, 6, 7, 8] (replicate 8 True) None None)"
  by (simp add: full_leaf_def holds_def M_def)

theorem split_leaf_correct_witness:
  "\<exists>sep right left ks1 vs1 ks2 vs2. split_leaf 0 0 False full_leaf = Inr ((sep, right), left) \<and>
    node_view left (VLeaf None ks1 vs1 None None) \<and> node_view right (VLeaf None ks2 vs2 None None) \<and>
    ks1 @ ks2 = [0, 1, 2, 3, 4, 5, 6, 7, 8] \<and> length ks2 = 5"
  using split_leaf_correct[OF full_leaf_view, of 0 0 False] by (fastforce simp: M_def simp del: node_view.simps)

end
