(* ===== verification/MapInv.thy ===== *)
theory MapInv
  imports FindSpec
begin

text \<open>
  The invariant of a map: its record and its part of the heap represent an ordered, balanced tree
  with filled nodes, or no tree at all. The contents are the entries of the leaves in order. A frame
  says which part of the heap an operation may touch. Lookups and reads are proved here.
\<close>

subsection \<open>The invariant\<close>

definition tree_ok :: "nat \<Rightarrow> ('k::linorder, 'v) bt \<Rightarrow> bool" where
  "tree_ok h t \<longleftrightarrow> bal h t \<and> filled 1 t \<and> ordered (flat t)"

definition bmap_ok :: "('k::linorder, 'v) vheap \<Rightarrow> bmap \<Rightarrow> ('k, 'v) bt option \<Rightarrow> bool" where
  "bmap_ok A m T \<longleftrightarrow>
     (case T of
        None \<Rightarrow> root m = None \<and> mlength m = 0 \<and> height m = 0
      | Some t \<Rightarrow> root m = Some (root_of t) \<and> tree_in A t \<and> tree_ok (height m) t \<and>
                  mlength m = length (entries t))"

definition contents :: "('k, 'v) bt option \<Rightarrow> ('k \<times> 'v) list" where
  "contents T = (case T of None \<Rightarrow> [] | Some t \<Rightarrow> entries t)"

definition owned :: "('k, 'v) bt option \<Rightarrow> ptr set" where
  "owned T = (case T of None \<Rightarrow> {} | Some t \<Rightarrow> set (ptrs t))"

definition framed :: "('k, 'v) vheap \<Rightarrow> ptr set \<Rightarrow> ('k, 'v) vheap \<Rightarrow> ptr set \<Rightarrow> bool" where
  "framed A S A' S' \<longleftrightarrow>
     (\<forall>q\<in>dom A - S. A' q = A q) \<and> dom A' = (dom A - S) \<union> S' \<and> S' \<inter> (dom A - S) = {}"

lemma bmap_ok_None [simp]:
  "bmap_ok A m None \<longleftrightarrow> root m = None \<and> mlength m = 0 \<and> height m = 0"
  by (simp add: bmap_ok_def)

lemma bmap_ok_Some [simp]:
  "bmap_ok A m (Some t) \<longleftrightarrow> root m = Some (root_of t) \<and> tree_in A t \<and> tree_ok (height m) t \<and>
     mlength m = length (entries t)"
  by (simp add: bmap_ok_def)

lemma contents_simps [simp]: "contents None = []" "contents (Some t) = entries t"
  by (simp_all add: contents_def)

lemma owned_simps [simp]: "owned None = {}" "owned (Some t) = set (ptrs t)"
  by (simp_all add: owned_def)

lemma bmap_ok_new [simp]: "bmap_ok A new_in None"
  by (simp add: new_in_def)

lemma framed_refl: "S \<subseteq> dom A \<Longrightarrow> framed A S A S"
  by (auto simp: framed_def)

lemma framed_trans:
  assumes "framed A S B T" "framed B T C U"
  shows "framed A S C U"
proof -
  have "dom B - T = dom A - S" using assms(1) by (auto simp: framed_def)
  with assms show ?thesis unfolding framed_def by metis
qed

lemma bmap_ok_owned: "bmap_ok A m T \<Longrightarrow> owned T \<subseteq> dom A"
  by (cases T) (auto simp: tree_in_def dest: rep_dom(1))

text \<open>What another map owns is not touched.\<close>

lemma tree_in_cong: "tree_in A t \<Longrightarrow> (\<And>q. q \<in> set (ptrs t) \<Longrightarrow> B q = A q) \<Longrightarrow> tree_in B t"
proof -
  assume t: "tree_in A t" and same: "\<And>q. q \<in> set (ptrs t) \<Longrightarrow> B q = A q"
  have "linked A None (leaves t) None = linked B None (leaves t) None"
    by (rule linked_cong) (use leaves_in_ptrs[of t] same in \<open>auto simp: links_def\<close>)
  with t same show ?thesis by (auto simp: tree_in_def intro: rep_cong)
qed

lemma framed_other:
  assumes "framed A S A' S'" "bmap_ok A m' T'" "owned T' \<inter> S = {}"
  shows "bmap_ok A' m' T'" "owned T' \<inter> S' = {}"
proof -
  have "owned T' \<subseteq> dom A - S" using bmap_ok_owned[OF assms(2)] assms(3) by blast
  then show "bmap_ok A' m' T'" "owned T' \<inter> S' = {}"
    using assms(1,2) by (cases T'; auto simp: framed_def intro!: tree_in_cong[of A])+
qed

subsection \<open>Entries and order\<close>

lemma ents_bounds:
  "items_below k its \<Longrightarrow> \<forall>x\<in>set (ents its). fst x < k"
  "items_above k its \<Longrightarrow> \<forall>x\<in>set (ents its). k < fst x"
  by (auto simp: set_ents) (use less_mark_simps(4) in fastforce)+

lemma ordered_ents_sorted: "ordered its \<Longrightarrow> kv_sorted (ents its)"
proof (induction its rule: ents.induct)
  case (3 k v its)
  then have "ordered its" "\<forall>y\<in>set its. EntAt k < mark_of y" by (simp_all add: ordered_Cons)
  with 3 ents_bounds(2)[of its k] show ?case by simp
qed (simp_all add: ordered_Cons)

lemma bmap_sorted: "bmap_ok A m T \<Longrightarrow> kv_sorted (contents T)"
  by (cases T) (auto simp: tree_ok_def entries_def intro: ordered_ents_sorted)

lemma plug_entries:
  assumes "path_shape 0 c" "length vs = length ks"
  shows "entries (plug c (Lf p ks vs)) = ents (left_items c) @ zip ks vs @ ents (right_items c)"
  using assms by (simp add: entries_def plug_flat)

lemma locates_cases:
  assumes "locates t h k r"
  obtains (At) c p ks vs i where "r = At p i" "t = plug c (Lf p ks vs)" "path_shape 0 c" "length c = h"
      "length vs = length ks" "i < length ks" "ks ! i = k"
      "items_below k (left_items c @ map2 Ent (take i ks) (take i vs))"
      "items_above k (map2 Ent (drop (Suc i) ks) (drop (Suc i) vs) @ right_items c)"
  | (Before) c p ks vs i where "r = Before p i" "t = plug c (Lf p ks vs)" "path_shape 0 c" "length c = h"
      "length vs = length ks" "i \<le> length ks"
      "items_below k (left_items c @ map2 Ent (take i ks) (take i vs))"
      "items_above k (map2 Ent (drop i ks) (drop i vs) @ right_items c)"
  using assms unfolding locates_def by blast

text \<open>The entries around a key that is there, and around the place of one that is not.\<close>

lemma entries_at:
  assumes "path_shape 0 c" "length vs = length ks" "i < length ks" "ks ! i = k"
    "items_below k (left_items c @ map2 Ent (take i ks) (take i vs))"
    "items_above k (map2 Ent (drop (Suc i) ks) (drop (Suc i) vs) @ right_items c)"
  defines "xs \<equiv> ents (left_items c) @ zip (take i ks) (take i vs)"
    and "ys \<equiv> zip (drop (Suc i) ks) (drop (Suc i) vs) @ ents (right_items c)"
  shows "entries (plug c (Lf p ks vs)) = xs @ (k, vs ! i) # ys"
    and "\<forall>x\<in>set xs. fst x < k" and "\<forall>y\<in>set ys. k < fst y"
proof -
  have "zip ks vs = take i (zip ks vs) @ zip ks vs ! i # drop (Suc i) (zip ks vs)"
    using assms(2,3) by (intro split_at) simp
  also have "\<dots> = zip (take i ks) (take i vs) @ (k, vs ! i) # zip (drop (Suc i) ks) (drop (Suc i) vs)"
    using assms(2-4) by (simp add: take_zip drop_zip)
  finally show "entries (plug c (Lf p ks vs)) = xs @ (k, vs ! i) # ys"
    using assms(1,2) by (simp add: plug_entries xs_def ys_def)
  have "length (take i ks) = length (take i vs)" "length (drop (Suc i) ks) = length (drop (Suc i) vs)"
    using assms(2) by simp_all
  then show "\<forall>x\<in>set xs. fst x < k" "\<forall>y\<in>set ys. k < fst y"
    using ents_bounds(1)[OF assms(5)] ents_bounds(2)[OF assms(6)] by (simp_all add: xs_def ys_def)
qed

lemma entries_before:
  assumes "path_shape 0 c" "length vs = length ks"
    "items_below k (left_items c @ map2 Ent (take i ks) (take i vs))"
    "items_above k (map2 Ent (drop i ks) (drop i vs) @ right_items c)"
  defines "xs \<equiv> ents (left_items c) @ zip (take i ks) (take i vs)"
    and "ys \<equiv> zip (drop i ks) (drop i vs) @ ents (right_items c)"
  shows "entries (plug c (Lf p ks vs)) = xs @ ys"
    and "\<forall>x\<in>set xs. fst x < k" and "\<forall>y\<in>set ys. k < fst y"
proof -
  have "zip ks vs = zip (take i ks) (take i vs) @ zip (drop i ks) (drop i vs)"
    by (metis append_take_drop_id drop_zip take_zip)
  then show "entries (plug c (Lf p ks vs)) = xs @ ys"
    using assms(1,2) by (simp add: plug_entries xs_def ys_def)
  have "length (take i ks) = length (take i vs)" "length (drop i ks) = length (drop i vs)"
    using assms(2) by simp_all
  then show "\<forall>x\<in>set xs. fst x < k" "\<forall>y\<in>set ys. k < fst y"
    using ents_bounds(1)[OF assms(3)] ents_bounds(2)[OF assms(4)] by (simp_all add: xs_def ys_def)
qed

lemma lookup_at:
  assumes "path_shape 0 c" "length vs = length ks" "i < length ks" "ks ! i = k"
    "items_below k (left_items c @ map2 Ent (take i ks) (take i vs))"
    "items_above k (map2 Ent (drop (Suc i) ks) (drop (Suc i) vs) @ right_items c)"
  shows "map_of (entries (plug c (Lf p ks vs))) k = Some (vs ! i)"
  unfolding entries_at(1)[OF assms] by (rule map_of_at, rule entries_at(2)[OF assms])

lemma lookup_before:
  assumes "path_shape 0 c" "length vs = length ks"
    "items_below k (left_items c @ map2 Ent (take i ks) (take i vs))"
    "items_above k (map2 Ent (drop i ks) (drop i vs) @ right_items c)"
  shows "map_of (entries (plug c (Lf p ks vs))) k = None"
  unfolding entries_before(1)[OF assms]
  by (rule map_of_between, rule entries_before(2)[OF assms], rule entries_before(3)[OF assms])

lemma tree_in_leaf:
  assumes "tree_in A (plug c (Lf p ks vs))"
  obtains par pv nx where "A p = Some (VLeaf par ks vs pv nx)" "path_rep A c p par"
  using assms by (auto simp: tree_in_def plug_rep)

subsection \<open>Lookups\<close>

lemma runs_find_key:
  assumes "bmap_ok A m T" "T = None \<Longrightarrow> Q NoRoot A"
    "\<And>t r. T = Some t \<Longrightarrow> locates t (height m) k r \<Longrightarrow> Q r A"
  shows "runs (find_key m k) A Q"
proof (cases T)
  case None
  with assms show ?thesis by (auto simp: find_key_def intro!: runs_ret)
next
  case (Some t)
  with assms(1) have "rep A None t" "bal (height m) t" "ordered (left_items [] @ flat t @ right_items [])"
      "root m = Some (root_of t)" by (simp_all add: tree_in_def tree_ok_def)
  then show ?thesis
    using runs_find_loop[of A None t "height m" "[]" k Q] assms(3)[OF Some] by (simp add: find_key_def)
qed

lemma runs_at_entry:
  assumes "bmap_ok A m T" "T = Some t" "locates t (height m) k r"
    "\<And>n p par ks vs pv nx i. node_view n (VLeaf par ks vs pv nx) \<Longrightarrow> i < length ks \<Longrightarrow>
       length vs = length ks \<Longrightarrow> ks ! i = k \<Longrightarrow> map_of (contents T) k = Some (vs ! i) \<Longrightarrow>
       f i n = Inr (g (vs ! i))"
    "Q (map_option g (map_of (contents T) k)) A"
  shows "runs (at_entry f r) A Q"
  using assms(3)
proof (cases rule: locates_cases)
  case (At c p ks vs i)
  from assms(1,2) At(2) have "tree_in A (plug c (Lf p ks vs))" by simp
  then obtain par pv nx where p: "A p = Some (VLeaf par ks vs pv nx)" by (rule tree_in_leaf)
  have v: "map_of (contents T) k = Some (vs ! i)"
    using lookup_at[OF At(3,5-9), of p] assms(2) At(2) by simp
  show ?thesis
    unfolding at_entry_def At(1) found.case
  proof (rule runs_bind, rule runs_get_at[where A = A, OF p])
    fix n :: "('a, 'b) node" assume "node_view n (VLeaf par ks vs pv nx)"
    then show "f i n = Inr (g (vs ! i))" by (rule assms(4)) (use At v in simp_all)
  qed (use assms(5) v in \<open>auto intro: runs_ret\<close>)
next
  case (Before c p ks vs i)
  have "map_of (contents T) k = None"
    using lookup_before[OF Before(3,5,7,8), of p] assms(2) Before(2) by simp
  with assms(5) show ?thesis by (simp add: at_entry_def Before(1) runs_ret)
qed

lemma runs_map_get:
  assumes "bmap_ok A m T" "Q (map_of (contents T) k) A"
  shows "runs (map_get m k) A Q"
  unfolding map_get_def
proof (rule runs_bind, rule runs_find_key[OF assms(1)])
  show "T = None \<Longrightarrow> runs (at_entry val NoRoot) A Q"
    using assms(2) by (simp add: at_entry_def runs_ret)
  fix t r assume T: "T = Some t" "locates t (height m) k r"
  show "runs (at_entry val r) A Q"
    by (rule runs_at_entry[OF assms(1) T, of val "\<lambda>v. v"]) (use assms(2) in \<open>simp_all add: option.map_ident del: node_view.simps\<close>)
qed

lemma runs_get_key:
  assumes "bmap_ok A m T" "Q (map_option (\<lambda>_. k) (map_of (contents T) k)) A"
  shows "runs (get_key m k) A Q"
  unfolding get_key_def
proof (rule runs_bind, rule runs_find_key[OF assms(1)])
  show "T = None \<Longrightarrow> runs (at_entry key NoRoot) A Q"
    using assms(2) by (simp add: at_entry_def runs_ret)
  fix t r assume T: "T = Some t" "locates t (height m) k r"
  show "runs (at_entry key r) A Q"
    by (rule runs_at_entry[OF assms(1) T, of key "\<lambda>_. k"]) (use assms(2) in \<open>simp_all del: node_view.simps\<close>)
qed

lemma runs_get_key_value:
  assumes "bmap_ok A m T" "Q (map_option (Pair k) (map_of (contents T) k)) A"
  shows "runs (get_key_value m k) A Q"
  unfolding get_key_value_def
proof (rule runs_bind, rule runs_find_key[OF assms(1)])
  show "T = None \<Longrightarrow> runs (at_entry key_val NoRoot) A Q"
    using assms(2) by (simp add: at_entry_def runs_ret)
  fix t r assume T: "T = Some t" "locates t (height m) k r"
  show "runs (at_entry key_val r) A Q"
    by (rule runs_at_entry[OF assms(1) T, of key_val "Pair k"]) (use assms(2) in \<open>simp_all del: node_view.simps\<close>)
qed

lemma runs_contains_key:
  assumes "bmap_ok A m T" "Q (k \<in> fst ` set (contents T)) A"
  shows "runs (contains_key m k) A Q"
  unfolding contains_key_def
proof (rule runs_bind, rule runs_find_key[OF assms(1)])
  show "T = None \<Longrightarrow> runs (ret (case NoRoot of At _ _ \<Rightarrow> True | _ \<Rightarrow> False)) A Q"
    using assms(2) by (simp add: runs_ret)
  fix t r assume T: "T = Some t" and r: "locates t (height m) k r"
  from r show "runs (ret (case r of At _ _ \<Rightarrow> True | _ \<Rightarrow> False)) A Q"
  proof (cases rule: locates_cases)
    case (At c p ks vs i)
    then have "k \<in> fst ` set (contents T)" using entries_at(1)[OF At(3,5-9), of p] T by simp
    with assms(2) At(1) show ?thesis by (simp add: runs_ret)
  next
    case (Before c p ks vs i)
    then have "map_of (contents T) k = None"
      using lookup_before[OF Before(3,5,7,8), of p] T by simp
    with assms(2) Before(1) show ?thesis by (simp add: runs_ret map_of_eq_None_iff)
  qed
qed

end
