(* ===== verification/Reshape.thy ===== *)
theory Reshape
  imports MapInv
begin

text \<open>
  Lemmas for the operations that move subtrees between nodes: only the parent links of the roots of
  the moved subtrees change, so that what a heap represents below them and the list of the leaves
  stay the same; the flat list of a node can be cut at any of its keys.
\<close>

subsection \<open>Nodes that differ in the parent link\<close>

definition parsim :: "('k, 'v) vheap \<Rightarrow> ('k, 'v) vheap \<Rightarrow> ptr \<Rightarrow> bool" where
  "parsim A B q \<longleftrightarrow> (\<exists>par. B q = map_option (vset_par par) (A q))"

lemma parsim_refl [simp]: "parsim A A q"
  unfolding parsim_def
proof (cases "A q")
  case (Some v)
  then show "\<exists>par. A q = map_option (vset_par par) (A q)" by (intro exI[of _ "vpar v"]) simp
qed simp

lemma parsim_eq: "B q = A q \<Longrightarrow> parsim A B q"
  using parsim_refl[of A q] unfolding parsim_def by simp

lemma parsim_trans: "parsim A B q \<Longrightarrow> parsim B C q \<Longrightarrow> parsim A C q"
  unfolding parsim_def by (auto simp: option.map_comp comp_def)

lemma parsim_repar [simp]: "parsim A (repar f es A) q"
proof (cases "q \<in> set es \<and> q \<in> dom A")
  case True
  then obtain v where "A q = Some v" "q \<in> set es" by auto
  then show ?thesis unfolding parsim_def
    by (intro exI[of _ "f (vpar v)"]) (simp add: repar_def)
next
  case False
  then show ?thesis by (intro parsim_eq) (auto simp: repar_def domIff)
qed

lemma parsim_upd_other [simp]: "p \<noteq> q \<Longrightarrow> parsim A (B(p := x)) q = parsim A B q"
  by (simp add: parsim_def)

lemma parsim_other_upd [simp]: "p \<noteq> q \<Longrightarrow> parsim (A(p := x)) B q = parsim A B q"
  by (simp add: parsim_def)

lemma parsim_vset_par: "A q = Some v \<Longrightarrow> parsim A (A(q \<mapsto> vset_par par v)) q"
  by (auto simp: parsim_def)

lemma parsimI: "A q = Some v \<Longrightarrow> B q = Some (vset_par par v) \<Longrightarrow> parsim A B q"
  by (auto simp: parsim_def)

lemma parsim_upd_vset: "parsim A B q \<Longrightarrow> B l = Some v \<Longrightarrow> parsim A (B(l \<mapsto> vset_par x v)) q"
proof (cases "q = l")
  case True
  assume "parsim A B q" "B l = Some v"
  with True obtain w par where "A l = Some w" "v = vset_par par w" by (cases "A l") (auto simp: parsim_def)
  with True show ?thesis by (intro parsimI[where par = x]) simp_all
qed simp

lemma parsim_same_but_pars: "same_but_pars S A B \<Longrightarrow> parsim A B q"
  using parsim_eq[of B q A] by (cases "q \<in> S") (auto simp: same_but_pars_def parsim_def)

lemma links_parsim: "parsim A B q \<Longrightarrow> links B q = links A q"
proof (cases "A q")
  case (Some v)
  then show "parsim A B q \<Longrightarrow> links B q = links A q"
    by (cases v) (auto simp: parsim_def links_def)
qed (auto simp: parsim_def links_def)

lemma links_upd_leaf [simp]: "links (A(p \<mapsto> VLeaf par ks vs pv nx)) p = Some (pv, nx)"
  by (simp add: links_def)

lemma links_upd_other [simp]: "q \<noteq> p \<Longrightarrow> links (A(p := x)) q = links A q"
  by (simp add: links_def)

lemma is_child_repar:
  assumes "is_child A c p i" "c \<in> set es"
  shows "is_child (repar (shift_idx f) es A) c p (f i)"
    and "is_child (repar (new_parent q) es A) c q i"
  using assms by (auto simp: is_child_def repar_def)

lemma is_child_upd_self: "A c = Some v \<Longrightarrow> \<not> raw v \<Longrightarrow> is_child (A(c \<mapsto> vset_par (Some (p, i)) v)) c p i"
  by (simp add: is_child_def)

lemma is_child_vset: "is_child A c p i \<Longrightarrow> A c = Some v \<Longrightarrow> vset_par (Some (p, i)) v = v"
  by (auto simp: is_child_def) (metis vset_par_simps(5))

subsection \<open>Subtrees under a new parent\<close>

abbreviation all_rep :: "('k, 'v) vheap \<Rightarrow> ('k, 'v) bt list \<Rightarrow> bool" where
  "all_rep A ts \<equiv> \<forall>t\<in>set ts. \<exists>par. rep A par t"

lemma reps_all_rep: "reps A p i ts \<Longrightarrow> all_rep A ts"
proof
  fix t assume "reps A p i ts" "t \<in> set ts"
  then obtain j where "j < length ts" "t = ts ! j" "rep A (Some (p, i + j)) (ts ! j)"
    by (auto simp: reps_iff in_set_conv_nth)
  then show "\<exists>par. rep A par t" by blast
qed

lemma rep_parsim:
  assumes "rep A par t" "distinct (ptrs t)" "is_child B (root_of t) p i" "parsim A B (root_of t)"
    "\<And>q. q \<in> set (ptrs t) \<Longrightarrow> q \<noteq> root_of t \<Longrightarrow> B q = A q"
  shows "rep B (Some (p, i)) t"
proof (rule rep_reparent[OF assms(1,2)])
  from rep_root[OF assms(1)] obtain v where v: "A (root_of t) = Some v" "\<not> raw v" by blast
  with assms(4) obtain par' where B: "B (root_of t) = Some (vset_par par' v)" by (auto simp: parsim_def)
  with assms(3) v(2) have "par' = Some (p, i)" by (auto simp: is_child_def)
  with B v(1) show "B (root_of t) = map_option (vset_par (Some (p, i))) (A (root_of t))" by simp
qed (rule assms(5))

lemma root_not_inside:
  assumes "distinct (concat (map ptrs ts))" "t \<in> set ts" "q \<in> set (ptrs t)" "q \<noteq> root_of t"
  shows "q \<notin> root_of ` set ts"
proof
  assume "q \<in> root_of ` set ts"
  then obtain u where u: "u \<in> set ts" "q = root_of u" by auto
  obtain i j where ij: "i < length ts" "ts ! i = t" "j < length ts" "ts ! j = u"
    using assms(2) u(1) by (auto simp: in_set_conv_nth)
  with u(2) assms(4) have "i \<noteq> j" by auto
  with distinct_concat_nth[OF assms(1), of i j] ij have "set (ptrs t) \<inter> set (ptrs u) = {}" by simp
  with assms(3) u(2) root_in_ptrs[of u] show False by blast
qed

lemma reps_children:
  assumes "all_rep A ts" "distinct (concat (map ptrs ts))"
    "\<And>j. j < length ts \<Longrightarrow> is_child B (root_of (ts ! j)) p (i + j)"
    "\<And>q. q \<in> ptrss ts \<Longrightarrow> q \<notin> root_of ` set ts \<Longrightarrow> B q = A q"
    "\<And>q. q \<in> root_of ` set ts \<Longrightarrow> parsim A B q"
  shows "reps B p i ts"
  unfolding reps_iff
proof (intro allI impI)
  fix j assume j: "j < length ts"
  then have t: "ts ! j \<in> set ts" by simp
  with assms(1) obtain par where "rep A par (ts ! j)" by blast
  then show "rep B (Some (p, i + j)) (ts ! j)"
  proof (rule rep_parsim)
    show "distinct (ptrs (ts ! j))" using assms(2) t by (auto simp: distinct_concat_iff)
    show "is_child B (root_of (ts ! j)) p (i + j)" by (rule assms(3)[OF j])
    show "parsim A B (root_of (ts ! j))" using t by (intro assms(5)) auto
    fix q assume q: "q \<in> set (ptrs (ts ! j))" "q \<noteq> root_of (ts ! j)"
    show "B q = A q"
      by (rule assms(4)) (use q t root_not_inside[OF assms(2) t q] in auto)
  qed
qed

lemma roots_distinct:
  "distinct (concat (map ptrs ts)) \<Longrightarrow> distinct (map root_of ts)"
proof (induction ts)
  case (Cons t ts)
  then have "set (ptrs t) \<inter> ptrss ts = {}" by auto
  then have "root_of t \<notin> root_of ` set ts" using root_in_ptrs by fastforce
  with Cons show ?case by simp
qed simp

lemma roots_in_ptrss: "root_of ` set ts \<subseteq> ptrss ts"
  using root_in_ptrs by fastforce

lemma reps_is_child: "reps A p i ts \<Longrightarrow> j < length ts \<Longrightarrow> is_child A (root_of (ts ! j)) p (i + j)"
  by (intro rep_is_child reps_nth)

lemma reps_repar:
  assumes "reps A p i ts" "distinct (concat (map ptrs ts))" "\<And>j. j < length ts \<Longrightarrow> f (i + j) = i' + j"
    "\<And>q. q \<in> ptrss ts \<Longrightarrow> B q = repar (shift_idx f) (map root_of ts) A q"
  shows "reps B p i' ts"
proof (rule reps_children[OF reps_all_rep[OF assms(1)] assms(2)])
  fix j assume j: "j < length ts"
  then have r: "root_of (ts ! j) \<in> set (map root_of ts)" "root_of (ts ! j) \<in> ptrss ts"
    using nth_mem[OF j] root_in_ptrs by (simp, blast)
  show "is_child B (root_of (ts ! j)) p (i' + j)"
    using is_child_repar(1)[OF reps_is_child[OF assms(1) j] r(1), of f] assms(3)[OF j] assms(4)[OF r(2)]
    by (simp add: is_child_def)
next
  fix q assume "q \<in> root_of ` set ts"
  then have "B q = repar (shift_idx f) (map root_of ts) A q" using assms(4) roots_in_ptrss[of ts] by blast
  then show "parsim A B q" using parsim_repar by (simp add: parsim_def)
qed (use assms(4) in simp)

lemma reps_new_parent:
  assumes "reps A p i ts" "distinct (concat (map ptrs ts))"
    "\<And>q. q \<in> ptrss ts \<Longrightarrow> B q = repar (new_parent p') (map root_of ts) A q"
  shows "reps B p' i ts"
proof (rule reps_children[OF reps_all_rep[OF assms(1)] assms(2)])
  fix j assume j: "j < length ts"
  then have r: "root_of (ts ! j) \<in> set (map root_of ts)" "root_of (ts ! j) \<in> ptrss ts"
    using nth_mem[OF j] root_in_ptrs by (simp, blast)
  show "is_child B (root_of (ts ! j)) p' (i + j)"
    using is_child_repar(2)[OF reps_is_child[OF assms(1) j] r(1), of p'] assms(3)[OF r(2)]
    by (simp add: is_child_def)
next
  fix q assume "q \<in> root_of ` set ts"
  then have "B q = repar (new_parent p') (map root_of ts) A q" using assms(3) roots_in_ptrss[of ts] by blast
  then show "parsim A B q" using parsim_repar by (simp add: parsim_def)
qed (use assms(3) in simp)

lemma linked_all: "(\<And>q. links B q = links A q) \<Longrightarrow> linked B pv ls nx = linked A pv ls nx"
  by (rule linked_cong) simp

lemma links_int: "A p = Some (VInt par ks es) \<Longrightarrow> links A p = None"
  by (simp add: links_def)

lemma framed_same:
  "dom B = dom A \<Longrightarrow> S \<subseteq> dom A \<Longrightarrow> (\<And>q. q \<notin> S \<Longrightarrow> B q = A q) \<Longrightarrow> framed A S B S"
  by (auto simp: framed_def)

subsection \<open>Cutting the flat list of a node\<close>

lemma sep_before_append:
  "length ks = length xs \<Longrightarrow> sep_before (ks @ ls) (xs @ ys) = sep_before ks xs @ sep_before ls ys"
  by (induction ks xs rule: list_induct2) auto

lemma sep_shift:
  "length ks = length xs \<Longrightarrow> sep_after ks xs @ x = weave ks (xs @ [x])"
  using weave_split[of ks xs "[]" x "[]"] by simp

lemma weave_cut:
  assumes "length xs = length ks + 1" "i < length ks"
  shows "weave ks xs = weave (take i ks) (take (Suc i) xs) @ Sep (ks ! i) #
    weave (drop (Suc i) ks) (drop (Suc i) xs)"
proof -
  obtain x ys where xs: "xs = x # ys" using assms(1) by (cases xs) auto
  have len: "length ys = length ks" using assms(1) xs by simp
  have "ks = take i ks @ ks ! i # drop (Suc i) ks" "ys = take i ys @ ys ! i # drop (Suc i) ys"
    using assms(2) len by (auto intro: split_at)
  then have "sep_before ks ys = sep_before (take i ks) (take i ys) @
      sep_before (ks ! i # drop (Suc i) ks) (ys ! i # drop (Suc i) ys)"
    using sep_before_append[of "take i ks" "take i ys"] len by (metis length_take)
  moreover have "drop i ys = ys ! i # drop (Suc i) ys" using assms(2) len by (simp add: Cons_nth_drop_Suc)
  ultimately show ?thesis by (simp add: xs)
qed

lemma weave_insert:
  assumes "length ks1 = length xs1"
  shows "weave (ks1 @ k # ks2) (xs1 @ x # y # xs2) =
    sep_after ks1 xs1 @ x @ Sep k # y @ sep_before ks2 xs2"
  using weave_split[OF assms, of "k # ks2" x "y # xs2"] by simp

end
