(* ===== verification/InsertSpec.thy ===== *)
theory InsertSpec
  imports Reshape
begin

text \<open>
  Insertion: the tree after \<open>insert\<close> represents the contents with the entry inserted, its shape and
  order are kept, and only the nodes of the map and fresh nodes change. The loop that pushes a split
  key up the tree is proved by induction on the path from the split node to the root.
\<close>

subsection \<open>Changing the entries of a leaf\<close>

lemma tree_in_leaf_upd:
  assumes t: "tree_in A (plug c (Lf p ks vs))" and p: "A p = Some (VLeaf par ks vs pv nx)"
  shows "tree_in (A(p \<mapsto> VLeaf par ks' vs' pv nx)) (plug c (Lf p ks' vs'))"
proof -
  let ?B = "A(p \<mapsto> VLeaf par ks' vs' pv nx)"
  have d: "distinct (path_ptrs c)" "p \<notin> set (path_ptrs c)"
    using t by (simp_all add: tree_in_def plug_distinct)
  have "path_rep A c p par" using t p by (auto simp: tree_in_def plug_rep)
  then have "path_rep ?B c p par" by (rule path_rep_cong) (use d in auto)
  then have rep: "rep ?B None (plug c (Lf p ks' vs'))" by (auto simp: plug_rep)
  have links: "links A l = links ?B l" for l using p by (cases "l = p") (simp_all add: links_def)
  have "linked A None (leaves (plug c (Lf p ks vs))) None" using t by (simp add: tree_in_def)
  then have "linked ?B None (leaves (plug c (Lf p ks vs))) None"
    by (subst (asm) linked_cong[of _ A ?B]) (simp_all only: links)
  with rep d show ?thesis by (simp add: tree_in_def plug_distinct plug_leaves)
qed

lemma framed_upd: "p \<in> S \<Longrightarrow> S \<subseteq> dom A \<Longrightarrow> framed A S (A(p \<mapsto> v)) S"
  by (auto simp: framed_def)

lemma tree_in_dom: "tree_in A t \<Longrightarrow> set (ptrs t) \<subseteq> dom A"
  by (auto simp: tree_in_def dest: rep_dom(1))

lemma tree_ok_plug:
  assumes "path_shape h c"
  shows "tree_ok (h + length c) (plug c t) \<longleftrightarrow>
    bal h t \<and> path_filled c \<and> filled (min_fill c) t \<and> ordered (left_items c @ flat t @ right_items c)"
  unfolding tree_ok_def plug_filled[OF assms] plug_bal[OF assms] plug_flat[OF assms] by blast

lemma ordered_insert:
  assumes "ordered (xs @ ys)" "items_below k xs" "items_above k ys"
  shows "ordered (xs @ Ent k v # ys)"
  using assms by (auto simp: ordered_append ordered_Cons)

lemma ordered_replace: "ordered (xs @ Ent k v # ys) \<Longrightarrow> ordered (xs @ Ent k w # ys)"
  by (simp add: ordered_append ordered_Cons)

text \<open>A separator fits before an entry that follows another entry.\<close>

lemma ordered_separate:
  "ordered (xs @ Ent a b # Ent k v # ys) \<Longrightarrow> ordered (xs @ Ent a b # Sep k # Ent k v # ys)"
proof -
  assume o: "ordered (xs @ Ent a b # Ent k v # ys)"
  then have ak: "a < k" by (auto simp: ordered_append ordered_Cons)
  have "mark_of x < SepAt k" if "x \<in> set xs" for x
  proof -
    have "mark_of x < EntAt a" using o that by (auto simp: ordered_append)
    also have "EntAt a < SepAt k" using ak by simp
    finally show ?thesis .
  qed
  moreover have "SepAt k < mark_of y" if "y \<in> set ys" for y
  proof -
    have "SepAt k < EntAt k" by simp
    also have "EntAt k < mark_of y" using o that by (auto simp: ordered_append ordered_Cons)
    finally show ?thesis .
  qed
  ultimately show ?thesis using o ak by (auto simp: ordered_append ordered_Cons)
qed

lemma map2_ins_at:
  "length vs = length ks \<Longrightarrow>
   map2 f (ins_at i k ks) (ins_at i v vs) = map2 f (take i ks) (take i vs) @ f k v # map2 f (drop i ks) (drop i vs)"
  by (simp add: ins_at_def)

lemma map2_split: "length vs = length ks \<Longrightarrow>
   map2 f ks vs = map2 f (take i ks) (take i vs) @ map2 f (drop i ks) (drop i vs)"
  by (metis append_take_drop_id length_take length_drop zip_append map_append)

subsection \<open>A split node and its new sibling\<close>

definition pending ::
    "('k, 'v) vheap \<Rightarrow> ('k, 'v) path \<Rightarrow> ('k, 'v) bt \<Rightarrow> ('k, 'v) bt \<Rightarrow> bool" where
  "pending A c tl' tr' \<longleftrightarrow>
     (\<exists>par. path_rep A c (root_of tl') par \<and> rep A par tl') \<and> rep A None tr' \<and>
     distinct (path_ptrs c @ ptrs tl' @ ptrs tr') \<and>
     linked A None (left_leaves c @ leaves tl' @ leaves tr' @ right_leaves c) None"

abbreviation pending_ptrs ::
    "('k, 'v) path \<Rightarrow> ('k, 'v) bt \<Rightarrow> ('k, 'v) bt \<Rightarrow> ptr set" where
  "pending_ptrs c tl' tr' \<equiv> set (path_ptrs c) \<union> set (ptrs tl') \<union> set (ptrs tr')"

lemma pending_dom: "pending A c tl' tr' \<Longrightarrow> pending_ptrs c tl' tr' \<subseteq> dom A"
  by (auto simp: pending_def dest: rep_dom(1) path_rep_dom)

text \<open>At the root: a new root above the two halves.\<close>

lemma runs_grow_root:
  fixes A :: "('k, 'v) vheap"
  assumes pick: "slab pick" and P: "pending A [] tl' tr'"
    and Q: "\<And>r A'. tree_in A' (Nd r [k] [tl', tr']) \<Longrightarrow>
      framed A (pending_ptrs [] tl' tr') A' (set (ptrs (Nd r [k] [tl', tr']))) \<Longrightarrow>
      Q (m\<lparr>root := Some r, height := height m + 1\<rparr>) A'"
  shows "runs (grow_root pick m (root_of tl') k (root_of tr')) A Q"
proof -
  let ?l = "root_of tl'" and ?r = "root_of tr'"
  from P have reps: "rep A None tl'" "rep A None tr'" "distinct (ptrs tl')" "distinct (ptrs tr')"
      "set (ptrs tl') \<inter> set (ptrs tr') = {}" and links: "linked A None (leaves tl' @ leaves tr') None"
    by (auto simp: pending_def)
  obtain vl where vl: "A ?l = Some vl" "\<not> raw vl" using rep_root[OF reps(1)] by blast
  obtain vr where vr: "A ?r = Some vr" "\<not> raw vr" using rep_root[OF reps(2)] by blast
  note v = vl vr
  have ne: "?l \<noteq> ?r" using reps(5) root_in_ptrs[of tl'] root_in_ptrs[of tr'] by (metis disjoint_iff)
  show ?thesis
    unfolding grow_root_def
  proof (rule runs_bind, rule runs_alloc[OF pick, where v = "VRaw internal_node"])
    fix p assume p: "p \<notin> dom A"
    then have pne: "p \<noteq> ?l" "p \<noteq> ?r" "A p = None" using v by auto
    let ?A1 = "A(p \<mapsto> VRaw internal_node, ?l \<mapsto> vset_par (Some (p, 0)) vl, ?r \<mapsto> vset_par (Some (p, 0)) vr)"
    let ?A2 = "?A1(p \<mapsto> VInt None [] [?r])"
    let ?A3 = "(repar (shift_idx Suc) [?r] ?A2)(p \<mapsto> VInt None [k] [?l, ?r])"
    have par: "parsim A ?A3 q" if "q \<noteq> p" for q
    proof -
      have "parsim A ?A2 q"
      proof -
        have "parsim A (A(p \<mapsto> VRaw internal_node)) q" using that by simp
        then have "parsim A (A(p \<mapsto> VRaw internal_node, ?l \<mapsto> vset_par (Some (p, 0)) vl)) q"
          by (rule parsim_upd_vset) (use v pne in simp)
        then have "parsim A ?A1 q" by (rule parsim_upd_vset) (use v pne ne in simp)
        then show ?thesis by (subst parsim_upd_other) (use that in blast)+
      qed
      then have "parsim A (repar (shift_idx Suc) [?r] ?A2) q" by (rule parsim_trans[OF _ parsim_repar])
      then show ?thesis by (subst parsim_upd_other) (use that in blast)+
    qed
    have other: "?A3 q = A q" if "q \<noteq> p" "q \<noteq> ?l" "q \<noteq> ?r" for q using that by simp
    have children: "is_child ?A3 ?l p 0" "is_child ?A3 ?r p 1"
      using v ne pne by (simp_all add: is_child_def repar_def)
    have disj: "p \<notin> set (ptrs tl')" "p \<notin> set (ptrs tr')"
      using p rep_dom(1)[OF reps(1)] rep_dom(1)[OF reps(2)] by auto
    have "rep ?A3 (Some (p, 0)) tl'"
    proof (rule rep_parsim[OF reps(1,3) children(1) par])
      show "?A3 q = A q" if "q \<in> set (ptrs tl')" "q \<noteq> ?l" for q
        by (rule other) (use that disj reps(5) root_in_ptrs[of tr'] in blast)+
    qed (use pne in simp)
    moreover have "rep ?A3 (Some (p, 1)) tr'"
    proof (rule rep_parsim[OF reps(2,4) children(2) par])
      show "?A3 q = A q" if "q \<in> set (ptrs tr')" "q \<noteq> ?r" for q
        by (rule other) (use that disj reps(5) root_in_ptrs[of tl'] in blast)+
    qed (use pne in simp)
    moreover have "linked ?A3 None (leaves tl' @ leaves tr') None"
    proof -
      have "links ?A3 q = links A q" if "q \<in> set (leaves tl' @ leaves tr')" for q
        by (rule links_parsim, rule par) (use that disj leaves_in_ptrs in auto)
      then show ?thesis using links linked_cong[of "leaves tl' @ leaves tr'" ?A3 A] by blast
    qed
    ultimately have "tree_in ?A3 (Nd p [k] [tl', tr'])"
      using disj reps(3-5) by (auto simp: tree_in_def)
    moreover have "framed A (pending_ptrs [] tl' tr') ?A3 (set (ptrs (Nd p [k] [tl', tr'])))"
    proof -
      have "dom ?A3 = insert p (dom A)" using v by (auto simp: repar_def split: if_splits)
      moreover have "set (ptrs tl') \<union> set (ptrs tr') \<subseteq> dom A" using rep_dom(1) reps(1,2) by blast
      moreover have "?A3 q = A q" if "q \<in> dom A - pending_ptrs [] tl' tr'" for q
        by (rule other) (use that p root_in_ptrs in auto)
      ultimately show ?thesis using p disj by (auto simp: framed_def)
    qed
    ultimately have fin: "Q (m\<lparr>root := Some p, height := height m + 1\<rparr>) ?A3" by (rule Q)
    have child0: "\<exists>pa i. is_child ?A2 c pa i \<and> i \<le> M" if "c = ?r" for c
      using that v pne by (intro exI[of _ p] exI[of _ 0]) (simp add: is_child_def)
    show "runs (bindP (upd_at ?l (set_parent p 0)) (\<lambda>_.
        bindP (upd_at ?r (set_parent p 0)) (\<lambda>_.
        bindP (set_last_edge p ?r) (\<lambda>_.
        bindP (insert_edge p 0 False k ?l) (\<lambda>_.
        ret (m\<lparr>root := Some p, height := height m + 1\<rparr>)))))) (A(p \<mapsto> VRaw internal_node)) Q"
      apply (rule runs_bind, rule runs_upd_at[OF _ upd_set_parent[OF v(2)]])
      using v(1) pne apply simp
      apply (rule runs_bind, rule runs_upd_at[OF _ upd_set_parent[OF v(4)]])
      using v(3) pne ne apply simp
      apply (rule runs_bind, rule runs_set_last_edge_new[where q = p])
      using pne ne v apply (simp, simp add: is_child_def, simp)
      apply (rule runs_bind, rule runs_insert_edge[where par = None and ks = "[]" and es = "[?r]" and q = p and ai = 0])
      using pne ne v apply (simp, simp, simp add: M_def, simp, simp add: is_child_def, simp, simp, simp)
       apply (rule child0, simp)
      apply (rule runs_ret)
      using fin by simp
  qed simp
qed

text \<open>In a parent with room: the new sibling becomes its next child.\<close>

lemma runs_insert_parent:
  fixes A :: "('k, 'v) vheap"
  assumes P: "pending A (Fr p ks1 ts1 ks2 ts2 # c) tl' tr'"
    and len: "length ts1 = length ks1" "length ts2 = length ks2" "length ks1 + length ks2 < M"
    and v: "A (root_of tr') = Some v"
    and Q: "\<And>A'. tree_in A' (plug c (Nd p (ks1 @ k # ks2) (ts1 @ tl' # tr' # ts2))) \<Longrightarrow>
      framed A (pending_ptrs (Fr p ks1 ts1 ks2 ts2 # c) tl' tr') A'
        (set (ptrs (plug c (Nd p (ks1 @ k # ks2) (ts1 @ tl' # tr' # ts2))))) \<Longrightarrow> Q () A'"
  shows "runs (insert_edge p (length ts1) True k (root_of tr'))
     (A(root_of tr' \<mapsto> vset_par (Some (p, length ts1 + 1)) v)) Q"
proof -
  let ?l = "root_of tl'" and ?r = "root_of tr'" and ?n = "length ts1"
  from P obtain ppar where
    A: "A p = Some (VInt ppar (ks1 @ ks2) (map root_of ts1 @ ?l # map root_of ts2))"
    and path: "path_rep A c p ppar"
    and reps: "reps A p 0 ts1" "reps A p (Suc ?n) ts2" "rep A (Some (p, ?n)) tl'" "rep A None tr'"
    by (auto simp: pending_def)
  define P1 P2 C L R where sets: "P1 = ptrss ts1" "P2 = ptrss ts2" "C = set (path_ptrs c)"
    "L = set (ptrs tl')" "R = set (ptrs tr')"
  have d: "p \<notin> P1" "p \<notin> P2" "p \<notin> C" "p \<notin> L" "p \<notin> R"
      "distinct (concat (map ptrs ts1))" "distinct (concat (map ptrs ts2))" "distinct (path_ptrs c)"
      "distinct (ptrs tl')" "distinct (ptrs tr')"
      "C \<inter> (P1 \<union> P2) = {}" "C \<inter> (L \<union> R) = {}" "(P1 \<union> P2) \<inter> (L \<union> R) = {}" "P1 \<inter> P2 = {}" "L \<inter> R = {}"
    using P by (auto simp: pending_def sets)
  have roots: "?l \<in> L" "?r \<in> R" "set (map root_of ts2) \<subseteq> P2" "set (map root_of ts1) \<subseteq> P1"
    using roots_in_ptrss by (auto simp: sets)
  have out: "q \<noteq> p \<and> q \<noteq> ?r \<and> q \<notin> set (map root_of ts2)" if "q \<in> P1 \<union> L \<union> C" for q
    using that d(1,3,4,11-15) roots(2,3) by blast
  have vr: "\<not> raw v" using rep_root[OF reps(4)] v by auto
  let ?A1 = "A(?r \<mapsto> vset_par (Some (p, ?n + 1)) v)"
  let ?R = "repar (shift_idx Suc) (map root_of ts2)"
  let ?A' = "(?R ?A1)(p \<mapsto> VInt ppar (ks1 @ k # ks2) (map root_of ts1 @ ?l # ?r # map root_of ts2))"
  have same: "?A' q = A q" if "q \<noteq> p" "q \<noteq> ?r" "q \<notin> set (map root_of ts2)" for q
    using that by simp
  have same': "?A' q = A q" if "q \<in> P1 \<union> L \<union> C" for q
    using out[OF that] by (intro same) blast+
  have par: "parsim A ?A' q" if "q \<noteq> p" for q
  proof -
    have "parsim A ?A1 q" by (rule parsim_upd_vset[where B = A, OF parsim_refl v])
    then have "parsim A (?R ?A1) q" by (rule parsim_trans[OF _ parsim_repar])
    then show ?thesis by (subst parsim_upd_other) (use that in blast)+
  qed
  have "reps ?A' p 0 ts1"
    by (rule reps_cong[OF reps(1)], rule same') (simp add: sets)
  moreover have "rep ?A' (Some (p, ?n)) tl'"
    by (rule rep_cong[OF reps(3)], rule same') (simp add: sets)
  moreover have "rep ?A' (Some (p, Suc ?n)) tr'"
  proof (rule rep_parsim[OF reps(4) d(10)])
    show "is_child ?A' ?r p (Suc ?n)"
    proof (subst is_child_upd)
      show "?r \<noteq> p" using d(5) roots(2) by blast
      have "?r \<notin> set (map root_of ts2)" using d(13) roots(2,3) by blast
      then show "is_child (?R ?A1) ?r p (Suc ?n)" using vr by (simp add: is_child_def)
    qed
    show "parsim A ?A' ?r" by (rule par) (use d(5) roots(2) in blast)
    fix q assume q: "q \<in> set (ptrs tr')" "q \<noteq> ?r"
    then have "q \<in> R" by (simp add: sets)
    with q(2) show "?A' q = A q" by (intro same) (use d(5,13) roots(3) in blast)+
  qed
  moreover have "reps ?A' p (Suc (Suc ?n)) ts2"
  proof (rule reps_repar[OF reps(2) d(7), where f = Suc])
    fix q assume q: "q \<in> ptrss ts2"
    then have "q \<in> P2" by (simp add: sets)
    then have "q \<noteq> p" "q \<noteq> ?r" using d(2,13) roots(2) by blast+
    then show "?A' q = ?R A q" by (simp add: repar_def)
  qed simp
  moreover have "path_rep ?A' c p ppar"
    by (rule path_rep_cong[OF path], rule same') (simp add: sets)
  moreover have "linked ?A' None (left_leaves (Fr p ks1 ts1 ks2 ts2 # c) @ leaves tl' @ leaves tr' @
      right_leaves (Fr p ks1 ts1 ks2 ts2 # c)) None"
  proof -
    have "links ?A' q = links A q" for q
      using links_parsim[OF par, of q] links_int[of A p, OF A] by (cases "q = p") (simp_all add: links_def)
    then show ?thesis using P unfolding pending_def by (subst linked_all) auto
  qed
  moreover have "distinct (ptrs (plug c (Nd p (ks1 @ k # ks2) (ts1 @ tl' # tr' # ts2))))"
    using P by (auto simp: plug_distinct pending_def)
  ultimately have tree: "tree_in ?A' (plug c (Nd p (ks1 @ k # ks2) (ts1 @ tl' # tr' # ts2)))"
    unfolding tree_in_def plug_rep by (simp add: reps_append plug_leaves)
  have "pending_ptrs (Fr p ks1 ts1 ks2 ts2 # c) tl' tr' =
      set (ptrs (plug c (Nd p (ks1 @ k # ks2) (ts1 @ tl' # tr' # ts2))))"
    by (auto simp: plug_ptrs)
  moreover have "framed A (pending_ptrs (Fr p ks1 ts1 ks2 ts2 # c) tl' tr') ?A'
      (pending_ptrs (Fr p ks1 ts1 ks2 ts2 # c) tl' tr')"
  proof (rule framed_same[OF _ pending_dom[OF P]])
    show "dom ?A' = dom A" using A v by auto
    show "?A' q = A q" if "q \<notin> pending_ptrs (Fr p ks1 ts1 ks2 ts2 # c) tl' tr'" for q
      by (rule same) (use that roots in \<open>auto simp: sets\<close>)
  qed
  ultimately have fin: "Q () ?A'" using Q tree by simp
  show ?thesis
  proof (rule runs_insert_edge[where par = ppar and ks = "ks1 @ ks2" and ai = "?n + 1" and q = p
        and es = "map root_of ts1 @ ?l # map root_of ts2"])
    show "?A1 p = Some (VInt ppar (ks1 @ ks2) (map root_of ts1 @ ?l # map root_of ts2))"
      using A d(5) roots(2) by auto
    show "is_child ?A1 ?r p (?n + 1)" using vr by (simp add: is_child_def)
    show "?r \<noteq> p" using d(5) roots(2) by blast
    have "set (map root_of ts1) \<inter> set (map root_of ts2) = {}"
      "?l \<notin> set (map root_of ts1)" "?l \<notin> set (map root_of ts2)" "p \<notin> set (map root_of ts1)"
      "p \<notin> set (map root_of ts2)" "p \<noteq> ?l"
      using d(1,2,4,13,14) roots by blast+
    then show "distinct (map root_of ts1 @ ?l # map root_of ts2)"
      "p \<notin> set (map root_of ts1 @ ?l # map root_of ts2)"
      using roots_distinct[OF d(6)] roots_distinct[OF d(7)] by (simp_all del: set_map)
    fix q assume "q \<in> set (drop (?n + 1) (map root_of ts1 @ ?l # map root_of ts2))"
    then obtain j where j: "j < length ts2" "q = root_of (ts2 ! j)" by (auto simp: in_set_conv_nth)
    then have "q \<in> set (map root_of ts2)" by simp
    then have "q \<in> P2" using roots(3) by blast
    then have "q \<noteq> ?r" using d(13) roots(2) by blast
    then have "is_child ?A1 q p (Suc ?n + j)" using reps_is_child[OF reps(2) j(1)] j(2) by simp
    then show "\<exists>p' i. is_child ?A1 q p' i \<and> i \<le> M"
      using j(1) len by (intro exI[of _ p] exI[of _ "Suc ?n + j"]) simp
  next
    show "Q () ((repar (shift_idx Suc) (drop (?n + 1) (map root_of ts1 @ ?l # map root_of ts2)) ?A1)
        (p \<mapsto> VInt ppar (ins_at ?n k (ks1 @ ks2)) (ins_at (?n + 1) ?r (map root_of ts1 @ ?l # map root_of ts2))))"
      using fin len(1) by (simp add: ins_at_def)
  qed (use len in simp_all)
qed


end
