(* ===== verification/InsertUp.thy ===== *)
theory InsertUp
  imports InsertSpec
begin

text \<open>
  Insertion, continued: the split of a full parent, the loop up the tree, the split of a leaf, and
  the operations of the map that insert.
\<close>

lemma parsim_dom: "parsim A B q \<Longrightarrow> q \<in> dom B \<longleftrightarrow> q \<in> dom A"
  by (cases "A q") (auto simp: parsim_def)

text \<open>In a full parent: the parent splits, and the split is pending one level up.\<close>

lemma runs_insert_full_parent:
  fixes A :: "('k, 'v) vheap" and k :: 'k
  assumes pick: "slab pick" and P: "pending A (Fr p ks1 ts1 ks2 ts2 # c) tl' tr'"
    and len: "length ts1 = length ks1" "length ts2 = length ks2" "length ks1 + length ks2 = M"
    and v: "A (root_of tr') = Some v"
  defines "KS \<equiv> ks1 @ k # ks2" and "TS \<equiv> ts1 @ tl' # tr' # ts2"
  assumes Q: "\<And>r A'. pending A' c (Nd p (take 4 KS) (take 5 TS)) (Nd r (drop 5 KS) (drop 5 TS)) \<Longrightarrow>
      framed A (pending_ptrs (Fr p ks1 ts1 ks2 ts2 # c) tl' tr') A'
        (pending_ptrs c (Nd p (take 4 KS) (take 5 TS)) (Nd r (drop 5 KS) (drop 5 TS))) \<Longrightarrow>
      runs (f (KS ! 4) r) A' Q"
  shows "runs (bindP (split_internal p (length ts1) k (root_of tr')) (\<lambda>(k', rn).
      bindP (alloc pick rn) (\<lambda>r.
      bindP (get_at r node_edges) (\<lambda>es.
      bindP (for_each es (\<lambda>c. upd_at c (set_parent_ptr r))) (\<lambda>_. f k' r)))))
     (A(root_of tr' \<mapsto> vset_par (Some (p, length ts1 + 1)) v)) Q"
proof -
  let ?l = "root_of tl'" and ?r = "root_of tr'" and ?n = "length ts1"
  define ES where "ES = map root_of TS"
  from P obtain ppar where
    A: "A p = Some (VInt ppar (ks1 @ ks2) (map root_of ts1 @ ?l # map root_of ts2))"
    and path: "path_rep A c p ppar"
    and reps: "reps A p 0 ts1" "reps A p (Suc ?n) ts2" "rep A (Some (p, ?n)) tl'" "rep A None tr'"
    by (auto simp: pending_def)
  have M8: "M = 8" by (simp add: M_def)
  have l: "length KS = 9" "length TS = 10" "length ES = 10" "?n \<le> 8"
    using len M8 by (simp_all add: KS_def TS_def ES_def)
  define U C where sets: "U = ptrss TS" "C = set (path_ptrs c)"
  have d: "p \<notin> U" "p \<notin> C" "C \<inter> U = {}" "distinct (concat (map ptrs TS))" "distinct (path_ptrs c)"
    using P by (auto simp: pending_def sets TS_def)
  have all: "all_rep A TS" using reps_all_rep[OF reps(1)] reps_all_rep[OF reps(2)] reps(3,4)
    by (auto simp: TS_def)
  have ES: "distinct ES" "set ES \<subseteq> U" "p \<notin> set ES"
    using roots_distinct[OF d(4)] roots_in_ptrss[of TS] d(1) by (auto simp: ES_def sets)
  have dom: "U \<subseteq> dom A" "C \<subseteq> dom A" "p \<in> dom A"
    using pending_dom[OF P] by (auto simp: sets TS_def)
  have vr: "\<not> raw v" using rep_root[OF reps(4)] v by auto
  let ?A1 = "A(?r \<mapsto> vset_par (Some (p, ?n + 1)) v)"
  have r: "?r \<in> set ES" "?r \<noteq> p" using ES(3) by (auto simp: ES_def TS_def)
  have ES_ins: "ins_at (?n + 1) ?r (map root_of ts1 @ ?l # map root_of ts2) = ES"
    by (simp add: ES_def TS_def ins_at_def)
  have KS_ins: "ins_at ?n k (ks1 @ ks2) = KS" using len by (simp add: KS_def ins_at_def)
  have ch: "is_child ?A1 ((map root_of ts1 @ ?l # map root_of ts2) ! j) p j"
    if j: "j < length (map root_of ts1 @ ?l # map root_of ts2)" for j
  proof -
    let ?ns = "map root_of ts1 @ ?l # map root_of ts2"
    have "reps A p 0 (ts1 @ tl' # ts2)" using reps(1-3) by (simp add: reps_append)
    from reps_is_child[OF this, of j] j have "is_child A (?ns ! j) p j"
      by (auto simp: nth_append nth_Cons' split: if_splits)
    moreover have "?r \<notin> set ?ns" using ES(1) by (auto simp: ES_def TS_def)
    then have "?ns ! j \<noteq> ?r" using j by (metis nth_mem)
    ultimately show ?thesis by simp
  qed
  show ?thesis
  proof (rule runs_bind, rule runs_split_internal[where par = ppar and ks = "ks1 @ ks2" and
        es = "map root_of ts1 @ ?l # map root_of ts2" and self = p and idx = ?n and k = k and e = ?r])
    show "?A1 p = Some (VInt ppar (ks1 @ ks2) (map root_of ts1 @ ?l # map root_of ts2))" using A r(2) by simp
    show "is_child ?A1 ?r p (?n + 1)" using vr by (simp add: is_child_def)
    fix rn :: "('k, 'v) node" and B
    assume "node_view rn (VInt None (drop 5 (ins_at ?n k (ks1 @ ks2)))
          (drop 5 (ins_at (?n + 1) ?r (map root_of ts1 @ ?l # map root_of ts2))))"
      and "B p = Some (VInt ppar (take 4 (ins_at ?n k (ks1 @ ks2)))
          (take 5 (ins_at (?n + 1) ?r (map root_of ts1 @ ?l # map root_of ts2))))"
      and "\<And>j. j < 5 \<Longrightarrow> is_child B (ins_at (?n + 1) ?r (map root_of ts1 @ ?l # map root_of ts2) ! j) p j"
      and "\<And>j. j < 5 \<Longrightarrow> is_child B (ins_at (?n + 1) ?r (map root_of ts1 @ ?l # map root_of ts2) ! (5 + j)) p j"
      and "same_but_pars (set (ins_at (?n + 1) ?r (map root_of ts1 @ ?l # map root_of ts2))) ?A1 (B(p := ?A1 p))"
    then have rn: "node_view rn (VInt None (drop 5 KS) (drop 5 ES))"
      and Bp: "B p = Some (VInt ppar (take 4 KS) (take 5 ES))"
      and Bl: "\<And>j. j < 5 \<Longrightarrow> is_child B (ES ! j) p j" and Br: "\<And>j. j < 5 \<Longrightarrow> is_child B (ES ! (5 + j)) p j"
      and same: "same_but_pars (set ES) ?A1 (B(p := ?A1 p))"
      unfolding ES_ins KS_ins by auto
    have B_other: "B q = A q" if "q \<notin> set ES" "q \<noteq> p" for q
      using same that r(1) unfolding same_but_pars_def by (metis fun_upd_other)
    have B_par: "parsim A B q" if "q \<noteq> p" for q
    proof -
      have "parsim A ?A1 q" by (rule parsim_upd_vset[where B = A, OF parsim_refl v])
      then have "parsim A (B(p := ?A1 p)) q" by (rule parsim_trans[OF _ parsim_same_but_pars[OF same]])
      then show ?thesis using that by simp
    qed
    have domB: "dom B = dom A"
    proof (rule set_eqI)
      fix q show "q \<in> dom B \<longleftrightarrow> q \<in> dom A"
        using parsim_dom[OF B_par, of q] Bp dom(3) by (cases "q = p") auto
    qed
    show "runs (case (ins_at ?n k (ks1 @ ks2) ! 4, rn) of (k', rn) \<Rightarrow>
      bindP (alloc pick rn) (\<lambda>r.
      bindP (get_at r node_edges) (\<lambda>es.
      bindP (for_each es (\<lambda>c. upd_at c (set_parent_ptr r))) (\<lambda>_. f k' r)))) B Q"
      unfolding prod.case KS_ins
    proof (rule runs_bind, rule runs_alloc[OF pick rn])
      fix q assume "q \<notin> dom B"
      then have q: "q \<notin> dom A" using domB by simp
      then have q': "q \<notin> U" "q \<notin> C" "q \<noteq> p" "q \<notin> set ES" using dom ES(2) by auto
      let ?V = "VInt None (drop 5 KS) (drop 5 ES)"
      let ?A' = "repar (new_parent q) (drop 5 ES) (B(q \<mapsto> ?V))"
      have drop_nth: "drop 5 ES ! j = ES ! (5 + j)" if "j < 5" for j using that l by simp
      have ch5: "\<exists>p' i. is_child (B(q \<mapsto> ?V)) e p' i" if "e \<in> set (drop 5 ES)" for e
      proof -
        from that obtain j where j: "j < 5" "e = ES ! (5 + j)" using l by (auto simp: in_set_conv_nth)
        have "e \<noteq> q" using that q'(4) in_set_dropD[OF that] by auto
        with Br[OF j(1)] j(2) show ?thesis by auto
      qed
      have fin: "runs (f (KS ! 4) q) ?A' Q"
      proof (rule Q)
        have par: "parsim A ?A' x" if "x \<noteq> p" "x \<noteq> q" for x
        proof -
          have "parsim A (B(q \<mapsto> ?V)) x" using B_par[OF that(1)] that(2) by simp
          then show ?thesis by (rule parsim_trans[OF _ parsim_repar])
        qed
        have other: "?A' x = A x" if "x \<notin> set ES" "x \<noteq> p" "x \<noteq> q" for x
          using B_other[OF that(1,2)] that in_set_dropD[of x 5 ES] by (simp add: repar_def) blast
        have A'pq: "?A' p = B p" "?A' q = Some ?V"
          using q'(3,4) ES(3) in_set_dropD[of _ 5 ES] by (auto simp: repar_def)
        have left: "is_child ?A' (ES ! j) p j" if "j < 5" for j
        proof -
          have "ES ! j \<notin> set (drop 5 ES)" using that ES(1) l by (auto simp: in_set_conv_nth nth_eq_iff_index_eq)
          moreover have "ES ! j \<noteq> q" using q'(4) nth_mem[of j ES] that l by auto
          ultimately show ?thesis using Bl[OF that] by simp
        qed
        have right: "is_child ?A' (ES ! (5 + j)) q j" if "j < 5" for j
        proof (rule is_child_repar(2))
          show "ES ! (5 + j) \<in> set (drop 5 ES)" using that l drop_nth[OF that] nth_mem[of j "drop 5 ES"] by simp
          have "ES ! (5 + j) \<noteq> q" using q'(4) nth_mem[of "5 + j" ES] that l by auto
          with Br[OF that] show "is_child (B(q \<mapsto> ?V)) (ES ! (5 + j)) p j" by simp
        qed
        have inner: "?A' x = A x" if us: "set us \<subseteq> set TS" and x: "x \<in> ptrss us" "x \<notin> root_of ` set us" for us x
        proof -
          from x obtain t where t: "t \<in> set us" "x \<in> set (ptrs t)" "x \<noteq> root_of t" by auto
          have "x \<notin> root_of ` set TS" by (rule root_not_inside[OF d(4) _ t(2,3)]) (use t(1) us in blast)
          moreover have "x \<in> U" using t(1,2) us by (auto simp: sets)
          ultimately show ?thesis using d(1) q'(1) by (intro other) (auto simp: ES_def)
        qed
        have cut: "concat (map ptrs TS) = concat (map ptrs (take 5 TS)) @ concat (map ptrs (drop 5 TS))"
          by (metis append_take_drop_id concat_append map_append)
        have dd: "distinct (concat (map ptrs (take 5 TS)))" "distinct (concat (map ptrs (drop 5 TS)))"
            "ptrss (take 5 TS) \<inter> ptrss (drop 5 TS) = {}"
          using d(4) unfolding cut by auto
        have U: "U = ptrss (take 5 TS) \<union> ptrss (drop 5 TS)"
          using arg_cong[OF cut, of set] by (simp add: sets)
        have sub: "set (take 5 TS) \<subseteq> set TS" "set (drop 5 TS) \<subseteq> set TS"
          by (rule set_take_subset, rule set_drop_subset)
        have repl: "reps ?A' p 0 (take 5 TS)"
        proof (rule reps_children[of "take 5 TS" A])
          show "all_rep A (take 5 TS)" using all sub(1) by blast
          show "is_child ?A' (root_of (take 5 TS ! j)) p (0 + j)" if "j < length (take 5 TS)" for j
            using that left[of j] l by (simp add: ES_def)
          show "parsim A ?A' x" if "x \<in> root_of ` set (take 5 TS)" for x
            using that sub(1) ES(3) q'(4) by (intro par) (auto simp: ES_def)
        qed (use dd(1) inner[OF sub(1)] in auto)
        have repr: "reps ?A' q 0 (drop 5 TS)"
        proof (rule reps_children[of "drop 5 TS" A])
          show "all_rep A (drop 5 TS)" using all sub(2) by blast
          show "is_child ?A' (root_of (drop 5 TS ! j)) q (0 + j)" if "j < length (drop 5 TS)" for j
            using that right[of j] l by (simp add: ES_def)
          show "parsim A ?A' x" if "x \<in> root_of ` set (drop 5 TS)" for x
            using that sub(2) ES(3) q'(4) by (intro par) (auto simp: ES_def)
        qed (use dd(2) inner[OF sub(2)] in auto)
        have "path_rep ?A' c p ppar"
        proof (rule path_rep_cong[OF path], rule other)
          fix x assume "x \<in> set (path_ptrs c)"
          then have "x \<in> C" by (simp add: sets)
          then show "x \<notin> set ES" "x \<noteq> p" "x \<noteq> q" using d(2,3) q'(2) ES(2) by blast+
        qed
        moreover have "rep ?A' ppar (Nd p (take 4 KS) (take 5 TS))" "rep ?A' None (Nd q (drop 5 KS) (drop 5 TS))"
          using repl repr A'pq Bp by (simp_all add: ES_def take_map drop_map)
        moreover have "distinct (path_ptrs c @ ptrs (Nd p (take 4 KS) (take 5 TS)) @ ptrs (Nd q (drop 5 KS) (drop 5 TS)))"
          using dd d(1,2,3,5) q'(1-3) unfolding U by (auto simp: sets(2))
        moreover have "linked ?A' None (left_leaves c @ leaves (Nd p (take 4 KS) (take 5 TS)) @
            leaves (Nd q (drop 5 KS) (drop 5 TS)) @ right_leaves c) None"
        proof -
          have "links ?A' x = links A x" for x
          proof (cases "x = p \<or> x = q")
            case True
            then show ?thesis using A'pq Bp A q by (auto simp: links_def domIff)
          next
            case False
            then show ?thesis by (intro links_parsim par) auto
          qed
          then have all_eq: "linked ?A' None ls None = linked A None ls None" for ls by (rule linked_all)
          have leaves_eq: "leaves (Nd p (take 4 KS) (take 5 TS)) @ leaves (Nd q (drop 5 KS) (drop 5 TS)) @ rest =
              concat (map leaves ts1) @ leaves tl' @ leaves tr' @ concat (map leaves ts2) @ rest" for rest
          proof -
            have "concat (map leaves TS) = concat (map leaves (take 5 TS)) @ concat (map leaves (drop 5 TS))"
              by (metis append_take_drop_id concat_append map_append)
            from arg_cong[OF this, of "\<lambda>x. x @ rest"] show ?thesis by (simp add: TS_def)
          qed
          have "linked A None (left_leaves c @ concat (map leaves ts1) @ leaves tl' @ leaves tr' @
              concat (map leaves ts2) @ right_leaves c) None" using P by (simp add: pending_def)
          then show ?thesis by (simp only: all_eq leaves_eq)
        qed
        ultimately show "pending ?A' c (Nd p (take 4 KS) (take 5 TS)) (Nd q (drop 5 KS) (drop 5 TS))"
          unfolding pending_def by auto
        show "framed A (pending_ptrs (Fr p ks1 ts1 ks2 ts2 # c) tl' tr') ?A'
            (pending_ptrs c (Nd p (take 4 KS) (take 5 TS)) (Nd q (drop 5 KS) (drop 5 TS)))"
        proof -
          have S: "pending_ptrs (Fr p ks1 ts1 ks2 ts2 # c) tl' tr' = insert p (C \<union> U)"
            by (auto simp: sets TS_def)
          have S': "pending_ptrs c (Nd p (take 4 KS) (take 5 TS)) (Nd q (drop 5 KS) (drop 5 TS)) =
              insert q (insert p (C \<union> U))"
            by (auto simp: U) (auto simp: sets)
          have "dom ?A' = insert q (dom A)" using domB by auto
          moreover have "?A' x = A x" if "x \<in> dom A - insert p (C \<union> U)" for x
            by (rule other) (use that ES(2) q in auto)
          ultimately show ?thesis unfolding framed_def S S' using dom q by auto
        qed
      qed
      show "runs (bindP (get_at q node_edges) (\<lambda>es.
          bindP (for_each es (\<lambda>c. upd_at c (set_parent_ptr q))) (\<lambda>_. f (KS ! 4) q))) (B(q \<mapsto> ?V)) Q"
        by (rule runs_bind, rule runs_get_at[where v = ?V and r = "drop 5 ES"], simp, erule node_edges_view,
            rule runs_bind, rule runs_for_each_parent[OF distinct_drop[OF ES(1)] ch5], assumption, rule fin)
    qed
  qed (use len M8 l ch ES ES_ins in simp_all)
qed

subsection \<open>The loop\<close>

lemma root_of_plug: "root_of t = root_of u \<Longrightarrow> root_of (plug c t) = root_of (plug c u)"
proof (induction c t arbitrary: u rule: plug.induct)
  case (2 p ks1 ts1 ks2 ts2 c t)
  show ?case using "2.IH"[of "Nd p (ks1 @ ks2) (ts1 @ u # ts2)"] by simp
qed simp

lemma runs_node_parent:
  assumes "rep A par t" "Q par A"
  shows "runs (get_at (root_of t) node_parent) A Q"
proof -
  from rep_root[OF assms(1)] obtain v where "A (root_of t) = Some v" "\<not> raw v" "vpar v = par" by blast
  then show ?thesis using assms(2) by (intro runs_get_at[where v = v and r = par]) auto
qed

lemma flat_split_node:
  fixes k :: 'k and tl' tr' :: "('k, 'v) bt"
  assumes "length ts1 = length ks1" "length ts2 = length ks2" "length ks1 + length ks2 = M"
  defines "KS \<equiv> ks1 @ k # ks2" and "TS \<equiv> ts1 @ tl' # tr' # ts2"
  shows "flat (Nd p (take 4 KS) (take 5 TS)) @ Sep (KS ! 4) # flat (Nd r (drop 5 KS) (drop 5 TS)) =
    sep_after ks1 (map flat ts1) @ flat tl' @ Sep k # flat tr' @ sep_before ks2 (map flat ts2)"
proof -
  have "length (map flat TS) = length KS + 1" "4 < length KS"
    using assms by (simp_all add: KS_def TS_def M_def)
  from weave_cut[OF this] have "weave KS (map flat TS) =
      weave (take 4 KS) (take 5 (map flat TS)) @ Sep (KS ! 4) # weave (drop 5 KS) (drop 5 (map flat TS))"
    by simp
  moreover have "weave KS (map flat TS) =
      sep_after ks1 (map flat ts1) @ flat tl' @ Sep k # flat tr' @ sep_before ks2 (map flat ts2)"
    using weave_insert[of ks1 "map flat ts1" k ks2 "flat tl'" "flat tr'" "map flat ts2"] assms(1)
    by (simp add: KS_def TS_def)
  ultimately show ?thesis by (simp add: take_map drop_map)
qed

lemma runs_insert_up:
  fixes A :: "('k::linorder, 'v) vheap"
  assumes "slab pick" "pending A c tl' tr'" "path_shape h c" "bal h tl'" "bal h tr'"
    "filled (M div 2) tl'" "filled (M div 2) tr'" "path_filled c"
    "ordered (left_items c @ flat tl' @ Sep k # flat tr' @ right_items c)"
    "length c < fuel" "root m = Some (root_of (plug c tl'))" "height m = h + length c"
    "\<And>m' A' t'. tree_in A' t' \<Longrightarrow> tree_ok (height m') t' \<Longrightarrow> root m' = Some (root_of t') \<Longrightarrow>
       mlength m' = mlength m \<Longrightarrow>
       flat t' = left_items c @ flat tl' @ Sep k # flat tr' @ right_items c \<Longrightarrow>
       framed A (pending_ptrs c tl' tr') A' (set (ptrs t')) \<Longrightarrow> Q m' A'"
  shows "runs (insert_up pick fuel m (root_of tl') k (root_of tr')) A Q"
  using assms(2-)
proof (induction c arbitrary: A tl' tr' k h fuel)
  case Nil
  from Nil.prems(9) obtain fuel' where fuel: "fuel = Suc fuel'" by (cases fuel) auto
  have "rep A None tl'" using Nil.prems(1) by (simp add: pending_def)
  then show ?case unfolding fuel insert_up.simps
  proof (rule runs_bind[OF runs_node_parent])
    show "runs (case None of None \<Rightarrow> grow_root pick m (root_of tl') k (root_of tr')
        | Some (p, idx) \<Rightarrow> bindP (liftP (u16_add idx 1)) (\<lambda>idx1.
         bindP (upd_at (root_of tr') (set_parent p idx1)) (\<lambda>_.
         bindP (len_at p) (\<lambda>l.
         if l < M
         then bindP (insert_edge p idx True k (root_of tr')) (\<lambda>_. ret m)
         else bindP (split_internal p idx k (root_of tr')) (\<lambda>(k', rn).
              bindP (alloc pick rn) (\<lambda>r.
              bindP (get_at r node_edges) (\<lambda>es.
              bindP (for_each es (\<lambda>c. upd_at c (set_parent_ptr r))) (\<lambda>_.
              insert_up pick fuel' m p k' r)))))))) A Q"
      unfolding option.case
    proof (rule runs_grow_root[OF assms(1) Nil.prems(1)])
      fix r A' assume r: "tree_in A' (Nd r [k] [tl', tr'])"
        "framed A (pending_ptrs [] tl' tr') A' (set (ptrs (Nd r [k] [tl', tr'])))"
      show "Q (m\<lparr>root := Some r, height := height m + 1\<rparr>) A'"
      proof (rule Nil.prems(12)[OF r(1)])
        have "bal (Suc h) (Nd r [k] [tl', tr'])" using Nil.prems(3,4) by simp
        moreover have "filled 1 (Nd r [k] [tl', tr'])" using Nil.prems(5,6) by (simp add: M_def)
        moreover have "ordered (flat (Nd r [k] [tl', tr']))" using Nil.prems(8) by simp
        ultimately show "tree_ok (height (m\<lparr>root := Some r, height := height m + 1\<rparr>)) (Nd r [k] [tl', tr'])"
          using Nil.prems(11) unfolding tree_ok_def by simp
      qed (use r(2) in simp_all)
    qed
  qed
next
  case (Cons fr c)
  obtain p ks1 ts1 ks2 ts2 where fr: "fr = Fr p ks1 ts1 ks2 ts2" by (cases fr)
  from Cons.prems(9) obtain fuel' where fuel: "fuel = Suc fuel'" "length c < fuel'" by (cases fuel) auto
  have len: "length ts1 = length ks1" "length ts2 = length ks2" "length ks1 + length ks2 \<le> M"
    using Cons.prems(2,7) by (auto simp: fr)
  note P = Cons.prems(1)[unfolded fr]
  have rep: "rep A (Some (p, length ts1)) tl'" using P by (auto simp: pending_def)
  have "rep A None tr'" using P by (auto simp: pending_def)
  from rep_root[OF this] obtain v where v: "A (root_of tr') = Some v" "\<not> raw v" by blast
  from P obtain ppar where A: "A p = Some (VInt ppar (ks1 @ ks2) (map root_of ts1 @ root_of tl' # map root_of ts2))"
    by (auto simp: pending_def)
  have pr: "p \<noteq> root_of tr'" using P root_in_ptrs[of tr'] by (auto simp: pending_def)
  let ?A1 = "A(root_of tr' \<mapsto> vset_par (Some (p, length ts1 + 1)) v)"
  have flat_eq: "left_items c @ flat (Nd p (ks1 @ k # ks2) (ts1 @ tl' # tr' # ts2)) @ right_items c =
      left_items (fr # c) @ flat tl' @ Sep k # flat tr' @ right_items (fr # c)"
    using weave_insert[of ks1 "map flat ts1" k ks2 "flat tl'" "flat tr'" "map flat ts2"] len(1)
    by (simp add: fr)
  have shape: "path_shape (Suc h) c" using Cons.prems(2) by (simp add: fr)
  have h: "height m = Suc h + length c" using Cons.prems(11) by simp
  have room: "Q m A'"
    if "tree_in A' (plug c (Nd p (ks1 @ k # ks2) (ts1 @ tl' # tr' # ts2)))"
      "framed A (pending_ptrs (Fr p ks1 ts1 ks2 ts2 # c) tl' tr') A'
        (set (ptrs (plug c (Nd p (ks1 @ k # ks2) (ts1 @ tl' # tr' # ts2)))))"
      "length (ks1 @ ks2) < M" for A'
  proof (rule Cons.prems(12)[OF that(1)])
    show "tree_ok (height m) (plug c (Nd p (ks1 @ k # ks2) (ts1 @ tl' # tr' # ts2)))"
      unfolding h tree_ok_plug[OF shape] flat_eq
      using Cons.prems(2-8) that(3) len by (auto simp: fr min_fill_def)
    show "root m = Some (root_of (plug c (Nd p (ks1 @ k # ks2) (ts1 @ tl' # tr' # ts2))))"
      using Cons.prems(10) root_of_plug[of "Nd p (ks1 @ ks2) (ts1 @ tl' # ts2)"
          "Nd p (ks1 @ k # ks2) (ts1 @ tl' # tr' # ts2)" c] by (simp add: fr)
    show "flat (plug c (Nd p (ks1 @ k # ks2) (ts1 @ tl' # tr' # ts2))) =
        left_items (fr # c) @ flat tl' @ Sep k # flat tr' @ right_items (fr # c)"
      using flat_eq by (simp add: plug_flat[OF shape])
  qed (use that(2) fr in simp_all)
  let ?KS = "ks1 @ k # ks2" and ?TS = "ts1 @ tl' # tr' # ts2"
  have full: "runs (insert_up pick fuel' m p (?KS ! 4) r) A' Q"
    if P': "pending A' c (Nd p (take 4 ?KS) (take 5 ?TS)) (Nd r (drop 5 ?KS) (drop 5 ?TS))"
      and F: "framed A (pending_ptrs (Fr p ks1 ts1 ks2 ts2 # c) tl' tr') A'
        (pending_ptrs c (Nd p (take 4 ?KS) (take 5 ?TS)) (Nd r (drop 5 ?KS) (drop 5 ?TS)))"
      and M: "length ks1 + length ks2 = M" for r A'
  proof -
    note flat_eq' = flat_split_node[OF len(1,2) M, of p k tl' tr' r]
    have whole: "left_items c @ flat (Nd p (take 4 ?KS) (take 5 ?TS)) @ Sep (?KS ! 4) #
          flat (Nd r (drop 5 ?KS) (drop 5 ?TS)) @ right_items c =
        left_items (fr # c) @ flat tl' @ Sep k # flat tr' @ right_items (fr # c)"
      using arg_cong[OF flat_eq', of "\<lambda>x. left_items c @ x @ right_items c"]
      by (simp only: fr left_items.simps right_items.simps append_assoc append_Cons)
    have lens: "length ?KS = 9" "length ?TS = 10" using len M by (simp_all add: M_def)
    have mem: "bal h u" "filled (M div 2) u" if "u \<in> set ?TS" for u
      using that Cons.prems(2-7) by (auto simp: fr)
    have parts: "\<forall>u\<in>set (take 5 ?TS). bal h u" "\<forall>u\<in>set (drop 5 ?TS). bal h u"
        "\<forall>u\<in>set (take 5 ?TS). filled (M div 2) u" "\<forall>u\<in>set (drop 5 ?TS). filled (M div 2) u"
      using mem in_set_takeD[of _ 5 ?TS] in_set_dropD[of _ 5 ?TS] by blast+
    show ?thesis
    proof (rule Cons.IH[OF P' shape, unfolded root_of.simps])
      show "bal (Suc h) (Nd p (take 4 ?KS) (take 5 ?TS))" "bal (Suc h) (Nd r (drop 5 ?KS) (drop 5 ?TS))"
        unfolding bal.simps nat.case using lens parts by (simp_all only: length_take length_drop) simp_all
      show "filled (M div 2) (Nd p (take 4 ?KS) (take 5 ?TS))" "filled (M div 2) (Nd r (drop 5 ?KS) (drop 5 ?TS))"
        unfolding filled.simps using lens parts by (simp_all only: length_take length_drop M_def) simp_all
      show "path_filled c" using Cons.prems(7) by (simp add: fr)
      show "ordered (left_items c @ flat (Nd p (take 4 ?KS) (take 5 ?TS)) @ Sep (?KS ! 4) #
          flat (Nd r (drop 5 ?KS) (drop 5 ?TS)) @ right_items c)"
        unfolding whole by (rule Cons.prems(8))
      show "root m = Some (root_of (plug c (Nd p (take 4 ?KS) (take 5 ?TS))))"
        using Cons.prems(10) root_of_plug[of "Nd p (ks1 @ ks2) (ts1 @ tl' # ts2)"
          "Nd p (take 4 ?KS) (take 5 ?TS)" c] by (simp add: fr)
      fix m' :: bmap and A'' t'
      assume t': "tree_in A'' t'" "tree_ok (height m') t'" "root m' = Some (root_of t')" "mlength m' = mlength m"
        "flat t' = left_items c @ flat (Nd p (take 4 ?KS) (take 5 ?TS)) @ Sep (?KS ! 4) #
          flat (Nd r (drop 5 ?KS) (drop 5 ?TS)) @ right_items c"
        "framed A' (pending_ptrs c (Nd p (take 4 ?KS) (take 5 ?TS)) (Nd r (drop 5 ?KS) (drop 5 ?TS))) A'' (set (ptrs t'))"
      show "Q m' A''"
      proof (rule Cons.prems(12)[OF t'(1-4)])
        show "flat t' = left_items (fr # c) @ flat tl' @ Sep k # flat tr' @ right_items (fr # c)"
          using t'(5) unfolding whole .
        show "framed A (pending_ptrs (fr # c) tl' tr') A'' (set (ptrs t'))"
          using framed_trans[OF F t'(6)] by (simp add: fr)
      qed
    qed (use fuel h in simp_all)
  qed
  show ?case unfolding fuel(1) insert_up.simps
    apply (rule runs_bind[OF runs_node_parent[OF rep]], unfold option.case prod.case)
    apply (rule runs_bind, rule runs_lift[where a = "length ts1 + 1"])
    using len apply (simp add: M_def)
    apply (rule runs_bind, rule runs_upd_at[where A = A, OF v(1) upd_set_parent[OF v(2)]])
    apply (rule runs_bind, rule runs_len_at[where v = "VInt ppar (ks1 @ ks2) (map root_of ts1 @ root_of tl' # map root_of ts2)"])
    using A pr apply simp
    apply (unfold vlen.simps, rule runs_if)
     apply (rule runs_bind, rule runs_insert_parent[OF P len(1,2) _ v(1)])
      apply simp
     apply (rule runs_ret, erule (1) room, simp)
    apply (rule runs_insert_full_parent[OF assms(1) P len(1,2) _ v(1)])
    using len(3) apply simp
    by (rule full) (use len(3) in simp_all)
qed

end
