(* ===== verification/InsertMap.thy ===== *)
theory InsertMap
  imports InsertUp
begin

text \<open>
  Insertion, concluded: the split of a leaf with the repair of the list of leaves, and the
  operations of the map that insert, with their effect on the contents.
\<close>

subsection \<open>Splitting a leaf\<close>

lemma links_leaf: "links A l = Some (pv, nx) \<longleftrightarrow> (\<exists>par ks vs. A l = Some (VLeaf par ks vs pv nx))"
  by (auto simp: links_def split: option.splits view.splits)

lemma linked_insert_after:
  assumes lk: "linked A None (ll @ p # rl) None" and d: "distinct (ll @ p # rl)" "q \<notin> set (ll @ p # rl)"
    and p: "links A p = Some (pv, nx)"
    and same: "\<And>l. l \<noteq> p \<Longrightarrow> l \<noteq> q \<Longrightarrow> Some l \<noteq> nx \<Longrightarrow> links A' l = links A l"
    and p': "links A' p = Some (pv, Some q)" and q': "links A' q = Some (Some p, nx)"
    and r': "\<And>r rnx. nx = Some r \<Longrightarrow> links A r = Some (Some p, rnx) \<Longrightarrow> links A' r = Some (Some q, rnx)"
  shows "linked A' None (ll @ p # q # rl) None"
proof -
  from lk have l: "linked A None ll (Some p)" "links A p = Some (last_or None ll, hd_or rl None)"
      "linked A (Some p) rl None"
    by (auto simp: linked_append)
  with p have nx: "pv = last_or None ll" "nx = hd_or rl None" by auto
  have ll: "links A' x = links A x" if "x \<in> set ll" for x
    using that d nx(2) by (intro same) (cases rl; auto)+
  have "linked A' None ll (Some p)" using l(1) ll linked_cong[of ll A' A] by blast
  moreover have "linked A' (Some q) rl None"
  proof (cases rl)
    case (Cons r rl')
    with l(3) nx(2) have r: "nx = Some r" "links A r = Some (Some p, hd_or rl' None)" "linked A (Some r) rl' None"
      by auto
    have "links A' x = links A x" if "x \<in> set rl'" for x
      using that d Cons r(1) by (intro same) auto
    then have "linked A' (Some r) rl' None" using r(3) linked_cong[of rl' A' A] by blast
    with r'[OF r(1,2)] Cons show ?thesis by simp
  qed simp
  ultimately show ?thesis using p' q' nx by (simp add: linked_append)
qed

lemma split_leaf_node_upd:
  assumes "length ks = M" "i \<le> length ks" "node_view n (VLeaf par ks vs pv nx)"
  obtains right n' where "split_leaf i k v n = Inr ((ins_at i k ks ! 4, right), n')"
    "node_view n' (VLeaf par (take 4 (ins_at i k ks)) (take 4 (ins_at i v vs)) pv nx)"
    "node_view right (VLeaf None (drop 4 (ins_at i k ks)) (drop 4 (ins_at i v vs)) None nx)"
  using split_leaf_view[OF assms(3,1,2), of k v] by (auto simp: M_def)

lemma runs_upd_ret_any:
  assumes "A p = Some v" "\<And>n. node_view n v \<Longrightarrow> \<exists>a n'. f n = Inr (a, n') \<and> node_view n' v' \<and> Q a (A(p \<mapsto> v'))"
  shows "runs (upd_ret_at p f) A Q"
  unfolding upd_ret_at_def
proof (intro runs_bind runs_deref[where A = A, OF assms(1)])
  fix n assume "node_view n v"
  then obtain a n' where "f n = Inr (a, n')" "node_view n' v'" "Q a (A(p \<mapsto> v'))" using assms(2) by blast
  then show "runs (liftP (f n)) A (\<lambda>a A'. runs (case a of (a, n') \<Rightarrow> bindP (assign p n') (\<lambda>_. ret a)) A' Q)"
    using assms(1) by (intro runs_lift) (auto intro!: runs_bind runs_assign runs_ret)
qed

lemma runs_insert_split:
  fixes A :: "('k, 'v) vheap" and k :: 'k and v :: 'v
  assumes pick: "slab pick" and t: "tree_in A (plug c (Lf p ks vs))"
    and len: "length ks = M" "length vs = length ks" "i \<le> length ks"
  defines "KS \<equiv> ins_at i k ks" and "VS \<equiv> ins_at i v vs"
  assumes Q: "\<And>q A'. pending A' c (Lf p (take 4 KS) (take 4 VS)) (Lf q (drop 4 KS) (drop 4 VS)) \<Longrightarrow>
      framed A (set (ptrs (plug c (Lf p ks vs)))) A'
        (pending_ptrs c (Lf p (take 4 KS) (take 4 VS)) (Lf q (drop 4 KS) (drop 4 VS))) \<Longrightarrow>
      Q (KS ! 4, q) A'"
  shows "runs (insert_split pick k v p i) A Q"
proof -
  from t obtain par pv nx where p: "A p = Some (VLeaf par ks vs pv nx)" and path: "path_rep A c p par"
    by (rule tree_in_leaf)
  have d: "distinct (path_ptrs c)" "p \<notin> set (path_ptrs c)" "p \<in> dom A"
    using t p by (auto simp: tree_in_def plug_distinct)
  have lk: "linked A None (left_leaves c @ p # right_leaves c) None"
      "distinct (left_leaves c @ p # right_leaves c)"
    using t distinct_leaves[of "plug c (Lf p ks vs)"] by (auto simp: tree_in_def plug_leaves)
  have sub: "set (left_leaves c @ p # right_leaves c) \<subseteq> insert p (set (path_ptrs c))"
    using leaves_in_ptrs[of "plug c (Lf p ks vs)"] by (simp add: plug_leaves plug_ptrs)
  have cdom: "set (path_ptrs c) \<subseteq> dom A" by (rule path_rep_dom[OF path])
  have nx: "nx = hd_or (right_leaves c) None" using lk(1) p by (auto simp: linked_append links_def)
  let ?L = "VLeaf par (take 4 KS) (take 4 VS) pv nx" and ?R = "VLeaf None (drop 4 KS) (drop 4 VS) None nx"
  have final: "Q (KS ! 4, q) A'"
    if q: "q \<notin> dom A" and A'p: "A' p = Some (VLeaf par (take 4 KS) (take 4 VS) pv (Some q))"
      and A'q: "A' q = Some (VLeaf None (drop 4 KS) (drop 4 VS) (Some p) nx)"
      and A'r: "\<And>r. nx = Some r \<Longrightarrow> \<exists>rpar rks rvs rpv rnx. A r = Some (VLeaf rpar rks rvs rpv rnx) \<and>
          A' r = Some (VLeaf rpar rks rvs (Some q) rnx)"
      and A'x: "\<And>x. x \<noteq> p \<Longrightarrow> x \<noteq> q \<Longrightarrow> Some x \<noteq> nx \<Longrightarrow> A' x = A x" for q A'
  proof (rule Q)
    have qc: "q \<notin> set (path_ptrs c)" "q \<noteq> p" using q cdom d(3) by auto
    have strip: "map_option strip (A' x) = map_option strip (A x)" if "x \<noteq> p" "x \<noteq> q" for x
      using A'x[OF that] A'r[of x] by (cases "Some x = nx") auto
    have "path_rep A' c p par"
      by (rule path_rep_strip[OF path], rule strip) (use d(2) qc in auto)
    moreover have "linked A' None (left_leaves c @ p # q # right_leaves c) None"
    proof (rule linked_insert_after[OF lk])
      show "links A p = Some (pv, nx)" "links A' p = Some (pv, Some q)" "links A' q = Some (Some p, nx)"
        using p A'p A'q by (auto simp: links_def)
      show "q \<notin> set (left_leaves c @ p # right_leaves c)" using sub qc by blast
      show "links A' l = links A l" if "l \<noteq> p" "l \<noteq> q" "Some l \<noteq> nx" for l
        using A'x[OF that] by (simp add: links_def)
      show "links A' r = Some (Some q, rnx)" if "nx = Some r" "links A r = Some (Some p, rnx)" for r rnx
        using A'r[OF that(1)] that(2) by (auto simp: links_def)
    qed
    ultimately show "pending A' c (Lf p (take 4 KS) (take 4 VS)) (Lf q (drop 4 KS) (drop 4 VS))"
      using A'p A'q d qc by (auto simp: pending_def)
    have rin: "r \<in> set (path_ptrs c)" if "nx = Some r" for r
    proof -
      have "r \<in> set (right_leaves c)" using that nx by (cases "right_leaves c") auto
      then show ?thesis using sub lk(2) by auto
    qed
    have "dom A' = insert q (dom A)"
    proof (rule set_eqI)
      fix x
      consider "x = p \<or> x = q" | "nx = Some x" | "x \<noteq> p" "x \<noteq> q" "Some x \<noteq> nx" by auto
      then show "x \<in> dom A' \<longleftrightarrow> x \<in> insert q (dom A)"
      proof cases
        case 3
        then show ?thesis using A'x[OF 3] by (simp add: domIff)
      qed (use A'p A'q A'r[of x] d(3) in auto)
    qed
    moreover have "A' x = A x" if "x \<in> dom A - set (ptrs (plug c (Lf p ks vs)))" for x
      by (rule A'x) (use that rin q in \<open>auto simp: plug_ptrs\<close>)
    ultimately show "framed A (set (ptrs (plug c (Lf p ks vs)))) A'
        (pending_ptrs c (Lf p (take 4 KS) (take 4 VS)) (Lf q (drop 4 KS) (drop 4 VS)))"
      using cdom d(3) q by (auto simp: framed_def plug_ptrs)
  qed
  have rest: "runs (bindP (alloc pick rn) (\<lambda>right.
     bindP (upd_at p (set_next (Some right))) (\<lambda>_.
     bindP (upd_at right (set_prev (Some p))) (\<lambda>_.
     bindP (get_at right node_next) (\<lambda>nx.
     bindP (case nx of None \<Rightarrow> ret () | Some rnx \<Rightarrow> upd_at rnx (set_prev (Some right))) (\<lambda>_.
     ret (KS ! 4, right))))))) (A(p \<mapsto> ?L)) Q" if rn: "node_view rn ?R" for rn
  proof (rule runs_bind, rule runs_alloc[OF pick rn])
    fix q assume "q \<notin> dom (A(p \<mapsto> ?L))"
    then have q: "q \<notin> dom A" "q \<noteq> p" by auto
    let ?A1 = "A(p \<mapsto> VLeaf par (take 4 KS) (take 4 VS) pv (Some q),
                 q \<mapsto> VLeaf None (drop 4 KS) (drop 4 VS) (Some p) nx)"
    have link: "runs (case nx of None \<Rightarrow> ret () | Some rnx \<Rightarrow> upd_at rnx (set_prev (Some q))) ?A1
        (\<lambda>_ B. runs (ret (KS ! 4, q)) B Q)"
    proof (cases nx)
      case None
      with q show ?thesis by (auto intro!: runs_ret final)
    next
      case (Some r)
      have "r \<in> set (right_leaves c)" using Some nx by (cases "right_leaves c") auto
      then have rp: "r \<noteq> p" "r \<in> set (path_ptrs c)" using lk(2) sub by auto
      then have rq: "r \<noteq> q" using q cdom by auto
      from lk(1) Some nx obtain rl' where "right_leaves c = r # rl'" by (cases "right_leaves c") auto
      with lk(1) have "links A r = Some (Some p, hd_or rl' None)" by (simp add: linked_append)
      then obtain rpar rks rvs where r: "A r = Some (VLeaf rpar rks rvs (Some p) (hd_or rl' None))"
        by (auto simp: links_leaf)
      show ?thesis unfolding Some option.case
        apply (rule runs_upd_at[where v = "VLeaf rpar rks rvs (Some p) (hd_or rl' None)", OF _ upd_set_prev])
        using r rp rq apply simp
        apply (rule runs_ret, rule final[OF q(1)])
        using r rp rq q Some by auto
    qed
    show "runs (bindP (upd_at p (set_next (Some q))) (\<lambda>_.
     bindP (upd_at q (set_prev (Some p))) (\<lambda>_.
     bindP (get_at q node_next) (\<lambda>nx.
     bindP (case nx of None \<Rightarrow> ret () | Some rnx \<Rightarrow> upd_at rnx (set_prev (Some q))) (\<lambda>_.
     ret (KS ! 4, q)))))) (A(p \<mapsto> ?L, q \<mapsto> ?R)) Q"
      apply (rule runs_bind, rule runs_upd_at[where v = ?L, OF _ upd_set_next])
      using q apply simp
      apply (rule runs_bind, rule runs_upd_at[where v = ?R, OF _ upd_set_prev])
      using q apply simp
      apply (rule runs_bind, rule runs_get_at[where r = nx, OF _ node_next_view])
      apply simp apply assumption
      apply (rule runs_bind)
      using link q by (simp add: fun_upd_twist)
  qed
  show ?thesis
    unfolding insert_split_def
  proof (rule runs_bind, rule runs_upd_ret_any[where A = A and v' = ?L, OF p])
    fix n :: "('k, 'v) node" assume "node_view n (VLeaf par ks vs pv nx)"
    from split_leaf_node_upd[OF len(1,3) this, of k v] obtain right n' where
      s: "split_leaf i k v n = Inr ((KS ! 4, right), n')" "node_view n' ?L" "node_view right ?R"
      unfolding KS_def VS_def by blast
    from rest[OF s(3)] s(1,2) show "\<exists>a n'. split_leaf i k v n = Inr (a, n') \<and> node_view n' ?L \<and>
        runs (case a of (k', rn) \<Rightarrow> bindP (alloc pick rn) (\<lambda>right.
     bindP (upd_at p (set_next (Some right))) (\<lambda>_.
     bindP (upd_at right (set_prev (Some p))) (\<lambda>_.
     bindP (get_at right node_next) (\<lambda>nx.
     bindP (case nx of None \<Rightarrow> ret () | Some rnx \<Rightarrow> upd_at rnx (set_prev (Some right))) (\<lambda>_.
     ret (k', right))))))) (A(p \<mapsto> ?L)) Q"
      by auto
  qed
qed

subsection \<open>The contents after an insertion\<close>

lemma leaf_insert_entries:
  assumes "path_shape 0 c" "length vs = length ks" "i \<le> length ks"
    "items_below k (left_items c @ map2 Ent (take i ks) (take i vs))"
    "items_above k (map2 Ent (drop i ks) (drop i vs) @ right_items c)"
  shows "ents (left_items c @ map2 Ent (ins_at i k ks) (ins_at i v vs) @ right_items c) =
    kv_insert k v (entries (plug c (Lf p ks vs)))"
proof -
  note e = entries_before[OF assms(1,2,4,5)]
  have "ents (map2 Ent (take i ks) (take i vs)) = zip (take i ks) (take i vs)"
    "ents (map2 Ent (drop i ks) (drop i vs)) = zip (drop i ks) (drop i vs)"
    using assms(2) by simp_all
  then have "ents (left_items c @ map2 Ent (ins_at i k ks) (ins_at i v vs) @ right_items c) =
      (ents (left_items c) @ zip (take i ks) (take i vs)) @ (k, v) # zip (drop i ks) (drop i vs) @ ents (right_items c)"
    by (simp add: map2_ins_at[OF assms(2)])
  also have "\<dots> = kv_insert k v (entries (plug c (Lf p ks vs)))"
    unfolding e(1) by (rule kv_insert_between[OF e(2,3), symmetric])
  finally show ?thesis .
qed

lemma leaf_insert_ordered:
  assumes "ordered (left_items c @ map2 Ent ks vs @ right_items c)" "length vs = length ks" "i \<le> length ks"
    "items_below k (left_items c @ map2 Ent (take i ks) (take i vs))"
    "items_above k (map2 Ent (drop i ks) (drop i vs) @ right_items c)"
  shows "ordered (left_items c @ map2 Ent (ins_at i k ks) (ins_at i v vs) @ right_items c)"
proof -
  have "ordered ((left_items c @ map2 Ent (take i ks) (take i vs)) @ Ent k v # map2 Ent (drop i ks) (drop i vs) @ right_items c)"
    by (rule ordered_insert[OF _ assms(4,5)]) (use assms(1) map2_split[OF assms(2), of Ent i] in simp)
  then show ?thesis by (simp add: map2_ins_at[OF assms(2)])
qed

text \<open>The separator between the halves of a split leaf.\<close>

lemma split_leaf_items:
  assumes "length VS = length KS" "4 < length KS"
    and o: "ordered (left @ map2 Ent KS VS @ right)"
  shows "ordered (left @ map2 Ent (take 4 KS) (take 4 VS) @ Sep (KS ! 4) # map2 Ent (drop 4 KS) (drop 4 VS) @ right)"
    and "ents (left @ map2 Ent (take 4 KS) (take 4 VS) @ Sep (KS ! 4) # map2 Ent (drop 4 KS) (drop 4 VS) @ right) =
      ents (left @ map2 Ent KS VS @ right)"
proof -
  have t4: "take 4 KS = take 3 KS @ [KS ! 3]" "take 4 VS = take 3 VS @ [VS ! 3]"
    using assms take_Suc_conv_app_nth[of 3 KS] take_Suc_conv_app_nth[of 3 VS] by simp_all
  have d4: "drop 4 KS = KS ! 4 # drop 5 KS" "drop 4 VS = VS ! 4 # drop 5 VS"
    using assms Cons_nth_drop_Suc[of 4 KS] Cons_nth_drop_Suc[of 4 VS] by simp_all
  have "left @ map2 Ent KS VS @ right = (left @ map2 Ent (take 3 KS) (take 3 VS)) @ Ent (KS ! 3) (VS ! 3) #
      Ent (KS ! 4) (VS ! 4) # map2 Ent (drop 5 KS) (drop 5 VS) @ right"
    using assms(1,2) by (simp add: map2_split[OF assms(1), of Ent 4] t4 d4)
  with o ordered_separate[of "left @ map2 Ent (take 3 KS) (take 3 VS)" "KS ! 3" "VS ! 3" "KS ! 4" "VS ! 4"]
  have "ordered ((left @ map2 Ent (take 3 KS) (take 3 VS)) @ Ent (KS ! 3) (VS ! 3) # Sep (KS ! 4) #
      Ent (KS ! 4) (VS ! 4) # map2 Ent (drop 5 KS) (drop 5 VS) @ right)" by simp
  then show "ordered (left @ map2 Ent (take 4 KS) (take 4 VS) @ Sep (KS ! 4) # map2 Ent (drop 4 KS) (drop 4 VS) @ right)"
    using assms(1,2) by (simp add: t4 d4)
  show "ents (left @ map2 Ent (take 4 KS) (take 4 VS) @ Sep (KS ! 4) # map2 Ent (drop 4 KS) (drop 4 VS) @ right) =
      ents (left @ map2 Ent KS VS @ right)"
    by (simp add: map2_split[OF assms(1), of Ent 4])
qed

subsection \<open>The operations\<close>

lemma runs_insert_before:
  fixes A :: "('k::linorder, 'v) vheap"
  assumes pick: "slab pick" and ok: "bmap_ok A m (Some t)"
    and t: "t = plug c (Lf p ks vs)" "path_shape 0 c" "length c = height m" "length vs = length ks" "i \<le> length ks"
    and b: "items_below k (left_items c @ map2 Ent (take i ks) (take i vs))"
      "items_above k (map2 Ent (drop i ks) (drop i vs) @ right_items c)"
    and Q: "\<And>m' A' t'. bmap_ok A' m' (Some t') \<Longrightarrow> entries t' = kv_insert k v (entries t) \<Longrightarrow>
      framed A (set (ptrs t)) A' (set (ptrs t')) \<Longrightarrow> Q m' A'"
  shows "runs (insert_before pick m k v p i) A Q"
proof -
  let ?KS = "ins_at i k ks" and ?VS = "ins_at i v vs"
  from ok t have tree: "tree_in A (plug c (Lf p ks vs))" "tree_ok (0 + length c) (plug c (Lf p ks vs))"
      "root m = Some (root_of (plug c (Lf p ks vs)))" "mlength m = length (entries (plug c (Lf p ks vs)))"
    by simp_all
  from tree(1) obtain par pv nx where p: "A p = Some (VLeaf par ks vs pv nx)" by (rule tree_in_leaf)
  have ok': "path_filled c" "filled (min_fill c) (Lf p ks vs)" "ordered (left_items c @ map2 Ent ks vs @ right_items c)"
    using tree(2)[unfolded tree_ok_plug[OF t(2)]] by simp_all
  note ord = leaf_insert_ordered[where v = v, OF ok'(3) t(4,5) b]
    and ent = leaf_insert_entries[where v = v and p = p, OF t(2,4,5) b]
  have lens: "length ?VS = length ?KS" "length ?KS = Suc (length ks)" using t(4) by simp_all
  have mlen: "length (kv_insert k v (entries t)) = mlength m + 1"
    using ent[symmetric] t(4) tree(4) plug_entries[OF t(2,4), of p] unfolding t(1)
    by (simp add: map2_ins_at ins_at_def)
  show ?thesis
    unfolding insert_before_def
  proof (rule runs_bind, rule runs_len_at[where A = A, OF p], rule runs_bind, rule runs_if)
    assume room: "vlen (VLeaf par ks vs pv nx) < M"
    let ?A = "A(p \<mapsto> VLeaf par ?KS ?VS pv nx)" and ?t = "plug c (Lf p ?KS ?VS)"
    have "bmap_ok ?A (m\<lparr>mlength := mlength m + 1\<rparr>) (Some ?t)"
    proof -
      have "root_of ?t = root_of (plug c (Lf p ks vs))" by (rule root_of_plug) simp
      moreover have "tree_ok (0 + length c) ?t"
        unfolding tree_ok_plug[OF t(2)] using ok' ord lens room by simp
      moreover have "entries ?t = kv_insert k v (entries t)"
        using ent unfolding t(1) by (simp add: entries_def plug_flat[OF t(2)])
      ultimately show ?thesis using tree_in_leaf_upd[OF tree(1) p, of ?KS ?VS] tree(3) mlen t(3) by simp
    qed
    moreover have "entries ?t = kv_insert k v (entries t)"
      using ent unfolding t(1) by (simp add: entries_def plug_flat[OF t(2)])
    moreover have "framed A (set (ptrs t)) ?A (set (ptrs ?t))"
      using framed_upd[of p "set (ptrs t)" A] tree_in_dom[OF tree(1)] unfolding t(1) by (simp add: plug_ptrs)
    ultimately have fin: "Q (m\<lparr>mlength := mlength m + 1\<rparr>) ?A" by (rule Q)
    show "runs (bindP (upd_at p (insert_val i k v)) (\<lambda>_. ret m)) A
        (\<lambda>m A'. runs (ret (m\<lparr>mlength := mlength m + 1\<rparr>)) A' Q)"
      by (rule runs_bind, rule runs_upd_at[where A = A, OF p upd_insert_val])
         (use t room fin in \<open>auto intro!: runs_ret\<close>)
  next
    assume "\<not> vlen (VLeaf par ks vs pv nx) < M"
    with ok'(2) have full: "length ks = M" by (auto dest: filled_nkeys)
    then have l9: "length ?KS = 9" "length ?VS = 9" using t(4) by (simp_all add: M_def)
    have "4 < length ?KS" using l9 by simp
    note sp = split_leaf_items[OF lens(1) this ord]
    show "runs (bindP (insert_split pick k v p i) (\<lambda>(k', right). insert_up pick (Suc (height m)) m p k' right)) A
        (\<lambda>m A'. runs (ret (m\<lparr>mlength := mlength m + 1\<rparr>)) A' Q)"
    proof (rule runs_bind, rule runs_insert_split[OF pick tree(1) full t(4,5)])
      fix q A1
      assume P: "pending A1 c (Lf p (take 4 ?KS) (take 4 ?VS)) (Lf q (drop 4 ?KS) (drop 4 ?VS))"
        and F: "framed A (set (ptrs (plug c (Lf p ks vs)))) A1
          (pending_ptrs c (Lf p (take 4 ?KS) (take 4 ?VS)) (Lf q (drop 4 ?KS) (drop 4 ?VS)))"
      show "runs (case (?KS ! 4, q) of (k', right) \<Rightarrow> insert_up pick (Suc (height m)) m p k' right) A1
          (\<lambda>m A'. runs (ret (m\<lparr>mlength := mlength m + 1\<rparr>)) A' Q)"
        unfolding prod.case
      proof (rule runs_insert_up[OF pick P t(2), unfolded root_of.simps])
        show "bal 0 (Lf p (take 4 ?KS) (take 4 ?VS))" "bal 0 (Lf q (drop 4 ?KS) (drop 4 ?VS))"
          "filled (M div 2) (Lf p (take 4 ?KS) (take 4 ?VS))" "filled (M div 2) (Lf q (drop 4 ?KS) (drop 4 ?VS))"
          using l9 by (simp_all add: M_def)
        show "ordered (left_items c @ flat (Lf p (take 4 ?KS) (take 4 ?VS)) @ Sep (?KS ! 4) #
            flat (Lf q (drop 4 ?KS) (drop 4 ?VS)) @ right_items c)"
          using sp(1) l9 by simp
        show "root m = Some (root_of (plug c (Lf p (take 4 ?KS) (take 4 ?VS))))"
          using tree(3) root_of_plug[of "Lf p ks vs" "Lf p (take 4 ?KS) (take 4 ?VS)" c] by simp
        fix m' :: bmap and A' t'
        assume t': "tree_in A' t'" "tree_ok (height m') t'" "root m' = Some (root_of t')" "mlength m' = mlength m"
          and flat: "flat t' = left_items c @ flat (Lf p (take 4 ?KS) (take 4 ?VS)) @ Sep (?KS ! 4) #
            flat (Lf q (drop 4 ?KS) (drop 4 ?VS)) @ right_items c"
          and F': "framed A1 (pending_ptrs c (Lf p (take 4 ?KS) (take 4 ?VS)) (Lf q (drop 4 ?KS) (drop 4 ?VS))) A' (set (ptrs t'))"
        have "entries t' = kv_insert k v (entries t)"
          by (simp only: entries_def[of t'] flat flat.simps sp(2) ent t(1))
        moreover from this have "bmap_ok A' (m'\<lparr>mlength := mlength m' + 1\<rparr>) (Some t')" using t' mlen by simp
        moreover have "framed A (set (ptrs t)) A' (set (ptrs t'))" using framed_trans[OF F F'] t(1) by simp
        ultimately show "runs (ret (m'\<lparr>mlength := mlength m' + 1\<rparr>)) A' Q" using Q by (blast intro: runs_ret)
      qed (use ok' t in simp_all)
    qed
  qed
qed

lemma runs_insert_root_raw:
  assumes pick: "slab pick" and m: "mlength m = 0"
    and Q: "\<And>p. p \<notin> dom A \<Longrightarrow> Q (m\<lparr>root := Some p, mlength := mlength m + 1\<rparr>) (A(p \<mapsto> VLeaf None [k] [v] None None))"
  shows "runs (insert_root pick m k v) A Q"
proof -
  have "\<exists>n. insert_val 0 k v leaf_node = Inr n \<and> node_view n (VLeaf None [k] [v] None None)"
    using insert_val_view[of leaf_node None "[]" "[]" None None 0 k v]
    by (simp add: leaf_node_def holds_empty M_def)
  then obtain n where n: "insert_val 0 k v leaf_node = Inr n" "node_view n (VLeaf None [k] [v] None None)"
    by blast
  show ?thesis
    unfolding insert_root_def
    by (rule runs_bind, rule runs_assert, rule m, rule runs_bind, rule runs_lift[OF n(1)],
      rule runs_bind, rule runs_alloc[OF pick n(2)], rule runs_ret, rule Q)
qed

lemma runs_insert_root:
  assumes pick: "slab pick" and m: "bmap_ok A m None"
    and Q: "\<And>m' A' p. bmap_ok A' m' (Some (Lf p [k] [v])) \<Longrightarrow> framed A {} A' {p} \<Longrightarrow> Q m' A'"
  shows "runs (insert_root pick m k v) A Q"
proof (rule runs_insert_root_raw[OF pick])
  fix p assume p: "p \<notin> dom A"
  have "bmap_ok (A(p \<mapsto> VLeaf None [k] [v] None None)) (m\<lparr>root := Some p, mlength := mlength m + 1\<rparr>) (Some (Lf p [k] [v]))"
    using m by (auto simp: tree_in_def tree_ok_def entries_def links_def ordered_def M_def)
  moreover have "framed A {} (A(p \<mapsto> VLeaf None [k] [v] None None)) {p}" using p by (auto simp: framed_def)
  ultimately show "Q (m\<lparr>root := Some p, mlength := mlength m + 1\<rparr>) (A(p \<mapsto> VLeaf None [k] [v] None None))"
    by (rule Q)
qed (use m in simp)

text \<open>Overwriting the value of a key that is there.\<close>

lemma leaf_write:
  fixes w :: 'v and A :: "('k::linorder, 'v) vheap"
  assumes ok: "bmap_ok A m (Some t)" and t: "t = plug c (Lf p ks vs)" "path_shape 0 c" "length c = height m"
      "length vs = length ks" "i < length ks" "ks ! i = k"
    and b: "items_below k (left_items c @ map2 Ent (take i ks) (take i vs))"
      "items_above k (map2 Ent (drop (Suc i) ks) (drop (Suc i) vs) @ right_items c)"
    and p: "A p = Some (VLeaf par ks vs pv nx)"
  defines "A' \<equiv> A(p \<mapsto> VLeaf par ks (vs[i := w]) pv nx)" and "t' \<equiv> plug c (Lf p ks (vs[i := w]))"
  shows "bmap_ok A' m (Some t')" "entries t' = kv_insert k w (entries t)"
    "framed A (set (ptrs t)) A' (set (ptrs t'))"
proof -
  from ok t have tree: "tree_in A (plug c (Lf p ks vs))" "tree_ok (0 + length c) (plug c (Lf p ks vs))"
      "root m = Some (root_of (plug c (Lf p ks vs)))" "mlength m = length (entries (plug c (Lf p ks vs)))"
    by simp_all
  note e = entries_at[OF t(2,4-6) b]
  have b': "items_below k (left_items c @ map2 Ent (take i ks) (take i (vs[i := w])))"
      "items_above k (map2 Ent (drop (Suc i) ks) (drop (Suc i) (vs[i := w])) @ right_items c)"
    using b by simp_all
  have "length (vs[i := w]) = length ks" using t(4) by simp
  note e' = entries_at[OF t(2) this t(5,6) b']
  show ent: "entries t' = kv_insert k w (entries t)"
    unfolding t'_def t(1) e(1) e'(1) kv_insert_at[OF e(2)] using t(4,5) by simp
  have "map2 Ent ks vs = map2 Ent (take i ks) (take i vs) @ Ent k (vs ! i) # map2 Ent (drop (Suc i) ks) (drop (Suc i) vs)"
    using map2_split[OF t(4), of Ent i] t(4-6) by (metis Cons_nth_drop_Suc list.simps(9) zip_Cons_Cons case_prod_conv)
  moreover have "map2 Ent ks (vs[i := w]) = map2 Ent (take i ks) (take i vs) @ Ent k w # map2 Ent (drop (Suc i) ks) (drop (Suc i) vs)"
    using map2_split[of "vs[i := w]" ks Ent i] t(4-6) Cons_nth_drop_Suc[of i ks] Cons_nth_drop_Suc[of i "vs[i := w]"]
    by (metis (no_types, lifting) Cons_nth_drop_Suc length_list_update list.simps(9) zip_Cons_Cons case_prod_conv
        nth_list_update_eq take_update_cancel drop_update_cancel lessI order.refl)
  ultimately have "ordered (left_items c @ map2 Ent ks (vs[i := w]) @ right_items c)"
    using tree(2)[unfolded tree_ok_plug[OF t(2)]] ordered_replace[of "left_items c @ map2 Ent (take i ks) (take i vs)" k "vs ! i" _ w]
    by simp
  then have "tree_ok (0 + length c) t'"
    using tree(2) unfolding t'_def tree_ok_plug[OF t(2)] by simp
  moreover have "root_of t' = root_of (plug c (Lf p ks vs))" unfolding t'_def by (rule root_of_plug) simp
  moreover have "length (entries t') = mlength m"
    unfolding tree(4) t'_def using t(4) by (simp add: plug_entries[OF t(2)])
  ultimately show "bmap_ok A' m (Some t')"
    using tree_in_leaf_upd[OF tree(1) p, of ks "vs[i := w]"] tree(3) t(3) unfolding A'_def t'_def by simp
  show "framed A (set (ptrs t)) A' (set (ptrs t'))"
    using framed_upd[of p "set (ptrs t)" A] tree_in_dom[OF tree(1)] unfolding t(1) A'_def t'_def
    by (simp add: plug_ptrs)
qed

lemma runs_map_insert:
  fixes A :: "('k::linorder, 'v) vheap"
  assumes pick: "slab pick" and ok: "bmap_ok A m T"
    and Q: "\<And>m' A' T'. bmap_ok A' m' T' \<Longrightarrow> contents T' = kv_insert k v (contents T) \<Longrightarrow>
      framed A (owned T) A' (owned T') \<Longrightarrow> Q (map_of (contents T) k, m') A'"
  shows "runs (map_insert pick m k v) A Q"
  unfolding map_insert_def
proof (rule runs_bind, rule runs_find_key[OF ok])
  assume T: "T = None"
  have "runs (insert_root pick m k v) A (\<lambda>m' A'. Q (None, m') A')"
  proof (rule runs_insert_root[OF pick ok[unfolded T]])
    fix m' A' p assume "bmap_ok A' m' (Some (Lf p [k] [v]))" "framed A {} A' {p}"
    then show "Q (None, m') A'" using Q[of A' m' "Some (Lf p [k] [v])"] T by (simp add: entries_def)
  qed
  then have "runs (bindP (insert_root pick m k v) (\<lambda>m. ret (None, m))) A Q"
    by (intro runs_bind) (auto intro: runs_ret elim!: runs_conseq)
  then show "runs (case NoRoot of
       NoRoot \<Rightarrow> bindP (insert_root pick m k v) (\<lambda>m. ret (None, m))
     | Before node idx \<Rightarrow> bindP (insert_before pick m k v node idx) (\<lambda>m. ret (None, m))
     | At node idx \<Rightarrow> bindP (upd_ret_at node (replace_val idx v)) (\<lambda>old. ret (Some old, m))) A Q"
    by simp
next
  fix t r assume T: "T = Some t" and r: "locates t (height m) k r"
  from r show "runs (case r of
       NoRoot \<Rightarrow> bindP (insert_root pick m k v) (\<lambda>m. ret (None, m))
     | Before node idx \<Rightarrow> bindP (insert_before pick m k v node idx) (\<lambda>m. ret (None, m))
     | At node idx \<Rightarrow> bindP (upd_ret_at node (replace_val idx v)) (\<lambda>old. ret (Some old, m))) A Q"
  proof (cases rule: locates_cases)
    case (At c p ks vs i)
    from ok T At(2) have "tree_in A (plug c (Lf p ks vs))" by simp
    then obtain par pv nx where p: "A p = Some (VLeaf par ks vs pv nx)" by (rule tree_in_leaf)
    note w = leaf_write[OF ok[unfolded T] At(2-9) p, of v]
    have old: "map_of (contents T) k = Some (vs ! i)"
      using lookup_at[OF At(3,5-9), of p] T At(2) by simp
    show ?thesis unfolding At(1) found.case
      by (rule runs_bind, rule runs_upd_ret_at[where A = A, OF p upd_replace_val[OF At(6)]], rule runs_ret)
         (use Q[OF w(1)] w(2,3) T old in simp)
  next
    case (Before c p ks vs i)
    have old: "map_of (contents T) k = None"
      using lookup_before[OF Before(3,5,7,8), of p] T Before(2) by simp
    have "runs (insert_before pick m k v p i) A (\<lambda>m' A'. Q (None, m') A')"
    proof (rule runs_insert_before[OF pick ok[unfolded T] Before(2-8)])
      fix m' A' t' assume "bmap_ok A' m' (Some t')" "entries t' = kv_insert k v (entries t)"
        "framed A (set (ptrs t)) A' (set (ptrs t'))"
      then show "Q (None, m') A'" using Q[of A' m' "Some t'"] T old by simp
    qed
    then show ?thesis unfolding Before(1) found.case
      by (intro runs_bind) (auto intro: runs_ret elim!: runs_conseq)
  qed
qed

lemma runs_map_extend:
  fixes A :: "('k::linorder, 'v) vheap"
  assumes pick: "slab pick" and ok: "bmap_ok A m T"
    and Q: "\<And>m' A' T'. bmap_ok A' m' T' \<Longrightarrow> contents T' = fold (\<lambda>(k, v). kv_insert k v) kvs (contents T) \<Longrightarrow>
      framed A (owned T) A' (owned T') \<Longrightarrow> Q m' A'"
  shows "runs (map_extend pick m kvs) A Q"
  using ok Q
proof (induction kvs arbitrary: m T A)
  case Nil
  have "framed A (owned T) A (owned T)" using framed_refl[OF bmap_ok_owned[OF Nil.prems(1)]] .
  with Nil show ?case unfolding map_extend.simps by (intro runs_ret) simp
next
  case (Cons kv kvs)
  obtain k v where kv: "kv = (k, v)" by (cases kv)
  show ?case unfolding kv map_extend.simps
  proof (rule runs_bind, rule runs_map_insert[OF pick Cons.prems(1)])
    fix m' A' T'
    assume 1: "bmap_ok A' m' T'" "contents T' = kv_insert k v (contents T)" "framed A (owned T) A' (owned T')"
    show "runs (case (map_of (contents T) k, m') of (_, m) \<Rightarrow> map_extend pick m kvs) A' Q"
      unfolding prod.case
    proof (rule Cons.IH[OF 1(1)])
      fix m'' A'' T'' assume 2: "bmap_ok A'' m'' T''"
        "contents T'' = fold (\<lambda>(k, v). kv_insert k v) kvs (contents T')" "framed A' (owned T') A'' (owned T'')"
      show "Q m'' A''"
        by (rule Cons.prems(2)[OF 2(1)]) (use 2 1 framed_trans kv in auto)
    qed
  qed
qed

end
