(* ===== verification/Siblings.thy ===== *)
theory Siblings
  imports InsertMap
begin

text \<open>
  Two adjacent children of a node, and what a step of the rebalancing may do to them: move keys and
  subtrees between the two (\<open>siblings_upd\<close>), or merge them into one and drop the other
  (\<open>siblings_merge\<close>). The rest of the tree and of the heap is shown once to be unaffected.
\<close>

subsection \<open>Replacing a subtree\<close>

lemma tree_in_replace:
  assumes t: "tree_in A (plug c t)" and path: "path_rep A c (root_of t) par"
    and rep: "rep A' par t'" and root: "root_of t' = root_of t"
    and d: "distinct (ptrs t')" "set (ptrs t') \<subseteq> set (ptrs t)"
    and same: "\<And>q. q \<in> set (path_ptrs c) \<Longrightarrow> map_option strip (A' q) = map_option strip (A q)"
    and lk: "linked A' None (left_leaves c @ leaves t' @ right_leaves c) None"
  shows "tree_in A' (plug c t')"
proof -
  have "path_rep A' c (root_of t') par" unfolding root by (rule path_rep_strip[OF path same])
  moreover have "distinct (ptrs (plug c t'))" using t d by (auto simp: tree_in_def plug_distinct)
  ultimately show ?thesis using rep lk by (auto simp: tree_in_def plug_rep plug_leaves)
qed

text \<open>Everything there is to know about a node with two adjacent children \<open>a\<close> and \<open>b\<close>.\<close>

definition siblings ::
    "('k, 'v) vheap \<Rightarrow> ('k, 'v) path \<Rightarrow> ptr \<Rightarrow> par \<Rightarrow> 'k list \<Rightarrow> ('k, 'v) bt list \<Rightarrow> ('k, 'v) bt \<Rightarrow>
     ('k, 'v) bt \<Rightarrow> ('k, 'v) bt list \<Rightarrow> bool" where
  "siblings A c p par ks us a b ws \<longleftrightarrow>
     path_rep A c p par \<and>
     A p = Some (VInt par ks (map root_of us @ root_of a # root_of b # map root_of ws)) \<and>
     reps A p 0 us \<and> rep A (Some (p, length us)) a \<and> rep A (Some (p, Suc (length us))) b \<and>
     reps A p (Suc (Suc (length us))) ws \<and>
     distinct (path_ptrs c @ p # concat (map ptrs us) @ ptrs a @ ptrs b @ concat (map ptrs ws)) \<and>
     linked A None (left_leaves c @ concat (map leaves us) @ leaves a @ leaves b @ concat (map leaves ws) @
       right_leaves c) None"

lemma tree_in_siblings:
  "tree_in A (plug c (Nd p ks (us @ a # b # ws))) \<longleftrightarrow> (\<exists>par. siblings A c p par ks us a b ws)"
  unfolding tree_in_def siblings_def plug_rep plug_distinct plug_leaves
  by (auto simp: reps_append)

lemma siblings_roots:
  assumes "siblings A c p par ks us a b ws"
  shows "distinct (map root_of us @ root_of a # root_of b # map root_of ws)"
    "p \<notin> set (map root_of us @ root_of a # root_of b # map root_of ws)"
    "is_child A (root_of a) p (length us)" "is_child A (root_of b) p (Suc (length us))"
proof -
  have "distinct (concat (map ptrs (us @ a # b # ws)))" "p \<notin> ptrss (us @ a # b # ws)"
    using assms by (auto simp: siblings_def)
  from roots_distinct[OF this(1)] roots_in_ptrss[of "us @ a # b # ws"] this(2)
  show "distinct (map root_of us @ root_of a # root_of b # map root_of ws)"
    "p \<notin> set (map root_of us @ root_of a # root_of b # map root_of ws)" by auto
  show "is_child A (root_of a) p (length us)" "is_child A (root_of b) p (Suc (length us))"
    using assms by (auto simp: siblings_def intro: rep_is_child)
qed

lemma distinct_swap_mid:
  "distinct (xs @ ys @ zs) \<Longrightarrow> distinct ys' \<Longrightarrow> set ys' \<subseteq> set ys \<Longrightarrow> distinct (xs @ ys' @ zs)"
  by auto

lemma siblings_upd:
  assumes S: "siblings A c p par ks us a b ws"
    and p: "A' p = Some (VInt par ks' (map root_of us @ root_of a' # root_of b' # map root_of ws))"
    and rep: "rep A' (Some (p, length us)) a'" "rep A' (Some (p, Suc (length us))) b'"
    and d: "distinct (ptrs a' @ ptrs b')" "set (ptrs a') \<union> set (ptrs b') = set (ptrs a) \<union> set (ptrs b)"
    and lv: "leaves a' @ leaves b' = leaves a @ leaves b"
    and other: "\<And>q. q \<noteq> p \<Longrightarrow> q \<notin> set (ptrs a) \<union> set (ptrs b) \<Longrightarrow> A' q = A q"
    and links: "\<And>q. links A' q = links A q" and dom: "dom A' = dom A"
  shows "tree_in A' (plug c (Nd p ks' (us @ a' # b' # ws)))"
    "framed A (set (ptrs (plug c (Nd p ks (us @ a # b # ws))))) A'
       (set (ptrs (plug c (Nd p ks' (us @ a' # b' # ws)))))"
proof -
  note s = S[unfolded siblings_def]
  have out: "q \<noteq> p \<and> q \<notin> set (ptrs a) \<union> set (ptrs b)"
    if "q \<in> ptrss us \<union> ptrss ws \<union> set (path_ptrs c)" for q
    using s that by auto
  have same: "A' q = A q" if "q \<in> ptrss us \<union> ptrss ws \<union> set (path_ptrs c)" for q
    using out[OF that] other by blast
  have dd: "distinct (path_ptrs c @ p # concat (map ptrs us) @ (ptrs a' @ ptrs b') @ concat (map ptrs ws))"
    using distinct_swap_mid[of "path_ptrs c @ p # concat (map ptrs us)" "ptrs a @ ptrs b" "concat (map ptrs ws)"
      "ptrs a' @ ptrs b'"] s d by simp
  have lk: "linked A' None (left_leaves c @ concat (map leaves us) @ (leaves a' @ leaves b') @
      concat (map leaves ws) @ right_leaves c) None"
    using s unfolding lv by (subst linked_all[OF links]) simp
  have "reps A' p 0 us" "reps A' p (Suc (Suc (length us))) ws" "path_rep A' c p par"
    using s same by (auto intro: reps_cong[of A] path_rep_cong[of A])
  then have "siblings A' c p par ks' us a' b' ws"
    using p rep dd lk by (simp add: siblings_def)
  then show "tree_in A' (plug c (Nd p ks' (us @ a' # b' # ws)))"
    using tree_in_siblings by blast
  have "tree_in A (plug c (Nd p ks (us @ a # b # ws)))" using S tree_in_siblings by blast
  then have sub: "set (ptrs (plug c (Nd p ks (us @ a # b # ws)))) \<subseteq> dom A" by (rule tree_in_dom)
  have eq: "set (ptrs (plug c (Nd p ks' (us @ a' # b' # ws)))) = set (ptrs (plug c (Nd p ks (us @ a # b # ws))))"
    using d(2) by (auto simp: plug_ptrs)
  show "framed A (set (ptrs (plug c (Nd p ks (us @ a # b # ws))))) A'
       (set (ptrs (plug c (Nd p ks' (us @ a' # b' # ws)))))"
    unfolding eq by (rule framed_same[OF dom sub], rule other) (auto simp: plug_ptrs)
qed

lemma siblings_merge:
  assumes S: "siblings A c p par ks us a b ws"
    and p: "A' p = Some (VInt par ks' (map root_of us @ root_of x # map root_of ws))"
    and rep: "rep A' (Some (p, length us)) x"
    and d: "distinct (ptrs x)" "g \<in> set (ptrs a) \<union> set (ptrs b)"
      "set (ptrs x) = set (ptrs a) \<union> set (ptrs b) - {g}" "A' g = None"
    and lk: "linked A' None (left_leaves c @ concat (map leaves us) @ leaves x @ concat (map leaves ws) @
       right_leaves c) None"
    and ws: "\<And>q. q \<in> ptrss ws \<Longrightarrow> map_option strip (A' q) =
       map_option strip (repar (shift_idx (\<lambda>i. i - 1)) (map root_of ws) A q)"
    and strips: "\<And>q. q \<in> ptrss us \<union> set (path_ptrs c) \<Longrightarrow> map_option strip (A' q) = map_option strip (A q)"
    and other: "\<And>q. q \<notin> set (ptrs (plug c (Nd p ks (us @ a # b # ws)))) \<Longrightarrow> A' q = A q"
    and dom: "dom A' = dom A - {g}"
  shows "tree_in A' (plug c (Nd p ks' (us @ x # ws)))"
    "framed A (set (ptrs (plug c (Nd p ks (us @ a # b # ws))))) A'
       (set (ptrs (plug c (Nd p ks' (us @ x # ws)))))"
proof -
  note s = S[unfolded siblings_def]
  have dd: "distinct (path_ptrs c @ p # concat (map ptrs us) @ ptrs x @ concat (map ptrs ws))"
    using distinct_swap_mid[of "path_ptrs c @ p # concat (map ptrs us)" "ptrs a @ ptrs b" "concat (map ptrs ws)"
      "ptrs x"] s d(1,3) by auto
  have us: "reps A' p 0 us" by (rule rep_strip(2)[of A]) (use s strips in auto)
  have path: "path_rep A' c p par" by (rule path_rep_strip[of A]) (use s strips in auto)
  have "reps (repar (shift_idx (\<lambda>i. i - 1)) (map root_of ws) A) p (Suc (length us)) ws"
    by (rule reps_repar[of A p "Suc (Suc (length us))" ws "\<lambda>i. i - 1"]) (use s in auto)
  then have "reps A' p (Suc (length us)) ws" by (rule rep_strip(2)) (rule ws)
  with us path p rep dd lk show "tree_in A' (plug c (Nd p ks' (us @ x # ws)))"
    unfolding tree_in_def plug_rep plug_distinct plug_leaves by (auto simp: reps_append)
  have "tree_in A (plug c (Nd p ks (us @ a # b # ws)))" using S tree_in_siblings by blast
  then have sub: "set (ptrs (plug c (Nd p ks (us @ a # b # ws)))) \<subseteq> dom A" by (rule tree_in_dom)
  have g: "g \<notin> set (path_ptrs c)" "g \<noteq> p" "g \<notin> ptrss us" "g \<notin> ptrss ws" using s d(2) by auto
  have eq: "set (ptrs (plug c (Nd p ks' (us @ x # ws)))) = set (ptrs (plug c (Nd p ks (us @ a # b # ws)))) - {g}"
    using d(2,3) g by (auto simp: plug_ptrs)
  have "g \<in> set (ptrs (plug c (Nd p ks (us @ a # b # ws))))" using d(2) by (auto simp: plug_ptrs)
  then show "framed A (set (ptrs (plug c (Nd p ks (us @ a # b # ws))))) A'
       (set (ptrs (plug c (Nd p ks' (us @ x # ws)))))"
    unfolding eq framed_def using other dom sub by auto
qed

end
