(* ===== verification/Borrow.thy ===== *)
theory Borrow
  imports Siblings
begin

text \<open>
  Redistribution between two adjacent children of a node: the underfull one takes the nearest entry,
  or the nearest subtree, of the other, and the separator between the two changes.
\<close>

subsection \<open>Leaves\<close>

text \<open>Both children are leaves that keep their links, and the key between them changes.\<close>

lemma siblings_leaves:
  assumes S: "siblings A c p par ks us (Lf pa aks avs) (Lf pb bks bvs) ws"
  obtains apv anx bpv bnx where
    "A pa = Some (VLeaf (Some (p, length us)) aks avs apv anx)"
    "A pb = Some (VLeaf (Some (p, Suc (length us))) bks bvs bpv bnx)"
    "A p = Some (VInt par ks (map root_of us @ pa # pb # map root_of ws))"
    "pa \<noteq> pb" "p \<noteq> pa" "p \<noteq> pb"
proof -
  from S obtain apv anx bpv bnx where
    "A pa = Some (VLeaf (Some (p, length us)) aks avs apv anx)"
    "A pb = Some (VLeaf (Some (p, Suc (length us))) bks bvs bpv bnx)"
    by (auto simp: siblings_def)
  moreover have "A p = Some (VInt par ks (map root_of us @ pa # pb # map root_of ws))" "pa \<noteq> pb" "p \<noteq> pa" "p \<noteq> pb"
    using S by (auto simp: siblings_def)
  ultimately show ?thesis by (rule that)
qed

lemma siblings_upd_leaves:
  assumes S: "siblings A c p par ks us (Lf pa aks avs) (Lf pb bks bvs) ws"
    and A: "A pa = Some (VLeaf (Some (p, length us)) aks avs apv anx)"
      "A pb = Some (VLeaf (Some (p, Suc (length us))) bks bvs bpv bnx)"
    and A': "A' pa = Some (VLeaf (Some (p, length us)) aks' avs' apv anx)"
      "A' pb = Some (VLeaf (Some (p, Suc (length us))) bks' bvs' bpv bnx)"
      "A' p = Some (VInt par ks' (map root_of us @ pa # pb # map root_of ws))"
      "\<And>q. q \<noteq> p \<Longrightarrow> q \<noteq> pa \<Longrightarrow> q \<noteq> pb \<Longrightarrow> A' q = A q"
  shows "tree_in A' (plug c (Nd p ks' (us @ Lf pa aks' avs' # Lf pb bks' bvs' # ws)))"
    "framed A (set (ptrs (plug c (Nd p ks (us @ Lf pa aks avs # Lf pb bks bvs # ws))))) A'
       (set (ptrs (plug c (Nd p ks' (us @ Lf pa aks' avs' # Lf pb bks' bvs' # ws)))))"
proof -
  from S have Ap: "A p = Some (VInt par ks (map root_of us @ pa # pb # map root_of ws))" and ne: "pa \<noteq> pb"
    by (auto simp: siblings_def)
  have "links A' q = links A q" for q
  proof (cases "q = p \<or> q = pa \<or> q = pb")
    case True
    then show ?thesis using A A' Ap by (auto simp: links_def)
  next
    case False
    then show ?thesis using A'(4)[of q] by (simp add: links_def)
  qed
  moreover have "dom A' = dom A"
  proof (rule set_eqI)
    fix q show "q \<in> dom A' \<longleftrightarrow> q \<in> dom A"
      using A A' Ap A'(4)[of q] by (cases "q = p \<or> q = pa \<or> q = pb") (auto simp: domIff)
  qed
  ultimately have "tree_in A' (plug c (Nd p ks' (us @ Lf pa aks' avs' # Lf pb bks' bvs' # ws))) \<and>
    framed A (set (ptrs (plug c (Nd p ks (us @ Lf pa aks avs # Lf pb bks bvs # ws))))) A'
       (set (ptrs (plug c (Nd p ks' (us @ Lf pa aks' avs' # Lf pb bks' bvs' # ws)))))"
    using A' ne by (intro conjI siblings_upd[OF S]) simp_all
  then show "tree_in A' (plug c (Nd p ks' (us @ Lf pa aks' avs' # Lf pb bks' bvs' # ws)))"
    "framed A (set (ptrs (plug c (Nd p ks (us @ Lf pa aks avs # Lf pb bks bvs # ws))))) A'
       (set (ptrs (plug c (Nd p ks' (us @ Lf pa aks' avs' # Lf pb bks' bvs' # ws)))))" by blast+
qed

lemma runs_borrow_prev_leaf:
  fixes A :: "('k, 'v) vheap"
  assumes S: "siblings A c p par (ls @ pk # rs) us (Lf pa (aks @ [k]) (avs @ [v])) (Lf pb bks bvs) ws"
    and len: "length us = length ls" "length avs = length aks" "length bks < M"
    and Q: "\<And>A'. tree_in A' (plug c (Nd p (ls @ k # rs) (us @ Lf pa aks avs # Lf pb (k # bks) (v # bvs) # ws))) \<Longrightarrow>
      framed A (set (ptrs (plug c (Nd p (ls @ pk # rs) (us @ Lf pa (aks @ [k]) (avs @ [v]) # Lf pb bks bvs # ws))))) A'
        (set (ptrs (plug c (Nd p (ls @ k # rs) (us @ Lf pa aks avs # Lf pb (k # bks) (v # bvs) # ws))))) \<Longrightarrow> Q () A'"
  shows "runs (borrow_prev_leaf pb p (Suc (length us)) pa) A Q"
proof (rule siblings_leaves[OF S])
  fix apv anx bpv bnx
  assume a: "A pa = Some (VLeaf (Some (p, length us)) (aks @ [k]) (avs @ [v]) apv anx)"
    and b: "A pb = Some (VLeaf (Some (p, Suc (length us))) bks bvs bpv bnx)"
    and P: "A p = Some (VInt par (ls @ pk # rs) (map root_of us @ pa # pb # map root_of ws))"
    and ne: "pa \<noteq> pb" "p \<noteq> pa" "p \<noteq> pb"
  let ?va = "VLeaf (Some (p, length us)) aks avs apv anx"
  let ?vb = "VLeaf (Some (p, Suc (length us))) (k # bks) (v # bvs) bpv bnx"
  let ?vp = "VInt par (ls @ k # rs) (map root_of us @ pa # pb # map root_of ws)"
  have fin: "Q () (A(pa \<mapsto> ?va, pb \<mapsto> ?vb, p \<mapsto> ?vp))"
    by (rule Q; rule siblings_upd_leaves[OF S a b]) (use ne in auto)
  have ua: "node_upd_ret (remove_val (length aks)) (VLeaf (Some (p, length us)) (aks @ [k]) (avs @ [v]) apv anx) (k, v) ?va"
    using upd_remove_val[of "length aks" "aks @ [k]" "Some (p, length us)" "avs @ [v]" apv anx] len(2)
    by (simp add: del_at_def nth_append)
  have ub: "node_upd (insert_val 0 k v) (VLeaf (Some (p, Suc (length us))) bks bvs bpv bnx) ?vb"
    using upd_insert_val[of 0 bks k v "Some (p, Suc (length us))" bvs bpv bnx] len(3) by simp
  have up: "node_upd_ret (replace_key (length us) k) (VInt par (ls @ pk # rs) (map root_of us @ pa # pb # map root_of ws)) pk ?vp"
    using upd_replace_key[of "length us" "ls @ pk # rs" k par "map root_of us @ pa # pb # map root_of ws"] len(1)
    by (simp add: list_update_append nth_append)
  show ?thesis
    unfolding borrow_prev_leaf_def
    apply (rule runs_bind, rule runs_get_at[where A = A and r = "length aks", OF a])
     apply (simp add: node_view_len del: node_view.simps)
    apply (rule runs_bind, rule runs_upd_ret_at[where A = A, OF a ua], unfold prod.case)
    apply (rule runs_bind, rule runs_upd_at[OF _ ub])
    using b ne apply simp
    apply (rule runs_bind, unfold diff_Suc_1, rule runs_upd_ret_at[OF _ up])
    using P ne apply simp
    by (rule runs_ret, rule fin)
qed

lemma runs_borrow_next_leaf:
  fixes A :: "('k, 'v) vheap"
  assumes S: "siblings A c p par (ls @ pk # rs) us (Lf pa aks avs) (Lf pb (k # k1 # bks) (v # bvs)) ws"
    and len: "length us = length ls" "length avs = length aks" "length aks < M"
    and Q: "\<And>A'. tree_in A' (plug c (Nd p (ls @ k1 # rs) (us @ Lf pa (aks @ [k]) (avs @ [v]) # Lf pb (k1 # bks) bvs # ws))) \<Longrightarrow>
      framed A (set (ptrs (plug c (Nd p (ls @ pk # rs) (us @ Lf pa aks avs # Lf pb (k # k1 # bks) (v # bvs) # ws))))) A'
        (set (ptrs (plug c (Nd p (ls @ k1 # rs) (us @ Lf pa (aks @ [k]) (avs @ [v]) # Lf pb (k1 # bks) bvs # ws))))) \<Longrightarrow> Q () A'"
  shows "runs (borrow_next_leaf pa p (length us) pb) A Q"
proof (rule siblings_leaves[OF S])
  fix apv anx bpv bnx
  assume a: "A pa = Some (VLeaf (Some (p, length us)) aks avs apv anx)"
    and b: "A pb = Some (VLeaf (Some (p, Suc (length us))) (k # k1 # bks) (v # bvs) bpv bnx)"
    and P: "A p = Some (VInt par (ls @ pk # rs) (map root_of us @ pa # pb # map root_of ws))"
    and ne: "pa \<noteq> pb" "p \<noteq> pa" "p \<noteq> pb"
  let ?va = "VLeaf (Some (p, length us)) (aks @ [k]) (avs @ [v]) apv anx"
  let ?vb = "VLeaf (Some (p, Suc (length us))) (k1 # bks) bvs bpv bnx"
  let ?vp = "VInt par (ls @ k1 # rs) (map root_of us @ pa # pb # map root_of ws)"
  have fin: "Q () (A(p \<mapsto> ?vp, pb \<mapsto> ?vb, pa \<mapsto> ?va))"
    by (rule Q; rule siblings_upd_leaves[OF S a b]) (use ne in auto)
  have ua: "node_upd (\<lambda>n. insert_val (len n) k v n) (VLeaf (Some (p, length us)) aks avs apv anx) ?va"
    using upd_insert_val[of "length aks" aks k v "Some (p, length us)" avs apv anx] len(2,3)
    by (simp add: node_upd_def node_view_len del: node_view.simps)
  have ub: "node_upd_ret (remove_val 0) (VLeaf (Some (p, Suc (length us))) (k # k1 # bks) (v # bvs) bpv bnx) (k, v) ?vb"
    using upd_remove_val[of 0 "k # k1 # bks" "Some (p, Suc (length us))" "v # bvs" bpv bnx] by simp
  have up: "node_upd_ret (replace_key (length us) k1) (VInt par (ls @ pk # rs) (map root_of us @ pa # pb # map root_of ws)) pk ?vp"
    using upd_replace_key[of "length us" "ls @ pk # rs" k1 par "map root_of us @ pa # pb # map root_of ws"] len(1)
    by (simp add: list_update_append nth_append)
  show ?thesis
    unfolding borrow_next_leaf_def
    apply (rule runs_bind, rule runs_get_at[where A = A and r = k1, OF b])
     apply (simp del: node_view.simps)
    apply (rule runs_bind, rule runs_upd_ret_at[where A = A, OF P up])
    apply (rule runs_bind, rule runs_upd_ret_at[OF _ ub])
    using b ne apply simp
    apply (unfold prod.case, rule runs_upd_at[OF _ ua])
    using a ne apply simp
    by (rule fin)
qed

subsection \<open>Internal nodes\<close>

lemma siblings_ints:
  assumes S: "siblings A c p par ks us (Nd pa aks ats) (Nd pb bks bts) ws"
  shows "A pa = Some (VInt (Some (p, length us)) aks (map root_of ats))"
    "A pb = Some (VInt (Some (p, Suc (length us))) bks (map root_of bts))"
    "A p = Some (VInt par ks (map root_of us @ pa # pb # map root_of ws))"
    "reps A pa 0 ats" "reps A pb 0 bts" "pa \<noteq> pb" "p \<noteq> pa" "p \<noteq> pb"
    "distinct (map root_of ats @ map root_of bts)"
    "p \<notin> set (map root_of ats @ map root_of bts)" "pa \<notin> set (map root_of ats @ map root_of bts)"
    "pb \<notin> set (map root_of ats @ map root_of bts)"
    "distinct (concat (map ptrs (ats @ bts)))" "{p, pa, pb} \<inter> ptrss (ats @ bts) = {}"
proof -
  note s = S[unfolded siblings_def]
  show 1: "distinct (concat (map ptrs (ats @ bts)))" "{p, pa, pb} \<inter> ptrss (ats @ bts) = {}"
    using s by auto
  have "distinct (map root_of ats @ map root_of bts)" using roots_distinct[OF 1(1)] by (simp only: map_append)
  then show "distinct (map root_of ats @ map root_of bts)" .
  have "set (map root_of ats @ map root_of bts) \<subseteq> ptrss (ats @ bts)"
    using roots_in_ptrss[of "ats @ bts"] by (simp add: image_Un)
  with 1(2) show "p \<notin> set (map root_of ats @ map root_of bts)" "pa \<notin> set (map root_of ats @ map root_of bts)"
    "pb \<notin> set (map root_of ats @ map root_of bts)" by blast+
qed (use S in \<open>auto simp: siblings_def\<close>)

lemma siblings_upd_ints:
  assumes S: "siblings A c p par ks us (Nd pa aks ats) (Nd pb bks bts) ws"
    and A': "A' pa = Some (VInt (Some (p, length us)) aks' (map root_of ats'))"
      "A' pb = Some (VInt (Some (p, Suc (length us))) bks' (map root_of bts'))"
      "A' p = Some (VInt par ks' (map root_of us @ pa # pb # map root_of ws))"
    and all: "ats' @ bts' = ats @ bts"
    and ch: "\<And>j. j < length ats' \<Longrightarrow> is_child A' (root_of (ats' ! j)) pa j"
      "\<And>j. j < length bts' \<Longrightarrow> is_child A' (root_of (bts' ! j)) pb j"
    and par: "\<And>q. q \<noteq> p \<Longrightarrow> q \<noteq> pa \<Longrightarrow> q \<noteq> pb \<Longrightarrow> parsim A A' q"
    and other: "\<And>q. q \<noteq> p \<Longrightarrow> q \<noteq> pa \<Longrightarrow> q \<noteq> pb \<Longrightarrow> q \<notin> set (map root_of ats @ map root_of bts) \<Longrightarrow> A' q = A q"
  shows "tree_in A' (plug c (Nd p ks' (us @ Nd pa aks' ats' # Nd pb bks' bts' # ws)))"
    "framed A (set (ptrs (plug c (Nd p ks (us @ Nd pa aks ats # Nd pb bks bts # ws))))) A'
       (set (ptrs (plug c (Nd p ks' (us @ Nd pa aks' ats' # Nd pb bks' bts' # ws)))))"
proof -
  note s = siblings_ints[OF S]
  have roots: "map root_of ats @ map root_of bts = map root_of ats' @ map root_of bts'"
    using arg_cong[OF all, of "map root_of"] by simp
  have allrep: "all_rep A (ats' @ bts')"
    using reps_all_rep[OF s(4)] reps_all_rep[OF s(5)] unfolding all by auto
  have d: "distinct (concat (map ptrs (ats' @ bts')))" "{p, pa, pb} \<inter> ptrss (ats' @ bts') = {}"
    using s(13,14) unfolding all by auto
  have inner: "A' q = A q" if "t \<in> set (ats' @ bts')" "q \<in> set (ptrs t)" "q \<noteq> root_of t" for t q
  proof (rule other)
    have "q \<in> ptrss (ats' @ bts')" using that by blast
    then show "q \<noteq> p" "q \<noteq> pa" "q \<noteq> pb" using d(2) by blast+
    show "q \<notin> set (map root_of ats @ map root_of bts)"
      using root_not_inside[OF d(1) that] unfolding roots by auto
  qed
  have rootpar: "parsim A A' q" if "q \<in> root_of ` set (ats' @ bts')" for q
    using that s(10-12) unfolding roots by (intro par) auto
  have below: "A' q = A q" if "set ts \<subseteq> set (ats' @ bts')" "q \<in> ptrss ts" "q \<notin> root_of ` set ts" for q ts
    using that inner by blast
  have repa: "reps A' pa 0 ats'"
    by (rule reps_children[where A = A and ts = ats', OF _ _ _ below]) (use allrep d ch(1) rootpar in auto)
  have repb: "reps A' pb 0 bts'"
    by (rule reps_children[where A = A and ts = bts', OF _ _ _ below]) (use allrep d ch(2) rootpar in auto)
  have dist: "distinct (ptrs (Nd pa aks' ats') @ ptrs (Nd pb bks' bts'))"
    using d s(6) by auto
  have sets: "set (ptrs (Nd pa aks' ats')) \<union> set (ptrs (Nd pb bks' bts')) = set (ptrs (Nd pa aks ats)) \<union> set (ptrs (Nd pb bks bts))"
  proof -
    have "ptrss ats' \<union> ptrss bts' = ptrss ats \<union> ptrss bts"
      using arg_cong[OF all, of "\<lambda>ts. ptrss ts"] by simp
    then show ?thesis by simp
  qed
  have leaves: "leaves (Nd pa aks' ats') @ leaves (Nd pb bks' bts') = leaves (Nd pa aks ats) @ leaves (Nd pb bks bts)"
    using arg_cong[OF all, of "\<lambda>ts. concat (map leaves ts)"] by simp
  have links: "links A' q = links A q" for q
  proof (cases "q = p \<or> q = pa \<or> q = pb")
    case True
    then show ?thesis using s(1-3) A' by (auto simp: links_def)
  qed (use par in \<open>auto intro: links_parsim\<close>)
  have dom: "dom A' = dom A"
  proof (rule set_eqI)
    fix q show "q \<in> dom A' \<longleftrightarrow> q \<in> dom A"
      using s(1-3) A' parsim_dom[OF par, of q] by (cases "q = p \<or> q = pa \<or> q = pb") auto
  qed
  have out: "A' q = A q" if "q \<noteq> p" "q \<notin> set (ptrs (Nd pa aks ats)) \<union> set (ptrs (Nd pb bks bts))" for q
    by (rule other) (use that roots_in_ptrss[of ats] roots_in_ptrss[of bts] in auto)
  have repa': "rep A' (Some (p, length us)) (Nd pa aks' ats')" and repb': "rep A' (Some (p, Suc (length us))) (Nd pb bks' bts')"
    using A'(1,2) repa repb by simp_all
  have p': "A' p = Some (VInt par ks' (map root_of us @ root_of (Nd pa aks' ats') # root_of (Nd pb bks' bts') # map root_of ws))"
    using A'(3) by simp
  show "tree_in A' (plug c (Nd p ks' (us @ Nd pa aks' ats' # Nd pb bks' bts' # ws)))"
    by (rule siblings_upd(1)[OF S p' repa' repb' dist sets leaves out links dom])
  show "framed A (set (ptrs (plug c (Nd p ks (us @ Nd pa aks ats # Nd pb bks bts # ws))))) A'
       (set (ptrs (plug c (Nd p ks' (us @ Nd pa aks' ats' # Nd pb bks' bts' # ws)))))"
    by (rule siblings_upd(2)[OF S p' repa' repb' dist sets leaves out links dom])
qed

lemma runs_borrow_prev_internal:
  fixes A :: "('k, 'v) vheap"
  assumes S: "siblings A c p par (ls @ pk # rs) us (Nd pa (aks @ [k]) (ats @ [x])) (Nd pb bks bts) ws"
    and len: "length us = length ls" "length ats = length aks + 1" "length bts = length bks + 1" "length bks < M"
    and Q: "\<And>A'. tree_in A' (plug c (Nd p (ls @ k # rs) (us @ Nd pa aks ats # Nd pb (pk # bks) (x # bts) # ws))) \<Longrightarrow>
      framed A (set (ptrs (plug c (Nd p (ls @ pk # rs) (us @ Nd pa (aks @ [k]) (ats @ [x]) # Nd pb bks bts # ws))))) A'
        (set (ptrs (plug c (Nd p (ls @ k # rs) (us @ Nd pa aks ats # Nd pb (pk # bks) (x # bts) # ws))))) \<Longrightarrow> Q () A'"
  shows "runs (borrow_prev_internal pb p (Suc (length us)) pa) A Q"
proof -
  note s = siblings_ints[OF S]
  let ?x = "root_of x" and ?n = "length us"
  have x: "is_child A ?x pa (length ats)" using reps_is_child[OF s(4), of "length ats"] by simp
  then obtain vx where vx: "A ?x = Some vx" "\<not> raw vx" "vpar vx = Some (pa, length ats)" by (auto simp: is_child_def)
  have x_ne: "?x \<noteq> p" "?x \<noteq> pa" "?x \<noteq> pb" "?x \<notin> set (map root_of ats)" "?x \<notin> set (map root_of bts)"
    using s(9-12) by auto
  define ra rb where r: "ra = map root_of ats" "rb = map root_of bts"
  have rab: "p \<notin> set ra" "pa \<notin> set ra" "pb \<notin> set ra" "p \<notin> set rb" "pa \<notin> set rb" "pb \<notin> set rb"
      "?x \<notin> set ra" "?x \<notin> set rb" "set ra \<inter> set rb = {}" "distinct rb"
    using s(9-12) by (auto simp: r)
  let ?va = "VInt (Some (p, ?n)) aks ra" and ?vb = "VInt (Some (p, Suc ?n)) (pk # bks) (?x # rb)"
  let ?es = "map root_of us @ pa # pb # map root_of ws"
  let ?vp = "VInt par (ls @ k # rs) ?es"
  let ?A3 = "A(pa \<mapsto> ?va, p \<mapsto> ?vp, ?x \<mapsto> vset_par (Some (pb, 0)) vx)"
  let ?A' = "(repar (shift_idx Suc) rb ?A3)(pb \<mapsto> ?vb)"
  have ne: "pa \<noteq> pb" "p \<noteq> pa" "p \<noteq> pb" by (rule s(6), rule s(7), rule s(8))
  have parA3: "parsim A ?A3 q" if "q \<noteq> p" "q \<noteq> pa" for q
  proof -
    have "parsim A (A(pa \<mapsto> ?va, p \<mapsto> ?vp)) q" using that by simp
    then show ?thesis by (rule parsim_upd_vset) (use vx x_ne in simp)
  qed
  have cha: "is_child ?A' (root_of (ats ! j)) pa j" if "j < length ats" for j
  proof -
    have "root_of (ats ! j) \<in> set ra" using that by (simp add: r)
    then have "root_of (ats ! j) \<noteq> pb" "root_of (ats ! j) \<notin> set rb" "root_of (ats ! j) \<noteq> ?x"
      "root_of (ats ! j) \<noteq> p" "root_of (ats ! j) \<noteq> pa" using rab by auto
    then show ?thesis using reps_is_child[OF s(4), of j] that by (simp add: nth_append)
  qed
  have chb: "is_child ?A' (root_of ((x # bts) ! j)) pb j" if "j < length (x # bts)" for j
  proof (cases j)
    case 0
    then show ?thesis using vx(2) x_ne rab(8) by (simp add: is_child_def)
  next
    case (Suc i)
    with that have i: "root_of (bts ! i) \<in> set rb" by (simp add: r)
    then have "root_of (bts ! i) \<noteq> pb" "root_of (bts ! i) \<noteq> ?x" "root_of (bts ! i) \<noteq> p" "root_of (bts ! i) \<noteq> pa"
      using rab by auto
    moreover from this have "is_child ?A3 (root_of (bts ! i)) pb i"
      using reps_is_child[OF s(5), of i] that Suc by simp
    from is_child_repar(1)[OF this i, of Suc] calculation show ?thesis by (simp add: Suc)
  qed
  have par': "parsim A ?A' q" if "q \<noteq> p" "q \<noteq> pa" "q \<noteq> pb" for q
  proof -
    have "parsim A (repar (shift_idx Suc) rb ?A3) q" by (rule parsim_trans[OF parA3[OF that(1,2)] parsim_repar])
    then show ?thesis by (subst parsim_upd_other) (use that in auto)
  qed
  have same: "?A' q = A q" if "q \<noteq> p" "q \<noteq> pa" "q \<noteq> pb" "q \<notin> set (map root_of (ats @ [x]) @ map root_of bts)" for q
    using that by (simp add: r)
  have fin: "Q () ?A'"
    by (rule Q; rule siblings_upd_ints[OF S, where A' = ?A', OF _ _ _ _ cha chb par' same])
       (use ne rab x_ne in \<open>simp_all add: r\<close>)
  have ch: "\<exists>p' i. is_child ?A3 q p' i \<and> i \<le> M" if "q \<in> set rb" for q
  proof -
    from that obtain i where i: "i < length bts" "q = root_of (bts ! i)" by (auto simp: r in_set_conv_nth)
    have "q \<noteq> ?x" "q \<noteq> p" "q \<noteq> pa" using that rab by auto
    then have "is_child ?A3 q pb i" using reps_is_child[OF s(5), of i] i by simp
    then show ?thesis using i(1) len(3,4) by (intro exI[of _ pb] exI[of _ i]) simp
  qed
  have up: "node_upd_ret (replace_key ?n k) (VInt par (ls @ pk # rs) ?es) pk ?vp"
    using upd_replace_key[of ?n "ls @ pk # rs" k par ?es] len(1) by (simp add: list_update_append nth_append)
  show ?thesis
    unfolding borrow_prev_internal_def
    apply (rule runs_bind, rule runs_remove_last_edge[where A = A and q = pa, OF s(1)])
    using x x_ne len apply (simp, simp, simp, simp)
    apply (unfold prod.case diff_Suc_1, simp only: map_append list.map last_snoc butlast_snoc r(1)[symmetric])
    apply (rule runs_bind, rule runs_upd_ret_at[OF _ up])
    using s(3) ne apply simp
    apply (rule runs_bind, rule runs_upd_at[OF _ upd_set_parent[OF vx(2)]])
    using vx(1) x_ne apply simp
    apply (rule runs_insert_edge[where par = "Some (p, Suc ?n)" and ks = bks and es = rb and q = pb and ai = 0])
    using s(2) ne x_ne apply (simp add: r)
    using len(4) vx(2) x_ne rab ch fin by (simp_all add: is_child_def)
qed

lemma runs_borrow_next_internal:
  fixes A :: "('k, 'v) vheap"
  assumes S: "siblings A c p par (ls @ pk # rs) us (Nd pa aks ats) (Nd pb (k # bks) (x # bts)) ws"
    and len: "length us = length ls" "length ats = length aks + 1" "length bts = length bks + 1" "length aks < M"
    and Q: "\<And>A'. tree_in A' (plug c (Nd p (ls @ k # rs) (us @ Nd pa (aks @ [pk]) (ats @ [x]) # Nd pb bks bts # ws))) \<Longrightarrow>
      framed A (set (ptrs (plug c (Nd p (ls @ pk # rs) (us @ Nd pa aks ats # Nd pb (k # bks) (x # bts) # ws))))) A'
        (set (ptrs (plug c (Nd p (ls @ k # rs) (us @ Nd pa (aks @ [pk]) (ats @ [x]) # Nd pb bks bts # ws))))) \<Longrightarrow> Q () A'"
  shows "runs (borrow_next_internal pa p (length us) pb) A Q"
proof -
  note s = siblings_ints[OF S]
  let ?x = "root_of x" and ?n = "length us" and ?l = "length aks"
  have x: "is_child A ?x pb 0" using reps_is_child[OF s(5), of 0] by simp
  then obtain vx where vx: "A ?x = Some vx" "\<not> raw vx" "vpar vx = Some (pb, 0)" by (auto simp: is_child_def)
  define ra rb where r: "ra = map root_of ats" "rb = map root_of bts"
  have rab: "p \<notin> set ra" "pa \<notin> set ra" "pb \<notin> set ra" "p \<notin> set rb" "pa \<notin> set rb" "pb \<notin> set rb"
      "?x \<notin> set ra" "?x \<notin> set rb" "set ra \<inter> set rb = {}" "distinct rb" "distinct ra" "length ra = Suc ?l"
    using s(9-12) len by (auto simp: r)
  have x_ne: "?x \<noteq> p" "?x \<noteq> pa" "?x \<noteq> pb" using s(10-12) by auto
  have ne: "pa \<noteq> pb" "p \<noteq> pa" "p \<noteq> pb" by (rule s(6), rule s(7), rule s(8))
  let ?va = "VInt (Some (p, ?n)) (aks @ [pk]) (ra @ [?x])" and ?vb = "VInt (Some (p, Suc ?n)) bks rb"
  let ?es = "map root_of us @ pa # pb # map root_of ws"
  let ?vp = "VInt par (ls @ k # rs) ?es"
  let ?A1 = "(repar (shift_idx (\<lambda>i. i - 1)) rb A)(pb \<mapsto> ?vb)"
  let ?A3 = "?A1(p \<mapsto> ?vp, ?x \<mapsto> vset_par (Some (pa, ?l + 1)) vx)"
  let ?A' = "?A3(pa \<mapsto> ?va)"
  have par: "parsim A ?A3 q" if "q \<noteq> p" "q \<noteq> pb" for q
  proof -
    have "parsim A (?A1(p \<mapsto> ?vp)) q" using that by simp
    then show ?thesis by (rule parsim_upd_vset) (use vx x_ne rab(8) in simp)
  qed
  have cha: "is_child ?A' (root_of ((ats @ [x]) ! j)) pa j" if "j < length (ats @ [x])" for j
  proof (cases "j < length ats")
    case True
    have "root_of (ats ! j) \<in> set ra" using True by (simp add: r)
    then have "root_of (ats ! j) \<noteq> pb" "root_of (ats ! j) \<notin> set rb" "root_of (ats ! j) \<noteq> ?x"
      "root_of (ats ! j) \<noteq> p" "root_of (ats ! j) \<noteq> pa" using rab by auto
    then show ?thesis using reps_is_child[OF s(4), of j] True by (simp add: nth_append)
  next
    case False
    with that have "j = Suc ?l" using len(2) by simp
    then show ?thesis using vx(2) x_ne len(2) by (simp add: is_child_def nth_append)
  qed
  have chb: "is_child ?A' (root_of (bts ! j)) pb j" if "j < length bts" for j
  proof -
    have i: "root_of (bts ! j) \<in> set rb" using that by (simp add: r)
    then have "root_of (bts ! j) \<noteq> pb" "root_of (bts ! j) \<noteq> ?x" "root_of (bts ! j) \<noteq> p" "root_of (bts ! j) \<noteq> pa"
      using rab by auto
    moreover have "is_child A (root_of (bts ! j)) pb (Suc j)"
      using reps_is_child[OF s(5), of "Suc j"] that by simp
    from is_child_repar(1)[OF this i, of "\<lambda>i. i - 1"] calculation show ?thesis by simp
  qed
  have par': "parsim A ?A' q" if "q \<noteq> p" "q \<noteq> pa" "q \<noteq> pb" for q
    using par[OF that(1,3)] by (subst parsim_upd_other) (use that in auto)
  have same: "?A' q = A q" if "q \<noteq> p" "q \<noteq> pa" "q \<noteq> pb" "q \<notin> set (map root_of ats @ map root_of (x # bts))" for q
    using that by (simp add: r)
  have fin: "Q () ?A'"
    by (rule Q; rule siblings_upd_ints[OF S, where A' = ?A', OF _ _ _ _ cha chb par' same])
       (use ne rab x_ne in \<open>simp_all add: r\<close>)
  have ch: "\<exists>p' i. is_child A q p' i \<and> 1 \<le> i" if "q \<in> set rb" for q
  proof -
    from that obtain i where i: "i < length bts" "q = root_of (bts ! i)" by (auto simp: r in_set_conv_nth)
    then have "is_child A q pb (Suc i)" using reps_is_child[OF s(5), of "Suc i"] by simp
    then show ?thesis by (intro exI[of _ pb] exI[of _ "Suc i"]) simp
  qed
  have up: "node_upd_ret (replace_key ?n k) (VInt par (ls @ pk # rs) ?es) pk ?vp"
    using upd_replace_key[of ?n "ls @ pk # rs" k par ?es] len(1) by (simp add: list_update_append nth_append)
  have b: "A pb = Some (VInt (Some (p, Suc ?n)) (k # bks) (?x # rb))" using s(2) by (simp add: r)
  have a3: "?A3 pa = Some (VInt (Some (p, ?n)) aks ra)"
    using s(1) ne rab(5) x_ne by (simp add: r)
  show ?thesis
    unfolding borrow_next_internal_def
    apply (rule runs_bind, rule runs_remove_edge[where A = A and q = pb and ei = 0, OF b])
    using x x_ne rab ch len(3) apply (simp, simp add: r, simp, simp, simp, simp, simp)
    apply (unfold prod.case, simp only: nth_Cons_0 del_at_0 add_0 One_nat_def drop_Suc_Cons drop_0)
    apply (rule runs_bind, rule runs_upd_ret_at[OF _ up])
    using s(3) ne rab(4) apply simp
    apply (rule runs_bind, rule runs_len_at[where v = "VInt (Some (p, ?n)) aks ra"])
    using s(1) ne rab(5) apply (simp add: r)
    apply (unfold vlen.simps, rule runs_bind, rule runs_lift[where a = "?l + 1"])
    using len(4) apply (simp add: M_def)
    apply (rule runs_bind, rule runs_upd_at[OF _ upd_set_parent[OF vx(2)]])
    using vx(1) x_ne rab(8) apply simp
    apply (rule runs_insert_edge[where par = "Some (p, ?n)" and ks = aks and es = ra and q = pa and ai = "?l + 1"])
    using a3 apply simp
    using len(4) vx(2) x_ne rab fin by (simp_all add: is_child_def)
qed

end
