(* ===== verification/Merging.thy ===== *)
theory Merging
  imports Borrow
begin

text \<open>
  Merging two adjacent children of a node: one of them absorbs the other, whose edge is removed from
  the parent and whose slot is given back. The two halves, absorbing and removing the edge, are
  joined by the predicate \<open>absorbed\<close>.
\<close>

subsection \<open>Removing the edge of the absorbed child\<close>

definition absorbed ::
    "('k, 'v) vheap \<Rightarrow> ('k, 'v) vheap \<Rightarrow> ('k, 'v) path \<Rightarrow> ptr \<Rightarrow> par \<Rightarrow> 'k list \<Rightarrow> ('k, 'v) bt list \<Rightarrow>
     ('k, 'v) bt \<Rightarrow> ('k, 'v) bt \<Rightarrow> ('k, 'v) bt list \<Rightarrow> ('k, 'v) bt \<Rightarrow> ptr \<Rightarrow> bool" where
  "absorbed A B c p par ks us a b ws x g \<longleftrightarrow>
     siblings A c p par ks us a b ws \<and> B p = A p \<and>
     (\<forall>q. q \<notin> set (ptrs a) \<union> set (ptrs b) \<longrightarrow> map_option strip (B q) = map_option strip (A q)) \<and>
     (\<forall>q. q \<notin> set (ptrs (plug c (Nd p ks (us @ a # b # ws)))) \<longrightarrow> B q = A q) \<and> dom B = dom A \<and>
     distinct (ptrs x) \<and> g \<in> set (ptrs a) \<union> set (ptrs b) \<and>
     set (ptrs x) = set (ptrs a) \<union> set (ptrs b) - {g} \<and>
     linked B None (left_leaves c @ concat (map leaves us) @ leaves x @ concat (map leaves ws) @
       right_leaves c) None"

lemma strip_vset_par: "strip v = strip w \<Longrightarrow> vpar v = vpar w \<and> strip (vset_par x v) = strip (vset_par x w)"
  by (cases v; cases w) auto

lemma strip_repar:
  assumes "map_option strip (B q) = map_option strip (A q)"
  shows "map_option strip (repar f es B q) = map_option strip (repar f es A q)"
proof (cases "q \<in> set es \<and> q \<in> dom A")
  case True
  then obtain v w where "A q = Some v" "B q = Some w" "strip w = strip v" "q \<in> set es"
    using assms by (cases "B q") auto
  moreover from strip_vset_par[OF this(3)] have "strip (vset_par (f (vpar w)) w) = strip (vset_par (f (vpar v)) v)"
    by simp
  ultimately show ?thesis by (simp add: repar_def)
next
  case False
  then show ?thesis using assms by (cases "A q"; cases "B q") (auto simp: repar_def)
qed

lemma absorbed_out:
  assumes "absorbed A B c p par ks us a b ws x g"
  shows "q \<in> ptrss us \<union> ptrss ws \<union> set (path_ptrs c) \<Longrightarrow> q \<noteq> p \<and> q \<noteq> g \<and> q \<notin> set (ptrs a) \<union> set (ptrs b) \<and> q \<notin> set (ptrs x)"
    and "p \<notin> set (ptrs x)" "p \<noteq> g" "p \<notin> set (map root_of ws)" "g \<notin> set (ptrs x)" "g \<notin> set (map root_of ws)"
    and "root_of x \<notin> set (map root_of ws)"
proof -
  have s: "siblings A c p par ks us a b ws" "set (ptrs x) = set (ptrs a) \<union> set (ptrs b) - {g}"
      "g \<in> set (ptrs a) \<union> set (ptrs b)"
    using assms by (auto simp: absorbed_def)
  define X where "X = set (ptrs a) \<union> set (ptrs b)"
  have d: "p \<notin> X" "p \<notin> ptrss us" "p \<notin> ptrss ws" "p \<notin> set (path_ptrs c)"
      "X \<inter> (ptrss us \<union> ptrss ws \<union> set (path_ptrs c)) = {}"
    using s(1) by (auto simp: siblings_def X_def)
  have gX: "g \<in> X" "set (ptrs x) \<subseteq> X" "g \<notin> set (ptrs x)" using s(2,3) unfolding X_def by auto
  have rX: "root_of x \<in> X" using gX(2) root_in_ptrs[of x] by (rule subsetD)
  show 1: "q \<in> ptrss us \<union> ptrss ws \<union> set (path_ptrs c) \<Longrightarrow> q \<noteq> p \<and> q \<noteq> g \<and> q \<notin> set (ptrs a) \<union> set (ptrs b) \<and> q \<notin> set (ptrs x)" for q
    unfolding X_def[symmetric]
  proof -
    assume q: "q \<in> ptrss us \<union> ptrss ws \<union> set (path_ptrs c)"
    have "q \<noteq> p"
    proof
      assume "q = p"
      with q d(2-4) show False by simp
    qed
    moreover have "q \<notin> X"
    proof
      assume "q \<in> X"
      from IntI[OF this q] d(5) show False by simp
    qed
    moreover from this have "q \<noteq> g" "q \<notin> set (ptrs x)" using gX(1) contra_subsetD[OF gX(2)] by auto
    ultimately show "q \<noteq> p \<and> q \<noteq> g \<and> q \<notin> X \<and> q \<notin> set (ptrs x)" by blast
  qed
  have ws: "set (map root_of ws) \<subseteq> ptrss ws" using roots_in_ptrss by auto
  show "p \<notin> set (ptrs x)" by (rule contra_subsetD[OF gX(2) d(1)])
  show "p \<noteq> g" proof
    assume "p = g"
    with gX(1) d(1) show False by simp
  qed
  show "p \<notin> set (map root_of ws)" by (rule contra_subsetD[OF ws d(3)])
  show "g \<notin> set (ptrs x)" by (rule gX(3))
  show "g \<notin> set (map root_of ws)"
  proof
    assume "g \<in> set (map root_of ws)"
    then have "g \<in> ptrss ws" by (rule subsetD[OF ws])
    with 1[of g] show False by simp
  qed
  show "root_of x \<notin> set (map root_of ws)" 
  proof
    assume "root_of x \<in> set (map root_of ws)"
    then have "root_of x \<in> ptrss ws" by (rule subsetD[OF ws])
    with 1[of "root_of x"] rX show False unfolding X_def by simp
  qed
qed

lemma is_child_strip:
  assumes "is_child A q p i" "map_option strip (B q) = map_option strip (A q)"
  shows "is_child B q p i"
proof -
  from assms obtain v w where v: "A q = Some v" "\<not> raw v" "vpar v = Some (p, i)" and w: "B q = Some w" "strip w = strip v"
    by (auto simp: is_child_def)
  have "raw w = raw v" using w(2) by (cases v; cases w) auto
  with v w strip_vset_par[OF w(2)] show ?thesis by (simp add: is_child_def)
qed

lemma absorbed_children:
  assumes "absorbed A B c p par ks us a b ws x g"
  shows "j < length ws \<Longrightarrow> is_child B (root_of (ws ! j)) p (Suc (Suc (length us)) + j)"
proof -
  assume j: "j < length ws"
  have "reps A p (Suc (Suc (length us))) ws" using assms by (auto simp: absorbed_def siblings_def)
  then have "is_child A (root_of (ws ! j)) p (Suc (Suc (length us)) + j)" by (rule reps_is_child) (rule j)
  moreover have "map_option strip (B (root_of (ws ! j))) = map_option strip (A (root_of (ws ! j)))"
  proof -
    have "root_of (ws ! j) \<in> ptrss ws" using j nth_mem[OF j] root_in_ptrs by blast
    then have "root_of (ws ! j) \<notin> set (ptrs a) \<union> set (ptrs b)" using absorbed_out(1)[OF assms] by blast
    then show ?thesis using assms unfolding absorbed_def by blast
  qed
  ultimately show ?thesis by (rule is_child_strip)
qed

lemma siblings_merged:
  assumes B: "absorbed A B c p par ks us a b ws x g"
    and A': "A' p = Some (VInt par ks' (map root_of us @ root_of x # map root_of ws))" "A' g = None"
      "\<And>q. q \<noteq> p \<Longrightarrow> q \<noteq> g \<Longrightarrow> q \<noteq> root_of x \<Longrightarrow> A' q = repar (shift_idx (\<lambda>i. i - 1)) (map root_of ws) B q"
      "parsim B A' (root_of x)" "rep A' (Some (p, length us)) x"
  shows "tree_in A' (plug c (Nd p ks' (us @ x # ws)))"
    "framed A (set (ptrs (plug c (Nd p ks (us @ a # b # ws))))) A'
       (set (ptrs (plug c (Nd p ks' (us @ x # ws)))))"
proof -
  let ?R = "repar (shift_idx (\<lambda>i. i - 1)) (map root_of ws)"
  have S: "siblings A c p par ks us a b ws" and Bp: "B p = A p"
    and strips: "\<And>q. q \<notin> set (ptrs a) \<union> set (ptrs b) \<Longrightarrow> map_option strip (B q) = map_option strip (A q)"
    and other: "\<And>q. q \<notin> set (ptrs (plug c (Nd p ks (us @ a # b # ws)))) \<Longrightarrow> B q = A q"
    and dom: "dom B = dom A"
    and x: "distinct (ptrs x)" "g \<in> set (ptrs a) \<union> set (ptrs b)" "set (ptrs x) = set (ptrs a) \<union> set (ptrs b) - {g}"
    and lk: "linked B None (left_leaves c @ concat (map leaves us) @ leaves x @ concat (map leaves ws) @ right_leaves c) None"
    using B by (auto simp: absorbed_def)
  note out = absorbed_out[OF B]
  have Ap: "A p = Some (VInt par ks (map root_of us @ root_of a # root_of b # map root_of ws))"
    using S by (simp add: siblings_def)
  have g_dom: "g \<in> dom A" using S x(2) rep_dom(1) unfolding siblings_def by blast
  have rootx: "root_of x \<in> set (ptrs a) \<union> set (ptrs b)" using x(3) root_in_ptrs[of x] by blast
  have dom': "dom A' = dom A - {g}"
  proof (rule set_eqI)
    fix q
    consider "q = p" | "q = g" | "q = root_of x" | "q \<noteq> p" "q \<noteq> g" "q \<noteq> root_of x" by blast
    then show "q \<in> dom A' \<longleftrightarrow> q \<in> dom A - {g}"
    proof cases
      case 1
      then show ?thesis using A'(1) Ap out(3) by auto
    next
      case 2
      then show ?thesis using A'(2) by auto
    next
      case 3
      then show ?thesis using parsim_dom[OF A'(4)] dom out(5) root_in_ptrs[of x] by auto
    next
      case 4
      have "dom (?R B) = dom A" using dom by simp
      moreover have "A' q = ?R B q" by (rule A'(3)) (use 4 in simp_all)
      ultimately show ?thesis using 4(2) by (metis Diff_iff domIff singletonD)
    qed
  qed
  have links: "links A' q = links B q" if "q \<noteq> g" for q
  proof (cases "q = p \<or> q = root_of x")
    case True
    then show ?thesis using A'(1,4) Bp Ap links_parsim by (auto simp: links_def)
  next
    case False
    then have "links A' q = links (?R B) q" using A'(3) that by (simp add: links_def)
    then show ?thesis using links_parsim[OF parsim_repar] by simp
  qed
  have lk': "linked A' None (left_leaves c @ concat (map leaves us) @ leaves x @ concat (map leaves ws) @ right_leaves c) None"
  proof -
    have "g \<notin> set (left_leaves c @ concat (map leaves us) @ leaves x @ concat (map leaves ws) @ right_leaves c)"
    proof -
      have g: "g \<notin> ptrss us" "g \<notin> ptrss ws" "g \<notin> set (path_ptrs c)" using out(1) by blast+
      have "g \<notin> set (ptrs (plug c (Nd p ks (us @ x # ws))))"
        using g out(5) out(3) by (auto simp: plug_ptrs)
      then show ?thesis using leaves_in_ptrs[of "plug c (Nd p ks (us @ x # ws))"] by (auto simp: plug_leaves)
    qed
    then show ?thesis using lk linked_cong[of _ A' B] links by metis
  qed
  have ws: "map_option strip (A' q) = map_option strip (?R A q)" if "q \<in> ptrss ws" for q
  proof -
    have o: "q \<noteq> p" "q \<noteq> g" "q \<notin> set (ptrs a) \<union> set (ptrs b)" "q \<notin> set (ptrs x)" using out(1) that by blast+
    then have "q \<noteq> root_of x" by auto
    with A'(3) o have "A' q = ?R B q" by blast
    then show ?thesis using strip_repar[of B q A, OF strips[OF o(3)]] by simp
  qed
  have st: "map_option strip (A' q) = map_option strip (A q)" if "q \<in> ptrss us \<union> set (path_ptrs c)" for q
  proof -
    have o: "q \<noteq> p" "q \<noteq> g" "q \<notin> set (ptrs a) \<union> set (ptrs b)" "q \<notin> set (ptrs x)" using out(1) that by blast+
    have "q \<notin> ptrss ws" using that S by (auto simp: siblings_def)
    then have "q \<notin> set (map root_of ws)" using roots_in_ptrss[of ws] by auto
    moreover have "q \<noteq> root_of x" using o(4) by auto
    ultimately have "A' q = B q" using A'(3) o by simp
    then show ?thesis using strips[OF o(3)] by simp
  qed
  have oth: "A' q = A q" if "q \<notin> set (ptrs (plug c (Nd p ks (us @ a # b # ws))))" for q
  proof -
    have "q \<notin> ptrss ws" "q \<noteq> p" "q \<notin> set (ptrs a) \<union> set (ptrs b)" using that by (auto simp: plug_ptrs)
    then have "q \<notin> set (map root_of ws)" "q \<noteq> g" "q \<noteq> root_of x"
      using roots_in_ptrss[of ws] x(2) rootx by auto
    then show ?thesis using A'(3)[of q] \<open>q \<noteq> p\<close> other[OF that] by simp
  qed
  show "tree_in A' (plug c (Nd p ks' (us @ x # ws)))"
    by (rule siblings_merge(1)[OF S A'(1,5) x A'(2) lk' ws st oth dom'])
  show "framed A (set (ptrs (plug c (Nd p ks (us @ a # b # ws))))) A'
       (set (ptrs (plug c (Nd p ks' (us @ x # ws)))))"
    by (rule siblings_merge(2)[OF S A'(1,5) x A'(2) lk' ws st oth dom'])
qed

text \<open>The edge of the left child goes: the right one and its followers move down by one.\<close>

lemma runs_drop_prev:
  fixes A :: "('k, 'v) vheap"
  assumes B: "absorbed A B c p par (ls @ pk # rs) us a b ws x (root_of a)" and x: "root_of x = root_of b"
    and len: "length us = length ls" "length ws = length rs"
    and ch: "is_child B (root_of a) p (length us)" and rep: "rep B (Some (p, Suc (length us))) x"
    and Q: "\<And>A'. tree_in A' (plug c (Nd p (ls @ rs) (us @ x # ws))) \<Longrightarrow>
      framed A (set (ptrs (plug c (Nd p (ls @ pk # rs) (us @ a # b # ws))))) A'
        (set (ptrs (plug c (Nd p (ls @ rs) (us @ x # ws))))) \<Longrightarrow> Q () A'"
  shows "runs (bindP (remove_edge p (length us) False) (\<lambda>(_, e).
     bindP (assertP (e = root_of a)) (\<lambda>_. dealloc (root_of a)))) B Q"
proof -
  let ?es = "map root_of us @ root_of a # root_of b # map root_of ws"
  let ?R = "repar (shift_idx (\<lambda>i. i - 1)) (root_of b # map root_of ws)"
  let ?n = "length us"
  have S: "siblings A c p par (ls @ pk # rs) us a b ws" and dx: "distinct (ptrs x)"
    using B by (auto simp: absorbed_def)
  note out = absorbed_out[OF B] and roots = siblings_roots[OF S]
  let ?vp = "VInt par (ls @ rs) (map root_of us @ root_of b # map root_of ws)"
  let ?A' = "((?R B)(p \<mapsto> ?vp))(root_of a := None)"
  have Bp: "B p = Some (VInt par (ls @ pk # rs) ?es)"
    using B S by (auto simp: absorbed_def siblings_def)
  have chb: "is_child B (root_of b) p (Suc ?n)" using rep_is_child[OF rep] x by simp
  have bne: "root_of b \<noteq> p" "root_of b \<noteq> root_of a" using roots(1,2) by auto
  have par: "parsim B ?A' (root_of x)"
  proof -
    have "parsim B (?R B) (root_of x)" by (rule parsim_repar)
    then show ?thesis using bne x by (simp add: parsim_def)
  qed
  have same: "?A' q = repar (shift_idx (\<lambda>i. i - 1)) (map root_of ws) B q"
    if "q \<noteq> p" "q \<noteq> root_of a" "q \<noteq> root_of x" for q
    using that x by (simp add: repar_def)
  have "rep ?A' (Some (p, ?n)) x"
  proof (rule rep_parsim[OF rep dx _ par])
    have "is_child (?R B) (root_of b) p (Suc ?n - 1)" by (rule is_child_repar(1)[OF chb]) simp
    then show "is_child ?A' (root_of x) p ?n" using bne x by (simp add: is_child_def)
    fix q assume q: "q \<in> set (ptrs x)" "q \<noteq> root_of x"
    have "q \<noteq> p" "q \<noteq> root_of a" using q(1) out(2,5) by auto
    moreover have "q \<notin> set (map root_of ws)"
    proof
      assume "q \<in> set (map root_of ws)"
      then have "q \<in> ptrss ws" using roots_in_ptrss[of ws] by auto
      then show False using out(1)[of q] q(1) by blast
    qed
    ultimately show "?A' q = B q" using same[of q] q(2) by simp
  qed
  then have fin: "Q () ?A'"
    by (intro Q siblings_merged[OF B _ _ same par]) (use x bne out(3) in simp_all)
  have chs: "\<exists>p' i. is_child B q p' i \<and> 1 \<le> i" if "q \<in> set (root_of b # map root_of ws)" for q
  proof (cases "q = root_of b")
    case True
    then show ?thesis using chb by (intro exI[of _ p] exI[of _ "Suc ?n"]) simp
  next
    case False
    with that obtain j where "j < length ws" "q = root_of (ws ! j)" by (auto simp: in_set_conv_nth)
    with absorbed_children[OF B this(1)] show ?thesis by (intro exI[of _ p] exI[of _ "Suc (Suc ?n) + j"]) simp
  qed
  show ?thesis
    apply (rule runs_bind, rule runs_remove_edge[where A = B and q = p and ei = ?n and ks = "ls @ pk # rs" and es = ?es, OF Bp])
    using len ch roots chs apply (simp, simp, simp, simp add: nth_append, simp, simp, simp)
    apply (unfold prod.case)
    apply (rule runs_bind, rule runs_assert)
     apply (simp add: nth_append)
    apply (rule runs_dealloc[where v = "the (B (root_of a))"])
    using ch bne roots(1,2) apply (auto simp: is_child_def)[1]
    using fin len by (simp add: del_at_def)
qed

text \<open>The edge of the right child goes: its followers move down by one.\<close>

lemma runs_drop_next:
  fixes A :: "('k, 'v) vheap"
  assumes B: "absorbed A B c p par (ls @ pk # rs) us a b ws x (root_of b)" and x: "root_of x = root_of a"
    and len: "length us = length ls" "length ws = length rs"
    and ch: "is_child B (root_of b) p (Suc (length us))" and rep: "rep B (Some (p, length us)) x"
    and Q: "\<And>A'. tree_in A' (plug c (Nd p (ls @ rs) (us @ x # ws))) \<Longrightarrow>
      framed A (set (ptrs (plug c (Nd p (ls @ pk # rs) (us @ a # b # ws))))) A'
        (set (ptrs (plug c (Nd p (ls @ rs) (us @ x # ws))))) \<Longrightarrow> Q () A'"
  shows "runs (bindP (remove_edge p (length us) True) (\<lambda>(_, e).
     bindP (assertP (e = root_of b)) (\<lambda>_. dealloc (root_of b)))) B Q"
proof -
  let ?es = "map root_of us @ root_of a # root_of b # map root_of ws"
  let ?R = "repar (shift_idx (\<lambda>i. i - 1)) (map root_of ws)"
  let ?n = "length us"
  have S: "siblings A c p par (ls @ pk # rs) us a b ws" and dx: "distinct (ptrs x)"
    using B by (auto simp: absorbed_def)
  note out = absorbed_out[OF B] and roots = siblings_roots[OF S]
  let ?vp = "VInt par (ls @ rs) (map root_of us @ root_of a # map root_of ws)"
  let ?A' = "((?R B)(p \<mapsto> ?vp))(root_of b := None)"
  have Bp: "B p = Some (VInt par (ls @ pk # rs) ?es)"
    using B S by (auto simp: absorbed_def siblings_def)
  have ane: "root_of a \<noteq> p" "root_of a \<noteq> root_of b" using roots(1,2) by auto
  have below: "?A' q = B q" if "q \<in> set (ptrs x)" for q
  proof -
    have "q \<noteq> p" "q \<noteq> root_of b" using that out(2,5) by auto
    moreover have "q \<notin> set (map root_of ws)"
    proof
      assume "q \<in> set (map root_of ws)"
      then have "q \<in> ptrss ws" using roots_in_ptrss[of ws] by auto
      then show False using out(1)[of q] that by blast
    qed
    ultimately show ?thesis by simp
  qed
  have "rep ?A' (Some (p, ?n)) x" by (rule rep_cong[OF rep below])
  moreover have "parsim B ?A' (root_of x)" by (rule parsim_eq, rule below) simp
  ultimately have fin: "Q () ?A'"
    by (intro Q siblings_merged[OF B]) (use x ane out(3) in simp_all)
  have chs: "\<exists>p' i. is_child B q p' i \<and> 1 \<le> i" if "q \<in> set (map root_of ws)" for q
  proof -
    from that obtain j where "j < length ws" "q = root_of (ws ! j)" by (auto simp: in_set_conv_nth)
    with absorbed_children[OF B this(1)] show ?thesis by (intro exI[of _ p] exI[of _ "Suc (Suc ?n) + j"]) simp
  qed
  show ?thesis
    apply (rule runs_bind, rule runs_remove_edge[where A = B and q = p and ei = "?n + 1" and ks = "ls @ pk # rs" and es = ?es, OF Bp])
    using len ch roots chs apply (simp, simp, simp, simp add: nth_append, simp, simp, simp)
    apply (unfold prod.case)
    apply (rule runs_bind, rule runs_assert)
     apply (simp add: nth_append)
    apply (rule runs_dealloc[where v = "the (B (root_of b))"])
    using ch ane roots(1,2) apply (auto simp: is_child_def)[1]
    using fin len by (simp add: del_at_def)
qed

subsection \<open>Leaves\<close>

lemma linked_merge:
  assumes lk: "linked A None (ll @ a # b # rl) None" and d: "distinct (ll @ a # b # rl)"
    and a: "links A a = Some (pv, an)" and b: "links A b = Some (bp, nx)" and z: "links B z = Some (pv, nx)"
    and l: "\<And>l lp. pv = Some l \<Longrightarrow> links A l = Some (lp, Some a) \<Longrightarrow> links B l = Some (lp, Some z)"
    and r: "\<And>r rn. nx = Some r \<Longrightarrow> links A r = Some (Some b, rn) \<Longrightarrow> links B r = Some (Some z, rn)"
    and same: "\<And>q. q \<noteq> a \<Longrightarrow> q \<noteq> b \<Longrightarrow> Some q \<noteq> pv \<Longrightarrow> Some q \<noteq> nx \<Longrightarrow> links B q = links A q"
  shows "linked B None (ll @ z # rl) None"
proof -
  from lk a b have A: "linked A None ll (Some a)" "pv = last_or None ll" "nx = hd_or rl None"
      "linked A (Some b) rl None"
    by (auto simp: linked_append)
  have "linked B None ll (Some z)"
  proof (cases ll rule: rev_cases)
    case (snoc ll' q)
    have pv: "pv = Some q" using A(2) snoc by simp
    have "links B q = Some (last_or None ll', Some z)"
      by (rule l[OF pv]) (use A(1) snoc in \<open>simp add: linked_append\<close>)
    moreover have "links B x = links A x" if "x \<in> set ll'" for x
      using that d snoc pv A(3) by (intro same) (cases rl; auto)+
    then have "linked B None ll' (Some q)" using A(1) snoc linked_cong[of ll' B A] by (simp add: linked_append)
    ultimately show ?thesis using snoc by (simp add: linked_append)
  qed simp
  moreover have "linked B (Some z) rl None"
  proof (cases rl)
    case (Cons q rl')
    have nx: "nx = Some q" using A(3) Cons by simp
    have "links B q = Some (Some z, hd_or rl' None)"
      by (rule r[OF nx]) (use A(4) Cons in simp)
    moreover have "links B x = links A x" if "x \<in> set rl'" for x
      using that d Cons nx A(2) by (intro same) (cases ll rule: rev_cases; auto)+
    then have "linked B (Some q) rl' None" using A(4) Cons linked_cong[of rl' B A] by simp
    ultimately show ?thesis using Cons by simp
  qed simp
  ultimately show ?thesis using z A(2,3) by (simp add: linked_append)
qed

text \<open>The two leaves and their neighbours in the list.\<close>

lemma siblings_leaf_links:
  assumes S: "siblings A c p par ks us (Lf pa aks avs) (Lf pb bks bvs) ws"
  obtains pv nx where
    "A pa = Some (VLeaf (Some (p, length us)) aks avs pv (Some pb))"
    "A pb = Some (VLeaf (Some (p, Suc (length us))) bks bvs (Some pa) nx)"
    "\<And>l. pv = Some l \<Longrightarrow> l \<in> set (left_leaves c @ concat (map leaves us)) \<and> l \<noteq> pa \<and> l \<noteq> pb \<and>
       (\<exists>lpar lks lvs lp. A l = Some (VLeaf lpar lks lvs lp (Some pa)))"
    "\<And>r. nx = Some r \<Longrightarrow> r \<in> set (concat (map leaves ws) @ right_leaves c) \<and> r \<noteq> pa \<and> r \<noteq> pb \<and>
       (\<exists>rpar rks rvs rn. A r = Some (VLeaf rpar rks rvs (Some pb) rn))"
    "pv \<noteq> nx \<or> pv = None"
proof (rule siblings_leaves[OF S])
  fix apv anx bpv bnx
  assume a: "A pa = Some (VLeaf (Some (p, length us)) aks avs apv anx)"
    and b: "A pb = Some (VLeaf (Some (p, Suc (length us))) bks bvs bpv bnx)"
  define ll rl where lr: "ll = left_leaves c @ concat (map leaves us)" "rl = concat (map leaves ws) @ right_leaves c"
  have "linked A None (ll @ pa # pb # rl) None" using S by (simp add: siblings_def lr)
  with a b have lk: "linked A None ll (Some pa)" "apv = last_or None ll" "anx = Some pb" "bpv = Some pa"
      "bnx = hd_or rl None" "linked A (Some pb) rl None"
    by (auto simp: linked_append links_def)
  have "tree_in A (plug c (Nd p ks (us @ Lf pa aks avs # Lf pb bks bvs # ws)))" using S tree_in_siblings by blast
  then have d: "distinct (ll @ pa # pb # rl)"
    using distinct_leaves[of "plug c (Nd p ks (us @ Lf pa aks avs # Lf pb bks bvs # ws))"]
    by (simp add: tree_in_def plug_leaves lr)
  have l: "l \<in> set ll \<and> (\<exists>lpar lks lvs lp. A l = Some (VLeaf lpar lks lvs lp (Some pa)))" if pv: "apv = Some l" for l
  proof -
    obtain ll' where ll: "ll = ll' @ [l]" using pv lk(2) by (cases ll rule: rev_cases) auto
    with lk(1) have "links A l = Some (last_or None ll', Some pa)" by (simp add: linked_append)
    with ll show ?thesis by (auto simp: links_leaf)
  qed
  have r: "r \<in> set rl \<and> (\<exists>rpar rks rvs rn. A r = Some (VLeaf rpar rks rvs (Some pb) rn))" if nx: "bnx = Some r" for r
  proof -
    obtain rl' where rl: "rl = r # rl'" using nx lk(5) by (cases rl) auto
    with lk(6) have "links A r = Some (Some pb, hd_or rl' None)" by simp
    with rl show ?thesis by (auto simp: links_leaf)
  qed
  show thesis
  proof (rule that[of apv bnx, folded lr])
    show "apv \<noteq> bnx \<or> apv = None" using l r d by (cases apv) auto
  qed (use a b lk(3,4) l r d in auto)
qed

lemma absorbed_leaf:
  assumes S: "siblings A c p par ks us (Lf pa aks avs) (Lf pb bks bvs) ws"
    and zg: "z = pa \<and> g = pb \<or> z = pb \<and> g = pa"
    and a: "A pa = Some (VLeaf apar aks avs pv (Some pb))" and b: "A pb = Some (VLeaf bpar bks bvs (Some pa) nx)"
    and z: "B z = Some (VLeaf zpar (aks @ bks) (avs @ bvs) pv nx)" and g: "B g = A g"
    and l: "\<And>l. pv = Some l \<Longrightarrow> l \<in> set (left_leaves c @ concat (map leaves us)) \<and>
      (\<exists>lpar lks lvs lp. A l = Some (VLeaf lpar lks lvs lp (Some pa)) \<and> B l = Some (VLeaf lpar lks lvs lp (Some z)))"
    and r: "\<And>r. nx = Some r \<Longrightarrow> r \<in> set (concat (map leaves ws) @ right_leaves c) \<and>
      (\<exists>rpar rks rvs rn. A r = Some (VLeaf rpar rks rvs (Some pb) rn) \<and> B r = Some (VLeaf rpar rks rvs (Some z) rn))"
    and same: "\<And>q. q \<noteq> pa \<Longrightarrow> q \<noteq> pb \<Longrightarrow> Some q \<noteq> pv \<Longrightarrow> Some q \<noteq> nx \<Longrightarrow> B q = A q"
  shows "absorbed A B c p par ks us (Lf pa aks avs) (Lf pb bks bvs) ws (Lf z (aks @ bks) (avs @ bvs)) g"
proof -
  let ?t = "plug c (Nd p ks (us @ Lf pa aks avs # Lf pb bks bvs # ws))"
  have P: "A p = Some (VInt par ks (map root_of us @ pa # pb # map root_of ws))"
      and ne: "pa \<noteq> pb" "p \<noteq> pa" "p \<noteq> pb" using S by (auto simp: siblings_def)
  have t: "tree_in A ?t" using S tree_in_siblings by blast
  have inside: "q \<in> set (ptrs ?t)" if "q \<in> set (leaves ?t)" for q using that leaves_in_ptrs by blast
  have lin: "l \<in> set (ptrs ?t)" if "pv = Some l" for l using l[OF that] by (intro inside) (auto simp: plug_leaves)
  have rin: "r \<in> set (ptrs ?t)" if "nx = Some r" for r using r[OF that] by (intro inside) (auto simp: plug_leaves)
  have strip: "map_option strip (B q) = map_option strip (A q)" if "q \<noteq> pa" "q \<noteq> pb" for q
    using same[OF that] l[of q] r[of q] by (cases "pv = Some q"; cases "nx = Some q") auto
  have "p \<noteq> x" if "Some x = pv \<or> Some x = nx" for x using that l[of x] r[of x] P by auto
  then have Bp: "B p = A p" using same[of p] ne by auto
  have out: "B q = A q" if "q \<notin> set (ptrs ?t)" for q
    using that lin[of q] rin[of q] by (intro same) (auto simp: plug_ptrs)
  have dom: "dom B = dom A"
  proof (rule set_eqI)
    fix q
    have "map_option strip (B q) = map_option strip (A q) \<Longrightarrow> q \<in> dom B \<longleftrightarrow> q \<in> dom A"
      by (cases "A q"; cases "B q") auto
    then show "q \<in> dom B \<longleftrightarrow> q \<in> dom A"
      using strip[of q] z g a b zg by (cases "q = pa \<or> q = pb") auto
  qed
  have "linked B None ((left_leaves c @ concat (map leaves us)) @ z # concat (map leaves ws) @ right_leaves c) None"
  proof (rule linked_merge[where A = A and pv = pv and nx = nx])
    show "distinct ((left_leaves c @ concat (map leaves us)) @ pa # pb # concat (map leaves ws) @ right_leaves c)"
      using t distinct_leaves[of ?t] by (simp add: tree_in_def plug_leaves)
    show "links B q = Some (lp, Some z)" if "pv = Some q" "links A q = Some (lp, Some pa)" for q lp
      using l[OF that(1)] that(2) by (auto simp: links_def)
    show "links B q = Some (Some z, rn)" if "nx = Some q" "links A q = Some (Some pb, rn)" for q rn
      using r[OF that(1)] that(2) by (auto simp: links_def)
    show "links B q = links A q" if "q \<noteq> pa" "q \<noteq> pb" "Some q \<noteq> pv" "Some q \<noteq> nx" for q
      using same[OF that] by (simp add: links_def)
  qed (use S a b z in \<open>auto simp: siblings_def links_def\<close>)
  then show ?thesis
    unfolding absorbed_def using S Bp strip out dom ne zg by auto
qed

lemma runs_merge_with_prev_leaf:
  fixes A :: "('k, 'v) vheap"
  assumes S: "siblings A c p par (ls @ pk # rs) us (Lf pa aks avs) (Lf pb bks bvs) ws"
    and len: "length us = length ls" "length ws = length rs" "length aks + length bks \<le> M"
    and Q: "\<And>A'. tree_in A' (plug c (Nd p (ls @ rs) (us @ Lf pb (aks @ bks) (avs @ bvs) # ws))) \<Longrightarrow>
      framed A (set (ptrs (plug c (Nd p (ls @ pk # rs) (us @ Lf pa aks avs # Lf pb bks bvs # ws))))) A'
        (set (ptrs (plug c (Nd p (ls @ rs) (us @ Lf pb (aks @ bks) (avs @ bvs) # ws))))) \<Longrightarrow> Q () A'"
  shows "runs (merge_with_prev True pb p (Suc (length us))) A Q"
proof (rule siblings_leaf_links[OF S])
  fix pv nx
  assume a: "A pa = Some (VLeaf (Some (p, length us)) aks avs pv (Some pb))"
    and b: "A pb = Some (VLeaf (Some (p, Suc (length us))) bks bvs (Some pa) nx)"
    and l: "\<And>l. pv = Some l \<Longrightarrow> l \<in> set (left_leaves c @ concat (map leaves us)) \<and> l \<noteq> pa \<and> l \<noteq> pb \<and>
       (\<exists>lpar lks lvs lp. A l = Some (VLeaf lpar lks lvs lp (Some pa)))"
    and r: "\<And>r. nx = Some r \<Longrightarrow> r \<in> set (concat (map leaves ws) @ right_leaves c) \<and> r \<noteq> pa \<and> r \<noteq> pb \<and>
       (\<exists>rpar rks rvs rn. A r = Some (VLeaf rpar rks rvs (Some pb) rn))"
    and lr: "pv \<noteq> nx \<or> pv = None"
  let ?n = "length us"
  have P: "A p = Some (VInt par (ls @ pk # rs) (map root_of us @ pa # pb # map root_of ws))"
      and ne: "pa \<noteq> pb" "p \<noteq> pa" "p \<noteq> pb" using S by (auto simp: siblings_def)
  let ?vb = "VLeaf (Some (p, Suc ?n)) (aks @ bks) (avs @ bvs) pv nx"
  let ?B = "A(pb \<mapsto> ?vb)"
  have tail: "runs (bindP (remove_edge p ?n False) (\<lambda>(_, e). bindP (assertP (e = pa)) (\<lambda>_. dealloc pa))) B Q"
    if B: "B pb = Some ?vb" "B pa = A pa" "\<And>q. q \<noteq> pb \<Longrightarrow> Some q \<noteq> pv \<Longrightarrow> B q = A q"
      and Bl: "\<And>l. pv = Some l \<Longrightarrow> \<exists>lpar lks lvs lp. A l = Some (VLeaf lpar lks lvs lp (Some pa)) \<and>
        B l = Some (VLeaf lpar lks lvs lp (Some pb))" for B
  proof -
    have "absorbed A B c p par (ls @ pk # rs) us (Lf pa aks avs) (Lf pb bks bvs) ws (Lf pb (aks @ bks) (avs @ bvs)) pa"
    proof (rule absorbed_leaf[OF S _ a b B(1,2)])
      show "q \<in> set (left_leaves c @ concat (map leaves us)) \<and> (\<exists>lpar lks lvs lp.
          A q = Some (VLeaf lpar lks lvs lp (Some pa)) \<and> B q = Some (VLeaf lpar lks lvs lp (Some pb)))"
        if "pv = Some q" for q using l[OF that] Bl[OF that] by blast
      show "q \<in> set (concat (map leaves ws) @ right_leaves c) \<and> (\<exists>rpar rks rvs rn.
          A q = Some (VLeaf rpar rks rvs (Some pb) rn) \<and> B q = Some (VLeaf rpar rks rvs (Some pb) rn))"
        if "nx = Some q" for q
      proof -
        have "B q = A q" by (rule B(3)) (use r[OF that] lr that in auto)
        with r[OF that] show ?thesis by simp
      qed
    qed (use B(3) in auto)
    then have "absorbed A B c p par (ls @ pk # rs) us (Lf pa aks avs) (Lf pb bks bvs) ws (Lf pb (aks @ bks) (avs @ bvs))
        (root_of (Lf pa aks avs))" by simp
    from runs_drop_prev[where A = A and B = B and c = c and Q = Q, OF this _ len(1,2) _ _ Q] show ?thesis
      using B(1,2) a by (simp add: is_child_def)
  qed
  show ?thesis
    unfolding merge_with_prev_def diff_Suc_1 if_True
    apply (rule runs_bind, rule runs_get_at[where A = A and r = pa, OF P])
    using len(1) apply (simp add: nth_append del: node_view.simps)
    apply (rule runs_bind, rule runs_bind, rule runs_merge_prev_leaf[where A = A and i = ?n])
    using a b len(3) apply (simp, simp, simp)
    apply (rule runs_bind, rule runs_get_at[where v = ?vb and r = pv])
    apply (simp, simp del: node_view.simps)
  proof (cases pv)
    case None
    then show "runs (case pv of None \<Rightarrow> ret () | Some np \<Rightarrow> upd_at np (set_next (Some pb))) (A(pb \<mapsto>
        VLeaf (Some (p, ?n + 1)) (aks @ bks) (avs @ bvs) pv nx)) (\<lambda>_ B. runs (bindP (remove_edge p ?n False)
          (\<lambda>(_, e). bindP (assertP (e = pa)) (\<lambda>_. dealloc pa))) B Q)"
      using ne by (auto intro!: runs_ret tail)
  next
    case (Some l)
    with l obtain lpar lks lvs lp where "A l = Some (VLeaf lpar lks lvs lp (Some pa))" "l \<noteq> pa" "l \<noteq> pb" by blast
    then show "runs (case pv of None \<Rightarrow> ret () | Some np \<Rightarrow> upd_at np (set_next (Some pb))) (A(pb \<mapsto>
        VLeaf (Some (p, ?n + 1)) (aks @ bks) (avs @ bvs) pv nx)) (\<lambda>_ B. runs (bindP (remove_edge p ?n False)
          (\<lambda>(_, e). bindP (assertP (e = pa)) (\<lambda>_. dealloc pa))) B Q)"
      using ne Some by (auto intro!: runs_upd_at[OF _ upd_set_next] tail split: if_splits)
  qed
qed

lemma runs_merge_with_next_leaf:
  fixes A :: "('k, 'v) vheap"
  assumes S: "siblings A c p par (ls @ pk # rs) us (Lf pa aks avs) (Lf pb bks bvs) ws"
    and len: "length us = length ls" "length ws = length rs" "length aks + length bks \<le> M"
    and Q: "\<And>A'. tree_in A' (plug c (Nd p (ls @ rs) (us @ Lf pa (aks @ bks) (avs @ bvs) # ws))) \<Longrightarrow>
      framed A (set (ptrs (plug c (Nd p (ls @ pk # rs) (us @ Lf pa aks avs # Lf pb bks bvs # ws))))) A'
        (set (ptrs (plug c (Nd p (ls @ rs) (us @ Lf pa (aks @ bks) (avs @ bvs) # ws))))) \<Longrightarrow> Q () A'"
  shows "runs (merge_with_next True pa p (length us)) A Q"
proof (rule siblings_leaf_links[OF S])
  fix pv nx
  assume a: "A pa = Some (VLeaf (Some (p, length us)) aks avs pv (Some pb))"
    and b: "A pb = Some (VLeaf (Some (p, Suc (length us))) bks bvs (Some pa) nx)"
    and l: "\<And>l. pv = Some l \<Longrightarrow> l \<in> set (left_leaves c @ concat (map leaves us)) \<and> l \<noteq> pa \<and> l \<noteq> pb \<and>
       (\<exists>lpar lks lvs lp. A l = Some (VLeaf lpar lks lvs lp (Some pa)))"
    and r: "\<And>r. nx = Some r \<Longrightarrow> r \<in> set (concat (map leaves ws) @ right_leaves c) \<and> r \<noteq> pa \<and> r \<noteq> pb \<and>
       (\<exists>rpar rks rvs rn. A r = Some (VLeaf rpar rks rvs (Some pb) rn))"
    and lr: "pv \<noteq> nx \<or> pv = None"
  let ?n = "length us"
  have P: "A p = Some (VInt par (ls @ pk # rs) (map root_of us @ pa # pb # map root_of ws))"
      and ne: "pa \<noteq> pb" "p \<noteq> pa" "p \<noteq> pb" using S by (auto simp: siblings_def)
  let ?va = "VLeaf (Some (p, ?n)) (aks @ bks) (avs @ bvs) pv nx"
  have tail: "runs (bindP (remove_edge p ?n True) (\<lambda>(_, e). bindP (assertP (e = pb)) (\<lambda>_. dealloc pb))) B Q"
    if B: "B pa = Some ?va" "B pb = A pb" "\<And>q. q \<noteq> pa \<Longrightarrow> Some q \<noteq> nx \<Longrightarrow> B q = A q"
      and Br: "\<And>r. nx = Some r \<Longrightarrow> \<exists>rpar rks rvs rn. A r = Some (VLeaf rpar rks rvs (Some pb) rn) \<and>
        B r = Some (VLeaf rpar rks rvs (Some pa) rn)" for B
  proof -
    have "absorbed A B c p par (ls @ pk # rs) us (Lf pa aks avs) (Lf pb bks bvs) ws (Lf pa (aks @ bks) (avs @ bvs)) pb"
    proof (rule absorbed_leaf[OF S _ a b B(1,2)])
      show "q \<in> set (concat (map leaves ws) @ right_leaves c) \<and> (\<exists>rpar rks rvs rn.
          A q = Some (VLeaf rpar rks rvs (Some pb) rn) \<and> B q = Some (VLeaf rpar rks rvs (Some pa) rn))"
        if "nx = Some q" for q using r[OF that] Br[OF that] by blast
      show "q \<in> set (left_leaves c @ concat (map leaves us)) \<and> (\<exists>lpar lks lvs lp.
          A q = Some (VLeaf lpar lks lvs lp (Some pa)) \<and> B q = Some (VLeaf lpar lks lvs lp (Some pa)))"
        if "pv = Some q" for q
      proof -
        have "B q = A q" by (rule B(3)) (use l[OF that] lr that in auto)
        with l[OF that] show ?thesis by simp
      qed
    qed (use B(3) in auto)
    then have "absorbed A B c p par (ls @ pk # rs) us (Lf pa aks avs) (Lf pb bks bvs) ws (Lf pa (aks @ bks) (avs @ bvs))
        (root_of (Lf pb bks bvs))" by simp
    from runs_drop_next[where A = A and B = B and c = c and Q = Q, OF this _ len(1,2) _ _ Q] show ?thesis
      using B(1,2) b by (simp add: is_child_def)
  qed
  show ?thesis
    unfolding merge_with_next_def if_True
    apply (rule runs_bind, rule runs_get_at[where A = A and r = pb, OF P])
    using len(1) apply (simp add: nth_append del: node_view.simps)
    apply (rule runs_bind, rule runs_bind, rule runs_merge_next_leaf[where A = A and i = ?n, OF a])
    using b len(3) apply (simp, simp)
    apply (rule runs_bind, rule runs_get_at[where v = ?va and r = nx])
    apply (simp, simp del: node_view.simps)
  proof (cases nx)
    case None
    then show "runs (case nx of None \<Rightarrow> ret () | Some nn \<Rightarrow> upd_at nn (set_prev (Some pa))) (A(pa \<mapsto> ?va))
        (\<lambda>_ B. runs (bindP (remove_edge p ?n True)
          (\<lambda>(_, e). bindP (assertP (e = pb)) (\<lambda>_. dealloc pb))) B Q)"
      using ne by (auto intro!: runs_ret tail)
  next
    case (Some q)
    with r obtain rpar rks rvs rn where "A q = Some (VLeaf rpar rks rvs (Some pb) rn)" "q \<noteq> pa" "q \<noteq> pb" by blast
    then show "runs (case nx of None \<Rightarrow> ret () | Some nn \<Rightarrow> upd_at nn (set_prev (Some pa))) (A(pa \<mapsto> ?va))
        (\<lambda>_ B. runs (bindP (remove_edge p ?n True)
          (\<lambda>(_, e). bindP (assertP (e = pb)) (\<lambda>_. dealloc pb))) B Q)"
      using ne Some by (auto intro!: runs_upd_at[OF _ upd_set_prev] tail split: if_splits)
  qed
qed

subsection \<open>Internal nodes\<close>

lemma absorbed_int:
  assumes S: "siblings A c p par ks us (Nd pa aks ats) (Nd pb bks bts) ws"
    and zg: "z = pa \<and> g = pb \<or> z = pb \<and> g = pa"
    and z: "B z = Some (VInt zpar xks (map root_of (ats @ bts)))" and g: "B g = A g"
    and par: "\<And>q. q \<noteq> pa \<Longrightarrow> q \<noteq> pb \<Longrightarrow> parsim A B q"
    and same: "\<And>q. q \<noteq> pa \<Longrightarrow> q \<noteq> pb \<Longrightarrow> q \<notin> set (map root_of (ats @ bts)) \<Longrightarrow> B q = A q"
  shows "absorbed A B c p par ks us (Nd pa aks ats) (Nd pb bks bts) ws (Nd z xks (ats @ bts)) g"
proof -
  let ?t = "plug c (Nd p ks (us @ Nd pa aks ats # Nd pb bks bts # ws))"
  note s = siblings_ints[OF S]
  have roots: "set (map root_of (ats @ bts)) \<subseteq> ptrss (ats @ bts)" using roots_in_ptrss[of "ats @ bts"] by auto
  have sets: "set (ptrs (Nd pa aks ats)) \<union> set (ptrs (Nd pb bks bts)) = insert pa (insert pb (ptrss (ats @ bts)))"
    by auto
  have strip: "map_option strip (B q) = map_option strip (A q)"
    if "q \<notin> set (ptrs (Nd pa aks ats)) \<union> set (ptrs (Nd pb bks bts))" for q
  proof -
    have "q \<notin> set (map root_of (ats @ bts))" "q \<noteq> pa" "q \<noteq> pb" using that roots unfolding sets by blast+
    then show ?thesis using same by simp
  qed
  have Bp: "B p = A p" by (rule same) (use s(7,8,10) in auto)
  have out: "B q = A q" if "q \<notin> set (ptrs ?t)" for q
  proof (rule same)
    have "q \<notin> set (ptrs (Nd pa aks ats)) \<union> set (ptrs (Nd pb bks bts))" using that by (auto simp: plug_ptrs)
    then show "q \<noteq> pa" "q \<noteq> pb" "q \<notin> set (map root_of (ats @ bts))" using roots unfolding sets by blast+
  qed
  have dom: "dom B = dom A"
  proof (rule set_eqI)
    fix q show "q \<in> dom B \<longleftrightarrow> q \<in> dom A"
      using parsim_dom[OF par, of q] s(1,2) z g zg by (cases "q = pa \<or> q = pb") auto
  qed
  have links: "links B q = links A q" for q
  proof (cases "q = pa \<or> q = pb")
    case True
    then show ?thesis using s(1,2) z g zg by (auto simp: links_def)
  qed (use par in \<open>auto intro: links_parsim\<close>)
  have "linked B None (left_leaves c @ concat (map leaves us) @ leaves (Nd z xks (ats @ bts)) @ concat (map leaves ws) @ right_leaves c) None"
    unfolding linked_all[OF links] using S by (simp add: siblings_def)
  moreover have "distinct (ptrs (Nd z xks (ats @ bts)))" using s(13,14) zg by auto
  moreover have "set (ptrs (Nd z xks (ats @ bts))) = insert pa (insert pb (ptrss (ats @ bts))) - {g}"
    using s(6,14) zg by auto
  moreover have "g \<in> insert pa (insert pb (ptrss (ats @ bts)))" using zg by blast
  ultimately show ?thesis unfolding absorbed_def sets using S Bp strip[unfolded sets] out dom by blast
qed

lemma reps_after_merge:
  assumes "reps A pa 0 ats" "reps A pb 0 bts" "distinct (concat (map ptrs (ats @ bts)))"
    and ch: "\<And>j. j < length ats \<Longrightarrow> is_child B (root_of (ats ! j)) z j"
      "\<And>j. j < length bts \<Longrightarrow> is_child B (root_of (bts ! j)) z (length ats + j)"
    and par: "\<And>q. q \<in> set (map root_of (ats @ bts)) \<Longrightarrow> parsim A B q"
    and same: "\<And>q. q \<in> ptrss (ats @ bts) \<Longrightarrow> q \<notin> set (map root_of (ats @ bts)) \<Longrightarrow> B q = A q"
  shows "reps B z 0 (ats @ bts)"
proof (rule reps_children[where A = A])
  show "all_rep A (ats @ bts)" using reps_all_rep[OF assms(1)] reps_all_rep[OF assms(2)] by auto
  show "is_child B (root_of ((ats @ bts) ! j)) z (0 + j)" if "j < length (ats @ bts)" for j
    using ch(1)[of j] ch(2)[of "j - length ats"] that by (cases "j < length ats") (simp_all add: nth_append)
  show "parsim A B q" if "q \<in> root_of ` set (ats @ bts)" for q by (rule par) (use that in auto)
  show "B q = A q" if "q \<in> ptrss (ats @ bts)" "q \<notin> root_of ` set (ats @ bts)" for q
    by (rule same[OF that(1)]) (use that(2) in auto)
qed (rule assms(3))

lemma runs_merge_with_prev_internal:
  fixes A :: "('k, 'v) vheap"
  assumes S: "siblings A c p par (ls @ pk # rs) us (Nd pa aks ats) (Nd pb bks bts) ws"
    and len: "length us = length ls" "length ws = length rs" "length ats = length aks + 1" "length bts = length bks + 1"
      "length aks + length bks < M"
    and Q: "\<And>A'. tree_in A' (plug c (Nd p (ls @ rs) (us @ Nd pb (aks @ pk # bks) (ats @ bts) # ws))) \<Longrightarrow>
      framed A (set (ptrs (plug c (Nd p (ls @ pk # rs) (us @ Nd pa aks ats # Nd pb bks bts # ws))))) A'
        (set (ptrs (plug c (Nd p (ls @ rs) (us @ Nd pb (aks @ pk # bks) (ats @ bts) # ws))))) \<Longrightarrow> Q () A'"
  shows "runs (merge_with_prev False pb p (Suc (length us))) A Q"
proof -
  note s = siblings_ints[OF S]
  let ?n = "length us" and ?l = "length aks"
  define ra rb where r: "ra = map root_of ats" "rb = map root_of bts"
  have rab: "p \<notin> set ra" "pa \<notin> set ra" "pb \<notin> set ra" "p \<notin> set rb" "pa \<notin> set rb" "pb \<notin> set rb"
      "set ra \<inter> set rb = {}" "distinct ra" "distinct rb"
    using s(9-12) by (auto simp: r)
  have a: "A pa = Some (VInt (Some (p, ?n)) aks ra)" and b: "A pb = Some (VInt (Some (p, Suc ?n)) bks rb)"
    using s(1,2) by (simp_all add: r)
  let ?A1 = "repar (new_parent pb) ra A"
  let ?vb = "VInt (Some (p, ?n + 1)) (aks @ pk # bks) (ra @ rb)"
  let ?B = "(repar (shift_idx (\<lambda>j. j + (?l + 1))) rb ?A1)(pb \<mapsto> ?vb)"
  have cha: "is_child A (root_of (ats ! j)) pa j" "root_of (ats ! j) \<in> set ra" if "j < length ats" for j
    using reps_is_child[OF s(4) that] that by (simp_all add: r)
  have chb: "is_child A (root_of (bts ! j)) pb j" "root_of (bts ! j) \<in> set rb" if "j < length bts" for j
    using reps_is_child[OF s(5) that] that by (simp_all add: r)
  have chra: "\<exists>q i. is_child A e q i" if e: "e \<in> set ra" for e
  proof -
    from e obtain j where "j < length ats" "e = root_of (ats ! j)" by (auto simp: r in_set_conv_nth)
    with cha(1)[OF this(1)] show ?thesis by blast
  qed
  have chrb: "\<exists>q i. is_child ?A1 e q i \<and> i \<le> M" if "e \<in> set rb" for e
  proof -
    from that obtain j where j: "j < length bts" "e = root_of (bts ! j)" by (auto simp: r in_set_conv_nth)
    moreover have "e \<notin> set ra" using that rab(7) by auto
    ultimately have "is_child ?A1 e pb j" using chb(1) by simp
    then show ?thesis using j(1) len(4,5) by (intro exI[of _ pb] exI[of _ j]) simp
  qed
  have par: "parsim A ?B q" if "q \<noteq> pb" for q
  proof -
    have "parsim A (repar (shift_idx (\<lambda>j. j + (?l + 1))) rb ?A1) q"
      by (rule parsim_trans[OF parsim_repar parsim_repar])
    then show ?thesis by (subst parsim_upd_other) (use that in auto)
  qed
  have same: "?B q = A q" if "q \<noteq> pb" "q \<notin> set (map root_of (ats @ bts))" for q using that by (simp add: r)
  have "reps ?B pb 0 (ats @ bts)"
  proof (rule reps_after_merge[OF s(4,5,13)])
    show "is_child ?B (root_of (ats ! j)) pb j" if "j < length ats" for j
    proof -
      have "root_of (ats ! j) \<noteq> pb" "root_of (ats ! j) \<notin> set rb" using cha(2)[OF that] rab by auto
      moreover have "is_child ?A1 (root_of (ats ! j)) pb j" using cha[OF that] by (rule is_child_repar(2))
      ultimately show ?thesis by simp
    qed
    show "is_child ?B (root_of (bts ! j)) pb (length ats + j)" if "j < length bts" for j
    proof -
      have ne: "root_of (bts ! j) \<noteq> pb" "root_of (bts ! j) \<notin> set ra" using chb(2)[OF that] rab by auto
      then have "is_child ?A1 (root_of (bts ! j)) pb j" using chb(1)[OF that] by simp
      from is_child_repar(1)[OF this chb(2)[OF that], of "\<lambda>j. j + (?l + 1)"] show ?thesis
        using ne len(3) by (simp add: add.commute)
    qed
    show "parsim A ?B q" if "q \<in> set (map root_of (ats @ bts))" for q
      by (rule par) (use that rab in \<open>auto simp: r\<close>)
    show "?B q = A q" if "q \<in> ptrss (ats @ bts)" "q \<notin> set (map root_of (ats @ bts))" for q
      by (rule same) (use that s(14) in auto)
  qed
  then have rep: "rep ?B (Some (p, Suc ?n)) (Nd pb (aks @ pk # bks) (ats @ bts))" by (simp add: r)
  have Bpa: "?B pa = A pa" by (rule same) (use s(6) rab in \<open>auto simp: r\<close>)
  have "absorbed A ?B c p par (ls @ pk # rs) us (Nd pa aks ats) (Nd pb bks bts) ws (Nd pb (aks @ pk # bks) (ats @ bts)) pa"
    by (rule absorbed_int[OF S _ _ Bpa par]) (use same in \<open>auto simp: r\<close>)
  then have B: "absorbed A ?B c p par (ls @ pk # rs) us (Nd pa aks ats) (Nd pb bks bts) ws (Nd pb (aks @ pk # bks) (ats @ bts))
      (root_of (Nd pa aks ats))" by simp
  have "is_child ?B pa p ?n" using Bpa a by (simp add: is_child_def)
  with runs_drop_prev[where A = A and B = ?B and c = c and Q = Q, OF B _ len(1,2) _ rep] Q
  have tail: "runs (bindP (remove_edge p ?n False) (\<lambda>(_, e). bindP (assertP (e = pa)) (\<lambda>_. dealloc pa))) ?B Q"
    by simp
  show ?thesis
    unfolding merge_with_prev_def diff_Suc_1 if_False
    apply (rule runs_bind, rule runs_get_at[where A = A and r = pa, OF s(3)])
    using len(1) apply (simp add: nth_append del: node_view.simps)
    apply (rule runs_bind, rule runs_bind, rule runs_get_at[where A = A and r = pk, OF s(3)])
    using len(1) apply (simp add: nth_append del: node_view.simps)
    apply (rule runs_bind, rule runs_get_at[where A = A and r = ra, OF a])
     apply (simp del: node_view.simps)
    apply (rule runs_bind, rule runs_for_each_parent[OF rab(8) chra], assumption)
    apply (rule runs_merge_prev_internal[where p = p and i = ?n and pks = aks and pes = ra and ks = bks and es = rb])
    using a b rab len(5) chrb tail by simp_all
qed

lemma runs_merge_with_next_internal:
  fixes A :: "('k, 'v) vheap"
  assumes S: "siblings A c p par (ls @ pk # rs) us (Nd pa aks ats) (Nd pb bks bts) ws"
    and len: "length us = length ls" "length ws = length rs" "length ats = length aks + 1" "length bts = length bks + 1"
      "length aks + length bks < M"
    and Q: "\<And>A'. tree_in A' (plug c (Nd p (ls @ rs) (us @ Nd pa (aks @ pk # bks) (ats @ bts) # ws))) \<Longrightarrow>
      framed A (set (ptrs (plug c (Nd p (ls @ pk # rs) (us @ Nd pa aks ats # Nd pb bks bts # ws))))) A'
        (set (ptrs (plug c (Nd p (ls @ rs) (us @ Nd pa (aks @ pk # bks) (ats @ bts) # ws))))) \<Longrightarrow> Q () A'"
  shows "runs (merge_with_next False pa p (length us)) A Q"
proof -
  note s = siblings_ints[OF S]
  let ?n = "length us" and ?l = "length aks"
  define ra rb where r: "ra = map root_of ats" "rb = map root_of bts"
  have rab: "p \<notin> set ra" "pa \<notin> set ra" "pb \<notin> set ra" "p \<notin> set rb" "pa \<notin> set rb" "pb \<notin> set rb"
      "set ra \<inter> set rb = {}" "distinct ra" "distinct rb"
    using s(9-12) by (auto simp: r)
  have a: "A pa = Some (VInt (Some (p, ?n)) aks ra)" and b: "A pb = Some (VInt (Some (p, Suc ?n)) bks rb)"
    using s(1,2) by (simp_all add: r)
  let ?A1 = "repar (new_parent pa) rb A"
  let ?va = "VInt (Some (p, ?n)) (aks @ pk # bks) (ra @ rb)"
  let ?B = "(repar (shift_idx (\<lambda>j. j + (?l + 1))) rb ?A1)(pa \<mapsto> ?va)"
  have cha: "is_child A (root_of (ats ! j)) pa j" "root_of (ats ! j) \<in> set ra" if "j < length ats" for j
    using reps_is_child[OF s(4) that] that by (simp_all add: r)
  have chb: "is_child A (root_of (bts ! j)) pb j" "root_of (bts ! j) \<in> set rb" if "j < length bts" for j
    using reps_is_child[OF s(5) that] that by (simp_all add: r)
  have chrb: "\<exists>q i. is_child A e q i" if e: "e \<in> set rb" for e
  proof -
    from e obtain j where "j < length bts" "e = root_of (bts ! j)" by (auto simp: r in_set_conv_nth)
    with chb(1)[OF this(1)] show ?thesis by blast
  qed
  have chrb': "\<exists>q i. is_child ?A1 e q i \<and> i \<le> M" if e: "e \<in> set rb" for e
  proof -
    from e obtain j where j: "j < length bts" "e = root_of (bts ! j)" by (auto simp: r in_set_conv_nth)
    with is_child_repar(2)[OF chb(1)[OF j(1)], of rb pa] e have "is_child ?A1 e pa j" by simp
    then show ?thesis using j(1) len(4,5) by (intro exI[of _ pa] exI[of _ j]) simp
  qed
  have par: "parsim A ?B q" if "q \<noteq> pa" for q
  proof -
    have "parsim A (repar (shift_idx (\<lambda>j. j + (?l + 1))) rb ?A1) q"
      by (rule parsim_trans[OF parsim_repar parsim_repar])
    then show ?thesis by (subst parsim_upd_other) (use that in auto)
  qed
  have same: "?B q = A q" if "q \<noteq> pa" "q \<notin> set (map root_of (ats @ bts))" for q using that by (simp add: r)
  have "reps ?B pa 0 (ats @ bts)"
  proof (rule reps_after_merge[OF s(4,5,13)])
    show "is_child ?B (root_of (ats ! j)) pa j" if "j < length ats" for j
    proof -
      have "root_of (ats ! j) \<noteq> pa" "root_of (ats ! j) \<notin> set rb" using cha(2)[OF that] rab by auto
      then show ?thesis using cha(1)[OF that] by simp
    qed
    show "is_child ?B (root_of (bts ! j)) pa (length ats + j)" if "j < length bts" for j
    proof -
      have ne: "root_of (bts ! j) \<noteq> pa" using chb(2)[OF that] rab by auto
      have "is_child ?A1 (root_of (bts ! j)) pa j" using chb[OF that] by (rule is_child_repar(2))
      from is_child_repar(1)[OF this chb(2)[OF that], of "\<lambda>j. j + (?l + 1)"] show ?thesis
        using ne len(3) by (simp add: add.commute)
    qed
    show "parsim A ?B q" if "q \<in> set (map root_of (ats @ bts))" for q
      by (rule par) (use that rab in \<open>auto simp: r\<close>)
    show "?B q = A q" if "q \<in> ptrss (ats @ bts)" "q \<notin> set (map root_of (ats @ bts))" for q
      by (rule same) (use that s(14) in auto)
  qed
  then have rep: "rep ?B (Some (p, ?n)) (Nd pa (aks @ pk # bks) (ats @ bts))" by (simp add: r)
  have Bpb: "?B pb = A pb" by (rule same) (use s(6) rab in \<open>auto simp: r\<close>)
  have "absorbed A ?B c p par (ls @ pk # rs) us (Nd pa aks ats) (Nd pb bks bts) ws (Nd pa (aks @ pk # bks) (ats @ bts)) pb"
    by (rule absorbed_int[OF S _ _ Bpb par]) (use same in \<open>auto simp: r\<close>)
  then have B: "absorbed A ?B c p par (ls @ pk # rs) us (Nd pa aks ats) (Nd pb bks bts) ws (Nd pa (aks @ pk # bks) (ats @ bts))
      (root_of (Nd pb bks bts))" by simp
  have "is_child ?B pb p (Suc ?n)" using Bpb b by (simp add: is_child_def)
  with runs_drop_next[where A = A and B = ?B and c = c and Q = Q, OF B _ len(1,2) _ rep] Q
  have tail: "runs (bindP (remove_edge p ?n True) (\<lambda>(_, e). bindP (assertP (e = pb)) (\<lambda>_. dealloc pb))) ?B Q"
    by simp
  show ?thesis
    unfolding merge_with_next_def if_False
    apply (rule runs_bind, rule runs_get_at[where A = A and r = pb, OF s(3)])
    using len(1) apply (simp add: nth_append del: node_view.simps)
    apply (rule runs_bind, rule runs_bind, rule runs_get_at[where A = A and r = pk, OF s(3)])
    using len(1) apply (simp add: nth_append del: node_view.simps)
    apply (rule runs_bind, rule runs_get_at[where A = A and r = rb, OF b])
     apply (simp del: node_view.simps)
    apply (rule runs_bind, rule runs_for_each_parent[OF rab(9) chrb], assumption)
    apply (rule runs_merge_next_internal[where p = p and i = ?n and nks = bks and nes = rb and ks = aks and es = ra])
    using a b rab len(5) chrb' tail by simp_all
qed

end
