(* ===== verification/Rebalance.thy ===== *)
theory Rebalance
  imports Merging
begin

text \<open>
  The steps of \<open>post_removal\<close> stated without regard to the kind of the nodes: borrowing from a
  sibling, merging with a sibling, what they do to the flat list of the node, and the loop up the
  tree, by induction on the path.
\<close>

subsection \<open>Borrowing\<close>

lemma ordered_drop: "ordered (xs @ y # zs) \<Longrightarrow> ordered (xs @ zs)"
  by (simp add: ordered_append ordered_Cons)

lemma weave_snoc: "length xs = length ks + 1 \<Longrightarrow> weave (ks @ [k]) (xs @ [x]) = weave ks xs @ Sep k # x"
  using weave_cut[of "xs @ [x]" "ks @ [k]" "length ks"] by (simp add: nth_append)

lemma sep_before_weave: "length xs = length ks + 1 \<Longrightarrow> sep_before (k # ks) xs = Sep k # weave ks xs"
  by (cases xs) auto

lemma weave_join:
  "length xs = length ks + 1 \<Longrightarrow> length ys = length ls + 1 \<Longrightarrow>
   weave (ks @ k # ls) (xs @ ys) = weave ks xs @ Sep k # weave ls ys"
  using weave_cut[of "xs @ ys" "ks @ k # ls" "length ks"] by (simp add: nth_append)

text \<open>What a step does to the items of the two children and the separator between them.\<close>

definition reorders :: "('k::linorder, 'v) item list \<Rightarrow> ('k, 'v) item list \<Rightarrow> bool" where
  "reorders its its' \<longleftrightarrow> ents its' = ents its \<and> (\<forall>X Y. ordered (X @ its @ Y) \<longrightarrow> ordered (X @ its' @ Y))"

lemma reorders_refl: "its' = its \<Longrightarrow> reorders its its'"
  by (simp add: reorders_def)

lemma reorders_drop_sep: "reorders (xs @ Sep k # ys) (xs @ ys)"
  unfolding reorders_def using ordered_drop[of "_ @ xs" "Sep k" "ys @ _"] by auto

lemma reorders_move_sep:
  "reorders (xs @ Ent a b # Ent k v # Sep pk # ys) (xs @ Ent a b # Sep k # Ent k v # ys)"
  "reorders (xs @ Sep pk # Ent a b # Ent k v # ys) (xs @ Ent a b # Sep k # Ent k v # ys)"
proof -
  show "reorders (xs @ Ent a b # Ent k v # Sep pk # ys) (xs @ Ent a b # Sep k # Ent k v # ys)"
    unfolding reorders_def
  proof (intro conjI allI impI)
    fix X Y assume "ordered (X @ (xs @ Ent a b # Ent k v # Sep pk # ys) @ Y)"
    then have "ordered ((X @ xs) @ Ent a b # Ent k v # ys @ Y)"
      using ordered_drop[of "X @ xs @ [Ent a b, Ent k v]" "Sep pk" "ys @ Y"] by simp
    from ordered_separate[OF this] show "ordered (X @ (xs @ Ent a b # Sep k # Ent k v # ys) @ Y)" by simp
  qed simp
  show "reorders (xs @ Sep pk # Ent a b # Ent k v # ys) (xs @ Ent a b # Sep k # Ent k v # ys)"
    unfolding reorders_def
  proof (intro conjI allI impI)
    fix X Y assume "ordered (X @ (xs @ Sep pk # Ent a b # Ent k v # ys) @ Y)"
    then have "ordered ((X @ xs) @ Ent a b # Ent k v # ys @ Y)"
      using ordered_drop[of "X @ xs" "Sep pk"] by simp
    from ordered_separate[OF this] show "ordered (X @ (xs @ Ent a b # Sep k # Ent k v # ys) @ Y)" by simp
  qed simp
qed

lemma runs_try_borrow_prev:
  fixes A :: "('k::linorder, 'v) vheap"
  assumes S: "siblings A c p par (ls @ pk # rs) us a b ws" and len: "length us = length ls"
    and b: "bal h a" "bal h b" "filled (M div 2) a" "filled 0 b" "M div 2 - 1 \<le> nkeys b" "nkeys b < M div 2"
    and yes: "\<And>A' k a' b'. tree_in A' (plug c (Nd p (ls @ k # rs) (us @ a' # b' # ws))) \<Longrightarrow>
      framed A (set (ptrs (plug c (Nd p (ls @ pk # rs) (us @ a # b # ws))))) A'
        (set (ptrs (plug c (Nd p (ls @ k # rs) (us @ a' # b' # ws))))) \<Longrightarrow>
      bal h a' \<Longrightarrow> bal h b' \<Longrightarrow> filled (M div 2) a' \<Longrightarrow> filled (M div 2) b' \<Longrightarrow>
      reorders (flat a @ Sep pk # flat b) (flat a' @ Sep k # flat b') \<Longrightarrow> Q True A'"
    and no: "nkeys a = M div 2 \<Longrightarrow> Q False A"
  shows "runs (try_borrow_prev (h = 0) (root_of b) p (Suc (length us))) A Q"
proof -
  let ?n = "length us"
  have P: "A p = Some (VInt par (ls @ pk # rs) (map root_of us @ root_of a # root_of b # map root_of ws))"
    using S by (simp add: siblings_def)
  obtain va where va: "A (root_of a) = Some va" "vlen va = nkeys a"
    using S by (cases a) (auto simp: siblings_def)
  have borrow: "runs (if h = 0 then borrow_prev_leaf (root_of b) p (Suc ?n) (root_of a)
      else borrow_prev_internal (root_of b) p (Suc ?n) (root_of a)) A (\<lambda>_. Q True)" if many: "M div 2 < nkeys a"
  proof (cases h)
    case 0
    obtain pa aks avs pb bks bvs where ab: "a = Lf pa aks avs" "b = Lf pb bks bvs"
        "length avs = length aks" "length bvs = length bks"
      using b(1,2) unfolding 0 bal_leaf_cases by blast
    obtain aks0 k avs0 v where kv: "aks = aks0 @ [k]" "avs = avs0 @ [v]" "length avs0 = length aks0"
      using ab many by (cases aks rule: rev_cases; cases avs rule: rev_cases) auto
    obtain aks1 k1 avs1 v1 where kv1: "aks0 = aks1 @ [k1]" "avs0 = avs1 @ [v1]" "length avs1 = length aks1"
      using ab many kv by (cases aks0 rule: rev_cases; cases avs0 rule: rev_cases) (auto simp: M_def)
    have ae: "a = Lf pa (aks0 @ [k]) (avs0 @ [v])" using ab kv by simp
    note S' = S[unfolded ae ab(2)]
    have "runs (borrow_prev_leaf pb p (Suc ?n) pa) A (\<lambda>_. Q True)"
    proof (rule runs_borrow_prev_leaf[OF S' len kv(3)])
      show "length bks < M" using b(6) ab by (simp add: M_def)
      fix A' assume A': "tree_in A' (plug c (Nd p (ls @ k # rs) (us @ Lf pa aks0 avs0 # Lf pb (k # bks) (v # bvs) # ws)))"
        "framed A (set (ptrs (plug c (Nd p (ls @ pk # rs) (us @ Lf pa (aks0 @ [k]) (avs0 @ [v]) # Lf pb bks bvs # ws))))) A'
          (set (ptrs (plug c (Nd p (ls @ k # rs) (us @ Lf pa aks0 avs0 # Lf pb (k # bks) (v # bvs) # ws)))))"
      show "Q True A'"
        by (rule yes[OF A'(1) A'(2)[folded ae ab(2)]])
          (use b many ab kv kv1 reorders_move_sep(1)[of "map2 Ent aks1 avs1" k1 v1 k v pk "map2 Ent bks bvs"] in
            \<open>simp_all add: M_def\<close>)
    qed
    then show ?thesis using 0 ab by simp
  next
    case (Suc h')
    obtain pa aks ats pb bks bts where ab: "a = Nd pa aks ats" "b = Nd pb bks bts"
        "length ats = length aks + 1" "length bts = length bks + 1" "\<forall>u\<in>set ats. bal h' u" "\<forall>u\<in>set bts. bal h' u"
      using b(1,2) unfolding Suc bal_Suc_cases by blast
    obtain aks0 k ats0 x where kv: "aks = aks0 @ [k]" "ats = ats0 @ [x]" "length ats0 = length aks0 + 1"
      using ab many by (cases aks rule: rev_cases; cases ats rule: rev_cases) auto
    have ae: "a = Nd pa (aks0 @ [k]) (ats0 @ [x])" using ab kv by simp
    note S' = S[unfolded ae ab(2)]
    have "runs (borrow_prev_internal pb p (Suc ?n) pa) A (\<lambda>_. Q True)"
    proof (rule runs_borrow_prev_internal[OF S' len kv(3) ab(4)])
      show "length bks < M" using b(6) ab by (simp add: M_def)
      fix A' assume A': "tree_in A' (plug c (Nd p (ls @ k # rs) (us @ Nd pa aks0 ats0 # Nd pb (pk # bks) (x # bts) # ws)))"
        "framed A (set (ptrs (plug c (Nd p (ls @ pk # rs) (us @ Nd pa (aks0 @ [k]) (ats0 @ [x]) # Nd pb bks bts # ws))))) A'
          (set (ptrs (plug c (Nd p (ls @ k # rs) (us @ Nd pa aks0 ats0 # Nd pb (pk # bks) (x # bts) # ws)))))"
      show "Q True A'"
        by (rule yes[OF A'(1) A'(2)[folded ae ab(2)]])
          (use b many ab kv Suc in \<open>simp_all add: M_def weave_snoc sep_before_weave reorders_refl\<close>)
    qed
    then show ?thesis using Suc ab by simp
  qed
  show ?thesis
    unfolding try_borrow_prev_def diff_Suc_1 if_P[OF zero_less_Suc]
    apply (rule runs_bind, rule runs_get_at[where A = A and r = "root_of a", OF P])
    using len apply (simp add: nth_append del: node_view.simps)
    apply (rule runs_bind, rule runs_len_at[where A = A, OF va(1)], rule runs_if)
     apply (rule runs_bind, rule runs_conseq, rule borrow)
    using va(2) b(3) no by (auto intro!: runs_ret dest: filled_nkeys)
qed

lemma runs_try_borrow_next:
  fixes A :: "('k::linorder, 'v) vheap"
  assumes S: "siblings A c p par (ls @ pk # rs) us a b ws" and len: "length us = length ls"
    and b: "bal h a" "bal h b" "filled (M div 2) b" "filled 0 a" "M div 2 - 1 \<le> nkeys a" "nkeys a < M div 2"
    and yes: "\<And>A' k a' b'. tree_in A' (plug c (Nd p (ls @ k # rs) (us @ a' # b' # ws))) \<Longrightarrow>
      framed A (set (ptrs (plug c (Nd p (ls @ pk # rs) (us @ a # b # ws))))) A'
        (set (ptrs (plug c (Nd p (ls @ k # rs) (us @ a' # b' # ws))))) \<Longrightarrow>
      bal h a' \<Longrightarrow> bal h b' \<Longrightarrow> filled (M div 2) a' \<Longrightarrow> filled (M div 2) b' \<Longrightarrow>
      reorders (flat a @ Sep pk # flat b) (flat a' @ Sep k # flat b') \<Longrightarrow> Q True A'"
    and no: "nkeys b = M div 2 \<Longrightarrow> Q False A"
  shows "runs (try_borrow_next (h = 0) (root_of a) p (length us)) A Q"
proof -
  let ?n = "length us"
  have P: "A p = Some (VInt par (ls @ pk # rs) (map root_of us @ root_of a # root_of b # map root_of ws))"
    using S by (simp add: siblings_def)
  obtain vb where vb: "A (root_of b) = Some vb" "vlen vb = nkeys b"
    using S by (cases b) (auto simp: siblings_def)
  have borrow: "runs (if h = 0 then borrow_next_leaf (root_of a) p ?n (root_of b)
      else borrow_next_internal (root_of a) p ?n (root_of b)) A (\<lambda>_. Q True)" if many: "M div 2 < nkeys b"
  proof (cases h)
    case 0
    obtain pa aks avs pb bks bvs where ab: "a = Lf pa aks avs" "b = Lf pb bks bvs"
        "length avs = length aks" "length bvs = length bks"
      using b(1,2) unfolding 0 bal_leaf_cases by blast
    obtain k bks0 v bvs0 where kv: "bks = k # bks0" "bvs = v # bvs0" "length bvs0 = length bks0"
      using ab many by (cases bks; cases bvs) auto
    obtain k1 bks1 v1 bvs1 where kv1: "bks0 = k1 # bks1" "bvs0 = v1 # bvs1" "length bvs1 = length bks1"
      using ab many kv by (cases bks0; cases bvs0) (auto simp: M_def)
    have be: "b = Lf pb (k # k1 # bks1) (v # v1 # bvs1)" using ab kv kv1 by simp
    note S' = S[unfolded ab(1) be]
    have "runs (borrow_next_leaf pa p ?n pb) A (\<lambda>_. Q True)"
    proof (rule runs_borrow_next_leaf[OF S' len ab(3)])
      show "length aks < M" using b(6) ab by (simp add: M_def)
      fix A' assume A': "tree_in A' (plug c (Nd p (ls @ k1 # rs) (us @ Lf pa (aks @ [k]) (avs @ [v]) # Lf pb (k1 # bks1) (v1 # bvs1) # ws)))"
        "framed A (set (ptrs (plug c (Nd p (ls @ pk # rs) (us @ Lf pa aks avs # Lf pb (k # k1 # bks1) (v # v1 # bvs1) # ws))))) A'
          (set (ptrs (plug c (Nd p (ls @ k1 # rs) (us @ Lf pa (aks @ [k]) (avs @ [v]) # Lf pb (k1 # bks1) (v1 # bvs1) # ws)))))"
      show "Q True A'"
        by (rule yes[OF A'(1) A'(2)[folded ab(1) be]])
          (use b many ab kv kv1 reorders_move_sep(2)[of "map2 Ent aks avs" pk k v k1 v1 "map2 Ent bks1 bvs1"] in
            \<open>simp_all add: M_def\<close>)
    qed
    then show ?thesis using 0 ab by simp
  next
    case (Suc h')
    obtain pa aks ats pb bks bts where ab: "a = Nd pa aks ats" "b = Nd pb bks bts"
        "length ats = length aks + 1" "length bts = length bks + 1" "\<forall>u\<in>set ats. bal h' u" "\<forall>u\<in>set bts. bal h' u"
      using b(1,2) unfolding Suc bal_Suc_cases by blast
    obtain k bks0 x bts0 where kv: "bks = k # bks0" "bts = x # bts0" "length bts0 = length bks0 + 1"
      using ab many by (cases bks; cases bts) auto
    have be: "b = Nd pb (k # bks0) (x # bts0)" using ab kv by simp
    note S' = S[unfolded ab(1) be]
    have "runs (borrow_next_internal pa p ?n pb) A (\<lambda>_. Q True)"
    proof (rule runs_borrow_next_internal[OF S' len ab(3) kv(3)])
      show "length aks < M" using b(6) ab by (simp add: M_def)
      fix A' assume A': "tree_in A' (plug c (Nd p (ls @ k # rs) (us @ Nd pa (aks @ [pk]) (ats @ [x]) # Nd pb bks0 bts0 # ws)))"
        "framed A (set (ptrs (plug c (Nd p (ls @ pk # rs) (us @ Nd pa aks ats # Nd pb (k # bks0) (x # bts0) # ws))))) A'
          (set (ptrs (plug c (Nd p (ls @ k # rs) (us @ Nd pa (aks @ [pk]) (ats @ [x]) # Nd pb bks0 bts0 # ws)))))"
      show "Q True A'"
        by (rule yes[OF A'(1) A'(2)[folded ab(1) be]])
          (use b many ab kv Suc in \<open>simp_all add: M_def weave_snoc sep_before_weave reorders_refl\<close>)
    qed
    then show ?thesis using Suc ab by simp
  qed
  have lt: "?n < vlen (VInt par (ls @ pk # rs) (map root_of us @ root_of a # root_of b # map root_of ws))"
    by (simp add: len)
  show ?thesis
    unfolding try_borrow_next_def
    apply (rule runs_bind, rule runs_len_at[where A = A, OF P], unfold if_P[OF lt])
    apply (rule runs_bind, rule runs_get_at[where A = A and r = "root_of b", OF P])
    using len apply (simp add: nth_append del: node_view.simps)
    apply (rule runs_bind, rule runs_len_at[where A = A, OF vb(1)], rule runs_if)
     apply (rule runs_bind, rule runs_conseq, rule borrow)
    using vb(2) b(3) no by (auto intro!: runs_ret dest: filled_nkeys)
qed

subsection \<open>Merging\<close>

lemma runs_merge_with_prev:
  fixes A :: "('k::linorder, 'v) vheap"
  assumes S: "siblings A c p par (ls @ pk # rs) us a b ws" and len: "length us = length ls" "length ws = length rs"
    and b: "bal h a" "bal h b" "filled 0 a" "filled 0 b" "M div 2 \<le> nkeys a + nkeys b" "nkeys a + nkeys b < M"
    and Q: "\<And>A' x. tree_in A' (plug c (Nd p (ls @ rs) (us @ x # ws))) \<Longrightarrow>
      framed A (set (ptrs (plug c (Nd p (ls @ pk # rs) (us @ a # b # ws))))) A'
        (set (ptrs (plug c (Nd p (ls @ rs) (us @ x # ws))))) \<Longrightarrow>
      bal h x \<Longrightarrow> filled (M div 2) x \<Longrightarrow> reorders (flat a @ Sep pk # flat b) (flat x) \<Longrightarrow> Q () A'"
  shows "runs (merge_with_prev (h = 0) (root_of b) p (Suc (length us))) A Q"
proof (cases h)
  case 0
  obtain pa aks avs pb bks bvs where ab: "a = Lf pa aks avs" "b = Lf pb bks bvs"
      "length avs = length aks" "length bvs = length bks"
    using b(1,2) unfolding 0 bal_leaf_cases by blast
  have "runs (merge_with_prev True pb p (Suc (length us))) A Q"
  proof (rule runs_merge_with_prev_leaf[OF S[unfolded ab(1,2)] len])
    show "length aks + length bks \<le> M" using b(6) ab by simp
    fix A' assume A': "tree_in A' (plug c (Nd p (ls @ rs) (us @ Lf pb (aks @ bks) (avs @ bvs) # ws)))"
      "framed A (set (ptrs (plug c (Nd p (ls @ pk # rs) (us @ Lf pa aks avs # Lf pb bks bvs # ws))))) A'
        (set (ptrs (plug c (Nd p (ls @ rs) (us @ Lf pb (aks @ bks) (avs @ bvs) # ws)))))"
    show "Q () A'"
      by (rule Q[OF A'(1) A'(2)[folded ab(1,2)]])
        (use b ab 0 reorders_drop_sep[of "map2 Ent aks avs" pk "map2 Ent bks bvs"] in simp_all)
  qed
  then show ?thesis using 0 ab by simp
next
  case (Suc h')
  obtain pa aks ats pb bks bts where ab: "a = Nd pa aks ats" "b = Nd pb bks bts"
      "length ats = length aks + 1" "length bts = length bks + 1" "\<forall>u\<in>set ats. bal h' u" "\<forall>u\<in>set bts. bal h' u"
    using b(1,2) unfolding Suc bal_Suc_cases by blast
  have "runs (merge_with_prev False pb p (Suc (length us))) A Q"
  proof (rule runs_merge_with_prev_internal[OF S[unfolded ab(1,2)] len ab(3,4)])
    show "length aks + length bks < M" using b(6) ab by simp
    fix A' assume A': "tree_in A' (plug c (Nd p (ls @ rs) (us @ Nd pb (aks @ pk # bks) (ats @ bts) # ws)))"
      "framed A (set (ptrs (plug c (Nd p (ls @ pk # rs) (us @ Nd pa aks ats # Nd pb bks bts # ws))))) A'
        (set (ptrs (plug c (Nd p (ls @ rs) (us @ Nd pb (aks @ pk # bks) (ats @ bts) # ws)))))"
    show "Q () A'"
      by (rule Q[OF A'(1) A'(2)[folded ab(1,2)]])
        (use b ab Suc in \<open>auto simp: weave_join intro: reorders_refl\<close>)
  qed
  then show ?thesis using Suc ab by simp
qed

lemma runs_merge_with_next:
  fixes A :: "('k::linorder, 'v) vheap"
  assumes S: "siblings A c p par (ls @ pk # rs) us a b ws" and len: "length us = length ls" "length ws = length rs"
    and b: "bal h a" "bal h b" "filled 0 a" "filled 0 b" "M div 2 \<le> nkeys a + nkeys b" "nkeys a + nkeys b < M"
    and Q: "\<And>A' x. tree_in A' (plug c (Nd p (ls @ rs) (us @ x # ws))) \<Longrightarrow>
      framed A (set (ptrs (plug c (Nd p (ls @ pk # rs) (us @ a # b # ws))))) A'
        (set (ptrs (plug c (Nd p (ls @ rs) (us @ x # ws))))) \<Longrightarrow>
      bal h x \<Longrightarrow> filled (M div 2) x \<Longrightarrow> reorders (flat a @ Sep pk # flat b) (flat x) \<Longrightarrow> Q () A'"
  shows "runs (merge_with_next (h = 0) (root_of a) p (length us)) A Q"
proof (cases h)
  case 0
  obtain pa aks avs pb bks bvs where ab: "a = Lf pa aks avs" "b = Lf pb bks bvs"
      "length avs = length aks" "length bvs = length bks"
    using b(1,2) unfolding 0 bal_leaf_cases by blast
  have "runs (merge_with_next True pa p (length us)) A Q"
  proof (rule runs_merge_with_next_leaf[OF S[unfolded ab(1,2)] len])
    show "length aks + length bks \<le> M" using b(6) ab by simp
    fix A' assume A': "tree_in A' (plug c (Nd p (ls @ rs) (us @ Lf pa (aks @ bks) (avs @ bvs) # ws)))"
      "framed A (set (ptrs (plug c (Nd p (ls @ pk # rs) (us @ Lf pa aks avs # Lf pb bks bvs # ws))))) A'
        (set (ptrs (plug c (Nd p (ls @ rs) (us @ Lf pa (aks @ bks) (avs @ bvs) # ws)))))"
    show "Q () A'"
      by (rule Q[OF A'(1) A'(2)[folded ab(1,2)]])
        (use b ab 0 reorders_drop_sep[of "map2 Ent aks avs" pk "map2 Ent bks bvs"] in simp_all)
  qed
  then show ?thesis using 0 ab by simp
next
  case (Suc h')
  obtain pa aks ats pb bks bts where ab: "a = Nd pa aks ats" "b = Nd pb bks bts"
      "length ats = length aks + 1" "length bts = length bks + 1" "\<forall>u\<in>set ats. bal h' u" "\<forall>u\<in>set bts. bal h' u"
    using b(1,2) unfolding Suc bal_Suc_cases by blast
  have "runs (merge_with_next False pa p (length us)) A Q"
  proof (rule runs_merge_with_next_internal[OF S[unfolded ab(1,2)] len ab(3,4)])
    show "length aks + length bks < M" using b(6) ab by simp
    fix A' assume A': "tree_in A' (plug c (Nd p (ls @ rs) (us @ Nd pa (aks @ pk # bks) (ats @ bts) # ws)))"
      "framed A (set (ptrs (plug c (Nd p (ls @ pk # rs) (us @ Nd pa aks ats # Nd pb bks bts # ws))))) A'
        (set (ptrs (plug c (Nd p (ls @ rs) (us @ Nd pa (aks @ pk # bks) (ats @ bts) # ws)))))"
    show "Q () A'"
      by (rule Q[OF A'(1) A'(2)[folded ab(1,2)]])
        (use b ab Suc in \<open>auto simp: weave_join intro: reorders_refl\<close>)
  qed
  then show ?thesis using Suc ab by simp
qed

end
