(* ===== verification/Removal.thy ===== *)
theory Removal
  imports Rebalance
begin

text \<open>
  Removal: the loop of \<open>post_removal\<close> by induction on the path from the shrunk leaf to the root,
  and the operations of the map that remove, with their effect on the contents.
\<close>

subsection \<open>One level of the loop\<close>

text \<open>A tree that is in order but for the least number of keys of the subtree in the hole.\<close>

definition deficient :: "('k::linorder, 'v) vheap \<Rightarrow> ('k, 'v) path \<Rightarrow> nat \<Rightarrow> ('k, 'v) bt \<Rightarrow> bool" where
  "deficient A c h t \<longleftrightarrow>
     tree_in A (plug c t) \<and> path_shape h c \<and> bal h t \<and> filled 0 t \<and> path_filled c \<and>
     (c \<noteq> [] \<longrightarrow> M div 2 - 1 \<le> nkeys t) \<and> ordered (left_items c @ flat t @ right_items c)"

lemma rep_vlen:
  assumes "rep A par t"
  obtains v where "A (root_of t) = Some v" "vlen v = nkeys t"
  using assms by (cases t) auto

lemma node_flat:
  assumes "length us = length ls"
  shows "flat (Nd p (ls @ k # rs) (us @ a # b # ws)) =
    sep_after ls (map flat us) @ (flat a @ Sep k # flat b) @ sep_before rs (map flat ws)"
  using weave_insert[of ls "map flat us" k rs "flat a" "flat b" "map flat ws"] assms by simp

lemma reorders_node:
  assumes "length us = length ls" "reorders (flat a @ Sep pk # flat b) (flat a' @ Sep k # flat b')"
  shows "reorders (flat (Nd p (ls @ pk # rs) (us @ a # b # ws))) (flat (Nd p (ls @ k # rs) (us @ a' # b' # ws)))"
  unfolding node_flat[OF assms(1)] using assms(2) unfolding reorders_def
  by (metis (no_types, opaque_lifting) append_assoc ents_append)

lemma reorders_node_merge:
  assumes "length us = length ls" "reorders (flat a @ Sep pk # flat b) (flat x)"
  shows "reorders (flat (Nd p (ls @ pk # rs) (us @ a # b # ws))) (flat (Nd p (ls @ rs) (us @ x # ws)))"
proof -
  have "flat (Nd p (ls @ rs) (us @ x # ws)) = sep_after ls (map flat us) @ flat x @ sep_before rs (map flat ws)"
    using weave_split[of ls "map flat us" rs "flat x" "map flat ws"] assms(1) by simp
  then show ?thesis
    unfolding node_flat[OF assms(1)] using assms(2) unfolding reorders_def
    by (metis (no_types, opaque_lifting) append_assoc ents_append)
qed

lemma reorders_plug:
  assumes "path_shape h c" "reorders (flat t) (flat t')"
  shows "entries (plug c t') = entries (plug c t)"
    "ordered (left_items c @ flat t @ right_items c) \<Longrightarrow> ordered (left_items c @ flat t' @ right_items c)"
  using assms(2) by (simp_all add: entries_def plug_flat[OF assms(1)] reorders_def)

lemma runs_rebalance:
  fixes A :: "('k::linorder, 'v) vheap"
  assumes "deficient A c h t" "length c < fuel" "root m = Some (root_of (plug c t))" "height m = h + length c"
    "\<And>m' A' t'. tree_in A' t' \<Longrightarrow> tree_ok (height m') t' \<Longrightarrow> root m' = Some (root_of t') \<Longrightarrow>
       mlength m' = mlength m \<Longrightarrow> entries t' = entries (plug c t) \<Longrightarrow>
       framed A (set (ptrs (plug c t))) A' (set (ptrs t')) \<Longrightarrow> Q m' A'"
    "c = [] \<Longrightarrow> h = 0 \<Longrightarrow> nkeys t = 0 \<Longrightarrow> Q (m\<lparr>root := None\<rparr>) A"
  shows "runs (rebalance fuel m (h = 0) (root_of t)) A Q"
  using assms
proof (induction c arbitrary: A t h fuel)
  case Nil
  then obtain fuel' where fuel: "fuel = Suc fuel'" by (cases fuel) auto
  from Nil.prems(1) have D: "tree_in A t" "bal h t" "filled 0 t" "ordered (flat t)" by (simp_all add: deficient_def)
  then have rep: "rep A None t" by (simp add: tree_in_def)
  obtain v where v: "A (root_of t) = Some v" "vlen v = nkeys t" by (rule rep_vlen[OF rep])
  have same: "Q m A" if "1 \<le> nkeys t"
  proof (rule Nil.prems(5))
    show "tree_ok (height m) t" using Nil.prems(4) D that filled_of_nkeys by (auto simp: tree_ok_def)
    show "framed A (set (ptrs (plug [] t))) A (set (ptrs t))" using framed_refl[OF tree_in_dom[OF D(1)]] by simp
  qed (use D(1) Nil.prems(3) in simp_all)
  have shrink: "runs (shrink_root m (h = 0) (root_of t)) A Q"
  proof (cases t)
    case (Lf p ks vs)
    then have "h = 0" using D(2) by simp
    then show ?thesis unfolding shrink_root_def
      using v Lf same Nil.prems(6) by (auto intro!: runs_bind runs_len_at runs_ret simp: Suc_le_eq)
  next
    case (Nd p ks ts)
    then obtain h' where h: "h = Suc h'" "length ts = length ks + 1" "\<forall>u\<in>set ts. bal h' u"
      using D(2) by (cases h) auto
    show ?thesis
    proof (cases ks)
      case Cons
      then show ?thesis unfolding shrink_root_def
        using v Nd h same by (auto intro!: runs_bind runs_len_at runs_ret)
    next
      case Nil': Nil
      then obtain u where ts: "ts = [u]" using h(2) by (cases ts) auto
      have t: "t = Nd p [] [u]" using Nd Nil' ts by simp
      have ru: "rep A (Some (p, 0)) u" and du: "distinct (ptrs u)" "p \<notin> set (ptrs u)" and lu: "linked A None (leaves u) None"
        using D(1) by (auto simp: tree_in_def t)
      from rep_root[OF ru] obtain w where w: "A (root_of u) = Some w" "\<not> raw w" by blast
      have p: "A p = Some (VInt None [] [root_of u])" and ne: "p \<noteq> root_of u"
        using rep du root_in_ptrs[of u] by (auto simp: t)
      define B where "B = A(p := None, root_of u \<mapsto> vset_par None w)"
      let ?m' = "m\<lparr>root := Some (root_of u), height := h'\<rparr>"
      have "rep B None u"
        by (rule rep_reparent[OF ru du(1)]) (use w du in \<open>auto simp: B_def\<close>)
      moreover have "linked B None (leaves u) None"
      proof -
        have "links B q = links A q" if "q \<in> set (leaves u)" for q
        proof -
          have "q \<noteq> p" using that du(2) leaves_in_ptrs[of u] by auto
          then show ?thesis using w by (cases w) (auto simp: links_def B_def)
        qed
        then show ?thesis using lu linked_cong[of "leaves u" B A] by blast
      qed
      ultimately have "tree_in B u" using du by (simp add: tree_in_def)
      moreover have "tree_ok (height ?m') u"
        using D(3,4) h(3) ts filled_mono[of "M div 2" u 1] by (simp add: tree_ok_def t M_def)
      moreover have "framed A (set (ptrs (plug [] t))) B (set (ptrs u))"
        using tree_in_dom[OF D(1)] du(2) w p by (auto simp: framed_def t B_def)
      moreover have "entries u = entries (plug [] t)" by (simp add: entries_def t)
      ultimately have fin: "Q ?m' B" 
        by (intro Nil.prems(5)[where t' = u and A' = B and m' = ?m']) simp_all
      show ?thesis unfolding shrink_root_def t root_of.simps
        apply (rule runs_bind, rule runs_len_at[where A = A, OF p])
        using h(1) Nil.prems(4) p w ne fin[unfolded B_def]
        by (auto intro!: runs_bind runs_lift runs_get_at[where A = A, OF p] runs_dealloc[where A = A, OF p]
            runs_upd_at[OF _ upd_clear_parent] runs_ret simp del: node_view.simps)
    qed
  qed
  show ?case unfolding fuel rebalance.simps
  proof (rule runs_bind, rule runs_len_at[where A = A, OF v(1)], rule runs_if)
    assume "vlen v < M div 2"
    show "runs (bindP (get_at (root_of t) node_parent) (\<lambda>par.
          case par of
            None \<Rightarrow> shrink_root m (h = 0) (root_of t)
          | Some (p, idx) \<Rightarrow>
              bindP (try_borrow_prev (h = 0) (root_of t) p idx) (\<lambda>done1.
              if done1 then ret m
              else bindP (try_borrow_next (h = 0) (root_of t) p idx) (\<lambda>done2.
                   if done2 then ret m
                   else bindP (if 0 < idx then merge_with_prev (h = 0) (root_of t) p idx
                               else merge_with_next (h = 0) (root_of t) p idx) (\<lambda>_.
                        rebalance fuel' m False p))))) A Q"
      by (rule runs_bind[OF runs_node_parent[OF rep]]) (simp add: shrink)
  next
    assume "\<not> vlen v < M div 2"
    then show "runs (ret m) A Q" using v by (intro runs_ret same) (simp add: M_def)
  qed
next
  case (Cons fr c)
  obtain p ks1 ts1 ks2 ts2 where fr: "fr = Fr p ks1 ts1 ks2 ts2" by (cases fr)
  from Cons.prems(2) obtain fuel' where fuel: "fuel = Suc fuel'" "length c < fuel'" by (cases fuel) auto
  let ?N = "Nd p (ks1 @ ks2) (ts1 @ t # ts2)" and ?b = "h = 0"
  have plug: "plug (fr # c) t = plug c ?N" by (simp add: fr)
  from Cons.prems(1) have tree: "tree_in A (plug c ?N)" and shape: "path_shape (Suc h) c"
    and len: "length ts1 = length ks1" "length ts2 = length ks2" "length ks1 + length ks2 \<le> M"
      "(if c = [] then 1 else M div 2) \<le> length ks1 + length ks2"
    and D: "bal h t" "filled 0 t" "path_filled c" "M div 2 - 1 \<le> nkeys t"
    and kids: "\<And>u. u \<in> set ts1 \<union> set ts2 \<Longrightarrow> bal h u \<and> filled (M div 2) u"
    and ord: "ordered (left_items c @ flat ?N @ right_items c)"
    unfolding deficient_def
    using plug_flat[OF Cons.prems(1)[unfolded deficient_def, THEN conjunct2, THEN conjunct1], of t]
      plug_flat[of "Suc h" c ?N]
    by (auto simp: fr)
  have h: "height m = Suc h + length c" using Cons.prems(4) by simp
  have rootm: "root m = Some (root_of (plug c (Nd p ks ts)))" for ks ts
    using Cons.prems(3) root_of_plug[of ?N "Nd p ks ts" c] unfolding plug by simp
  have rep: "rep A (Some (p, length ts1)) t"
    using tree by (auto simp: tree_in_def plug_rep reps_append)
  obtain v where v: "A (root_of t) = Some v" "vlen v = nkeys t" by (rule rep_vlen[OF rep])
  have finish: "Q m B" if B: "tree_in B (plug c (Nd p ks ts))"
      "framed A (set (ptrs (plug c ?N))) B (set (ptrs (plug c (Nd p ks ts))))"
      and ok: "length ts = length ks + 1" "length ks = length ks1 + length ks2"
        "\<forall>u\<in>set ts. bal h u \<and> filled (M div 2) u" and re: "reorders (flat ?N) (flat (Nd p ks ts))" for B ks ts
  proof (rule Cons.prems(5)[OF B(1)])
    show "tree_ok (height m) (plug c (Nd p ks ts))"
      unfolding h tree_ok_plug[OF shape]
      using ok D(3) len reorders_plug(2)[OF shape re ord] by (auto simp: min_fill_def)
    show "entries (plug c (Nd p ks ts)) = entries (plug (fr # c) t)"
      unfolding plug by (rule reorders_plug(1)[OF shape re])
  qed (use rootm B(2) plug in simp_all)
  have same: "Q m A" if "M div 2 \<le> nkeys t"
    by (rule finish[OF tree framed_refl[OF tree_in_dom[OF tree]]])
      (use len D kids filled_of_nkeys[OF D(2) that] in \<open>auto intro: reorders_refl\<close>)
  have recurse: "runs (rebalance fuel' m False p) B Q" if B: "tree_in B (plug c (Nd p ks ts))"
      "framed A (set (ptrs (plug c ?N))) B (set (ptrs (plug c (Nd p ks ts))))"
      and ok: "length ts = length ks + 1" "length ks + 1 = length ks1 + length ks2"
        "\<forall>u\<in>set ts. bal h u \<and> filled (M div 2) u" and re: "reorders (flat ?N) (flat (Nd p ks ts))" for B ks ts
  proof -
    have "deficient B c (Suc h) (Nd p ks ts)"
      unfolding deficient_def
      using B(1) shape ok D(3) len reorders_plug(2)[OF shape re ord] by auto
    then have "runs (rebalance fuel' m (Suc h = 0) (root_of (Nd p ks ts))) B Q"
    proof (rule Cons.IH[OF _ fuel(2) rootm h])
      fix m' :: bmap and B' t' assume "tree_in B' t'" "tree_ok (height m') t'" "root m' = Some (root_of t')"
        "mlength m' = mlength m" "entries t' = entries (plug c (Nd p ks ts))"
        "framed B (set (ptrs (plug c (Nd p ks ts)))) B' (set (ptrs t'))"
      then show "Q m' B'"
        using Cons.prems(5)[of B' t' m'] framed_trans[OF B(2)] reorders_plug(1)[OF shape re] unfolding plug by simp
    qed simp
    then show ?thesis by simp
  qed
  have prev: "runs (try_borrow_prev ?b (root_of t) p (length ts1)) A
      (\<lambda>d B. if d then Q m B else B = A \<and> (ts1 \<noteq> [] \<longrightarrow> nkeys (last ts1) = M div 2))" if few: "nkeys t < M div 2"
  proof (cases ts1 rule: rev_cases)
    case Nil
    then show ?thesis by (simp add: try_borrow_prev_def runs_ret)
  next
    case (snoc us a)
    then obtain ls pk where ks1: "ks1 = ls @ [pk]" using len(1) by (cases ks1 rule: rev_cases) auto
    have N: "?N = Nd p (ls @ pk # ks2) (us @ a # t # ts2)" using snoc ks1 by simp
    then obtain par where S: "siblings A c p par (ls @ pk # ks2) us a t ts2" using tree tree_in_siblings by metis
    have "runs (try_borrow_prev ?b (root_of t) p (Suc (length us))) A
        (\<lambda>d B. if d then Q m B else B = A \<and> nkeys a = M div 2)"
    proof (rule runs_try_borrow_prev[OF S])
      fix B k a' b'
      assume "tree_in B (plug c (Nd p (ls @ k # ks2) (us @ a' # b' # ts2)))"
        "framed A (set (ptrs (plug c (Nd p (ls @ pk # ks2) (us @ a # t # ts2))))) B
           (set (ptrs (plug c (Nd p (ls @ k # ks2) (us @ a' # b' # ts2)))))"
        "bal h a'" "bal h b'" "filled (M div 2) a'" "filled (M div 2) b'"
        "reorders (flat a @ Sep pk # flat t) (flat a' @ Sep k # flat b')"
      moreover have "length us = length ls" using len(1) snoc ks1 by simp
      ultimately have "Q m B"
        using len kids reorders_node[of us ls a pk t a' k b' p ks2 ts2]
        by (intro finish[of B "ls @ k # ks2" "us @ a' # b' # ts2"]) (simp_all only: N, simp_all add: snoc ks1)
      then show "if True then Q m B else B = A \<and> nkeys a = M div 2" by simp
    qed (use len(1) snoc ks1 D kids few in auto)
    then show ?thesis using snoc by (simp add: if_bool_eq_conj)
  qed
  have next': "runs (try_borrow_next ?b (root_of t) p (length ts1)) A
      (\<lambda>d B. if d then Q m B else B = A \<and> (ts2 \<noteq> [] \<longrightarrow> nkeys (hd ts2) = M div 2))" if few: "nkeys t < M div 2"
  proof (cases ts2)
    case Nil
    obtain par where "A p = Some (VInt par (ks1 @ ks2) (map root_of ts1 @ root_of t # map root_of ts2))"
      using tree by (auto simp: tree_in_def plug_rep)
    then show ?thesis unfolding try_borrow_next_def
      using Nil len by (intro runs_bind runs_len_at) (auto intro!: runs_ret)
  next
    case (Cons b ws)
    then obtain pk rs where ks2: "ks2 = pk # rs" using len(2) by (cases ks2) auto
    have N: "?N = Nd p (ks1 @ pk # rs) (ts1 @ t # b # ws)" using Cons ks2 by simp
    then obtain par where S: "siblings A c p par (ks1 @ pk # rs) ts1 t b ws" using tree tree_in_siblings by metis
    have "runs (try_borrow_next ?b (root_of t) p (length ts1)) A
        (\<lambda>d B. if d then Q m B else B = A \<and> nkeys b = M div 2)"
    proof (rule runs_try_borrow_next[OF S])
      fix B k a' b'
      assume "tree_in B (plug c (Nd p (ks1 @ k # rs) (ts1 @ a' # b' # ws)))"
        "framed A (set (ptrs (plug c (Nd p (ks1 @ pk # rs) (ts1 @ t # b # ws))))) B
           (set (ptrs (plug c (Nd p (ks1 @ k # rs) (ts1 @ a' # b' # ws)))))"
        "bal h a'" "bal h b'" "filled (M div 2) a'" "filled (M div 2) b'"
        "reorders (flat t @ Sep pk # flat b) (flat a' @ Sep k # flat b')"
      then have "Q m B"
        using len kids reorders_node[of ts1 ks1 t pk b a' k b' p rs ws]
        by (intro finish[of B "ks1 @ k # rs" "ts1 @ a' # b' # ws"]) (simp_all only: N, simp_all add: Cons ks2)
      then show "if True then Q m B else B = A \<and> nkeys b = M div 2" by simp
    qed (use len Cons ks2 D kids few in auto)
    then show ?thesis using Cons by (simp add: if_bool_eq_conj)
  qed
  have merge: "runs (if 0 < length ts1 then merge_with_prev ?b (root_of t) p (length ts1)
                 else merge_with_next ?b (root_of t) p (length ts1)) A (\<lambda>_ B. runs (rebalance fuel' m False p) B Q)"
    if few: "nkeys t < M div 2" and p4: "ts1 \<noteq> [] \<longrightarrow> nkeys (last ts1) = M div 2"
      and n4: "ts2 \<noteq> [] \<longrightarrow> nkeys (hd ts2) = M div 2"
  proof (cases ts1 rule: rev_cases)
    case Nil
    then have ts1: "ts1 = []" "ks1 = []" using len(1) by simp_all
    then obtain b ws pk rs where ts2: "ts2 = b # ws" "ks2 = pk # rs"
      using len(2,4) by (cases ks2; cases ts2) (auto simp: M_def split: if_splits)
    have N: "?N = Nd p ([] @ pk # rs) ([] @ t # b # ws)" using ts1 ts2 by simp
    then obtain par where S: "siblings A c p par ([] @ pk # rs) [] t b ws" using tree tree_in_siblings by metis
    have b: "bal h b" "filled (M div 2) b" "nkeys b = M div 2" using kids ts2 n4 by auto
    have "runs (merge_with_next ?b (root_of t) p (length ([] :: ('k, 'v) bt list))) A
        (\<lambda>_ B. runs (rebalance fuel' m False p) B Q)"
    proof (rule runs_merge_with_next[OF S])
      fix B x
      assume "tree_in B (plug c (Nd p ([] @ rs) ([] @ x # ws)))"
        "framed A (set (ptrs (plug c (Nd p ([] @ pk # rs) ([] @ t # b # ws))))) B
           (set (ptrs (plug c (Nd p ([] @ rs) ([] @ x # ws)))))"
        "bal h x" "filled (M div 2) x" "reorders (flat t @ Sep pk # flat b) (flat x)"
      then show "runs (rebalance fuel' m False p) B Q"
        using len kids reorders_node_merge[of "[]" "[]" t pk b x p rs ws]
        by (intro recurse[of B rs "x # ws"]) (simp_all only: N append_Nil, simp_all add: ts1 ts2)
    qed (use len ts1 ts2 b D few filled_mono in \<open>auto simp: M_def\<close>)
    then show ?thesis using ts1 by simp
  next
    case (snoc us a)
    then obtain ls pk where ks1: "ks1 = ls @ [pk]" using len(1) by (cases ks1 rule: rev_cases) auto
    have N: "?N = Nd p (ls @ pk # ks2) (us @ a # t # ts2)" using snoc ks1 by simp
    then obtain par where S: "siblings A c p par (ls @ pk # ks2) us a t ts2" using tree tree_in_siblings by metis
    have a: "bal h a" "filled (M div 2) a" "nkeys a = M div 2" using kids snoc p4 by auto
    have us: "length us = length ls" using len(1) snoc ks1 by simp
    have "runs (merge_with_prev ?b (root_of t) p (Suc (length us))) A
        (\<lambda>_ B. runs (rebalance fuel' m False p) B Q)"
    proof (rule runs_merge_with_prev[OF S us])
      fix B x
      assume "tree_in B (plug c (Nd p (ls @ ks2) (us @ x # ts2)))"
        "framed A (set (ptrs (plug c (Nd p (ls @ pk # ks2) (us @ a # t # ts2))))) B
           (set (ptrs (plug c (Nd p (ls @ ks2) (us @ x # ts2)))))"
        "bal h x" "filled (M div 2) x" "reorders (flat a @ Sep pk # flat t) (flat x)"
      then show "runs (rebalance fuel' m False p) B Q"
        using len kids reorders_node_merge[OF us, of a pk t x p ks2 ts2]
        by (intro recurse[of B "ls @ ks2" "us @ x # ts2"]) (simp_all only: N, simp_all add: snoc ks1)
    qed (use len a D few filled_mono in \<open>auto simp: M_def\<close>)
    then show ?thesis using snoc by simp
  qed
  let ?merge = "bindP (if 0 < length ts1 then merge_with_prev ?b (root_of t) p (length ts1)
      else merge_with_next ?b (root_of t) p (length ts1)) (\<lambda>_. rebalance fuel' m False p)"
  let ?next = "bindP (try_borrow_next ?b (root_of t) p (length ts1)) (\<lambda>done2. if done2 then ret m else ?merge)"
  have second: "runs ?next A Q" if few: "nkeys t < M div 2" and p4: "ts1 \<noteq> [] \<longrightarrow> nkeys (last ts1) = M div 2"
  proof (rule runs_bind, rule runs_conseq[OF next'[OF few]])
    fix d B assume "if d then Q m B else B = A \<and> (ts2 \<noteq> [] \<longrightarrow> nkeys (hd ts2) = M div 2)"
    then show "runs (if d then ret m else ?merge) B Q"
      using merge[OF few p4] by (cases d) (simp_all add: runs_ret runs_bind)
  qed
  have first: "runs (bindP (try_borrow_prev ?b (root_of t) p (length ts1)) (\<lambda>done1. if done1 then ret m else ?next)) A Q"
    if few: "nkeys t < M div 2"
  proof (rule runs_bind, rule runs_conseq[OF prev[OF few]])
    fix d B assume "if d then Q m B else B = A \<and> (ts1 \<noteq> [] \<longrightarrow> nkeys (last ts1) = M div 2)"
    then show "runs (if d then ret m else ?next) B Q"
      using second[OF few] by (cases d) (simp_all add: runs_ret)
  qed
  show ?case unfolding fuel rebalance.simps
    apply (rule runs_bind, rule runs_len_at[where A = A, OF v(1)], rule runs_if)
     apply (rule runs_bind[OF runs_node_parent[OF rep]], unfold option.case prod.case)
     apply (rule first)
    using v(2) apply simp
    by (rule runs_ret, rule same) (use v(2) in simp)
qed

end
