(* ===== verification/RemoveMap.thy ===== *)
theory RemoveMap
  imports Removal
begin

text \<open>
  The operations of the map that remove an entry: by key, the first one, the last one. When the last
  entry of the map goes, the map becomes empty but its leaf stays allocated: the frame of the
  theorems says so.
\<close>

subsection \<open>Removing an entry of a leaf\<close>

definition removed ::
    "('k::linorder, 'v) vheap \<Rightarrow> ('k, 'v) bt \<Rightarrow> ('k \<times> 'v) list \<Rightarrow> ('k, 'v) vheap \<Rightarrow> bmap \<Rightarrow> ('k, 'v) bt option \<Rightarrow> bool" where
  "removed A t kvs A' m' T' \<longleftrightarrow> bmap_ok A' m' T' \<and> contents T' = kvs \<and>
     framed A (set (ptrs t)) A' (if T' = None then set (ptrs t) else owned T')"

lemma map2_del_at:
  "length vs = length ks \<Longrightarrow> i < length ks \<Longrightarrow>
   map2 f ks vs = map2 f (take i ks) (take i vs) @ f (ks ! i) (vs ! i) # map2 f (drop (Suc i) ks) (drop (Suc i) vs) \<and>
   map2 f (del_at i ks) (del_at i vs) = map2 f (take i ks) (take i vs) @ map2 f (drop (Suc i) ks) (drop (Suc i) vs)"
  using map2_split[of vs ks f i] Cons_nth_drop_Suc[of i ks] Cons_nth_drop_Suc[of i vs]
  by (simp add: del_at_def) (metis (no_types, lifting) list.simps(9) zip_Cons_Cons case_prod_conv)

lemma runs_remove_at:
  fixes A :: "('k::linorder, 'v) vheap"
  assumes ok: "bmap_ok A m (Some t)" and t: "t = plug c (Lf p ks vs)" "path_shape 0 c" "length c = height m"
      "length vs = length ks" and i: "i < length ks"
    and Q: "\<And>m' A' T'. removed A t (ents (left_items c) @ zip (del_at i ks) (del_at i vs) @ ents (right_items c)) A' m' T' \<Longrightarrow>
      Q ((ks ! i, vs ! i), m') A'"
  shows "runs (remove_at m p i) A Q"
proof -
  from ok t have tree: "tree_in A (plug c (Lf p ks vs))" "tree_ok (0 + length c) (plug c (Lf p ks vs))"
      "root m = Some (root_of (plug c (Lf p ks vs)))" "mlength m = length (entries (plug c (Lf p ks vs)))"
    by simp_all
  from tree(1) obtain par pv nx where p: "A p = Some (VLeaf par ks vs pv nx)" by (rule tree_in_leaf)
  let ?KS = "del_at i ks" and ?VS = "del_at i vs"
  let ?A1 = "A(p \<mapsto> VLeaf par ?KS ?VS pv nx)" and ?t1 = "plug c (Lf p ?KS ?VS)"
  let ?kvs = "ents (left_items c) @ zip ?KS ?VS @ ents (right_items c)"
  have ok': "path_filled c" "filled (min_fill c) (Lf p ks vs)" "ordered (left_items c @ map2 Ent ks vs @ right_items c)"
    using tree(2)[unfolded tree_ok_plug[OF t(2)]] by simp_all
  note len = length_del_at[OF i] length_del_at[of i vs]
  note m2 = map2_del_at[OF t(4) i, of Ent]
  have ord: "ordered (left_items c @ map2 Ent ?KS ?VS @ right_items c)"
    using ok'(3) ordered_drop[of "left_items c @ map2 Ent (take i ks) (take i vs)" "Ent (ks ! i) (vs ! i)"
        "map2 Ent (drop (Suc i) ks) (drop (Suc i) vs) @ right_items c"] m2 by simp
  have tree1: "tree_in ?A1 ?t1" by (rule tree_in_leaf_upd[OF tree(1) p])
  have lens: "length ?VS = length ?KS" using len t(4) i by simp
  have kvs: "entries ?t1 = ?kvs" by (rule plug_entries[OF t(2) lens])
  have ml: "mlength m = Suc (length ?kvs)"
    using tree(4) plug_entries[OF t(2,4), of p] lens len i t(4) by simp
  have def: "deficient ?A1 c 0 (Lf p ?KS ?VS)"
    unfolding deficient_def using tree1 t(2) lens ok' ord len i by (auto simp: min_fill_def)
  have ptrs: "set (ptrs ?t1) = set (ptrs t)" unfolding t(1) by (simp add: plug_ptrs)
  have fr: "framed A (set (ptrs t)) ?A1 (set (ptrs ?t1))"
    unfolding ptrs using framed_upd[of p "set (ptrs t)" A] tree_in_dom[OF tree(1)] unfolding t(1) by (simp add: plug_ptrs)
  have post: "runs (post_removal m p) ?A1 (\<lambda>m' A'. \<exists>T'. removed A t ?kvs A' m' T')"
    unfolding post_removal_def
  proof (rule runs_bind, rule runs_lift[where a = "length ?kvs"])
    show "nat_sub (mlength m) 1 = Inr (length ?kvs)" using ml by simp
    have "runs (rebalance (Suc (height m)) (m\<lparr>mlength := length ?kvs\<rparr>) (0 = (0::nat)) (root_of (Lf p ?KS ?VS))) ?A1
        (\<lambda>m' A'. \<exists>T'. removed A t ?kvs A' m' T')"
    proof (rule runs_rebalance[OF def])
      show "root (m\<lparr>mlength := length ?kvs\<rparr>) = Some (root_of ?t1)"
        using tree(3) root_of_plug[of "Lf p ks vs" "Lf p ?KS ?VS" c] by simp
      fix m' :: bmap and A' t'
      assume t': "tree_in A' t'" "tree_ok (height m') t'" "root m' = Some (root_of t')"
        "mlength m' = mlength (m\<lparr>mlength := length ?kvs\<rparr>)" "entries t' = entries ?t1"
        "framed ?A1 (set (ptrs ?t1)) A' (set (ptrs t'))"
      then have "removed A t ?kvs A' m' (Some t')"
        using framed_trans[OF fr t'(6)] kvs by (simp add: removed_def)
      then show "\<exists>T'. removed A t ?kvs A' m' T'" by blast
    next
      assume c: "c = []" and "nkeys (Lf p ?KS ?VS) = 0"
      then have "?KS = []" "?VS = []" using lens by simp_all
      then have "removed A t ?kvs ?A1 (m\<lparr>mlength := length ?kvs, root := None\<rparr>) None"
        using fr t(3) c unfolding removed_def ptrs by simp
      then show "\<exists>T'. removed A t ?kvs ?A1 (m\<lparr>mlength := length ?kvs\<rparr>\<lparr>root := None\<rparr>) T'" by auto
    qed (use t(3) in simp_all)
    then show "runs (rebalance (Suc (height m)) (m\<lparr>mlength := length ?kvs\<rparr>) True p) ?A1
        (\<lambda>m' A'. \<exists>T'. removed A t ?kvs A' m' T')" by simp
  qed
  show ?thesis
    unfolding remove_at_def
    apply (rule runs_bind, rule runs_upd_ret_at[where A = A, OF p upd_remove_val[OF i]])
    apply (rule runs_bind, rule runs_conseq[OF post], rule runs_ret)
    using Q by blast
qed

lemma removed_kv_delete:
  assumes t: "t = plug c (Lf p ks vs)" "path_shape 0 c" "length vs = length ks" "i < length ks" "ks ! i = k"
    and b: "items_below k (left_items c @ map2 Ent (take i ks) (take i vs))"
      "items_above k (map2 Ent (drop (Suc i) ks) (drop (Suc i) vs) @ right_items c)"
  shows "ents (left_items c) @ zip (del_at i ks) (del_at i vs) @ ents (right_items c) = kv_delete k (entries t)"
proof -
  note e = entries_at[OF t(2-5) b]
  show ?thesis
    unfolding t(1) e(1) kv_delete_at[OF e(2,3)] using map2_del_at[OF t(3,4), of Pair] by (simp add: del_at_def)
qed

subsection \<open>By key\<close>

lemma runs_remove_key_value:
  fixes A :: "('k::linorder, 'v) vheap"
  assumes ok: "bmap_ok A m T"
    and absent: "map_of (contents T) k = None \<Longrightarrow> Q (None, m) A"
    and there: "\<And>m' A' T' t v. T = Some t \<Longrightarrow> map_of (contents T) k = Some v \<Longrightarrow>
      removed A t (kv_delete k (contents T)) A' m' T' \<Longrightarrow> Q (Some (k, v), m') A'"
  shows "runs (remove_key_value m k) A Q"
  unfolding remove_key_value_def
proof (rule runs_bind, rule runs_find_key[OF ok])
  show "T = None \<Longrightarrow> runs (case NoRoot of At node idx \<Rightarrow>
      bindP (remove_at m node idx) (\<lambda>(kv, m). ret (Some kv, m)) | _ \<Rightarrow> ret (None, m)) A Q"
    using absent by (simp add: runs_ret)
  fix t r assume T: "T = Some t" and r: "locates t (height m) k r"
  from r show "runs (case r of At node idx \<Rightarrow>
      bindP (remove_at m node idx) (\<lambda>(kv, m). ret (Some kv, m)) | _ \<Rightarrow> ret (None, m)) A Q"
  proof (cases rule: locates_cases)
    case (At c p ks vs i)
    have v: "map_of (contents T) k = Some (vs ! i)" using lookup_at[OF At(3,5-9), of p] T At(2) by simp
    have "runs (remove_at m p i) A (\<lambda>r A'. Q (Some (fst r), snd r) A')"
    proof (rule runs_remove_at[OF ok[unfolded T] At(2-6)])
      fix m' A' T'
      assume "removed A t (ents (left_items c) @ zip (del_at i ks) (del_at i vs) @ ents (right_items c)) A' m' T'"
      then show "Q (Some (fst ((ks ! i, vs ! i), m')), snd ((ks ! i, vs ! i), m')) A'"
        using there[OF T v] T At(7) unfolding removed_kv_delete[OF At(2,3,5-9)] by simp
    qed
    then show ?thesis unfolding At(1) found.case
      by (intro runs_bind) (auto intro: runs_ret elim!: runs_conseq)
  next
    case (Before c p ks vs i)
    have "map_of (contents T) k = None" using lookup_before[OF Before(3,5,7,8), of p] T Before(2) by simp
    then show ?thesis unfolding Before(1) using absent by (simp add: runs_ret)
  qed
qed

lemma runs_map_remove:
  fixes A :: "('k::linorder, 'v) vheap"
  assumes ok: "bmap_ok A m T"
    and absent: "map_of (contents T) k = None \<Longrightarrow> Q (None, m) A"
    and there: "\<And>m' A' T' t v. T = Some t \<Longrightarrow> map_of (contents T) k = Some v \<Longrightarrow>
      removed A t (kv_delete k (contents T)) A' m' T' \<Longrightarrow> Q (Some v, m') A'"
  shows "runs (map_remove m k) A Q"
  unfolding map_remove_def
proof (rule runs_bind, rule runs_remove_key_value[OF ok])
  assume "map_of (contents T) k = None"
  then show "runs (case (None, m) of (kv, m) \<Rightarrow> ret (map_option snd kv, m)) A Q"
    using absent by (auto intro: runs_ret)
next
  fix m' A' T' t v assume "T = Some t" "map_of (contents T) k = Some v"
    "removed A t (kv_delete k (contents T)) A' m' T'"
  from there[OF this] show "runs (case (Some (k, v), m') of (kv, m) \<Rightarrow> ret (map_option snd kv, m)) A' Q"
    by (auto intro: runs_ret)
qed

subsection \<open>The first and the last entry\<close>

lemma runs_first_leaf:
  fixes A :: "('k::linorder, 'v) vheap"
  assumes ok: "bmap_ok A m T" and none: "T = None \<Longrightarrow> Q None A"
    and some: "\<And>c p ks vs. T = Some (plug c (Lf p ks vs)) \<Longrightarrow> path_shape 0 c \<Longrightarrow> length c = height m \<Longrightarrow>
      length vs = length ks \<Longrightarrow> ks \<noteq> [] \<Longrightarrow> left_items c = [] \<Longrightarrow> left_leaves c = [] \<Longrightarrow> Q (Some p) A"
  shows "runs (first_leaf m) A Q"
proof (cases T)
  case None
  with ok none show ?thesis by (auto simp: first_leaf_def intro: runs_ret)
next
  case (Some t)
  with ok have t: "root m = Some (root_of t)" "rep A None t" "bal (height m) t" "tree_ok (height m) t"
    by (simp_all add: tree_in_def tree_ok_def)
  have "runs (first_leaf_loop (height m) (root_of t)) A (\<lambda>p A. Q (Some p) A)"
  proof (rule runs_first_leaf_loop[OF t(2,3), of "[]"])
    fix c p ks vs
    assume c: "plug c (Lf p ks vs) = plug [] t" "path_shape 0 c" "length c = height m + length []"
      "length vs = length ks" "left_items c = []" "left_leaves c = []"
    have "tree_ok (0 + length c) (plug c (Lf p ks vs))" using t(4) c(1,3) by simp
    then have "ks \<noteq> []" unfolding tree_ok_plug[OF c(2)] by (auto simp: min_fill_def M_def split: if_splits)
    then show "Q (Some p) A" using some[of c p ks vs] c Some by simp
  qed simp_all
  then show ?thesis unfolding first_leaf_def t(1) option.case
    by (intro runs_bind) (auto intro: runs_ret elim!: runs_conseq)
qed

lemma runs_last_leaf:
  fixes A :: "('k::linorder, 'v) vheap"
  assumes ok: "bmap_ok A m T" and none: "T = None \<Longrightarrow> Q None A"
    and some: "\<And>c p ks vs. T = Some (plug c (Lf p ks vs)) \<Longrightarrow> path_shape 0 c \<Longrightarrow> length c = height m \<Longrightarrow>
      length vs = length ks \<Longrightarrow> ks \<noteq> [] \<Longrightarrow> right_items c = [] \<Longrightarrow> right_leaves c = [] \<Longrightarrow> Q (Some p) A"
  shows "runs (last_leaf m) A Q"
proof (cases T)
  case None
  with ok none show ?thesis by (auto simp: last_leaf_def intro: runs_ret)
next
  case (Some t)
  with ok have t: "root m = Some (root_of t)" "rep A None t" "bal (height m) t" "tree_ok (height m) t"
    by (simp_all add: tree_in_def tree_ok_def)
  have "runs (last_leaf_loop (height m) (root_of t)) A (\<lambda>p A. Q (Some p) A)"
  proof (rule runs_last_leaf_loop[OF t(2,3), of "[]"])
    fix c p ks vs
    assume c: "plug c (Lf p ks vs) = plug [] t" "path_shape 0 c" "length c = height m + length []"
      "length vs = length ks" "right_items c = []" "right_leaves c = []"
    have "tree_ok (0 + length c) (plug c (Lf p ks vs))" using t(4) c(1,3) by simp
    then have "ks \<noteq> []" unfolding tree_ok_plug[OF c(2)] by (auto simp: min_fill_def M_def split: if_splits)
    then show "Q (Some p) A" using some[of c p ks vs] c Some by simp
  qed simp_all
  then show ?thesis unfolding last_leaf_def t(1) option.case
    by (intro runs_bind) (auto intro: runs_ret elim!: runs_conseq)
qed

text \<open>The first and the last entry, \<open>None\<close> when there is none.\<close>

definition kv_first :: "('k \<times> 'v) list \<Rightarrow> ('k \<times> 'v) option" where
  "kv_first kvs = (case kvs of [] \<Rightarrow> None | kv # _ \<Rightarrow> Some kv)"

definition kv_last :: "('k \<times> 'v) list \<Rightarrow> ('k \<times> 'v) option" where
  "kv_last kvs = (if kvs = [] then None else Some (last kvs))"

lemma kv_first_simps [simp]: "kv_first [] = None" "kv_first (kv # kvs) = Some kv"
  by (simp_all add: kv_first_def)

lemma kv_last_simps [simp]: "kv_last [] = None" "kv_last (kvs @ [kv]) = Some kv"
  "kv_last (kvs @ kvs' @ [kv]) = Some kv"
  by (simp_all add: kv_last_def)

lemma first_entries:
  assumes "path_shape 0 c" "length vs = length ks" "ks \<noteq> []" "left_items c = []"
  shows "entries (plug c (Lf p ks vs)) = (ks ! 0, vs ! 0) # zip (del_at 0 ks) (del_at 0 vs) @ ents (right_items c)"
  using assms by (cases ks; cases vs) (simp_all add: plug_entries)

lemma last_entries:
  assumes "path_shape 0 c" "length vs = length ks" "ks \<noteq> []" "right_items c = []"
  defines "i \<equiv> length ks - 1"
  shows "entries (plug c (Lf p ks vs)) = (ents (left_items c) @ zip (del_at i ks) (del_at i vs)) @ [(ks ! i, vs ! i)]"
proof -
  obtain ks' k where "ks = ks' @ [k]" using assms(3) by (cases ks rule: rev_cases) auto
  moreover from this obtain vs' v where "vs = vs' @ [v]" "length vs' = length ks'"
    using assms(2) by (cases vs rule: rev_cases) auto
  ultimately show ?thesis using assms by (simp add: plug_entries i_def del_at_def nth_append)
qed

lemma runs_first_key_value:
  fixes A :: "('k::linorder, 'v) vheap"
  assumes ok: "bmap_ok A m T" and Q: "Q (kv_first (contents T)) A"
  shows "runs (first_key_value m) A Q"
  unfolding first_key_value_def
proof (rule runs_bind, rule runs_first_leaf[OF ok])
  fix c p ks vs
  assume c: "T = Some (plug c (Lf p ks vs))" "path_shape 0 c" "length vs = length ks" "ks \<noteq> []" "left_items c = []"
  from ok c(1) obtain par pv nx where p: "A p = Some (VLeaf par ks vs pv nx)" by (auto elim: tree_in_leaf)
  show "runs (case Some p of None \<Rightarrow> ret None
     | Some node \<Rightarrow> bindP (get_at node node_first_key_value) (\<lambda>kv. ret (Some kv))) A Q"
    unfolding option.case
    by (rule runs_bind, rule runs_get_at[where A = A and r = "(ks ! 0, vs ! 0)", OF p])
      (use c Q first_entries[OF c(2-5), of p] in \<open>simp_all add: runs_ret del: node_view.simps\<close>)
qed (use Q in \<open>simp add: runs_ret\<close>)

lemma runs_last_key_value:
  fixes A :: "('k::linorder, 'v) vheap"
  assumes ok: "bmap_ok A m T" and Q: "Q (kv_last (contents T)) A"
  shows "runs (last_key_value m) A Q"
  unfolding last_key_value_def
proof (rule runs_bind, rule runs_last_leaf[OF ok])
  fix c p ks vs
  assume c: "T = Some (plug c (Lf p ks vs))" "path_shape 0 c" "length vs = length ks" "ks \<noteq> []" "right_items c = []"
  from ok c(1) obtain par pv nx where p: "A p = Some (VLeaf par ks vs pv nx)" by (auto elim: tree_in_leaf)
  let ?i = "length ks - 1"
  show "runs (case Some p of None \<Rightarrow> ret None
     | Some node \<Rightarrow> bindP (get_at node node_last_key_value) (\<lambda>kv. ret (Some kv))) A Q"
    unfolding option.case
    by (rule runs_bind, rule runs_get_at[where A = A and r = "(ks ! ?i, vs ! ?i)", OF p])
      (use c Q last_entries[OF c(2-5), of p] in \<open>simp_all add: runs_ret del: node_view.simps\<close>)
qed (use Q in \<open>simp add: runs_ret\<close>)

lemma runs_pop_first:
  fixes A :: "('k::linorder, 'v) vheap"
  assumes ok: "bmap_ok A m T" and none: "contents T = [] \<Longrightarrow> Q (None, m) A"
    and some: "\<And>m' A' T' t kv kvs. T = Some t \<Longrightarrow> contents T = kv # kvs \<Longrightarrow> removed A t kvs A' m' T' \<Longrightarrow>
      Q (Some kv, m') A'"
  shows "runs (pop_first m) A Q"
  unfolding pop_first_def
proof (rule runs_bind, rule runs_first_leaf[OF ok])
  fix c p ks vs
  assume c: "T = Some (plug c (Lf p ks vs))" "path_shape 0 c" "length c = height m" "length vs = length ks" "ks \<noteq> []"
    "left_items c = []"
  have i: "0 < length ks" using c(5) by simp
  have "runs (remove_at m p 0) A (\<lambda>r A'. Q (Some (fst r), snd r) A')"
    by (rule runs_remove_at[OF ok[unfolded c(1)] refl c(2-4) i])
      (use some[OF c(1)] first_entries[OF c(2,4-6), of p] c(1,6) in simp)
  then show "runs (case Some p of None \<Rightarrow> ret (None, m)
     | Some node \<Rightarrow> bindP (remove_at m node 0) (\<lambda>(kv, m). ret (Some kv, m))) A Q"
    unfolding option.case by (intro runs_bind) (auto intro: runs_ret elim!: runs_conseq)
qed (use none in \<open>simp add: runs_ret\<close>)

lemma runs_pop_last:
  fixes A :: "('k::linorder, 'v) vheap"
  assumes ok: "bmap_ok A m T" and none: "contents T = [] \<Longrightarrow> Q (None, m) A"
    and some: "\<And>m' A' T' t kv kvs. T = Some t \<Longrightarrow> contents T = kvs @ [kv] \<Longrightarrow> removed A t kvs A' m' T' \<Longrightarrow>
      Q (Some kv, m') A'"
  shows "runs (pop_last m) A Q"
  unfolding pop_last_def
proof (rule runs_bind, rule runs_last_leaf[OF ok])
  fix c p ks vs
  assume c: "T = Some (plug c (Lf p ks vs))" "path_shape 0 c" "length c = height m" "length vs = length ks" "ks \<noteq> []"
    "right_items c = []"
  let ?i = "length ks - 1"
  have i: "?i < length ks" using c(5) by simp
  from ok c(1) obtain par pv nx where p: "A p = Some (VLeaf par ks vs pv nx)" by (auto elim: tree_in_leaf)
  have sub: "nat_sub (len n) 1 = Inr ?i" if "node_view n (VLeaf par ks vs pv nx)" for n :: "('k, 'v) node"
    using node_view_len[OF that] c(5) by (simp add: Suc_le_eq)
  have "runs (remove_at m p ?i) A (\<lambda>r A'. Q (Some (fst r), snd r) A')"
    by (rule runs_remove_at[OF ok[unfolded c(1)] refl c(2-4) i])
      (use some[OF c(1)] last_entries[OF c(2,4-6), of p] c(1,6) in simp)
  then show "runs (case Some p of None \<Rightarrow> ret (None, m)
     | Some node \<Rightarrow> bindP (get_at node (\<lambda>n. nat_sub (len n) 1)) (\<lambda>idx.
         bindP (remove_at m node idx) (\<lambda>(kv, m). ret (Some kv, m)))) A Q"
    unfolding option.case
    by - (rule runs_bind, rule runs_get_at[where A = A, OF p sub], assumption, rule runs_bind,
      auto intro: runs_ret elim!: runs_conseq)
qed (use none in \<open>simp add: runs_ret\<close>)

end
