(* ===== verification/UpdateMap.thy ===== *)
theory UpdateMap
  imports RemoveMap
begin

text \<open>
  The operations that combine a lookup with a change: \<open>get_mut\<close>, \<open>get_or_insert\<close>,
  \<open>update\<close> and \<open>update_and_return\<close>.
\<close>

text \<open>A lookup followed by a write \<open>act\<close> to the value it found.\<close>

lemma runs_find_write:
  fixes A :: "('k::linorder, 'v) vheap"
  assumes ok: "bmap_ok A m T"
    and absent: "map_of (contents T) k = None \<Longrightarrow> Q None A"
    and there: "\<And>p i par ks vs pv nx A' T'. A p = Some (VLeaf par ks vs pv nx) \<Longrightarrow> i < length ks \<Longrightarrow> ks ! i = k \<Longrightarrow>
      map_of (contents T) k = Some (vs ! i) \<Longrightarrow> A' = A(p \<mapsto> VLeaf par ks (vs[i := f (vs ! i)]) pv nx) \<Longrightarrow>
      bmap_ok A' m T' \<Longrightarrow> contents T' = kv_insert k (f (vs ! i)) (contents T) \<Longrightarrow>
      framed A (owned T) A' (owned T') \<Longrightarrow> runs (act p i) A Q"
  shows "runs (bindP (find_key m k) (\<lambda>r. case r of At node idx \<Rightarrow> act node idx | _ \<Rightarrow> ret None)) A Q"
proof (rule runs_bind, rule runs_find_key[OF ok])
  show "T = None \<Longrightarrow> runs (case NoRoot of At node idx \<Rightarrow> act node idx | _ \<Rightarrow> ret None) A Q"
    using absent by (simp add: runs_ret)
  fix t r assume T: "T = Some t" and r: "locates t (height m) k r"
  from r show "runs (case r of At node idx \<Rightarrow> act node idx | _ \<Rightarrow> ret None) A Q"
  proof (cases rule: locates_cases)
    case (At c p ks vs i)
    have v: "map_of (contents T) k = Some (vs ! i)" using lookup_at[OF At(3,5-9), of p] T At(2) by simp
    from ok T At(2) have "tree_in A (plug c (Lf p ks vs))" by simp
    then obtain par pv nx where p: "A p = Some (VLeaf par ks vs pv nx)" by (rule tree_in_leaf)
    note w = leaf_write[OF ok[unfolded T] At(2-9) p, of "f (vs ! i)"]
    show ?thesis unfolding At(1) found.case
      by (rule there[OF p At(6,7) v refl w(1)]) (use w(2,3) T in simp_all)
  next
    case (Before c p ks vs i)
    have "map_of (contents T) k = None" using lookup_before[OF Before(3,5,7,8), of p] T Before(2) by simp
    then show ?thesis unfolding Before(1) using absent by (simp add: runs_ret)
  qed
qed

text \<open>A node operation that writes a value and returns something it read before.\<close>

lemma write_upd_ret:
  assumes "i < length ks"
    and g: "\<And>n n'. node_view n (VLeaf par ks vs pv nx) \<Longrightarrow> write_val i w n = Inr n' \<Longrightarrow> g n = Inr (a, n')"
  shows "node_upd_ret g (VLeaf par ks vs pv nx) a (VLeaf par ks (vs[i := w]) pv nx)"
  unfolding node_upd_ret_def using upd_write_val[OF assms(1), of w par vs pv nx] g unfolding node_upd_def by metis

lemma runs_get_mut:
  fixes A :: "('k::linorder, 'v) vheap"
  assumes ok: "bmap_ok A m T"
    and absent: "map_of (contents T) k = None \<Longrightarrow> Q None A"
    and there: "\<And>A' T' v. map_of (contents T) k = Some v \<Longrightarrow> bmap_ok A' m T' \<Longrightarrow>
      contents T' = kv_insert k (f v) (contents T) \<Longrightarrow> framed A (owned T) A' (owned T') \<Longrightarrow> Q (Some v) A'"
  shows "runs (get_mut m k f) A Q"
  unfolding get_mut_def
proof (rule runs_find_write[where f = f and Q = Q, OF ok absent], assumption)
  let ?f = "\<lambda>idx n. bindR (val idx n) (\<lambda>v. bindR (write_val idx (f v) n) (\<lambda>n'. Inr (v, n')))"
  fix p i par ks vs pv nx A' T'
  assume p: "A p = Some (VLeaf par ks vs pv nx)" "i < length ks" and v: "map_of (contents T) k = Some (vs ! i)"
    and A': "A' = A(p \<mapsto> VLeaf par ks (vs[i := f (vs ! i)]) pv nx)"
    and w: "bmap_ok A' m T'" "contents T' = kv_insert k (f (vs ! i)) (contents T)" "framed A (owned T) A' (owned T')"
  have up: "node_upd_ret (?f i) (VLeaf par ks vs pv nx) (vs ! i) (VLeaf par ks (vs[i := f (vs ! i)]) pv nx)"
    by (rule write_upd_ret[OF p(2)]) (simp add: val_view[OF _ p(2)] del: node_view.simps)
  show "runs (bindP (upd_ret_at p (?f i)) (\<lambda>v. ret (Some v))) A Q"
    by (rule runs_bind, rule runs_upd_ret_at[where A = A, OF p(1) up], rule runs_ret, fold A')
      (rule there[OF v w])
qed

text \<open>Inserting at the place that \<open>find\<close> gave for a key that is not there.\<close>

lemma runs_insert_found:
  fixes A :: "('k::linorder, 'v) vheap"
  assumes pick: "slab pick" and ok: "bmap_ok A m (Some t)" and r: "locates t (height m) k (Before p i)"
    and Q: "\<And>m' A' t'. bmap_ok A' m' (Some t') \<Longrightarrow> entries t' = kv_insert k v (entries t) \<Longrightarrow>
      framed A (set (ptrs t)) A' (set (ptrs t')) \<Longrightarrow> Q m' A'"
  shows "runs (insert_before pick m k v p i) A Q"
  using r
proof (cases rule: locates_cases)
  case (Before c p' ks vs i')
  then have "p = p'" "i = i'" by simp_all
  then show ?thesis using runs_insert_before[OF pick ok Before(2-8), of v Q] Q by blast
qed simp

lemma runs_get_or_insert:
  fixes A :: "('k::linorder, 'v) vheap"
  assumes pick: "slab pick" and ok: "bmap_ok A m T"
    and there: "\<And>w. map_of (contents T) k = Some w \<Longrightarrow> Q (w, m) A"
    and absent: "\<And>m' A' T'. map_of (contents T) k = None \<Longrightarrow> bmap_ok A' m' T' \<Longrightarrow>
      contents T' = kv_insert k v (contents T) \<Longrightarrow> framed A (owned T) A' (owned T') \<Longrightarrow> Q (v, m') A'"
  shows "runs (get_or_insert pick m k v) A Q"
  unfolding get_or_insert_def
proof (rule runs_bind, rule runs_find_key[OF ok])
  let ?prog = "\<lambda>r. case r of
       NoRoot \<Rightarrow>
         bindP (insert_root pick m k v) (\<lambda>m.
         bindP (liftP (unwrapR (root m))) (\<lambda>p.
         bindP (get_at p (val 0)) (\<lambda>w. ret (w, m))))
     | Before node idx \<Rightarrow>
         bindP (insert_before pick m k v node idx) (\<lambda>m.
         bindP (map_get m k) (\<lambda>w.
         bindP (liftP (unwrapR w)) (\<lambda>w. ret (w, m))))
     | At node idx \<Rightarrow> bindP (get_at node (val idx)) (\<lambda>w. ret (w, m))"
  show "runs (?prog NoRoot) A Q" if T: "T = None"
    unfolding found.case
  proof (rule runs_bind, rule runs_insert_root[OF pick ok[unfolded T]])
    fix m' :: bmap and A' p
    assume m': "bmap_ok A' m' (Some (Lf p [k] [v]))" and f: "framed A {} A' {p}"
    then obtain pv nx where p: "A' p = Some (VLeaf None [k] [v] pv nx)" "root m' = Some p"
      by (auto simp: tree_in_def)
    have fin: "Q (v, m') A'" by (rule absent[OF _ m']) (use T f in \<open>simp_all add: entries_def\<close>)
    show "runs (bindP (liftP (unwrapR (root m'))) (\<lambda>p. bindP (get_at p (val 0)) (\<lambda>w. ret (w, m')))) A' Q"
      by (rule runs_bind, rule runs_lift[where a = p], simp add: p(2), rule runs_bind,
          rule runs_get_at[where A = A' and r = v, OF p(1)])
        (use fin in \<open>simp_all add: runs_ret del: node_view.simps\<close>)
  qed
  fix t r assume T: "T = Some t" and r: "locates t (height m) k r"
  from r show "runs (?prog r) A Q"
  proof (cases rule: locates_cases)
    case (At c p ks vs i)
    have v: "map_of (contents T) k = Some (vs ! i)" using lookup_at[OF At(3,5-9), of p] T At(2) by simp
    from ok T At(2) have "tree_in A (plug c (Lf p ks vs))" by simp
    then obtain par pv nx where p: "A p = Some (VLeaf par ks vs pv nx)" by (rule tree_in_leaf)
    show ?thesis unfolding At(1) found.case
      by (rule runs_bind, rule runs_get_at[where A = A and r = "vs ! i", OF p])
        (use there[OF v] At(6) in \<open>simp_all add: runs_ret del: node_view.simps\<close>)
  next
    case (Before c p ks vs i)
    have none: "map_of (contents T) k = None" using lookup_before[OF Before(3,5,7,8), of p] T Before(2) by simp
    show ?thesis unfolding Before(1) found.case
    proof (rule runs_bind, rule runs_insert_found[OF pick ok[unfolded T] r[unfolded Before(1)]])
      fix m' :: bmap and A' t'
      assume t': "bmap_ok A' m' (Some t')" "entries t' = kv_insert k v (entries t)"
        "framed A (set (ptrs t)) A' (set (ptrs t'))"
      have get: "map_of (contents (Some t')) k = Some v" using t'(2) by (simp add: map_of_kv_insert)
      have "Q (v, m') A'" by (rule absent[OF none t'(1)]) (use t'(2,3) T in simp_all)
      then show "runs (bindP (map_get m' k) (\<lambda>w. bindP (liftP (unwrapR w)) (\<lambda>w. ret (w, m')))) A' Q"
        by (intro runs_bind runs_map_get[OF t'(1)]) (unfold get, auto intro!: runs_lift runs_ret)
    qed
  qed
qed

text \<open>What \<open>update\<close> with a closure \<open>u\<close> does to the contents.\<close>

definition kv_update :: "'k::linorder \<Rightarrow> ('v option \<Rightarrow> ('v option \<times> 'r) option) \<Rightarrow> ('k \<times> 'v) list \<Rightarrow> ('k \<times> 'v) list" where
  "kv_update k u kvs =
     (case u (map_of kvs k) of
        Some (Some v, _) \<Rightarrow> kv_insert k v kvs
      | _ \<Rightarrow> kv_delete k kvs)"

lemma runs_update_and_return:
  fixes A :: "('k::linorder, 'v) vheap"
  assumes pick: "slab pick" and ok: "bmap_ok A m T"
    and Q: "\<And>m' A' T' S'. bmap_ok A' m' T' \<Longrightarrow> contents T' = kv_update k u (contents T) \<Longrightarrow>
      framed A (owned T) A' S' \<Longrightarrow> owned T' \<subseteq> S' \<Longrightarrow> T' \<noteq> None \<or> S' = owned T \<Longrightarrow>
      T' \<noteq> None \<longrightarrow> S' = owned T' \<Longrightarrow>
      Q (map_option snd (u (map_of (contents T) k)), m') A'"
  shows "runs (update_and_return pick m k u) A Q"
  unfolding update_and_return_def
proof (rule runs_bind, rule runs_find_key[OF ok])
  let ?prog = "\<lambda>r. case r of
       NoRoot \<Rightarrow>
         (case u None of
            None \<Rightarrow> ret (None, m)
          | Some (None, a) \<Rightarrow> ret (Some a, m)
          | Some (Some v, a) \<Rightarrow> bindP (insert_root pick m k v) (\<lambda>m. ret (Some a, m)))
     | Before node idx \<Rightarrow>
         (case u None of
            None \<Rightarrow> ret (None, m)
          | Some (None, a) \<Rightarrow> ret (Some a, m)
          | Some (Some v, a) \<Rightarrow> bindP (insert_before pick m k v node idx) (\<lambda>m. ret (Some a, m)))
     | At node idx \<Rightarrow>
         bindP (get_at node (read_val idx)) (\<lambda>v.
         case u (Some v) of
            None \<Rightarrow> bindP (remove_at m node idx) (\<lambda>(_, m). ret (None, m))
          | Some (None, a) \<Rightarrow> bindP (remove_at m node idx) (\<lambda>(_, m). ret (Some a, m))
          | Some (Some w, a) \<Rightarrow> bindP (upd_at node (write_val idx w)) (\<lambda>_. ret (Some a, m)))"
  have keep: "Q (map_option snd (u None), m) A"
    if "map_of (contents T) k = None" "u None = None \<or> (\<exists>a. u None = Some (None, a))"
  proof -
    have "kv_update k u (contents T) = contents T"
      using that(2) kv_delete_absent[of k "contents T"] that(1)[unfolded map_of_eq_None_iff]
      unfolding kv_update_def that(1) by auto
    then show ?thesis using Q[OF ok _ framed_refl[OF bmap_ok_owned[OF ok]]] that(1) by simp
  qed
  show "runs (?prog NoRoot) A Q" if T: "T = None"
  proof (cases "\<exists>v a. u None = Some (Some v, a)")
    case True
    then obtain v a where u: "u None = Some (Some v, a)" by blast
    have "runs (insert_root pick m k v) A (\<lambda>m' A'. Q (Some a, m') A')"
    proof (rule runs_insert_root[OF pick ok[unfolded T]])
      fix m' :: bmap and A' p assume m': "bmap_ok A' m' (Some (Lf p [k] [v]))" "framed A {} A' {p}"
      then show "Q (Some a, m') A'"
        using Q[OF m'(1)] T u by (simp add: kv_update_def entries_def)
    qed
    then have "runs (bindP (insert_root pick m k v) (\<lambda>m. ret (Some a, m))) A Q"
      by (intro runs_bind) (auto intro: runs_ret elim!: runs_conseq)
    then show ?thesis using u by simp
  next
    case False
    then show ?thesis using keep T by (auto split: option.split simp: runs_ret)
  qed
  fix t r assume T: "T = Some t" and r: "locates t (height m) k r"
  from r show "runs (?prog r) A Q"
  proof (cases rule: locates_cases)
    case (At c p ks vs i)
    have v: "map_of (contents T) k = Some (vs ! i)" using lookup_at[OF At(3,5-9), of p] T At(2) by simp
    from ok T At(2) have "tree_in A (plug c (Lf p ks vs))" by simp
    then obtain par pv nx where p: "A p = Some (VLeaf par ks vs pv nx)" by (rule tree_in_leaf)
    have remove: "runs (bindP (remove_at m p i) (\<lambda>(_, m). ret (x, m))) A Q"
      if u: "kv_update k u (contents T) = kv_delete k (contents T)" "map_option snd (u (map_of (contents T) k)) = x" for x
    proof -
      have "runs (remove_at m p i) A (\<lambda>r A'. Q (x, snd r) A')"
      proof (rule runs_remove_at[OF ok[unfolded T] At(2-6)])
        fix m' A' T'
        assume "removed A t (ents (left_items c) @ zip (del_at i ks) (del_at i vs) @ ents (right_items c)) A' m' T'"
        then have R: "removed A t (kv_delete k (contents T)) A' m' T'"
          unfolding removed_kv_delete[OF At(2,3,5-9)] using T by simp
        then show "Q (x, snd ((ks ! i, vs ! i), m')) A'"
          using Q[of A' m' T' "if T' = None then set (ptrs t) else owned T'"] u T
          by (cases T') (simp_all add: removed_def)
      qed
      then show ?thesis by (intro runs_bind) (auto intro: runs_ret elim!: runs_conseq)
    qed
    have rest: "runs (case u (Some (vs ! i)) of
            None \<Rightarrow> bindP (remove_at m p i) (\<lambda>(_, m). ret (None, m))
          | Some (None, a) \<Rightarrow> bindP (remove_at m p i) (\<lambda>(_, m). ret (Some a, m))
          | Some (Some w, a) \<Rightarrow> bindP (upd_at p (write_val i w)) (\<lambda>_. ret (Some a, m))) A Q"
    proof (cases "\<exists>w a. u (Some (vs ! i)) = Some (Some w, a)")
      case True
      then obtain w a where u: "u (Some (vs ! i)) = Some (Some w, a)" by blast
      note wr = leaf_write[OF ok[unfolded T] At(2-9) p, of w]
      have "Q (Some a, m) (A(p \<mapsto> VLeaf par ks (vs[i := w]) pv nx))"
        using Q[OF wr(1)] wr(2,3) u v T by (simp add: kv_update_def)
      then show ?thesis unfolding u
        by (simp, intro runs_bind runs_upd_at[where A = A, OF p upd_write_val[OF At(6)]] runs_ret)
    next
      case False
      then show ?thesis using remove v by (auto split: option.split simp: kv_update_def)
    qed
    show ?thesis unfolding At(1) found.case
      by (rule runs_bind, rule runs_get_at[where A = A and r = "vs ! i", OF p])
        (use At(6) rest in \<open>simp_all del: node_view.simps\<close>)
  next
    case (Before c p ks vs i)
    have none: "map_of (contents T) k = None" using lookup_before[OF Before(3,5,7,8), of p] T Before(2) by simp
    show ?thesis
    proof (cases "\<exists>v a. u None = Some (Some v, a)")
      case True
      then obtain v a where u: "u None = Some (Some v, a)" by blast
      have "runs (insert_before pick m k v p i) A (\<lambda>m' A'. Q (Some a, m') A')"
      proof (rule runs_insert_found[OF pick ok[unfolded T] r[unfolded Before(1)]])
        fix m' :: bmap and A' t'
        assume t': "bmap_ok A' m' (Some t')" "entries t' = kv_insert k v (entries t)"
          "framed A (set (ptrs t)) A' (set (ptrs t'))"
        then show "Q (Some a, m') A'" using Q[OF t'(1)] none T u by (simp add: kv_update_def)
      qed
      then have "runs (bindP (insert_before pick m k v p i) (\<lambda>m. ret (Some a, m))) A Q"
        by (intro runs_bind) (auto intro: runs_ret elim!: runs_conseq)
      then show ?thesis using u Before(1) by simp
    next
      case False
      then show ?thesis unfolding Before(1) using keep[OF none] by (auto split: option.split simp: runs_ret)
    qed
  qed
qed

end
