(* ===== verification/DropMap.thy ===== *)
theory DropMap
  imports UpdateMap
begin

text \<open>
  Teardown: dropping a tree gives every node of it back to the store exactly once, drops every value
  of the map once and every key of its nodes once, and leaves the rest of the store alone. \<open>clear\<close>
  does the same but keeps the old height, which a later insertion builds on.
\<close>

subsection \<open>Dropping a tree\<close>

fun all_keys :: "('k, 'v) bt \<Rightarrow> 'k list" where
  "all_keys (Lf p ks vs) = ks"
| "all_keys (Nd p ks ts) = ks @ concat (map all_keys ts)"

lemma ents_sep_before: "length ks = length xs \<Longrightarrow> ents (sep_before ks xs) = concat (map ents xs)"
  by (induction ks xs rule: list_induct2) auto

lemma ents_weave: "length xs = length ks + 1 \<Longrightarrow> ents (weave ks xs) = concat (map ents xs)"
  by (cases xs) (auto simp: ents_sep_before)

lemma entries_Nd: "length ts = length ks + 1 \<Longrightarrow> entries (Nd p ks ts) = concat (map entries ts)"
proof -
  assume "length ts = length ks + 1"
  then have "entries (Nd p ks ts) = concat (map (ents \<circ> flat) ts)"
    by (simp add: entries_def ents_weave)
  also have "map (ents \<circ> flat) ts = map entries ts" by (simp add: entries_def)
  finally show ?thesis .
qed

lemma restrict_union: "(A |` (- S)) |` (- T) = A |` (- (S \<union> T))"
  by (auto simp: restrict_map_def)

lemma runs_drop_nodes:
  fixes A :: "('k, 'v) vheap"
  assumes node: "\<And>(A :: ('k, 'v) vheap) par t Q. rep A par t \<Longrightarrow> bal h t \<Longrightarrow> distinct (ptrs t) \<Longrightarrow>
      Q (all_keys t, map snd (entries t)) (A |` (- set (ptrs t))) \<Longrightarrow> runs (drop_node_ptr h (root_of t)) A Q"
    and "reps A p i ts" "\<forall>t\<in>set ts. bal h t" "distinct (concat (map ptrs ts))"
      "Q (concat (map all_keys ts), map snd (concat (map entries ts))) (A |` (- ptrss ts))"
  shows "runs (drop_nodes h (map root_of ts)) A Q"
  using assms(2-)
proof (induction ts arbitrary: A i Q)
  case Nil
  then show ?case unfolding list.map drop_nodes.simps by (intro runs_ret) (simp add: restrict_map_def)
next
  case (Cons t ts)
  have d: "distinct (ptrs t)" "distinct (concat (map ptrs ts))" "set (ptrs t) \<inter> ptrss ts = {}"
    using Cons.prems(3) by auto
  show ?case unfolding list.map drop_nodes.simps
  proof (rule runs_bind, rule node)
    show "rep A (Some (p, i)) t" "bal h t" "distinct (ptrs t)" using Cons.prems d by auto
    let ?B = "A |` (- set (ptrs t))"
    have "reps ?B p (Suc i) ts"
    proof (rule reps_cong)
      show "reps A p (Suc i) ts" using Cons.prems(1) by simp
      show "?B q = A q" if "q \<in> ptrss ts" for q
      proof -
        have "q \<notin> set (ptrs t)" using that d(3) by (metis disjoint_iff)
        then show ?thesis by (simp add: restrict_map_def)
      qed
    qed
    then show "runs (case (all_keys t, map snd (entries t)) of (ks, vs) \<Rightarrow>
        bindP (drop_nodes h (map root_of ts)) (\<lambda>(ks', vs'). ret (ks @ ks', vs @ vs'))) ?B Q"
      unfolding prod.case
    proof (rule runs_bind[OF Cons.IH])
      have "(A |` (- set (ptrs t))) |` (- ptrss ts) = A |` (- ptrss (t # ts))" by (simp add: restrict_union)
      then show "runs (case (concat (map all_keys ts), map snd (concat (map entries ts))) of
          (ks', vs') \<Rightarrow> ret (all_keys t @ ks', map snd (entries t) @ vs')) (?B |` (- ptrss ts)) Q"
        unfolding prod.case using Cons.prems(4) by (intro runs_ret) simp
    qed (use Cons.prems d in auto)
  qed
qed

lemma runs_drop_node:
  fixes A :: "('k, 'v) vheap"
  assumes "rep A par t" "bal h t" "distinct (ptrs t)"
    "Q (all_keys t, map snd (entries t)) (A |` (- set (ptrs t)))"
  shows "runs (drop_node_ptr h (root_of t)) A Q"
  using assms
proof (induction h arbitrary: A par t Q)
  case 0
  then obtain p ks vs where t: "t = Lf p ks vs" "length vs = length ks" by (auto simp: bal_leaf_cases)
  with 0 obtain pv nx where p: "A p = Some (VLeaf par ks vs pv nx)" by auto
  have "A |` (- set (ptrs t)) = A(p := None)" "all_keys t = ks" "map snd (entries t) = vs"
    using t by (auto simp: entries_def restrict_map_def fun_eq_iff)
  with "0.prems"(4) have fin: "Q (ks, vs) (A(p := None))" by (simp only:)
  show ?case unfolding t root_of.simps drop_node_ptr.simps
    apply (rule runs_bind, rule runs_keys_leaf[where A = A, OF p])
    apply (rule runs_bind, rule runs_get_at[where A = A and r = vs, OF p], erule node_vals_view)
    by (rule runs_bind, rule runs_dealloc[where A = A, OF p], rule runs_ret, rule fin)
next
  case (Suc h)
  then obtain p ks ts where t: "t = Nd p ks ts" "length ts = length ks + 1" "\<forall>u\<in>set ts. bal h u"
    by (auto simp: bal_Suc_cases)
  with Suc have p: "A p = Some (VInt par ks (map root_of ts))" "reps A p 0 ts"
    and d: "distinct (concat (map ptrs ts))" "p \<notin> ptrss ts" by auto
  have fin: "Q (ks @ concat (map all_keys ts), map snd (concat (map entries ts))) ((A |` (- ptrss ts))(p := None))"
  proof -
    have "(A |` (- ptrss ts))(p := None) = A |` (- set (ptrs t))"
      by (auto simp: restrict_map_def fun_eq_iff t(1))
    then show ?thesis using Suc.prems(4) t by (simp add: entries_Nd)
  qed
  have alive: "(A |` (- ptrss ts)) p = Some (VInt par ks (map root_of ts))" using p(1) d(2) by (simp add: restrict_map_def)
  show ?case unfolding t(1) root_of.simps drop_node_ptr.simps
    apply (rule runs_bind, rule runs_keys_int[where A = A, OF p(1)])
    apply (rule runs_bind, rule runs_get_at[where A = A and r = "map root_of ts", OF p(1)], erule node_edges_view)
    apply (rule runs_bind, rule runs_drop_nodes[OF Suc.IH p(2) t(3) d(1)], assumption, assumption, assumption, assumption)
    apply (unfold prod.case)
    by (rule runs_bind, rule runs_dealloc[where A = "A |` (- ptrss ts)", OF alive], rule runs_ret, rule fin)
qed

definition keys_of :: "('k, 'v) bt option \<Rightarrow> 'k list" where
  "keys_of T = (case T of None \<Rightarrow> [] | Some t \<Rightarrow> all_keys t)"

lemma runs_drop_root:
  fixes A :: "('k::linorder, 'v) vheap"
  assumes ok: "bmap_ok A m T" and Q: "Q (keys_of T, map snd (contents T)) (A |` (- owned T))"
  shows "runs (case root m of None \<Rightarrow> ret ([], []) | Some p \<Rightarrow> drop_node_ptr (height m) p) A Q"
proof (cases T)
  case None
  then show ?thesis using assms by (simp add: runs_ret keys_of_def restrict_map_def)
next
  case (Some t)
  with ok have "rep A None t" "bal (height m) t" "distinct (ptrs t)" "root m = Some (root_of t)"
    by (simp_all add: tree_in_def tree_ok_def)
  then show ?thesis using Q Some by (simp add: runs_drop_node keys_of_def)
qed

lemma runs_drop_map:
  fixes A :: "('k::linorder, 'v) vheap"
  assumes "bmap_ok A m T" "Q (keys_of T, map snd (contents T)) (A |` (- owned T))"
  shows "runs (drop_map False m) A Q"
  unfolding drop_map_def if_False by (rule runs_drop_root[where Q = Q, OF assms])

lemma runs_map_clear:
  fixes A :: "('k::linorder, 'v) vheap"
  assumes ok: "bmap_ok A m T"
    and Q: "Q ((keys_of T, map snd (contents T)), m\<lparr>root := None, mlength := 0\<rparr>) (A |` (- owned T))"
  shows "runs (map_clear m) A Q"
  unfolding map_clear_def by (rule runs_bind, rule runs_drop_root[OF ok], rule runs_ret, rule Q)

lemma framed_restrict: "S \<subseteq> dom A \<Longrightarrow> framed A S (A |` (- S)) {}"
  by (auto simp: framed_def restrict_map_def domIff split: if_splits)

subsection \<open>The height after \<open>clear\<close>\<close>

text \<open>
  A map with no root and a height above 0, as \<open>clear\<close> leaves it when the tree had internal nodes:
  the next insertion makes a leaf the root of a map with that height, and the next lookup takes the
  leaf for an internal node.
\<close>

lemma faults_find_leaf:
  assumes "A p = Some (VLeaf None ks vs pv nx)" "sorted_wrt (<) ks" "root m = Some p" "height m = Suc h"
  shows "faults (find_key m k) A WrongVariant"
  unfolding find_key_def assms(3,4) option.case find_loop.simps
proof (rule faults_bind_later, rule runs_keys_leaf[where A = A, OF assms(1)])
  show "faults (case binary_search ks k of
       Inl idx \<Rightarrow> bindP (get_at p (edge idx)) (\<lambda>c. find_loop h c k)
     | Inr idx \<Rightarrow> bindP (get_at p (edge (idx + 1))) (\<lambda>c. find_loop h c k)) A WrongVariant"
    using binary_search_sound[OF assms(2), of k]
    by (cases "binary_search ks k")
      (auto intro!: faults_bind_now faults_get_at[where A = A, OF assms(1)] edge_wrong simp del: node_view.simps)
qed

lemma runs_clear_then_insert:
  fixes A :: "('k::linorder, 'v) vheap"
  assumes pick: "slab pick" and ok: "bmap_ok A m T" and high: "0 < height m"
    and Q: "\<And>m' A'. faults (find_key m' x) A' WrongVariant \<Longrightarrow> Q (None, m') A'"
  shows "runs (bindP (map_clear m) (\<lambda>(_, m). map_insert pick m k v)) A Q"
proof (rule runs_bind, rule runs_map_clear[OF ok])
  let ?m = "m\<lparr>root := None, mlength := 0\<rparr>"
  obtain h where h: "height m = Suc h" using high by (cases "height m") auto
  have "runs (insert_root pick ?m k v) (A |` (- owned T)) (\<lambda>m' A'. Q (None, m') A')"
  proof (rule runs_insert_root_raw[OF pick])
    fix p
    let ?A = "(A |` (- owned T))(p \<mapsto> VLeaf None [k] [v] None None)"
    have "faults (find_key (?m\<lparr>root := Some p, mlength := mlength ?m + 1\<rparr>) x) ?A WrongVariant"
      by (rule faults_find_leaf[where p = p and h = h and ks = "[k]"]) (use h in simp_all)
    then show "Q (None, ?m\<lparr>root := Some p, mlength := mlength ?m + 1\<rparr>) ?A" by (rule Q)
  qed simp
  then show "runs (case ((keys_of T, map snd (contents T)), ?m) of (_, m) \<Rightarrow> map_insert pick m k v)
      (A |` (- owned T)) Q"
    unfolding map_insert_def by (auto simp: find_key_def intro!: runs_bind runs_ret elim!: runs_conseq)
qed

end
