(* ===== verification/Simulation.thy ===== *)
theory Simulation
  imports Prelude
begin

text \<open>
  The contract between a component and its client: the component's programs simulate the operations
  of an abstract value. One step law is the assumption; runs of any number of operations follow once
  for every component (the map, the set, the iterators and the ranges).
\<close>

fun run_ops :: "('op \<Rightarrow> 'c \<Rightarrow> ('s, 'out \<times> 'c) prog) \<Rightarrow> 'op list \<Rightarrow> 'c \<Rightarrow> ('s, 'out list \<times> 'c) prog" where
  "run_ops step [] c = ret ([], c)"
| "run_ops step (op # ops) c =
     bindP (step op c) (\<lambda>(out, c). bindP (run_ops step ops c) (\<lambda>(outs, c). ret (out # outs, c)))"

fun spec_ops :: "('op \<Rightarrow> 'a \<Rightarrow> 'out \<times> 'a) \<Rightarrow> 'op list \<Rightarrow> 'a \<Rightarrow> 'out list \<times> 'a" where
  "spec_ops spec [] a = ([], a)"
| "spec_ops spec (op # ops) a =
     (let (out, a) = spec op a; (outs, a) = spec_ops spec ops a in (out # outs, a))"

locale simulation =
  fixes rel :: "'s \<Rightarrow> 'c \<Rightarrow> 'a \<Rightarrow> bool"
    and step :: "'op \<Rightarrow> 'c \<Rightarrow> ('s, 'out \<times> 'c) prog"
    and spec :: "'op \<Rightarrow> 'a \<Rightarrow> 'out \<times> 'a"
  assumes simulates: "rel s c a \<Longrightarrow>
    \<exists>c' s'. step op c s = Inr ((fst (spec op a), c'), s') \<and> rel s' c' (snd (spec op a))"
begin

lemma run_simulates:
  "rel s c a \<Longrightarrow> \<exists>c' s'. run_ops step ops c s = Inr ((fst (spec_ops spec ops a), c'), s') \<and>
     rel s' c' (snd (spec_ops spec ops a))"
proof (induction ops arbitrary: s c a)
  case (Cons op ops)
  obtain out b where op: "spec op a = (out, b)" by fastforce
  with simulates[OF Cons.prems, of op] obtain c1 s1
    where "step op c s = Inr ((out, c1), s1)" "rel s1 c1 b" by auto
  with Cons.IH[of s1 c1 b] op show ?case by (auto simp: bindP_apply split: prod.splits)
qed simp

lemma step_no_fault: "rel s c a \<Longrightarrow> step op c s \<noteq> Inl e"
  using simulates[of s c a op] by auto

lemma run_outs:
  "rel s c a \<Longrightarrow> run_ops step ops c s = Inr ((outs, c'), s') \<Longrightarrow>
     outs = fst (spec_ops spec ops a) \<and> rel s' c' (snd (spec_ops spec ops a))"
  using run_simulates[of s c a ops] by auto

end

end
