(* ===== verification/MapOps.thy ===== *)
theory MapOps
  imports DropMap Simulation
begin

text \<open>
  The map as its clients see it: a map \<open>m\<close> in a store \<open>s\<close> represents an association list with
  increasing keys, and every operation of the map simulates the operation on that list.
\<close>

subsection \<open>What a map in a store stands for\<close>

definition represents :: "('k::linorder, 'v) store \<Rightarrow> bmap \<Rightarrow> ('k \<times> 'v) list \<Rightarrow> bool" where
  "represents s m kvs \<longleftrightarrow> (\<exists>A T. shows_heap s A \<and> bmap_ok A m T \<and> contents T = kvs)"

lemma representsI: "shows_heap s A \<Longrightarrow> bmap_ok A m T \<Longrightarrow> represents s m (contents T)"
  by (auto simp: represents_def)

lemma represents_new: "represents new_store new_in []"
  using representsI[OF shows_new_store bmap_ok_new] by simp

lemma represents_sorted: "represents s m kvs \<Longrightarrow> kv_sorted kvs"
  by (auto simp: represents_def intro: bmap_sorted)

subsection \<open>Operations and their specification\<close>

datatype ('k, 'v) map_op =
    Len | IsEmpty | ContainsKey 'k | Get 'k | GetKey 'k | GetKeyValue 'k | FirstKeyValue | LastKeyValue
  | GetMut 'k "'v \<Rightarrow> 'v" | Insert 'k 'v | GetOrInsert 'k 'v | Extend "('k \<times> 'v) list"
  | Remove 'k | RemoveKeyValue 'k | PopFirst | PopLast
  | Update 'k "'v option \<Rightarrow> 'v option option"

datatype ('k, 'v) outcome =
    Num nat | Flag bool | Val 'v | OptKey "'k option" | OptVal "'v option" | OptEntry "('k \<times> 'v) option"
  | Done | Panicked

fun run_op ::
    "(slab_event list \<Rightarrow> ptr) \<Rightarrow> ('k::linorder, 'v) map_op \<Rightarrow> bmap \<Rightarrow>
     ('k, 'v, ('k, 'v) outcome \<times> bmap) sprog" where
  "run_op pick Len m = ret (Num (map_len m), m)"
| "run_op pick IsEmpty m = ret (Flag (map_is_empty m), m)"
| "run_op pick (ContainsKey k) m = bindP (contains_key m k) (\<lambda>r. ret (Flag r, m))"
| "run_op pick (Get k) m = bindP (map_get m k) (\<lambda>r. ret (OptVal r, m))"
| "run_op pick (GetKey k) m = bindP (get_key m k) (\<lambda>r. ret (OptKey r, m))"
| "run_op pick (GetKeyValue k) m = bindP (get_key_value m k) (\<lambda>r. ret (OptEntry r, m))"
| "run_op pick FirstKeyValue m = bindP (first_key_value m) (\<lambda>r. ret (OptEntry r, m))"
| "run_op pick LastKeyValue m = bindP (last_key_value m) (\<lambda>r. ret (OptEntry r, m))"
| "run_op pick (GetMut k f) m = bindP (get_mut m k f) (\<lambda>r. ret (OptVal r, m))"
| "run_op pick (Insert k v) m = bindP (map_insert pick m k v) (\<lambda>(r, m). ret (OptVal r, m))"
| "run_op pick (GetOrInsert k v) m = bindP (get_or_insert pick m k v) (\<lambda>(r, m). ret (Val r, m))"
| "run_op pick (Extend kvs) m = bindP (map_extend pick m kvs) (\<lambda>m. ret (Done, m))"
| "run_op pick (Remove k) m = bindP (map_remove m k) (\<lambda>(r, m). ret (OptVal r, m))"
| "run_op pick (RemoveKeyValue k) m = bindP (remove_key_value m k) (\<lambda>(r, m). ret (OptEntry r, m))"
| "run_op pick PopFirst m = bindP (pop_first m) (\<lambda>(r, m). ret (OptEntry r, m))"
| "run_op pick PopLast m = bindP (pop_last m) (\<lambda>(r, m). ret (OptEntry r, m))"
| "run_op pick (Update k f) m =
     bindP (map_update pick m k f) (\<lambda>(r, m). ret (if r = None then Panicked else Done, m))"

fun spec_op :: "('k::linorder, 'v) map_op \<Rightarrow> ('k \<times> 'v) list \<Rightarrow> ('k, 'v) outcome \<times> ('k \<times> 'v) list" where
  "spec_op Len kvs = (Num (length kvs), kvs)"
| "spec_op IsEmpty kvs = (Flag (kvs = []), kvs)"
| "spec_op (ContainsKey k) kvs = (Flag (k \<in> fst ` set kvs), kvs)"
| "spec_op (Get k) kvs = (OptVal (map_of kvs k), kvs)"
| "spec_op (GetKey k) kvs = (OptKey (map_option (\<lambda>_. k) (map_of kvs k)), kvs)"
| "spec_op (GetKeyValue k) kvs = (OptEntry (map_option (Pair k) (map_of kvs k)), kvs)"
| "spec_op FirstKeyValue kvs = (OptEntry (kv_first kvs), kvs)"
| "spec_op LastKeyValue kvs = (OptEntry (kv_last kvs), kvs)"
| "spec_op (GetMut k f) kvs =
     (case map_of kvs k of None \<Rightarrow> (OptVal None, kvs) | Some v \<Rightarrow> (OptVal (Some v), kv_insert k (f v) kvs))"
| "spec_op (Insert k v) kvs = (OptVal (map_of kvs k), kv_insert k v kvs)"
| "spec_op (GetOrInsert k v) kvs =
     (case map_of kvs k of None \<Rightarrow> (Val v, kv_insert k v kvs) | Some w \<Rightarrow> (Val w, kvs))"
| "spec_op (Extend xs) kvs = (Done, fold (\<lambda>(k, v). kv_insert k v) xs kvs)"
| "spec_op (Remove k) kvs = (OptVal (map_of kvs k), kv_delete k kvs)"
| "spec_op (RemoveKeyValue k) kvs = (OptEntry (map_option (Pair k) (map_of kvs k)), kv_delete k kvs)"
| "spec_op PopFirst kvs = (OptEntry (kv_first kvs), tl kvs)"
| "spec_op PopLast kvs = (OptEntry (kv_last kvs), butlast kvs)"
| "spec_op (Update k f) kvs =
     (if f (map_of kvs k) = None then Panicked else Done, kv_update k (\<lambda>v. map_option (\<lambda>w. (w, ())) (f v)) kvs)"

subsection \<open>Every operation simulates its specification\<close>

text \<open>
  The frame says what an operation does to the store: it frees or reuses the nodes of the map and takes
  fresh ones, and it leaves all others alone. A map that is emptied does not give its last node back.
\<close>

definition after_op :: "('k, 'v) bt option \<Rightarrow> ('k, 'v) bt option \<Rightarrow> ptr set" where
  "after_op T T' = (if T' = None then owned T else owned T')"

definition op_ok ::
    "('k::linorder, 'v) vheap \<Rightarrow> ('k, 'v) bt option \<Rightarrow> 'a \<times> ('k \<times> 'v) list \<Rightarrow> 'a \<times> bmap \<Rightarrow>
     ('k, 'v) vheap \<Rightarrow> bool" where
  "op_ok A T spec r A' \<longleftrightarrow> fst r = fst spec \<and>
     (\<exists>T'. bmap_ok A' (snd r) T' \<and> contents T' = snd spec \<and> framed A (owned T) A' (after_op T T'))"

lemma owned_after_op: "owned T' \<subseteq> after_op T T'"
  by (cases T') (auto simp: after_op_def)

lemma op_okI:
  assumes "bmap_ok A' m' T'" "contents T' = kvs" "framed A (owned T) A' (owned T')" "kvs \<noteq> []"
  shows "op_ok A T (out, kvs) (out, m') A'"
  using assms by (cases T') (auto simp: op_ok_def after_op_def intro!: exI[of _ T'])

lemma op_ok_read: "bmap_ok A m T \<Longrightarrow> op_ok A T (out, contents T) (out, m) A"
  using framed_refl[OF bmap_ok_owned, of A m T]
  by (cases T) (auto simp: op_ok_def after_op_def intro!: exI[of _ T])

lemma op_ok_removed:
  "removed A t kvs A' m' T' \<Longrightarrow> T = Some t \<Longrightarrow> op_ok A T (out, kvs) (out, m') A'"
  unfolding removed_def op_ok_def by (auto simp: after_op_def intro!: exI[of _ T'] split: if_splits)

lemma kv_insert_not_Nil [simp]: "kv_insert k v kvs \<noteq> []"
  by (cases "(k, v, kvs)" rule: kv_insert.cases) auto

lemmas op_ok_insert = op_okI[OF _ _ _ kv_insert_not_Nil]

lemma fold_insert_not_Nil: "kvs \<noteq> [] \<or> xs \<noteq> [] \<Longrightarrow> fold (\<lambda>(k, v). kv_insert k v) xs kvs \<noteq> []"
proof (induction xs arbitrary: kvs)
  case (Cons x xs)
  then show ?case by (cases x) simp
qed simp

lemma map_len_contents: "bmap_ok A m T \<Longrightarrow> mlength m = length (contents T)"
  by (cases T) auto

subsection \<open>How many entries a tree of a height holds\<close>

lemma sum_list_ge: "(\<And>x. x \<in> set xs \<Longrightarrow> b \<le> f x) \<Longrightarrow> length xs * b \<le> sum_list (map f xs)"
  by (induction xs) (auto simp: add_mono)

lemma sum_list_le: "(\<And>x. x \<in> set xs \<Longrightarrow> f x \<le> b) \<Longrightarrow> sum_list (map f xs) \<le> length xs * b"
  by (induction xs) (auto simp: add_mono)

lemma length_entries_Nd:
  "length ts = length ks + 1 \<Longrightarrow> length (entries (Nd p ks ts)) = sum_list (map (\<lambda>t. length (entries t)) ts)"
  by (simp add: entries_Nd length_concat comp_def)

lemma entries_ge:
  "bal h t \<Longrightarrow> filled (M div 2) t \<Longrightarrow> M div 2 * (M div 2 + 1) ^ h \<le> length (entries t)"
proof (induction h arbitrary: t)
  case 0
  then show ?case by (auto simp: bal_leaf_cases entries_def)
next
  case (Suc h)
  then obtain p ks ts where t: "t = Nd p ks ts" "length ts = length ks + 1" "\<forall>u\<in>set ts. bal h u"
    by (auto simp: bal_Suc_cases)
  have "(M div 2 + 1) * (M div 2 * (M div 2 + 1) ^ h) \<le> length ts * (M div 2 * (M div 2 + 1) ^ h)"
    using Suc.prems(2) t by (intro mult_le_mono1) simp
  also have "\<dots> \<le> length (entries t)" unfolding t(1) length_entries_Nd[OF t(2)]
    by (rule sum_list_ge) (use Suc t in auto)
  finally show ?case by (simp add: ac_simps)
qed

lemma entries_ge_root:
  assumes "bal (Suc h) t" "filled 1 t"
  shows "2 * (M div 2 * (M div 2 + 1) ^ h) \<le> length (entries t)"
proof -
  obtain p ks ts where t: "t = Nd p ks ts" "length ts = length ks + 1" "\<forall>u\<in>set ts. bal h u"
    using assms(1) by (auto simp: bal_Suc_cases)
  have "2 * (M div 2 * (M div 2 + 1) ^ h) \<le> length ts * (M div 2 * (M div 2 + 1) ^ h)"
    using assms(2) t by (intro mult_le_mono1) simp
  also have "\<dots> \<le> length (entries t)" unfolding t(1) length_entries_Nd[OF t(2)]
    by (rule sum_list_ge) (use assms t entries_ge in auto)
  finally show ?thesis .
qed

lemma entries_le: "bal h t \<Longrightarrow> filled m t \<Longrightarrow> length (entries t) \<le> M * (M + 1) ^ h"
proof (induction h arbitrary: t m)
  case 0
  then show ?case by (auto simp: bal_leaf_cases entries_def)
next
  case (Suc h)
  then obtain p ks ts where t: "t = Nd p ks ts" "length ts = length ks + 1" "\<forall>u\<in>set ts. bal h u"
    by (auto simp: bal_Suc_cases)
  have "length (entries t) \<le> length ts * (M * (M + 1) ^ h)" unfolding t(1) length_entries_Nd[OF t(2)]
    by (rule sum_list_le) (use Suc t in auto)
  also have "\<dots> \<le> (M + 1) * (M * (M + 1) ^ h)" using Suc.prems(2) t by (intro mult_le_mono1) simp
  finally show ?case by (simp add: ac_simps)
qed

lemma entries_not_Nil: "bal h t \<Longrightarrow> filled 1 t \<Longrightarrow> entries t \<noteq> []"
proof (cases h)
  case 0
  assume "bal h t" "filled 1 t"
  then show ?thesis using 0 by (auto simp: bal_leaf_cases entries_def)
next
  case (Suc h')
  assume "bal h t" "filled 1 t"
  then have "2 * (M div 2 * (M div 2 + 1) ^ h') \<le> length (entries t)" using Suc entries_ge_root by blast
  then show ?thesis by (auto simp: M_def)
qed

lemma contents_Nil_iff: "bmap_ok A m T \<Longrightarrow> contents T = [] \<longleftrightarrow> T = None"
  by (cases T) (auto simp: tree_ok_def dest: entries_not_Nil)

subsection \<open>The law of the map\<close>

lemma runs_op:
  fixes A :: "('k::linorder, 'v) vheap"
  assumes pick: "slab pick" and ok: "bmap_ok A m T"
  shows "runs (run_op pick op m) A (op_ok A T (spec_op op (contents T)))"
proof -
  note read = op_ok_read[OF ok]
  note removed = op_ok_removed
  have absent: "kv_delete k (contents T) = contents T" if "map_of (contents T) k = None" for k
    using that by (auto intro!: kv_delete_absent simp: map_of_eq_None_iff)
  show ?thesis
  proof (cases op)
    case Len
    then show ?thesis using read by (auto intro!: runs_ret simp: map_len_def map_len_contents[OF ok])
  next
    case IsEmpty
    have "map_is_empty m \<longleftrightarrow> contents T = []"
      using ok contents_Nil_iff[OF ok] by (cases T) (auto simp: map_is_empty_def)
    then show ?thesis using IsEmpty read by (auto intro!: runs_ret)
  next
    case (ContainsKey k)
    then show ?thesis by (auto intro!: runs_bind runs_contains_key[OF ok] runs_ret read)
  next
    case (Get k)
    then show ?thesis by (auto intro!: runs_bind runs_map_get[OF ok] runs_ret read)
  next
    case (GetKey k)
    then show ?thesis by (auto intro!: runs_bind runs_get_key[OF ok] runs_ret read)
  next
    case (GetKeyValue k)
    then show ?thesis by (auto intro!: runs_bind runs_get_key_value[OF ok] runs_ret read)
  next
    case FirstKeyValue
    then show ?thesis by (auto intro!: runs_bind runs_first_key_value[OF ok] runs_ret read)
  next
    case LastKeyValue
    then show ?thesis by (auto intro!: runs_bind runs_last_key_value[OF ok] runs_ret read)
  next
    case (GetMut k f)
    then show ?thesis
      by (auto intro!: runs_bind runs_get_mut[OF ok] runs_ret read op_ok_insert)
  next
    case (Insert k v)
    then show ?thesis by (auto intro!: runs_bind runs_map_insert[OF pick ok] runs_ret op_ok_insert)
  next
    case (GetOrInsert k v)
    then show ?thesis
      by (auto intro!: runs_bind runs_get_or_insert[OF pick ok] runs_ret read op_ok_insert)
  next
    case (Extend kvs)
    show ?thesis unfolding Extend run_op.simps spec_op.simps
    proof (rule runs_bind, rule runs_map_extend[OF pick ok], rule runs_ret)
      fix m' A' T'
      assume A': "bmap_ok A' m' T'" "contents T' = fold (\<lambda>(k, v). kv_insert k v) kvs (contents T)"
        "framed A (owned T) A' (owned T')"
      show "op_ok A T (Done, fold (\<lambda>(k, v). kv_insert k v) kvs (contents T)) (Done, m') A'"
      proof (cases "contents T = [] \<and> kvs = []")
        case True
        then have "T' = None" "T = None" using A'(1,2) ok by (simp_all flip: contents_Nil_iff)
        then show ?thesis using A' True by (auto simp: op_ok_def after_op_def intro!: exI[of _ None])
      next
        case False
        then show ?thesis using A' fold_insert_not_Nil by (intro op_okI) auto
      qed
    qed
  next
    case (Remove k)
    then show ?thesis
      by (auto intro!: runs_bind runs_map_remove[OF ok] runs_ret read intro: removed simp: absent)
  next
    case (RemoveKeyValue k)
    then show ?thesis
      by (auto intro!: runs_bind runs_remove_key_value[OF ok] runs_ret read intro: removed simp: absent)
  next
    case PopFirst
    then show ?thesis
      using read by (auto intro!: runs_bind runs_pop_first[OF ok] runs_ret intro: removed)
  next
    case PopLast
    then show ?thesis
      using read by (auto intro!: runs_bind runs_pop_last[OF ok] runs_ret intro: removed)
  next
    case (Update k f)
    let ?u = "\<lambda>v. map_option (\<lambda>w. (w, ())) (f v)"
    show ?thesis unfolding Update run_op.simps spec_op.simps map_update_def
    proof (rule runs_bind, rule runs_update_and_return[OF pick ok])
      fix m' A' T' S'
      assume "bmap_ok A' m' T'" "contents T' = kv_update k ?u (contents T)" "framed A (owned T) A' S'"
        "T' \<noteq> None \<or> S' = owned T" "T' \<noteq> None \<longrightarrow> S' = owned T'"
      then show "runs (case (map_option snd (?u (map_of (contents T) k)), m') of
          (r, m) \<Rightarrow> ret (if r = None then Panicked else Done, m)) A'
        (op_ok A T (if f (map_of (contents T) k) = None then Panicked else Done, kv_update k ?u (contents T)))"
        unfolding prod.case
        by (intro runs_ret) (cases T'; auto simp: op_ok_def after_op_def intro!: exI[of _ T'])
    qed
  qed
qed

subsection \<open>The map simulates the association list\<close>

lemma op_represents:
  assumes "slab pick" "represents s m kvs"
  shows "\<exists>m' s'. run_op pick op m s = Inr ((fst (spec_op op kvs), m'), s') \<and>
    represents s' m' (snd (spec_op op kvs))"
proof -
  obtain A T where A: "shows_heap s A" "bmap_ok A m T" "contents T = kvs"
    using assms(2) by (auto simp: represents_def)
  obtain r s' A' where "run_op pick op m s = Inr (r, s')" "shows_heap s' A'" "op_ok A T (spec_op op kvs) r A'"
    using runsD[OF runs_op[OF assms(1) A(2)] A(1)] A(3) by metis
  then show ?thesis unfolding op_ok_def represents_def by (cases r) auto
qed

lemma map_simulation: "slab pick \<Longrightarrow> simulation represents (run_op pick) spec_op"
  by unfold_locales (rule op_represents)

sublocale slab \<subseteq> ordered_map: simulation represents "run_op pick" spec_op
  by (rule map_simulation[OF slab_axioms])

interpretation bump_map: simulation represents "run_op bump" spec_op
  by (rule map_simulation[OF bump_slab.slab_axioms])

end
