(* ===== verification/World.thy ===== *)
theory World
  imports MapOps
begin

text \<open>
  Several maps in one store: every map satisfies its invariant and they own disjoint parts of the store.
  What creating a map, running an operation of one of them, or dropping one does to all of them.
\<close>

subsection \<open>Maps that share a store\<close>

definition separate :: "('k, 'v) bt option list \<Rightarrow> bool" where
  "separate Ts \<longleftrightarrow>
     (\<forall>i<length Ts. \<forall>j<length Ts. i \<noteq> j \<longrightarrow> owned (Ts ! i) \<inter> owned (Ts ! j) = {})"

text \<open>\<open>tight\<close> says that the store holds no node but those of the maps.\<close>

definition world_ok ::
    "bool \<Rightarrow> ('k::linorder, 'v) store \<Rightarrow> bmap list \<Rightarrow> ('k \<times> 'v) list list \<Rightarrow> bool" where
  "world_ok tight s ms kvss \<longleftrightarrow>
     (\<exists>A Ts. shows_heap s A \<and> list_all2 (bmap_ok A) ms Ts \<and> map contents Ts = kvss \<and> separate Ts \<and>
        (tight \<longrightarrow> dom A = \<Union> (owned ` set Ts)))"

text \<open>A pointer to a freed node.\<close>

lemma faults_dangling: "A p = None \<Longrightarrow> faults (get_at p f) A DanglingPointer"
proof -
  assume "A p = None"
  then have "nodes s p = None" if "shows_heap s A" for s
    using that unfolding shows_heap_def by (metis domIff)
  then show ?thesis by (simp add: faults_def get_at_def deref_def bindP_apply)
qed

lemma world_ok_length: "world_ok tight s ms kvss \<Longrightarrow> length kvss = length ms"
  by (auto simp: world_ok_def dest: list_all2_lengthD)

lemma world_ok_represents: "world_ok tight s ms kvss \<Longrightarrow> i < length ms \<Longrightarrow> represents s (ms ! i) (kvss ! i)"
  unfolding world_ok_def represents_def by (metis list_all2_conv_all_nth nth_map)

lemma world_ok_new: "world_ok tight new_store [] []"
  unfolding world_ok_def by (intro exI[of _ "\<lambda>_. None"] exI[of _ "[]"]) (simp add: separate_def)

lemma represents_world: "represents s m kvs \<Longrightarrow> world_ok False s [m] [kvs]"
  unfolding world_ok_def represents_def
  by (elim exE conjE) (intro exI conjI, assumption, rule list_all2_Cons[THEN iffD2],
    auto simp: separate_def)

lemma framed_other_owned:
  assumes "framed A S A' S'" "bmap_ok A m T" "owned T \<inter> S = {}"
  shows "bmap_ok A' m T \<and> owned T \<inter> S' = {}"
  using framed_other[OF assms] by blast

lemma separate_upd:
  assumes "separate Ts" "i < length Ts"
    "\<And>j. j < length Ts \<Longrightarrow> j \<noteq> i \<Longrightarrow> owned (Ts ! j) \<inter> owned T' = {}"
  shows "separate (Ts[i := T'])"
  using assms by (auto simp: separate_def nth_list_update)

lemma world_upd:
  fixes A :: "('k::linorder, 'v) vheap"
  assumes ms: "list_all2 (bmap_ok A) ms Ts" and sep: "separate Ts" and i: "i < length ms"
    and fr: "framed A (owned (Ts ! i)) A' S'" and m': "bmap_ok A' m' T'" "owned T' \<subseteq> S'"
  shows "list_all2 (bmap_ok A') (ms[i := m']) (Ts[i := T'])" "separate (Ts[i := T'])"
proof -
  have len: "length Ts = length ms" using ms list_all2_lengthD by metis
  have others: "bmap_ok A' (ms ! j) (Ts ! j) \<and> owned (Ts ! j) \<inter> S' = {}" if "j < length ms" "j \<noteq> i" for j
  proof (rule framed_other_owned[OF fr])
    show "bmap_ok A (ms ! j) (Ts ! j)" using ms that(1) by (simp add: list_all2_conv_all_nth)
    show "owned (Ts ! j) \<inter> owned (Ts ! i) = {}" using sep that i len by (simp add: separate_def)
  qed
  show "list_all2 (bmap_ok A') (ms[i := m']) (Ts[i := T'])"
    unfolding list_all2_conv_all_nth
  proof (intro conjI allI impI)
    show "bmap_ok A' (ms[i := m'] ! j) (Ts[i := T'] ! j)" if "j < length (ms[i := m'])" for j
      using that others[of j] m'(1) len i by (cases "j = i") (simp_all add: nth_list_update)
  qed (simp add: len)
  show "separate (Ts[i := T'])"
  proof (rule separate_upd[OF sep])
    show "owned (Ts ! j) \<inter> owned T' = {}" if "j < length Ts" "j \<noteq> i" for j
      using others[of j] that m'(2) len by (metis disjoint_iff subsetD)
  qed (simp add: i len)
qed

lemma union_upd:
  "i < length Ts \<Longrightarrow> \<Union> (owned ` set (Ts[i := T'])) \<subseteq> \<Union> (owned ` set Ts) \<union> owned T'"
  using set_update_subset_insert[of Ts i T'] by blast

lemma union_others:
  assumes "separate Ts" "i < length Ts"
  shows "\<Union> (owned ` set (Ts[i := T'])) = (\<Union> (owned ` set Ts) - owned (Ts ! i)) \<union> owned T'"
proof -
  have 1: "\<Union> (owned ` set (Ts[i := T'])) = (\<Union>j\<in>{..<length Ts} - {i}. owned (Ts ! j)) \<union> owned T'"
    using assms(2) by (fastforce simp: set_conv_nth nth_list_update split: if_splits)
  have 2: "(\<Union>j\<in>{..<length Ts} - {i}. owned (Ts ! j)) = \<Union> (owned ` set Ts) - owned (Ts ! i)"
    using assms by (fastforce simp: set_conv_nth separate_def)
  from 1 2 show ?thesis by simp
qed

lemma tight_upd:
  assumes "dom A = \<Union> (owned ` set Ts)" "separate Ts" "i < length Ts" "framed A (owned (Ts ! i)) A' (owned T')"
  shows "dom A' = \<Union> (owned ` set (Ts[i := T']))"
  using assms unfolding union_others[OF assms(2,3)] by (simp add: framed_def)

text \<open>What one operation does to all the maps.\<close>

lemma world_run:
  fixes prog :: "('k::linorder, 'v, 'a) sprog"
  assumes w: "world_ok tight s ms kvss" and i: "i < length ms"
    and run: "\<And>A T. bmap_ok A (ms ! i) T \<Longrightarrow> contents T = kvss ! i \<Longrightarrow>
      runs prog A (\<lambda>r A'. P r \<and> (\<exists>T' S'. bmap_ok A' (g r) T' \<and> contents T' = kvs \<and> owned T' \<subseteq> S' \<and>
        framed A (owned T) A' S' \<and> (tight' \<longrightarrow> S' = owned T')))"
  shows "\<exists>r s'. prog s = Inr (r, s') \<and> P r \<and>
    world_ok (tight \<and> tight') s' (ms[i := g r]) (kvss[i := kvs])"
proof -
  obtain A Ts where A: "shows_heap s A" "list_all2 (bmap_ok A) ms Ts" "kvss = map contents Ts" "separate Ts"
      "tight \<longrightarrow> dom A = \<Union> (owned ` set Ts)"
    using w unfolding world_ok_def by blast
  have i': "i < length Ts" using i A(2) by (simp add: list_all2_lengthD)
  have "bmap_ok A (ms ! i) (Ts ! i)" using A(2) i by (rule list_all2_nthD)
  moreover have "contents (Ts ! i) = kvss ! i" using A(3) i' by simp
  ultimately have "runs prog A (\<lambda>r A'. P r \<and> (\<exists>T' S'. bmap_ok A' (g r) T' \<and> contents T' = kvs \<and>
      owned T' \<subseteq> S' \<and> framed A (owned (Ts ! i)) A' S' \<and> (tight' \<longrightarrow> S' = owned T')))" by (rule run)
  from runsD[OF this A(1)] obtain r s' A' T' S' where r: "prog s = Inr (r, s')" "shows_heap s' A'" "P r"
      "bmap_ok A' (g r) T'" "contents T' = kvs" "owned T' \<subseteq> S'" "framed A (owned (Ts ! i)) A' S'"
      "tight' \<longrightarrow> S' = owned T'"
    by metis
  have "dom A' = \<Union> (owned ` set (Ts[i := T']))" if "tight \<and> tight'"
    using that tight_upd[OF _ A(4) i', of A A' T'] A(5) r(7,8) by simp
  moreover have "map contents (Ts[i := T']) = kvss[i := kvs]" using A(3) r(5) by (simp add: map_update)
  ultimately have "world_ok (tight \<and> tight') s' (ms[i := g r]) (kvss[i := kvs])"
    unfolding world_ok_def using r(2) world_upd[OF A(2,4) i r(7,4,6)] by blast
  with r show ?thesis by blast
qed

lemma world_operate:
  fixes op :: "('k::linorder, 'v) map_op"
  assumes "slab pick" "world_ok tight s ms kvss" "i < length ms"
  defines "spec \<equiv> spec_op op (kvss ! i)"
  shows "\<exists>m' s'. run_op pick op (ms ! i) s = Inr ((fst spec, m'), s') \<and>
    world_ok (tight \<and> (snd spec = [] \<longrightarrow> kvss ! i = [])) s' (ms[i := m']) (kvss[i := snd spec])"
proof -
  let ?tight = "snd spec = [] \<longrightarrow> kvss ! i = []"
  have "\<exists>r s'. run_op pick op (ms ! i) s = Inr (r, s') \<and> fst r = fst spec \<and>
    world_ok (tight \<and> ?tight) s' (ms[i := snd r]) (kvss[i := snd spec])"
  proof (rule world_run[OF assms(2,3)])
    fix A T assume T: "bmap_ok A (ms ! i) T" "contents T = kvss ! i"
    show "runs (run_op pick op (ms ! i)) A (\<lambda>r A'. fst r = fst spec \<and>
      (\<exists>T' S'. bmap_ok A' (snd r) T' \<and> contents T' = snd spec \<and> owned T' \<subseteq> S' \<and>
        framed A (owned T) A' S' \<and> (?tight \<longrightarrow> S' = owned T')))"
    proof (rule runs_conseq[OF runs_op[OF assms(1) T(1)]])
      fix r A' assume "op_ok A T (spec_op op (contents T)) r A'"
      then obtain T' where T': "fst r = fst spec" "bmap_ok A' (snd r) T'" "contents T' = snd spec"
          "framed A (owned T) A' (after_op T T')"
        unfolding op_ok_def T(2) spec_def by blast
      have "after_op T T' = owned T'" if ?tight
      proof (cases T')
        case None
        then have "T = None" using that T T'(3) contents_Nil_iff[OF T(1)] by simp
        with None show ?thesis by (simp add: after_op_def)
      qed (simp add: after_op_def)
      with T' owned_after_op show "fst r = fst spec \<and> (\<exists>T' S'. bmap_ok A' (snd r) T' \<and>
          contents T' = snd spec \<and> owned T' \<subseteq> S' \<and> framed A (owned T) A' S' \<and> (?tight \<longrightarrow> S' = owned T'))"
        by blast
    qed
  qed
  then show ?thesis by (auto simp: prod_eq_iff)
qed

lemma del_at_update [simp]: "del_at i (xs[i := x]) = del_at i xs"
  by (simp add: del_at_def)

lemma nth_del_at:
  "i < length xs \<Longrightarrow> j < length xs - 1 \<Longrightarrow> del_at i xs ! j = xs ! (if j < i then j else Suc j)"
  by (auto simp: del_at_def nth_append min_def)

lemma set_del_at: "i < length xs \<Longrightarrow> set xs = insert (xs ! i) (set (del_at i xs))"
  using arg_cong[OF split_at[of i xs], of set] by (auto simp: del_at_def)

lemma list_all2_del_at: "list_all2 P xs ys \<Longrightarrow> list_all2 P (del_at i xs) (del_at i ys)"
  by (auto simp: del_at_def intro!: list_all2_appendI)

lemma separate_del_at: "separate Ts \<Longrightarrow> i < length Ts \<Longrightarrow> separate (del_at i Ts)"
  by (auto simp: separate_def nth_del_at)

lemma world_ok_remove:
  assumes w: "world_ok tight s (ms[i := m]) (kvss[i := []])" and i: "i < length ms" and m: "root m = None"
  shows "world_ok tight s (del_at i ms) (del_at i kvss)"
proof -
  obtain A Ts where A: "shows_heap s A" "list_all2 (bmap_ok A) (ms[i := m]) Ts" "map contents Ts = kvss[i := []]"
      "separate Ts" "tight \<longrightarrow> dom A = \<Union> (owned ` set Ts)"
    using w unfolding world_ok_def by blast
  have len: "length Ts = length ms" using list_all2_lengthD[OF A(2)] by simp
  have "bmap_ok A m (Ts ! i)" using list_all2_nthD[OF A(2), of i] i by simp
  then have none: "Ts ! i = None" using m by (cases "Ts ! i") auto
  have "list_all2 (bmap_ok A) (del_at i (ms[i := m])) (del_at i Ts)"
    using A(2) by (intro list_all2_del_at)
  moreover have "map contents (del_at i Ts) = del_at i (kvss[i := []])"
    unfolding A(3)[symmetric] by (simp add: del_at_def take_map drop_map)
  moreover have "separate (del_at i Ts)" using separate_del_at[OF A(4)] i len by simp
  moreover have "set Ts = insert None (set (del_at i Ts))"
    using set_del_at[of i Ts] i len none by simp
  ultimately show ?thesis
    unfolding world_ok_def using A(1,5)
    by (intro exI[of _ A] exI[of _ "del_at i Ts"]) (auto simp: del_at_update)
qed

lemma world_drop:
  assumes w: "world_ok tight s ms kvss" and i: "i < length ms"
  shows "\<exists>ks s'. drop_map False (ms ! i) s = Inr ((ks, map snd (kvss ! i)), s') \<and>
    world_ok tight s' (del_at i ms) (del_at i kvss)"
proof -
  have "\<exists>r s'. drop_map False (ms ! i) s = Inr (r, s') \<and> snd r = map snd (kvss ! i) \<and>
    world_ok (tight \<and> True) s' (ms[i := new_in]) (kvss[i := []])"
  proof (rule world_run[OF w i])
    fix A T assume T: "bmap_ok A (ms ! i) T" "contents T = kvss ! i"
    show "runs (drop_map False (ms ! i)) A (\<lambda>r A'. snd r = map snd (kvss ! i) \<and>
      (\<exists>T' S'. bmap_ok A' new_in T' \<and> contents T' = [] \<and> owned T' \<subseteq> S' \<and>
        framed A (owned T) A' S' \<and> (True \<longrightarrow> S' = owned T')))"
      using framed_restrict[OF bmap_ok_owned[OF T(1)]] T(2)
      by (intro runs_drop_map[OF T(1)]) (auto simp: new_in_def intro!: exI[of _ None])
  qed
  then show ?thesis using world_ok_remove[OF _ i, of tight _ new_in kvss] by (auto simp: new_in_def)
qed

lemma world_leak:
  assumes w: "world_ok tight s ms kvss" and i: "i < length ms"
  shows "drop_map True (ms ! i) s = Inr (([], []), s) \<and> world_ok False s (del_at i ms) (del_at i kvss)"
proof -
  have "\<exists>r s'. drop_map True (ms ! i) s = Inr (r, s') \<and> r = ([], []) \<and>
    world_ok (tight \<and> False) s' (ms[i := new_in]) (kvss[i := []])"
  proof (rule world_run[OF w i])
    fix A T assume T: "bmap_ok A (ms ! i) T" "contents T = kvss ! i"
    show "runs (drop_map True (ms ! i)) A (\<lambda>r A'. r = ([], []) \<and>
      (\<exists>T' S'. bmap_ok A' new_in T' \<and> contents T' = [] \<and> owned T' \<subseteq> S' \<and>
        framed A (owned T) A' S' \<and> (False \<longrightarrow> S' = owned T')))"
      using framed_refl[OF bmap_ok_owned[OF T(1)]]
      unfolding drop_map_def if_True
      by (intro runs_ret) (auto simp: new_in_def intro!: exI[of _ None] exI[of _ "owned T"])
  qed
  then show ?thesis using world_ok_remove[OF _ i, of False _ new_in kvss] by (auto simp: new_in_def drop_map_def ret_def)
qed

lemma world_ok_weaken: "world_ok tight s ms kvss \<Longrightarrow> world_ok False s ms kvss"
  by (auto simp: world_ok_def)

lemma world_ok_create: "world_ok tight s ms kvss \<Longrightarrow> world_ok tight s (ms @ [new_in]) (kvss @ [[]])"
proof -
  assume "world_ok tight s ms kvss"
  then obtain A Ts where A: "shows_heap s A" "list_all2 (bmap_ok A) ms Ts" "map contents Ts = kvss"
      "separate Ts" "tight \<longrightarrow> dom A = \<Union> (owned ` set Ts)"
    unfolding world_ok_def by blast
  have "separate (Ts @ [None])" using A(4) by (auto simp: separate_def nth_append)
  with A show ?thesis
    unfolding world_ok_def by (intro exI[of _ A] exI[of _ "Ts @ [None]"]) (auto intro!: list_all2_appendI simp: new_in_def)
qed

fun drop_all :: "bmap list \<Rightarrow> ('k, 'v, 'v list list) sprog" where
  "drop_all [] = ret []"
| "drop_all (m # ms) = bindP (drop_map False m) (\<lambda>(_, vs). bindP (drop_all ms) (\<lambda>vss. ret (vs # vss)))"

lemma world_drop_all:
  "world_ok tight s ms kvss \<Longrightarrow>
    \<exists>s'. drop_all ms s = Inr (map (map snd) kvss, s') \<and> world_ok tight s' [] []"
proof (induction ms arbitrary: s kvss)
  case Nil
  then show ?case using world_ok_length[OF Nil] by simp
next
  case (Cons m ms)
  obtain kvs kvss' where k: "kvss = kvs # kvss'"
    using world_ok_length[OF Cons.prems] by (cases kvss) auto
  from world_drop[OF Cons.prems, of 0] obtain ks s1
    where "drop_map False m s = Inr ((ks, map snd kvs), s1)" "world_ok tight s1 ms kvss'"
    by (auto simp: k)
  with Cons.IH[of s1 kvss'] show ?case by (auto simp: bindP_apply k)
qed

lemma world_tight_empty: "world_ok True s [] [] \<Longrightarrow> live (slab_log s) = {} \<and> nodes s = Map.empty"
  by (auto simp: world_ok_def shows_heap_def)

end
