(* ===== verification/Layout.thy ===== *)
theory Layout
  imports World
begin

text \<open>
  The layout that the untagged union relies on: the code reads the leaf part of a node exactly when it
  has come down \<open>height\<close> levels from the root. A walk over the raw nodes of the store checks it.
\<close>

definition written :: "nat \<Rightarrow> nat \<Rightarrow> 'a option list \<Rightarrow> bool" where
  "written cap n a \<longleftrightarrow> length a = cap \<and> n \<le> cap \<and> list_all (\<lambda>x. x \<noteq> None) (take n a)"

fun laid_out :: "('k, 'v) store \<Rightarrow> nat \<Rightarrow> par \<Rightarrow> ptr \<Rightarrow> bool" where
  "laid_out s 0 par p = (case nodes s p of None \<Rightarrow> False | Some n \<Rightarrow>
     par_ok n par \<and> written M (len n) (keys n) \<and>
     (case node_d n of Internal t \<Rightarrow> False | Leaf l \<Rightarrow> written M (len n) (vals l)))"
| "laid_out s (Suc h) par p = (case nodes s p of None \<Rightarrow> False | Some n \<Rightarrow>
     par_ok n par \<and> written M (len n) (keys n) \<and>
     (case node_d n of Leaf l \<Rightarrow> False | Internal t \<Rightarrow> written (M + 1) (len n + 1) (edges t) \<and>
       list_all (\<lambda>(i, e). case e of None \<Rightarrow> False | Some q \<Rightarrow> laid_out s h (Some (p, i)) q)
         (enumerate 0 (take (len n + 1) (edges t)))))"

lemma holds_written: "holds a n xs \<Longrightarrow> length xs = k \<Longrightarrow> written n k a"
  by (auto simp: holds_def written_def list_all_iff)

lemma holds_taken: "holds a n xs \<Longrightarrow> take (length xs) a = map Some xs"
  by (auto simp: holds_def)

lemma rep_laid_out:
  assumes s: "shows_heap s A"
  shows "rep A par t \<Longrightarrow> bal h t \<Longrightarrow> laid_out s h par (root_of t)"
proof (induction h arbitrary: t par)
  case 0
  then obtain p ks vs pv nx where t: "t = Lf p ks vs" and p: "A p = Some (VLeaf par ks vs pv nx)"
    by (auto simp: bal_leaf_cases)
  obtain n where "nodes s p = Some n" "node_view n (VLeaf par ks vs pv nx)" using s p by (rule shows_heapE)
  then show ?case using t by (auto dest: holds_written)
next
  case (Suc h)
  then obtain p ks ts where t: "t = Nd p ks ts" "\<forall>u\<in>set ts. bal h u"
      and p: "A p = Some (VInt par ks (map root_of ts))" "reps A p 0 ts"
    by (auto simp: bal_Suc_cases)
  obtain n where n: "nodes s p = Some n" "node_view n (VInt par ks (map root_of ts))" using s p(1) by (rule shows_heapE)
  have "laid_out s h (Some (p, i)) (root_of u)" if "(i, u) \<in> set (enumerate 0 ts)" for i u
    using Suc.IH[of "Some (p, i)" u] reps_nth[OF p(2), of i] that t(2) by (auto simp: in_set_enumerate_eq)
  then have "list_all (\<lambda>(i, e). case e of None \<Rightarrow> False | Some q \<Rightarrow> laid_out s h (Some (p, i)) q)
      (enumerate 0 (map Some (map root_of ts)))"
    by (auto simp: list_all_iff in_set_enumerate_eq)
  then show ?case using n t(1) holds_taken[of _ "M + 1" "map root_of ts"] holds_written[of _ "M + 1" "map root_of ts"]
    by (auto intro: holds_written)
qed

lemma world_laid_out:
  assumes "world_ok tight s ms kvss" "m \<in> set ms" "root m = Some r"
  shows "laid_out s (height m) None r"
proof -
  obtain A Ts where A: "shows_heap s A" "list_all2 (bmap_ok A) ms Ts" using assms(1) unfolding world_ok_def by blast
  then obtain T where "bmap_ok A m T" using assms(2) by (metis in_set_conv_nth list_all2_conv_all_nth)
  then obtain t where "tree_in A t" "bal (height m) t" "root_of t = r"
    using assms(3) by (cases T) (auto simp: bmap_ok_def tree_ok_def)
  then show ?thesis using rep_laid_out[OF A(1)] by (auto simp: tree_in_def)
qed

end
