(* ===== verification/Cursor.thy ===== *)
theory Cursor
  imports DropMap
begin

text \<open>
  The cursor (\<open>src/src/cursor.rs\<close>): a place in the list of leaves. The leaves of a map, each with its
  keys and values, form a chain of blocks; the addresses of the chain are the places of the entries in
  order, and a cursor at the \<open>n\<close>-th address moves to its neighbours and detaches at either end.
\<close>

subsection \<open>Operations\<close>

record cursor =
  cnode :: "ptr option"
  cindex :: nat

definition cursor_new_detached :: cursor where
  "cursor_new_detached = \<lparr>cnode = None, cindex = 0\<rparr>"

definition cursor_validate :: "cursor \<Rightarrow> ('k, 'v, unit) sprog" where
  "cursor_validate c =
     (case cnode c of None \<Rightarrow> ret ()
      | Some node \<Rightarrow> bindP (len_at node) (\<lambda>l. assertP (cindex c < l)))"

definition cursor_new :: "ptr option \<Rightarrow> nat \<Rightarrow> ('k, 'v, cursor) sprog" where
  "cursor_new node index =
     (let cursor = \<lparr>cnode = node, cindex = index\<rparr> in
      bindP (cursor_validate cursor) (\<lambda>_. ret cursor))"

definition cursor_new_at_end :: "ptr option \<Rightarrow> ('k, 'v, cursor) sprog" where
  "cursor_new_at_end node =
     bindP (case node of None \<Rightarrow> ret 0 | Some p \<Rightarrow> get_at p (\<lambda>n. nat_sub (len n) 1)) (\<lambda>idx.
     cursor_new node idx)"

definition cursor_advance :: "cursor \<Rightarrow> ('k, 'v, cursor) sprog" where
  "cursor_advance c =
     (case cnode c of
        None \<Rightarrow> fail CursorEmpty
      | Some node \<Rightarrow>
          bindP (get_at node (\<lambda>n. nat_sub (len n) 1)) (\<lambda>l.
          if cindex c < l then ret (c\<lparr>cindex := cindex c + 1\<rparr>)
          else bindP (get_at node node_next) (\<lambda>nx. ret \<lparr>cnode = nx, cindex = 0\<rparr>)))"

definition cursor_advance_back :: "cursor \<Rightarrow> ('k, 'v, cursor) sprog" where
  "cursor_advance_back c =
     (if 0 < cindex c then ret (c\<lparr>cindex := cindex c - 1\<rparr>)
      else bindP (case cnode c of None \<Rightarrow> fail CursorEmpty | Some node \<Rightarrow> get_at node node_prev) (\<lambda>pv.
           bindP (case pv of None \<Rightarrow> ret 0 | Some node \<Rightarrow> get_at node (\<lambda>n. nat_sub (len n) 1)) (\<lambda>i.
           ret \<lparr>cnode = pv, cindex = i\<rparr>)))"

definition cursor_is_attached :: "cursor \<Rightarrow> bool" where
  "cursor_is_attached c \<longleftrightarrow> cnode c \<noteq> None"

definition cursor_detach :: "cursor \<Rightarrow> cursor" where
  "cursor_detach c = c\<lparr>cnode := None\<rparr>"

definition cursor_address :: "cursor \<Rightarrow> (ptr \<times> nat) option" where
  "cursor_address c = map_option (\<lambda>node. (node, cindex c)) (cnode c)"

definition cursor_key_value :: "cursor \<Rightarrow> ('k, 'v, ('k \<times> 'v) option) sprog" where
  "cursor_key_value c =
     (case cnode c of None \<Rightarrow> ret None
      | Some node \<Rightarrow> bindP (get_at node (key_val (cindex c))) (\<lambda>kv. ret (Some kv)))"

text \<open>\<open>key_value_mut\<close>, whose caller then replaces the value by \<open>f\<close> of it; the old entry is the result.\<close>

definition cursor_key_value_mut :: "('v \<Rightarrow> 'v) \<Rightarrow> cursor \<Rightarrow> ('k, 'v, ('k \<times> 'v) option) sprog" where
  "cursor_key_value_mut f c =
     (case cnode c of None \<Rightarrow> ret None
      | Some node \<Rightarrow>
          bindP (upd_ret_at node (\<lambda>n. bindR (key_val (cindex c) n) (\<lambda>(k, v).
             bindR (write_val (cindex c) (f v) n) (\<lambda>n'. Inr ((k, v), n'))))) (\<lambda>kv. ret (Some kv)))"

definition cursor_read_key_value :: "cursor \<Rightarrow> ('k, 'v, ('k \<times> 'v) option) sprog" where
  "cursor_read_key_value c =
     (case cnode c of None \<Rightarrow> ret None
      | Some node \<Rightarrow> bindP (get_at node (read_key_val (cindex c))) (\<lambda>kv. ret (Some kv)))"

subsection \<open>Addresses\<close>

type_synonym ('k, 'v) block = "ptr \<times> 'k list \<times> 'v list"

fun leafs :: "('k, 'v) bt \<Rightarrow> ('k, 'v) block list" where
  "leafs (Lf p ks vs) = [(p, ks, vs)]"
| "leafs (Nd p ks ts) = concat (map leafs ts)"

definition blocks :: "('k, 'v) bt option \<Rightarrow> ('k, 'v) block list" where
  "blocks T = (case T of None \<Rightarrow> [] | Some t \<Rightarrow> leafs t)"

definition bsize :: "('k, 'v) block \<Rightarrow> nat" where
  "bsize b = length (fst (snd b))"

definition bentries :: "('k, 'v) block \<Rightarrow> ('k \<times> 'v) list" where
  "bentries b = zip (fst (snd b)) (snd (snd b))"

definition addrs :: "('k, 'v) block list \<Rightarrow> (ptr \<times> nat) list" where
  "addrs L = concat (map (\<lambda>b. map (Pair (fst b)) [0..<bsize b]) L)"

definition pos :: "('k, 'v) block list \<Rightarrow> nat \<Rightarrow> cursor" where
  "pos L n = (if n < length (addrs L)
     then \<lparr>cnode = Some (fst (addrs L ! n)), cindex = snd (addrs L ! n)\<rparr> else \<lparr>cnode = None, cindex = 0\<rparr>)"

fun chain :: "('k, 'v) vheap \<Rightarrow> ptr option \<Rightarrow> ('k, 'v) block list \<Rightarrow> ptr option \<Rightarrow> bool" where
  "chain A pv [] nx \<longleftrightarrow> True"
| "chain A pv ((p, ks, vs) # L) nx \<longleftrightarrow>
     (\<exists>par. A p = Some (VLeaf par ks vs pv (hd_or (map fst L) nx))) \<and> length vs = length ks \<and> ks \<noteq> [] \<and>
     chain A (Some p) L nx"

lemma block_simps [simp]: "bsize (p, ks, vs) = length ks" "bentries (p, ks, vs) = zip ks vs"
  by (simp_all add: bsize_def bentries_def)

lemma addrs_simps [simp]:
  "addrs [] = []" "addrs (b # L) = map (Pair (fst b)) [0..<bsize b] @ addrs L"
  "addrs (L @ L') = addrs L @ addrs L'"
  by (simp_all add: addrs_def)

lemma length_addrs: "length (addrs L) = sum_list (map bsize L)"
  by (induction L) auto

lemma blocks_simps [simp]: "blocks None = []" "blocks (Some t) = leafs t"
  by (simp_all add: blocks_def)

lemma map_fst_leafs: "map fst (leafs t) = leaves t"
  by (induction t) (auto simp: map_concat comp_def intro!: arg_cong[of _ _ concat] map_cong)

lemma chain_append:
  "chain A pv (L @ L') nx \<longleftrightarrow>
     chain A pv L (hd_or (map fst L') nx) \<and> chain A (last_or pv (map fst L)) L' nx"
  by (induction A pv L nx rule: chain.induct) (auto simp: hd_or_append last_or_def)

lemma chain_lengths: "chain A pv L nx \<Longrightarrow> length (concat (map bentries L)) = length (addrs L)"
  by (induction A pv L nx rule: chain.induct) auto

lemma addr_split:
  assumes "n < length (addrs L)"
  obtains L1 p ks vs L2 i where "L = L1 @ (p, ks, vs) # L2" "i < length ks" "n = length (addrs L1) + i"
    "addrs L ! n = (p, i)"
  using assms
proof (induction L arbitrary: n thesis)
  case (Cons b L)
  obtain p ks vs where b: "b = (p, ks, vs)" by (cases b)
  show ?case
  proof (cases "n < length ks")
    case True
    then show ?thesis using Cons.prems(1)[of "[]" p ks vs L n] b by (simp add: nth_append)
  next
    case False
    with Cons.prems(2) b have "n - length ks < length (addrs L)" by auto
    from Cons.IH[OF _ this] obtain L1 q ks' vs' L2 i where
      "L = L1 @ (q, ks', vs') # L2" "i < length ks'" "n - length ks = length (addrs L1) + i"
      "addrs L ! (n - length ks) = (q, i)" by metis
    then show ?thesis
      using Cons.prems(1)[of "b # L1" q ks' vs' L2 i] b False by (simp add: nth_append)
  qed
qed simp

subsection \<open>The chain of a map\<close>

lemma leafs_ok:
  "bal h t \<Longrightarrow> filled m t \<Longrightarrow> 0 < m \<Longrightarrow> (p, ks, vs) \<in> set (leafs t) \<Longrightarrow> length vs = length ks \<and> ks \<noteq> []"
proof (induction h arbitrary: t m)
  case 0
  then show ?case by (auto simp: bal_leaf_cases)
next
  case (Suc h)
  then obtain q ks' ts where t: "t = Nd q ks' ts" "\<forall>u\<in>set ts. bal h u" by (auto simp: bal_Suc_cases)
  with Suc.prems(4) obtain u where "u \<in> set ts" "(p, ks, vs) \<in> set (leafs u)" by auto
  then show ?case using Suc.IH[of u "M div 2"] Suc.prems(2) t by (auto simp: M_def)
qed

lemma leafs_rep:
  "rep A par t \<Longrightarrow> (p, ks, vs) \<in> set (leafs t) \<Longrightarrow> \<exists>par pv nx. A p = Some (VLeaf par ks vs pv nx)"
  "reps A q i ts \<Longrightarrow> u \<in> set ts \<Longrightarrow> (p, ks, vs) \<in> set (leafs u) \<Longrightarrow> \<exists>par pv nx. A p = Some (VLeaf par ks vs pv nx)"
  by (induction A par t and A q i ts arbitrary: and u rule: rep_reps.induct) auto

lemma linked_chain:
  "linked A pv (map fst L) nx \<Longrightarrow>
   (\<And>p ks vs. (p, ks, vs) \<in> set L \<Longrightarrow> length vs = length ks \<and> ks \<noteq> [] \<and>
      (\<exists>par pv nx. A p = Some (VLeaf par ks vs pv nx))) \<Longrightarrow> chain A pv L nx"
proof (induction A pv L nx rule: chain.induct)
  case (2 A pv p ks vs L nx)
  from "2.prems"(2)[of p ks vs] obtain par pv' nx' where p: "A p = Some (VLeaf par ks vs pv' nx')" by auto
  with "2.prems"(1) have "pv' = pv" "nx' = hd_or (map fst L) nx" by (auto simp: links_def)
  moreover have "chain A (Some p) L nx" using "2.prems" by (intro "2.IH") auto
  ultimately show ?case using p "2.prems"(2)[of p ks vs] by auto
qed simp

lemma bmap_chain: "bmap_ok A m T \<Longrightarrow> chain A None (blocks T) None"
proof (cases T)
  case (Some t)
  assume "bmap_ok A m T"
  with Some have t: "rep A None t" "linked A None (map fst (leafs t)) None" "bal (height m) t" "filled 1 t"
    by (simp_all add: tree_in_def tree_ok_def map_fst_leafs)
  have "chain A None (leafs t) None"
    by (rule linked_chain[OF t(2)]) (use leafs_ok[OF t(3,4) zero_less_one] leafs_rep(1)[OF t(1)] in simp)
  then show ?thesis using Some by simp
qed simp

lemma concat_map_concat: "concat (map f (concat xss)) = concat (map (\<lambda>xs. concat (map f xs)) xss)"
  by (induction xss) auto

lemma leafs_entries: "bal h t \<Longrightarrow> concat (map bentries (leafs t)) = entries t"
proof (induction h arbitrary: t)
  case 0
  then show ?case by (auto simp: bal_leaf_cases entries_def)
next
  case (Suc h)
  then obtain p ks ts where t: "t = Nd p ks ts" "length ts = length ks + 1" "\<forall>u\<in>set ts. bal h u"
    by (auto simp: bal_Suc_cases)
  have "concat (map bentries (leafs t)) = concat (map (\<lambda>u. concat (map bentries (leafs u))) ts)"
    unfolding t(1) by (simp add: concat_map_concat comp_def)
  also have "map (\<lambda>u. concat (map bentries (leafs u))) ts = map entries ts" using Suc.IH t(3) by simp
  finally show ?case using entries_Nd[OF t(2)] t(1) by simp
qed

lemma blocks_contents: "bmap_ok A m T \<Longrightarrow> concat (map bentries (blocks T)) = contents T"
  by (cases T) (auto simp: tree_ok_def leafs_entries)

lemma length_contents: "bmap_ok A m T \<Longrightarrow> length (addrs (blocks T)) = length (contents T)"
  using chain_lengths[OF bmap_chain, of A m T] blocks_contents[of A m T] by simp

subsection \<open>Moving along the chain\<close>

lemma pos_simps [simp]:
  "n < length (addrs L) \<Longrightarrow> cnode (pos L n) = Some (fst (addrs L ! n))"
  "n < length (addrs L) \<Longrightarrow> cindex (pos L n) = snd (addrs L ! n)"
  "\<not> n < length (addrs L) \<Longrightarrow> cnode (pos L n) = None"
  "\<not> n < length (addrs L) \<Longrightarrow> cindex (pos L n) = 0"
  by (simp_all add: pos_def)

lemma pos_end: "length (addrs L) \<le> n \<Longrightarrow> pos L n = \<lparr>cnode = None, cindex = 0\<rparr>"
  by (simp add: pos_def)

lemma pos_split:
  "i < bsize b \<Longrightarrow> pos (L1 @ b # L2) (length (addrs L1) + i) = \<lparr>cnode = Some (fst b), cindex = i\<rparr>"
  by (simp add: pos_def nth_append)

lemma chain_at:
  "chain A pv (L1 @ (p, ks, vs) # L2) nx \<Longrightarrow>
     (\<exists>par. A p = Some (VLeaf par ks vs (last_or pv (map fst L1)) (hd_or (map fst L2) nx))) \<and>
     length vs = length ks \<and> ks \<noteq> []"
  by (simp add: chain_append)

lemma node_last_idx:
  "node_view n (VLeaf par ks vs pv nx) \<Longrightarrow> ks \<noteq> [] \<Longrightarrow> nat_sub (len n) 1 = Inr (length ks - 1)"
  by (cases ks) auto

lemma runs_cursor_advance:
  assumes ch: "chain A pv L None" and n: "n < length (addrs L)" and Q: "Q (pos L (Suc n)) A"
  shows "runs (cursor_advance (pos L n)) A Q"
proof -
  from n obtain L1 p ks vs L2 i where s: "L = L1 @ (p, ks, vs) # L2" "i < length ks" "n = length (addrs L1) + i"
    by (rule addr_split)
  obtain par where p: "A p = Some (VLeaf par ks vs (last_or pv (map fst L1)) (hd_or (map fst L2) None))"
    using ch chain_at unfolding s(1) by blast
  have here: "pos L n = \<lparr>cnode = Some p, cindex = i\<rparr>" using pos_split[of i "(p, ks, vs)" L1 L2] s by simp
  have next': "pos L (Suc n) = (if i < length ks - 1 then \<lparr>cnode = Some p, cindex = i + 1\<rparr>
      else \<lparr>cnode = hd_or (map fst L2) None, cindex = 0\<rparr>)"
  proof (cases "i < length ks - 1")
    case True
    then show ?thesis using pos_split[of "Suc i" "(p, ks, vs)" L1 L2] s by simp
  next
    case False
    then have n': "Suc n = length (addrs (L1 @ [(p, ks, vs)])) + 0" using s by simp
    show ?thesis
    proof (cases L2)
      case Nil
      then show ?thesis using False n' s(1) by (simp add: pos_end)
    next
      case (Cons b L3)
      have "0 < bsize b" using ch unfolding s(1) Cons by (cases b) (simp add: chain_append)
      from pos_split[OF this, of "L1 @ [(p, ks, vs)]" L3] show ?thesis
        unfolding n' s(1) Cons using False by simp
    qed
  qed
  show ?thesis unfolding cursor_advance_def here cursor.simps option.case
  proof (rule runs_bind, rule runs_get_at[where A = A and r = "length ks - 1", OF p])
    fix n assume "node_view n (VLeaf par ks vs (last_or pv (map fst L1)) (hd_or (map fst L2) None))"
    then show "nat_sub (len n) 1 = Inr (length ks - 1)" using s(2) by auto
  next
    show "runs (if i < length ks - 1 then ret \<lparr>cnode = Some p, cindex = i + 1\<rparr>
        else bindP (get_at p node_next) (\<lambda>nx. ret \<lparr>cnode = nx, cindex = 0\<rparr>)) A Q"
      using Q unfolding next'
      by (auto intro!: runs_ret runs_bind runs_get_at[where A = A, OF p, OF node_next_view] split: if_splits)
  qed
qed

text \<open>Backwards, the cursor before the first place is detached.\<close>

definition pos_before :: "('k, 'v) block list \<Rightarrow> nat \<Rightarrow> cursor" where
  "pos_before L n = (case n of 0 \<Rightarrow> \<lparr>cnode = None, cindex = 0\<rparr> | Suc j \<Rightarrow> pos L j)"

lemma pos_before_simps [simp]:
  "pos_before L 0 = \<lparr>cnode = None, cindex = 0\<rparr>" "pos_before L (Suc j) = pos L j"
  by (simp_all add: pos_before_def)

lemma runs_cursor_advance_back:
  assumes ch: "chain A None L nx" and n: "n < length (addrs L)" and Q: "Q (pos_before L n) A"
  shows "runs (cursor_advance_back (pos L n)) A Q"
proof -
  from n obtain L1 p ks vs L2 i where s: "L = L1 @ (p, ks, vs) # L2" "i < length ks" "n = length (addrs L1) + i"
    by (rule addr_split)
  obtain par where p: "A p = Some (VLeaf par ks vs (last_or None (map fst L1)) (hd_or (map fst L2) nx))"
    using ch chain_at unfolding s(1) by blast
  have here: "pos L n = \<lparr>cnode = Some p, cindex = i\<rparr>" using pos_split[of i "(p, ks, vs)" L1 L2] s by simp
  show ?thesis
  proof (cases i)
    case (Suc j)
    then have "pos_before L n = \<lparr>cnode = Some p, cindex = j\<rparr>"
      using pos_split[of j "(p, ks, vs)" L1 L2] s by simp
    then show ?thesis using Q unfolding cursor_advance_back_def here by (auto intro!: runs_ret simp: Suc)
  next
    case 0
    show ?thesis unfolding cursor_advance_back_def here cursor.simps option.case 0
    proof (simp only: less_irrefl if_False, rule runs_bind,
        rule runs_get_at[where A = A, OF p, OF node_prev_view], assumption)
      show "runs (bindP (case last_or None (map fst L1) of None \<Rightarrow> ret 0
          | Some node \<Rightarrow> get_at node (\<lambda>n. nat_sub (len n) 1))
          (\<lambda>i. ret \<lparr>cnode = last_or None (map fst L1), cindex = i\<rparr>)) A Q"
      proof (cases L1 rule: rev_cases)
        case Nil
        then have "Q \<lparr>cnode = None, cindex = 0\<rparr> A" using Q s 0 by simp
        then show ?thesis unfolding Nil by (simp only: list.map last_or_simps option.case) (intro runs_bind runs_ret)
      next
        case (snoc L0 b)
        obtain q ks' vs' where b: "b = (q, ks', vs')" by (cases b)
        have "chain A None (L0 @ (q, ks', vs') # (p, ks, vs) # L2) nx" using ch s(1) snoc b by simp
        from chain_at[OF this] obtain par' pv' nx' where q: "A q = Some (VLeaf par' ks' vs' pv' nx')" "ks' \<noteq> []"
          by blast
        have n': "n = Suc (length (addrs L0) + (length ks' - 1))" using s(3) 0 snoc b q(2) by simp
        have "pos_before L n = \<lparr>cnode = Some q, cindex = length ks' - 1\<rparr>"
          using pos_split[of "length ks' - 1" "(q, ks', vs')" L0 "(p, ks, vs) # L2"] q(2) s(1) snoc b
          unfolding n' by simp
        with Q have fin: "Q \<lparr>cnode = Some q, cindex = length ks' - 1\<rparr> A" by simp
        have "last_or None (map fst L1) = Some q" by (simp add: snoc b last_or_def)
        then show ?thesis
          using q(2) fin
          by (simp del: One_nat_def) (intro runs_bind runs_ret runs_get_at[where A = A, OF q(1) node_last_idx[OF _ q(2)]])
      qed
    qed
  qed
qed

subsection \<open>Reading and creating cursors\<close>

lemma chain_nth:
  assumes "chain A pv (L1 @ (p, ks, vs) # L2) nx" "i < length ks"
  shows "concat (map bentries (L1 @ (p, ks, vs) # L2)) ! (length (addrs L1) + i) = (ks ! i, vs ! i)"
proof -
  have "chain A pv L1 (Some p)" "length vs = length ks" using assms(1) by (auto simp: chain_append)
  with chain_lengths[OF this(1)] assms(2) show ?thesis by (simp add: nth_append)
qed

lemma chain_pos:
  assumes ch: "chain A pv L nx" and n: "n < length (addrs L)"
  obtains L1 p ks vs L2 i par pv' nx' where "L = L1 @ (p, ks, vs) # L2" "i < length ks"
    "n = length (addrs L1) + i" "pos L n = \<lparr>cnode = Some p, cindex = i\<rparr>"
    "A p = Some (VLeaf par ks vs pv' nx')" "length vs = length ks"
    "concat (map bentries L) ! n = (ks ! i, vs ! i)"
proof -
  from n obtain L1 p ks vs L2 i where s: "L = L1 @ (p, ks, vs) # L2" "i < length ks" "n = length (addrs L1) + i"
    by (rule addr_split)
  from ch chain_at obtain par pv' nx' where "A p = Some (VLeaf par ks vs pv' nx')" "length vs = length ks"
    unfolding s(1) by blast
  moreover have "pos L n = \<lparr>cnode = Some p, cindex = i\<rparr>" using pos_split[of i "(p, ks, vs)" L1 L2] s by simp
  moreover have "concat (map bentries L) ! n = (ks ! i, vs ! i)"
    using chain_nth[of A pv L1 p ks vs L2 nx i] ch s by simp
  ultimately show ?thesis using that s by blast
qed

lemma runs_cursor_key_value:
  assumes ch: "chain A pv L nx" and n: "n < length (addrs L)" and Q: "Q (Some (concat (map bentries L) ! n)) A"
  shows "runs (cursor_key_value (pos L n)) A Q"
proof -
  from chain_pos[OF ch n] obtain p ks vs i par pv' nx' where c: "pos L n = \<lparr>cnode = Some p, cindex = i\<rparr>"
    "A p = Some (VLeaf par ks vs pv' nx')" "i < length ks" "concat (map bentries L) ! n = (ks ! i, vs ! i)" by metis
  show ?thesis unfolding cursor_key_value_def c(1) cursor.simps option.case
    by (rule runs_bind, rule runs_get_at[where A = A and r = "(ks ! i, vs ! i)", OF c(2)])
      (use c(3,4) Q in \<open>simp_all add: runs_ret del: node_view.simps\<close>)
qed

lemma runs_cursor_read_key_value:
  assumes ch: "chain A pv L nx" and n: "n < length (addrs L)" and Q: "Q (Some (concat (map bentries L) ! n)) A"
  shows "runs (cursor_read_key_value (pos L n)) A Q"
proof -
  from chain_pos[OF ch n] obtain p ks vs i par pv' nx' where c: "pos L n = \<lparr>cnode = Some p, cindex = i\<rparr>"
    "A p = Some (VLeaf par ks vs pv' nx')" "i < length ks" "concat (map bentries L) ! n = (ks ! i, vs ! i)" by metis
  show ?thesis unfolding cursor_read_key_value_def c(1) cursor.simps option.case
    by (rule runs_bind, rule runs_get_at[where A = A and r = "(ks ! i, vs ! i)", OF c(2)])
      (use c(3,4) Q in \<open>simp_all add: runs_ret del: node_view.simps\<close>)
qed

lemma runs_cursor_validate:
  assumes ch: "chain A pv L nx" and Q: "Q () A"
  shows "runs (cursor_validate (pos L n)) A Q"
proof (cases "n < length (addrs L)")
  case True
  from chain_pos[OF ch this] obtain p ks vs i par pv' nx' where c: "pos L n = \<lparr>cnode = Some p, cindex = i\<rparr>"
    "A p = Some (VLeaf par ks vs pv' nx')" "i < length ks" by metis
  show ?thesis unfolding cursor_validate_def c(1) cursor.simps option.case
    by (rule runs_bind, rule runs_len_at[where A = A, OF c(2)]) (use c(3) Q in \<open>simp add: runs_assert\<close>)
next
  case False
  then show ?thesis using Q by (simp add: cursor_validate_def runs_ret)
qed

lemma runs_cursor_new:
  assumes "chain A pv L nx" "pos L n = \<lparr>cnode = node, cindex = index\<rparr>" "Q (pos L n) A"
  shows "runs (cursor_new node index) A Q"
  unfolding cursor_new_def Let_def
  by (rule runs_bind, rule runs_cursor_validate[OF assms(1), of _ n, unfolded assms(2)], rule runs_ret)
    (use assms(2,3) in simp)

text \<open>The leaf a chain begins with, and the one it ends with.\<close>

lemma pos_first: "chain A pv L nx \<Longrightarrow> pos L 0 = \<lparr>cnode = hd_or (map fst L) None, cindex = 0\<rparr>"
proof (cases L)
  case (Cons b L')
  assume "chain A pv L nx"
  then have "0 < bsize b" using Cons by (cases b) auto
  then show ?thesis using pos_split[of 0 b "[]" L'] Cons by simp
qed (simp add: pos_end)

lemma runs_cursor_new_first:
  assumes "chain A pv L nx" "Q (pos L 0) A"
  shows "runs (cursor_new (hd_or (map fst L) None) 0) A Q"
  by (rule runs_cursor_new[where Q = Q, OF assms(1) pos_first[OF assms(1)] assms(2)])

lemma runs_cursor_new_at_end:
  assumes ch: "chain A pv L nx" and Q: "Q (pos L (length (addrs L) - 1)) A"
  shows "runs (cursor_new_at_end (last_or None (map fst L))) A Q"
proof (cases L rule: rev_cases)
  case Nil
  then show ?thesis
    using runs_cursor_new[where Q = Q, OF ch _ Q, of None 0] by (simp add: cursor_new_at_end_def pos_end)
next
  case (snoc L0 b)
  obtain p ks vs where b: "b = (p, ks, vs)" by (cases b)
  with ch snoc chain_at[of A pv L0 p ks vs "[]" nx] obtain par pv' nx' where
    p: "A p = Some (VLeaf par ks vs pv' nx')" "ks \<noteq> []" by auto
  have i: "length (addrs L) - 1 = length (addrs L0) + (length ks - 1)" using p(2) snoc b by (cases ks) auto
  have "pos L (length (addrs L) - 1) = \<lparr>cnode = Some p, cindex = length ks - 1\<rparr>"
    using pos_split[of "length ks - 1" b L0 "[]"] p(2) snoc b i by simp
  then have "runs (cursor_new (Some p) (length ks - 1)) A Q" by (rule runs_cursor_new[where Q = Q, OF ch _ Q])
  then show ?thesis unfolding cursor_new_at_end_def snoc b
    by (simp del: One_nat_def) (intro runs_bind runs_get_at[where A = A, OF p(1) node_last_idx[OF _ p(2)]])
qed

end
