(* ===== verification/Iter.thy ===== *)
theory Iter
  imports Cursor MapOps
begin

text \<open>
  The iterators over a map that is only read: \<open>Iter\<close>, \<open>Keys\<close>, \<open>Values\<close> of \<open>src/src/map.rs\<close>, double-ended
  and of exact size. An iterator stands for the entries it has not yielded yet, a segment of the
  contents; taking from either end simulates taking from that segment.
\<close>

subsection \<open>Operations\<close>

record iter =
  it_cursor :: cursor
  it_back :: cursor
  it_length :: nat

definition iter_new :: "bmap \<Rightarrow> ('k, 'v, iter) sprog" where
  "iter_new tree =
     bindP (first_leaf tree) (\<lambda>fl.
     bindP (cursor_new fl 0) (\<lambda>c.
     bindP (last_leaf tree) (\<lambda>ll.
     bindP (cursor_new_at_end ll) (\<lambda>b.
     ret \<lparr>it_cursor = c, it_back = b, it_length = mlength tree\<rparr>))))"

definition iter_peek :: "iter \<Rightarrow> ('k, 'v, ('k \<times> 'v) option) sprog" where
  "iter_peek it = (if it_length it = 0 then ret None else cursor_key_value (it_cursor it))"

definition iter_peek_back :: "iter \<Rightarrow> ('k, 'v, ('k \<times> 'v) option) sprog" where
  "iter_peek_back it = (if it_length it = 0 then ret None else cursor_key_value (it_back it))"

definition iter_advance :: "iter \<Rightarrow> ('k, 'v, iter) sprog" where
  "iter_advance it =
     (if it_length it = 0 then fail IterationDone
      else bindP (cursor_advance (it_cursor it)) (\<lambda>c.
           ret (it\<lparr>it_cursor := c, it_length := it_length it - 1\<rparr>)))"

definition iter_advance_back :: "iter \<Rightarrow> ('k, 'v, iter) sprog" where
  "iter_advance_back it =
     (if it_length it = 0 then fail IterationDone
      else bindP (cursor_advance_back (it_back it)) (\<lambda>b.
           ret (it\<lparr>it_back := b, it_length := it_length it - 1\<rparr>)))"

definition iter_next :: "iter \<Rightarrow> ('k, 'v, ('k \<times> 'v) option \<times> iter) sprog" where
  "iter_next it =
     bindP (iter_peek it) (\<lambda>kv.
     case kv of None \<Rightarrow> ret (None, it)
     | Some kv \<Rightarrow> bindP (iter_advance it) (\<lambda>it. ret (Some kv, it)))"

definition iter_next_back :: "iter \<Rightarrow> ('k, 'v, ('k \<times> 'v) option \<times> iter) sprog" where
  "iter_next_back it =
     bindP (iter_peek_back it) (\<lambda>kv.
     case kv of None \<Rightarrow> ret (None, it)
     | Some kv \<Rightarrow> bindP (iter_advance_back it) (\<lambda>it. ret (Some kv, it)))"

definition iter_len :: "iter \<Rightarrow> nat" where
  "iter_len it = it_length it"

definition iter_size_hint :: "iter \<Rightarrow> nat \<times> nat option" where
  "iter_size_hint it = (it_length it, Some (it_length it))"

definition keys_next :: "iter \<Rightarrow> ('k, 'v, 'k option \<times> iter) sprog" where
  "keys_next it = bindP (iter_next it) (\<lambda>(kv, it). ret (map_option fst kv, it))"

definition keys_next_back :: "iter \<Rightarrow> ('k, 'v, 'k option \<times> iter) sprog" where
  "keys_next_back it = bindP (iter_next_back it) (\<lambda>(kv, it). ret (map_option fst kv, it))"

definition values_next :: "iter \<Rightarrow> ('k, 'v, 'v option \<times> iter) sprog" where
  "values_next it = bindP (iter_next it) (\<lambda>(kv, it). ret (map_option snd kv, it))"

definition values_next_back :: "iter \<Rightarrow> ('k, 'v, 'v option \<times> iter) sprog" where
  "values_next_back it = bindP (iter_next_back it) (\<lambda>(kv, it). ret (map_option snd kv, it))"

subsection \<open>What an iterator stands for\<close>

text \<open>\<open>fr\<close> entries lie before the iterator, \<open>xs\<close> are the ones it has not yielded.\<close>

definition iter_at :: "('k, 'v) block list \<Rightarrow> nat \<Rightarrow> nat \<Rightarrow> iter \<Rightarrow> bool" where
  "iter_at L f n it \<longleftrightarrow> it_length it = n \<and>
     (0 < n \<longrightarrow> it_cursor it = pos L f \<and> it_back it = pos L (f + n - 1))"

lemma iter_at_0: "it_length it = 0 \<Longrightarrow> iter_at L f 0 it"
  by (simp add: iter_at_def)

lemma runs_first_leaf_block:
  fixes A :: "('k::linorder, 'v) vheap"
  assumes ok: "bmap_ok A m T" and Q: "Q (hd_or (map fst (blocks T)) None) A"
  shows "runs (first_leaf m) A Q"
  by (rule runs_first_leaf[OF ok]) (use Q in \<open>auto simp: map_fst_leafs plug_leaves\<close>)

lemma runs_last_leaf_block:
  fixes A :: "('k::linorder, 'v) vheap"
  assumes ok: "bmap_ok A m T" and Q: "Q (last_or None (map fst (blocks T))) A"
  shows "runs (last_leaf m) A Q"
  by (rule runs_last_leaf[OF ok]) (use Q in \<open>auto simp: map_fst_leafs plug_leaves\<close>)

lemma runs_iter_new_pos:
  fixes A :: "('k::linorder, 'v) vheap"
  assumes ok: "bmap_ok A m T"
    and Q: "Q \<lparr>it_cursor = pos (blocks T) 0, it_back = pos (blocks T) (length (addrs (blocks T)) - 1), it_length = mlength m\<rparr> A"
  shows "runs (iter_new m) A Q"
  unfolding iter_new_def
  by (rule runs_bind, rule runs_first_leaf_block[OF ok], rule runs_bind,
    rule runs_cursor_new_first[OF bmap_chain[OF ok]], rule runs_bind, rule runs_last_leaf_block[OF ok],
    rule runs_bind, rule runs_cursor_new_at_end[OF bmap_chain[OF ok]], rule runs_ret, rule Q)

lemma runs_iter_new:
  fixes A :: "('k::linorder, 'v) vheap"
  assumes ok: "bmap_ok A m T"
    and Q: "\<And>it. iter_at (blocks T) 0 (length (contents T)) it \<Longrightarrow> Q it A"
  shows "runs (iter_new m) A Q"
proof (rule runs_iter_new_pos[OF ok], rule Q)
  show "iter_at (blocks T) 0 (length (contents T)) \<lparr>it_cursor = pos (blocks T) 0,
      it_back = pos (blocks T) (length (addrs (blocks T)) - 1), it_length = mlength m\<rparr>"
    using ok length_contents[OF ok] by (cases T) (auto simp: iter_at_def)
qed

lemma runs_iter_peek:
  assumes ok: "bmap_ok A m T" and it: "iter_at (blocks T) f n it" "f + n \<le> length (contents T)"
    and Q: "Q (if n = 0 then None else Some (contents T ! f)) A"
  shows "runs (iter_peek it) A Q"
  using it Q runs_cursor_key_value[where Q = Q, OF bmap_chain[OF ok], of f]
  unfolding iter_peek_def iter_at_def
  by (auto simp: blocks_contents[OF ok] length_contents[OF ok] intro: runs_ret)

lemma runs_iter_peek_back:
  assumes ok: "bmap_ok A m T" and it: "iter_at (blocks T) f n it" "f + n \<le> length (contents T)"
    and Q: "Q (if n = 0 then None else Some (contents T ! (f + n - 1))) A"
  shows "runs (iter_peek_back it) A Q"
  using it Q runs_cursor_key_value[where Q = Q, OF bmap_chain[OF ok], of "f + n - 1"]
  unfolding iter_peek_back_def iter_at_def
  by (auto simp: blocks_contents[OF ok] length_contents[OF ok] intro: runs_ret)

lemma runs_iter_advance:
  assumes ok: "bmap_ok A m T" and it: "iter_at (blocks T) f (Suc n) it" "f + Suc n \<le> length (contents T)"
    and Q: "\<And>it. iter_at (blocks T) (Suc f) n it \<Longrightarrow> Q it A"
  shows "runs (iter_advance it) A Q"
proof -
  have c: "it_length it = Suc n" "it_cursor it = pos (blocks T) f" "it_back it = pos (blocks T) (f + n)"
    using it(1) by (simp_all add: iter_at_def)
  have "iter_at (blocks T) (Suc f) n (it\<lparr>it_cursor := pos (blocks T) (Suc f), it_length := n\<rparr>)"
    using c(3) by (cases n) (simp_all add: iter_at_def)
  then show ?thesis unfolding iter_advance_def c
    using it(2) by (auto intro!: runs_bind runs_cursor_advance[OF bmap_chain[OF ok]] runs_ret Q
        simp: length_contents[OF ok])
qed

lemma runs_iter_advance_back:
  assumes ok: "bmap_ok A m T" and it: "iter_at (blocks T) f (Suc n) it" "f + Suc n \<le> length (contents T)"
    and Q: "\<And>it. iter_at (blocks T) f n it \<Longrightarrow> Q it A"
  shows "runs (iter_advance_back it) A Q"
proof -
  have c: "it_length it = Suc n" "it_cursor it = pos (blocks T) f" "it_back it = pos (blocks T) (f + n)"
    using it(1) by (simp_all add: iter_at_def)
  have "iter_at (blocks T) f n (it\<lparr>it_back := pos_before (blocks T) (f + n), it_length := n\<rparr>)"
    using c(2) by (cases n) (simp_all add: iter_at_def)
  then show ?thesis unfolding iter_advance_back_def c
    using it(2) by (auto intro!: runs_bind runs_cursor_advance_back[OF bmap_chain[OF ok]] runs_ret Q
        simp: length_contents[OF ok])
qed

text \<open>The entries before the iterator, those it has not yielded, and those behind it.\<close>

definition iterates ::
    "bmap \<Rightarrow> ('k::linorder \<times> 'v) list \<Rightarrow> ('k, 'v) store \<Rightarrow> iter \<Rightarrow> ('k \<times> 'v) list \<Rightarrow> bool" where
  "iterates m kvs s it xs \<longleftrightarrow>
     (\<exists>A T fr bk. shows_heap s A \<and> bmap_ok A m T \<and> contents T = kvs \<and> kvs = fr @ xs @ bk \<and>
        iter_at (blocks T) (length fr) (length xs) it)"

lemma iterates_represents: "iterates m kvs s it xs \<Longrightarrow> represents s m kvs"
  by (auto simp: iterates_def represents_def)

subsection \<open>Taking from an iterator simulates taking from a list\<close>

datatype iter_op = Next | NextBack | Peek | PeekBack | Remaining

datatype ('k, 'v) iter_out = Item "('k \<times> 'v) option" | Hint "nat \<times> nat option"

fun iter_step :: "iter_op \<Rightarrow> iter \<Rightarrow> ('k, 'v, ('k, 'v) iter_out \<times> iter) sprog" where
  "iter_step Next it = bindP (iter_next it) (\<lambda>(kv, it). ret (Item kv, it))"
| "iter_step NextBack it = bindP (iter_next_back it) (\<lambda>(kv, it). ret (Item kv, it))"
| "iter_step Peek it = bindP (iter_peek it) (\<lambda>kv. ret (Item kv, it))"
| "iter_step PeekBack it = bindP (iter_peek_back it) (\<lambda>kv. ret (Item kv, it))"
| "iter_step Remaining it = ret (Hint (iter_size_hint it), it)"

fun iter_spec :: "iter_op \<Rightarrow> ('k \<times> 'v) list \<Rightarrow> ('k, 'v) iter_out \<times> ('k \<times> 'v) list" where
  "iter_spec Next xs = (Item (kv_first xs), tl xs)"
| "iter_spec NextBack xs = (Item (kv_last xs), butlast xs)"
| "iter_spec Peek xs = (Item (kv_first xs), xs)"
| "iter_spec PeekBack xs = (Item (kv_last xs), xs)"
| "iter_spec Remaining xs = (Hint (length xs, Some (length xs)), xs)"

lemma runs_iter_next:
  assumes ok: "bmap_ok A m T" and c: "contents T = fr @ xs @ bk" and it: "iter_at (blocks T) (length fr) (length xs) it"
    and none: "xs = [] \<Longrightarrow> Q (None, it) A"
    and some: "\<And>x xs' it. xs = x # xs' \<Longrightarrow> iter_at (blocks T) (length (fr @ [x])) (length xs') it \<Longrightarrow> Q (Some x, it) A"
  shows "runs (iter_next it) A Q"
  unfolding iter_next_def
proof (rule runs_bind, rule runs_iter_peek[OF ok it])
  show "runs (case (if length xs = 0 then None else Some (contents T ! length fr)) of None \<Rightarrow> ret (None, it)
      | Some kv \<Rightarrow> bindP (iter_advance it) (\<lambda>it. ret (Some kv, it))) A Q"
    using c it none some
    by (cases xs) (auto intro!: runs_ret runs_bind runs_iter_advance[OF ok] simp: nth_append)
qed (simp add: c)

lemma runs_iter_next_back:
  assumes ok: "bmap_ok A m T" and c: "contents T = fr @ xs @ bk" and it: "iter_at (blocks T) (length fr) (length xs) it"
    and none: "xs = [] \<Longrightarrow> Q (None, it) A"
    and some: "\<And>x xs' it. xs = xs' @ [x] \<Longrightarrow> iter_at (blocks T) (length fr) (length xs') it \<Longrightarrow> Q (Some x, it) A"
  shows "runs (iter_next_back it) A Q"
  unfolding iter_next_back_def
proof (rule runs_bind, rule runs_iter_peek_back[OF ok it])
  show "runs (case (if length xs = 0 then None else Some (contents T ! (length fr + length xs - 1))) of
      None \<Rightarrow> ret (None, it)
      | Some kv \<Rightarrow> bindP (iter_advance_back it) (\<lambda>it. ret (Some kv, it))) A Q"
    using c it none some
    by (cases xs rule: rev_cases) (auto intro!: runs_ret runs_bind runs_iter_advance_back[OF ok] simp: nth_append)
qed (simp add: c)

definition iter_done ::
    "('k::linorder, 'v) vheap \<Rightarrow> ('k, 'v) bt option \<Rightarrow> 'a \<times> ('k \<times> 'v) list \<Rightarrow> 'a \<times> iter \<Rightarrow> ('k, 'v) vheap \<Rightarrow> bool" where
  "iter_done A T spec r A' \<longleftrightarrow> A' = A \<and> fst r = fst spec \<and>
     (\<exists>fr bk. contents T = fr @ snd spec @ bk \<and> iter_at (blocks T) (length fr) (length (snd spec)) (snd r))"

lemma iter_doneI:
  "contents T = fr @ xs @ bk \<Longrightarrow> iter_at (blocks T) (length fr) (length xs) it \<Longrightarrow>
   iter_done A T (out, xs) (out, it) A"
  by (auto simp: iter_done_def)

lemma runs_iter_step:
  assumes ok: "bmap_ok A m T" and c: "contents T = fr @ xs @ bk" and it: "iter_at (blocks T) (length fr) (length xs) it"
  shows "runs (iter_step op it) A (iter_done A T (iter_spec op xs))"
proof -
  note stay = iter_doneI[OF c it]
  show ?thesis
  proof (cases op)
    case Next
    show ?thesis unfolding Next iter_step.simps iter_spec.simps
    proof (rule runs_bind, rule runs_iter_next[OF ok c it])
      fix x xs' it' assume x: "xs = x # xs'" "iter_at (blocks T) (length (fr @ [x])) (length xs') it'"
      then show "runs (case (Some x, it') of (kv, it) \<Rightarrow> ret (Item kv, it)) A (iter_done A T (Item (kv_first xs), tl xs))"
        using iter_doneI[of T "fr @ [x]" xs' bk it'] c by (auto intro!: runs_ret)
    qed (use stay in \<open>auto intro!: runs_ret\<close>)
  next
    case NextBack
    show ?thesis unfolding NextBack iter_step.simps iter_spec.simps
    proof (rule runs_bind, rule runs_iter_next_back[OF ok c it])
      fix x xs' it' assume x: "xs = xs' @ [x]" "iter_at (blocks T) (length fr) (length xs') it'"
      then show "runs (case (Some x, it') of (kv, it) \<Rightarrow> ret (Item kv, it)) A (iter_done A T (Item (kv_last xs), butlast xs))"
        using iter_doneI[of T fr xs' "x # bk" it'] c by (auto intro!: runs_ret)
    qed (use stay in \<open>auto intro!: runs_ret\<close>)
  next
    case Peek
    then show ?thesis
      using stay c by (cases xs) (auto intro!: runs_bind runs_iter_peek[OF ok it] runs_ret simp: nth_append)
  next
    case PeekBack
    then show ?thesis
      using stay c
      by (cases xs rule: rev_cases) (auto intro!: runs_bind runs_iter_peek_back[OF ok it] runs_ret simp: nth_append)
  next
    case Remaining
    have "it_length it = length xs" using it by (simp add: iter_at_def)
    then show ?thesis using Remaining stay by (auto intro!: runs_ret simp: iter_size_hint_def)
  qed
qed

lemma iter_step_simulates:
  assumes "iterates m kvs s it xs"
  shows "\<exists>it' s'. iter_step op it s = Inr ((fst (iter_spec op xs), it'), s') \<and>
    iterates m kvs s' it' (snd (iter_spec op xs))"
proof -
  obtain A T fr bk where A: "shows_heap s A" "bmap_ok A m T" "contents T = kvs" "contents T = fr @ xs @ bk"
      "iter_at (blocks T) (length fr) (length xs) it"
    using assms unfolding iterates_def by auto
  from runsD[OF runs_iter_step[OF A(2,4,5), of op] A(1)] obtain r s' A' where
    r: "iter_step op it s = Inr (r, s')" "shows_heap s' A'" "iter_done A T (iter_spec op xs) r A'" by metis
  from r(3) obtain fr' bk' where d: "A' = A" "fst r = fst (iter_spec op xs)" "contents T = fr' @ snd (iter_spec op xs) @ bk'"
      "iter_at (blocks T) (length fr') (length (snd (iter_spec op xs))) (snd r)"
    unfolding iter_done_def by blast
  have "iterates m kvs s' (snd r) (snd (iter_spec op xs))"
    unfolding iterates_def using r(2) A(2,3) d by metis
  with r(1) d(2) show ?thesis by (metis prod.collapse)
qed

interpretation reading: simulation "iterates m kvs" iter_step iter_spec for m kvs
  by unfold_locales (rule iter_step_simulates)

lemma iter_new_iterates:
  assumes "represents s m kvs"
  shows "\<exists>it s'. iter_new m s = Inr (it, s') \<and> iterates m kvs s' it kvs"
proof -
  obtain A T where A: "shows_heap s A" "bmap_ok A m T" "contents T = kvs"
    using assms by (auto simp: represents_def)
  have "runs (iter_new m) A (\<lambda>it A'. A' = A \<and> iter_at (blocks T) 0 (length (contents T)) it)"
    by (rule runs_iter_new[OF A(2)]) simp
  from runsD[OF this A(1)] obtain it s' where "iter_new m s = Inr (it, s')" "shows_heap s' A"
    "iter_at (blocks T) 0 (length (contents T)) it" by metis
  then show ?thesis using A(2,3) unfolding iterates_def
    by (intro exI[of _ it] exI[of _ s'] conjI exI[of _ A] exI[of _ T] exI[of _ "[]"]) auto
qed

lemma iter_advance_done: "iterates m kvs s it [] \<Longrightarrow> iter_advance it s = Inl IterationDone \<and> iter_advance_back it s = Inl IterationDone"
  by (auto simp: iterates_def iter_at_def iter_advance_def iter_advance_back_def)

lemma iter_advance_simulates:
  assumes "iterates m kvs s it xs" "xs \<noteq> []"
  shows "(\<exists>it' s'. iter_advance it s = Inr (it', s') \<and> iterates m kvs s' it' (tl xs)) \<and>
    (\<exists>it' s'. iter_advance_back it s = Inr (it', s') \<and> iterates m kvs s' it' (butlast xs))"
proof -
  obtain A T fr bk where A: "shows_heap s A" "bmap_ok A m T" "contents T = kvs" "kvs = fr @ xs @ bk"
      "iter_at (blocks T) (length fr) (length xs) it"
    using assms(1) unfolding iterates_def by auto
  obtain n where n: "length xs = Suc n" using assms(2) by (cases xs) auto
  have it: "iter_at (blocks T) (length fr) (Suc n) it" "length fr + Suc n \<le> length (contents T)"
    using A(3-5) n by simp_all
  have "runs (iter_advance it) A (\<lambda>it' A'. A' = A \<and> iter_at (blocks T) (Suc (length fr)) n it')"
    by (rule runs_iter_advance[OF A(2) it]) simp
  from runsD[OF this A(1)] obtain it' s' where f: "iter_advance it s = Inr (it', s')" "shows_heap s' A"
    "iter_at (blocks T) (Suc (length fr)) n it'" by metis
  have "runs (iter_advance_back it) A (\<lambda>it' A'. A' = A \<and> iter_at (blocks T) (length fr) n it')"
    by (rule runs_iter_advance_back[OF A(2) it]) simp
  from runsD[OF this A(1)] obtain it2 s2 where b: "iter_advance_back it s = Inr (it2, s2)" "shows_heap s2 A"
    "iter_at (blocks T) (length fr) n it2" by metis
  have "xs = hd xs # tl xs" "xs = butlast xs @ [last xs]" using assms(2) by simp_all
  then have "kvs = (fr @ [hd xs]) @ tl xs @ bk" "kvs = fr @ butlast xs @ (last xs # bk)"
    unfolding A(4) by (metis append_Cons append_Nil append_assoc)+
  moreover have "length (fr @ [hd xs]) = Suc (length fr)" "length (tl xs) = n" "length (butlast xs) = n" using n by simp_all
  ultimately show ?thesis using f b A(2,3) unfolding iterates_def by metis
qed

end
