(* ===== verification/IterMut.thy ===== *)
theory IterMut
  imports Iter
begin

text \<open>
  \<open>IterMut\<close> and \<open>ValuesMut\<close>: iteration that hands out mutable references to the values. The caller's
  write through a reference is the argument \<open>f\<close> of the step that yields it. Writing at a place of the
  chain keeps the keys, the shape and all other values.
\<close>

subsection \<open>Operations\<close>

definition iter_mut_new :: "bmap \<Rightarrow> ('k, 'v, iter) sprog" where
  "iter_mut_new tree =
     bindP (first_leaf tree) (\<lambda>fl.
     bindP (cursor_new fl 0) (\<lambda>c.
     bindP (last_leaf tree) (\<lambda>ll.
     bindP (cursor_new_at_end ll) (\<lambda>b.
     ret \<lparr>it_cursor = c, it_back = b, it_length = mlength tree\<rparr>))))"

definition iter_mut_peek_mut :: "('v \<Rightarrow> 'v) \<Rightarrow> iter \<Rightarrow> ('k, 'v, ('k \<times> 'v) option) sprog" where
  "iter_mut_peek_mut f it = (if it_length it = 0 then ret None else cursor_key_value_mut f (it_cursor it))"

definition iter_mut_peek_back_mut :: "('v \<Rightarrow> 'v) \<Rightarrow> iter \<Rightarrow> ('k, 'v, ('k \<times> 'v) option) sprog" where
  "iter_mut_peek_back_mut f it = (if it_length it = 0 then ret None else cursor_key_value_mut f (it_back it))"

definition iter_mut_advance :: "iter \<Rightarrow> ('k, 'v, iter) sprog" where
  "iter_mut_advance it =
     (if it_length it = 0 then fail IterationDone
      else bindP (cursor_advance (it_cursor it)) (\<lambda>c.
           ret (it\<lparr>it_cursor := c, it_length := it_length it - 1\<rparr>)))"

definition iter_mut_advance_back :: "iter \<Rightarrow> ('k, 'v, iter) sprog" where
  "iter_mut_advance_back it =
     (if it_length it = 0 then fail IterationDone
      else bindP (cursor_advance_back (it_back it)) (\<lambda>b.
           ret (it\<lparr>it_back := b, it_length := it_length it - 1\<rparr>)))"

definition iter_mut_next :: "('v \<Rightarrow> 'v) \<Rightarrow> iter \<Rightarrow> ('k, 'v, ('k \<times> 'v) option \<times> iter) sprog" where
  "iter_mut_next f it =
     bindP (iter_mut_peek_mut f it) (\<lambda>kv.
     case kv of None \<Rightarrow> ret (None, it)
     | Some kv \<Rightarrow> bindP (iter_mut_advance it) (\<lambda>it. ret (Some kv, it)))"

definition iter_mut_next_back :: "('v \<Rightarrow> 'v) \<Rightarrow> iter \<Rightarrow> ('k, 'v, ('k \<times> 'v) option \<times> iter) sprog" where
  "iter_mut_next_back f it =
     bindP (iter_mut_peek_back_mut f it) (\<lambda>kv.
     case kv of None \<Rightarrow> ret (None, it)
     | Some kv \<Rightarrow> bindP (iter_mut_advance_back it) (\<lambda>it. ret (Some kv, it)))"

definition values_mut_next :: "('v \<Rightarrow> 'v) \<Rightarrow> iter \<Rightarrow> ('k, 'v, 'v option \<times> iter) sprog" where
  "values_mut_next f it = bindP (iter_mut_next f it) (\<lambda>(kv, it). ret (map_option snd kv, it))"

definition values_mut_next_back :: "('v \<Rightarrow> 'v) \<Rightarrow> iter \<Rightarrow> ('k, 'v, 'v option \<times> iter) sprog" where
  "values_mut_next_back f it = bindP (iter_mut_next_back f it) (\<lambda>(kv, it). ret (map_option snd kv, it))"

subsection \<open>Writing a value in place\<close>

lemma concat_map_split:
  "concat (map f ts) = L1 @ x # L2 \<Longrightarrow> \<exists>ts1 u ts2 M1 M2. ts = ts1 @ u # ts2 \<and> f u = M1 @ x # M2 \<and>
     L1 = concat (map f ts1) @ M1 \<and> L2 = M2 @ concat (map f ts2)"
proof (induction ts arbitrary: L1)
  case (Cons t ts)
  show ?case
  proof (cases "length L1 < length (f t)")
    case True
    have "f t @ concat (map f ts) = L1 @ x # L2" using Cons.prems by simp
    then obtain us where us: "f t = L1 @ us" "us @ concat (map f ts) = x # L2"
      using True unfolding append_eq_append_conv2 by auto
    with True obtain M2 where "us = x # M2" "L2 = M2 @ concat (map f ts)"
      by (cases us) auto
    with us(1) show ?thesis
      by (intro exI[of _ "[]"] exI[of _ t] exI[of _ ts] exI[of _ L1] exI[of _ M2]) simp
  next
    case False
    have "f t @ concat (map f ts) = L1 @ x # L2" using Cons.prems by simp
    then obtain L1' where L1': "L1 = f t @ L1'"
      using False unfolding append_eq_append_conv2 by (auto dest: arg_cong[of _ _ length])
    with Cons.prems Cons.IH[of L1'] obtain ts1 u ts2 M1 M2 where
      "ts = ts1 @ u # ts2" "f u = M1 @ x # M2" "L1' = concat (map f ts1) @ M1" "L2 = M2 @ concat (map f ts2)"
      by auto
    then show ?thesis
      by (intro exI[of _ "t # ts1"] exI[of _ u] exI[of _ ts2] exI[of _ M1] exI[of _ M2]) (simp add: L1')
  qed
qed simp

lemma plug_append: "plug (c @ d) t = plug d (plug c t)"
  by (induction c t rule: plug.induct) simp_all

lemma path_shape_append: "path_shape h (c @ d) \<longleftrightarrow> path_shape h c \<and> path_shape (h + length c) d"
  by (induction h c rule: path_shape.induct) auto

lemma leafs_split:
  "bal h t \<Longrightarrow> leafs t = L1 @ (p, ks, vs) # L2 \<Longrightarrow>
   \<exists>c. t = plug c (Lf p ks vs) \<and> path_shape 0 c \<and> length c = h \<and>
     (\<forall>ks' vs'. leafs (plug c (Lf p ks' vs')) = L1 @ (p, ks', vs') # L2)"
proof (induction h arbitrary: t L1 L2)
  case 0
  then obtain q ks' vs' where "t = Lf q ks' vs'" by (auto simp: bal_leaf_cases)
  with 0 show ?case by (intro exI[of _ "[]"]) (auto simp: Cons_eq_append_conv)
next
  case (Suc h)
  then obtain q ks' ts where t: "t = Nd q ks' ts" "length ts = length ks' + 1" "\<forall>u\<in>set ts. bal h u"
    by (auto simp: bal_Suc_cases)
  then have "concat (map leafs ts) = L1 @ (p, ks, vs) # L2" using Suc.prems by simp
  from concat_map_split[OF this] obtain ts1 u ts2 M1 M2 where s: "ts = ts1 @ u # ts2"
      "leafs u = M1 @ (p, ks, vs) # M2" "L1 = concat (map leafs ts1) @ M1" "L2 = M2 @ concat (map leafs ts2)"
    by metis
  with Suc.IH[OF _ s(2)] t(3) obtain c where c: "u = plug c (Lf p ks vs)" "path_shape 0 c" "length c = h"
      "\<forall>ks' vs'. leafs (plug c (Lf p ks' vs')) = M1 @ (p, ks', vs') # M2" by auto
  define d where "d = c @ [Fr q (take (length ts1) ks') ts1 (drop (length ts1) ks') ts2]"
  have "t = plug d (Lf p ks vs)" unfolding d_def plug_append using t(1) s(1) c(1) by simp
  moreover have "path_shape 0 d" "length d = Suc h"
    using c(2,3) t(2,3) s(1) by (auto simp: d_def path_shape_append)
  moreover have "\<forall>ks' vs'. leafs (plug d (Lf p ks' vs')) = L1 @ (p, ks', vs') # L2"
    using c(4) s(3,4) by (simp add: d_def plug_append)
  ultimately show ?case by blast
qed

lemma blocks_split:
  fixes A :: "('k::linorder, 'v) vheap"
  assumes ok: "bmap_ok A m T" and b: "blocks T = L1 @ (p, ks, vs) # L2" and i: "i < length ks"
  obtains t c where "T = Some t" "t = plug c (Lf p ks vs)" "path_shape 0 c" "length c = height m" "length vs = length ks"
    "\<And>vs'. leafs (plug c (Lf p ks vs')) = L1 @ (p, ks, vs') # L2"
    "items_below (ks ! i) (left_items c @ map2 Ent (take i ks) (take i vs))"
    "items_above (ks ! i) (map2 Ent (drop (Suc i) ks) (drop (Suc i) vs) @ right_items c)"
proof -
  obtain t where t: "T = Some t" using b by (cases T) auto
  then have tok: "bal (height m) t" "ordered (flat t)" "filled 1 t" using ok by (simp_all add: tree_ok_def)
  have "leafs t = L1 @ (p, ks, vs) # L2" using b t by simp
  from leafs_split[OF tok(1) this] obtain c where c: "t = plug c (Lf p ks vs)" "path_shape 0 c" "length c = height m"
      "\<And>ks' vs'. leafs (plug c (Lf p ks' vs')) = L1 @ (p, ks', vs') # L2" by blast
  have len: "length vs = length ks" using leafs_ok[OF tok(1,3), of p ks vs] b t by simp
  have "map2 Ent ks vs = map2 Ent (take i ks) (take i vs) @ Ent (ks ! i) (vs ! i) # map2 Ent (drop (Suc i) ks) (drop (Suc i) vs)"
    using len i by (metis id_take_nth_drop map2_split Cons_nth_drop_Suc list.simps(9) zip_Cons_Cons case_prod_conv)
  with tok(2) have "ordered ((left_items c @ map2 Ent (take i ks) (take i vs)) @ Ent (ks ! i) (vs ! i) #
      map2 Ent (drop (Suc i) ks) (drop (Suc i) vs) @ right_items c)"
    unfolding c(1) by (simp add: plug_flat[OF c(2)])
  then have "items_below (ks ! i) (left_items c @ map2 Ent (take i ks) (take i vs))"
    "items_above (ks ! i) (map2 Ent (drop (Suc i) ks) (drop (Suc i) vs) @ right_items c)"
    unfolding ordered_append[of _ "Ent _ _ # _"] ordered_Cons by (simp_all add: ball_Un)
  with that t c len show ?thesis by blast
qed

lemma blocks_update:
  "length vs = length ks \<Longrightarrow> i < length ks \<Longrightarrow> length (concat (map bentries L1)) = length (addrs L1) \<Longrightarrow>
   concat (map bentries (L1 @ (p, ks, vs[i := w]) # L2)) =
   (concat (map bentries (L1 @ (p, ks, vs) # L2)))[length (addrs L1) + i := (ks ! i, w)]"
proof -
  assume len: "length vs = length ks" and i: "i < length ks"
    and L1: "length (concat (map bentries L1)) = length (addrs L1)"
  have "zip ks (vs[i := w]) = (zip ks vs)[i := (ks ! i, w)]"
    using len i by (auto simp: list_eq_iff_nth_eq nth_list_update)
  then show ?thesis using len i L1 by (simp add: list_update_append)
qed

lemma addrs_update: "addrs (L1 @ (p, ks, vs') # L2) = addrs (L1 @ (p, ks, vs) # L2)"
  by simp

text \<open>The write itself: the place, the keys and the other values stay.\<close>

lemma runs_cursor_key_value_mut:
  fixes A :: "('k::linorder, 'v) vheap"
  assumes ok: "bmap_ok A m T" and n: "n < length (contents T)" and kv: "contents T ! n = (k, v)"
    and Q: "\<And>A' T'. bmap_ok A' m T' \<Longrightarrow> contents T' = (contents T)[n := (k, f v)] \<Longrightarrow>
      addrs (blocks T') = addrs (blocks T) \<Longrightarrow> framed A (owned T) A' (owned T') \<Longrightarrow> Q (Some (k, v)) A'"
  shows "runs (cursor_key_value_mut f (pos (blocks T) n)) A Q"
proof -
  have n': "n < length (addrs (blocks T))" using n length_contents[OF ok] by simp
  from chain_pos[OF bmap_chain[OF ok] n'] obtain L1 p ks vs L2 i par pv nx where
    c: "blocks T = L1 @ (p, ks, vs) # L2" "i < length ks" "n = length (addrs L1) + i"
      "pos (blocks T) n = \<lparr>cnode = Some p, cindex = i\<rparr>" "A p = Some (VLeaf par ks vs pv nx)"
      "concat (map bentries (blocks T)) ! n = (ks ! i, vs ! i)" by metis
  have kv': "k = ks ! i" "v = vs ! i" using c(6) kv blocks_contents[OF ok] by auto
  obtain t d where d: "T = Some t" "t = plug d (Lf p ks vs)" "path_shape 0 d" "length d = height m" "length vs = length ks"
    "\<And>vs'. leafs (plug d (Lf p ks vs')) = L1 @ (p, ks, vs') # L2"
    "items_below (ks ! i) (left_items d @ map2 Ent (take i ks) (take i vs))"
    "items_above (ks ! i) (map2 Ent (drop (Suc i) ks) (drop (Suc i) vs) @ right_items d)"
    using blocks_split[OF ok c(1,2)] by metis
  note w = leaf_write[OF ok[unfolded d(1)] d(2-5) c(2) refl d(7,8) c(5), of "f v"]
  let ?A = "A(p \<mapsto> VLeaf par ks (vs[i := f v]) pv nx)" and ?T = "Some (plug d (Lf p ks (vs[i := f v])))"
  have L1: "length (concat (map bentries L1)) = length (addrs L1)"
    using bmap_chain[OF ok] unfolding c(1) chain_append by (metis chain_lengths)
  have "contents ?T = (contents T)[n := (k, f v)]"
    using blocks_contents[OF w(1)] blocks_contents[OF ok] blocks_update[OF d(5) c(2) L1, of p "f v" L2]
    unfolding kv'(1) c(1,3) by (simp add: d(6))
  moreover have "addrs (blocks ?T) = addrs (blocks T)" using d(6) c(1) by simp
  ultimately have fin: "Q (Some (k, v)) ?A" using Q[OF w(1)] w(3) d(1) by simp
  have up: "node_upd_ret (\<lambda>n. bindR (key_val i n) (\<lambda>(k, v). bindR (write_val i (f v) n) (\<lambda>n'. Inr ((k, v), n'))))
      (VLeaf par ks vs pv nx) (k, v) (VLeaf par ks (vs[i := f v]) pv nx)"
    by (rule write_upd_ret[OF c(2)]) (use kv' in \<open>simp add: key_val_view[OF _ c(2)] del: node_view.simps\<close>)
  show ?thesis unfolding cursor_key_value_mut_def c(4) cursor.simps option.case
    by (rule runs_bind, rule runs_upd_ret_at[where A = A, OF c(5) up], rule runs_ret, rule fin)
qed

subsection \<open>Mutable iteration simulates mapping a list in place\<close>

text \<open>The contents are the entries written already from the front, those not yielded, and those written
  already from the back. Since the heap \<open>A0\<close>, in which the map owned \<open>S0\<close>, no other node has
  changed.\<close>

type_synonym ('k, 'v) editing = "('k \<times> 'v) list \<times> ('k \<times> 'v) list \<times> ('k \<times> 'v) list"

definition edits ::
    "bmap \<Rightarrow> ('k::linorder, 'v) vheap \<Rightarrow> ptr set \<Rightarrow> ('k, 'v) store \<Rightarrow> iter \<Rightarrow> ('k, 'v) editing \<Rightarrow> bool" where
  "edits m A0 S0 s it e \<longleftrightarrow> (case e of (fr, xs, bk) \<Rightarrow>
     \<exists>A T. shows_heap s A \<and> bmap_ok A m T \<and> contents T = fr @ xs @ bk \<and>
       iter_at (blocks T) (length fr) (length xs) it \<and> framed A0 S0 A (owned T))"

datatype 'v edit_op = EditNext "'v \<Rightarrow> 'v" | EditNextBack "'v \<Rightarrow> 'v"

fun edit_step :: "'v edit_op \<Rightarrow> iter \<Rightarrow> ('k, 'v, ('k \<times> 'v) option \<times> iter) sprog" where
  "edit_step (EditNext f) it = iter_mut_next f it"
| "edit_step (EditNextBack f) it = iter_mut_next_back f it"

fun edit_spec :: "'v edit_op \<Rightarrow> ('k, 'v) editing \<Rightarrow> ('k \<times> 'v) option \<times> ('k, 'v) editing" where
  "edit_spec (EditNext f) (fr, [], bk) = (None, fr, [], bk)"
| "edit_spec (EditNext f) (fr, (k, v) # xs, bk) = (Some (k, v), fr @ [(k, f v)], xs, bk)"
| "edit_spec (EditNextBack f) (fr, xs, bk) =
     (if xs = [] then (None, fr, xs, bk)
      else let (k, v) = last xs in (Some (k, v), fr, butlast xs, (k, f v) # bk))"

lemma iter_mut_new_eq: "iter_mut_new = iter_new"
  by (simp add: fun_eq_iff iter_mut_new_def iter_new_def)

lemma iter_mut_advance_eq: "iter_mut_advance = iter_advance" "iter_mut_advance_back = iter_advance_back"
  by (simp_all add: fun_eq_iff iter_mut_advance_def iter_advance_def iter_mut_advance_back_def iter_advance_back_def)

lemma iter_at_cong: "addrs L' = addrs L \<Longrightarrow> iter_at L' f n it \<longleftrightarrow> iter_at L f n it"
  by (simp add: iter_at_def pos_def)

lemma edits_after:
  assumes "shows_heap s A" "bmap_ok A m T" "contents T = fr @ xs @ bk" "iter_at (blocks T) (length fr) (length xs) it"
    "framed A0 S0 A (owned T)"
  shows "edits m A0 S0 s it (fr, xs, bk)"
  using assms unfolding edits_def by auto

lemma runs_iter_mut_next:
  fixes A :: "('k::linorder, 'v) vheap"
  assumes ok: "bmap_ok A m T" and c: "contents T = fr @ xs @ bk" and it: "iter_at (blocks T) (length fr) (length xs) it"
    and none: "xs = [] \<Longrightarrow> Q (None, it) A"
    and some: "\<And>k v xs' it A' T'. xs = (k, v) # xs' \<Longrightarrow> bmap_ok A' m T' \<Longrightarrow>
      contents T' = (fr @ [(k, f v)]) @ xs' @ bk \<Longrightarrow>
      iter_at (blocks T') (length (fr @ [(k, f v)])) (length xs') it \<Longrightarrow>
      framed A (owned T) A' (owned T') \<Longrightarrow> Q (Some (k, v), it) A'"
  shows "runs (iter_mut_next f it) A Q"
proof (cases xs)
  case Nil
  with it have none_left: "(iter_mut_next f it :: ('k, 'v, ('k \<times> 'v) option \<times> iter) sprog) = ret (None, it)"
    by (simp add: iter_mut_next_def iter_mut_peek_mut_def iter_at_def fun_eq_iff)
  show ?thesis unfolding none_left using none[OF Nil] by (rule runs_ret)
next
  case (Cons x xs')
  obtain k v where x: "x = (k, v)" by (cases x)
  have cu: "it_length it \<noteq> 0" "it_cursor it = pos (blocks T) (length fr)" using it Cons by (simp_all add: iter_at_def)
  show ?thesis unfolding iter_mut_next_def iter_mut_peek_mut_def cu(2) iter_mut_advance_eq
  proof (simp only: cu(1) if_False, rule runs_bind, rule runs_cursor_key_value_mut[OF ok])
    show "length fr < length (contents T)" "contents T ! length fr = (k, v)" using c Cons x by (simp_all add: nth_append)
    fix A' T'
    assume T': "bmap_ok A' m T'" "contents T' = (contents T)[length fr := (k, f v)]" "addrs (blocks T') = addrs (blocks T)"
      "framed A (owned T) A' (owned T')"
    have c': "contents T' = (fr @ [(k, f v)]) @ xs' @ bk" using T'(2) c Cons by (simp add: list_update_append)
    have it': "iter_at (blocks T') (length fr) (Suc (length xs')) it" using it Cons iter_at_cong[OF T'(3)] by simp
    have "runs (iter_advance it) A' (\<lambda>it A'. Q (Some (k, v), it) A')"
    proof (rule runs_iter_advance[OF T'(1) it'])
      fix it2 assume "iter_at (blocks T') (Suc (length fr)) (length xs') it2"
      then show "Q (Some (k, v), it2) A'" using some[OF _ T'(1) c' _ T'(4)] Cons x by simp
    qed (simp add: c')
    then show "runs (case Some (k, v) of None \<Rightarrow> ret (None, it)
        | Some kv \<Rightarrow> bindP (iter_advance it) (\<lambda>it. ret (Some kv, it))) A' Q"
      by (auto intro!: runs_bind runs_ret elim!: runs_conseq)
  qed
qed

lemma runs_iter_mut_next_back:
  fixes A :: "('k::linorder, 'v) vheap"
  assumes ok: "bmap_ok A m T" and c: "contents T = fr @ xs @ bk" and it: "iter_at (blocks T) (length fr) (length xs) it"
    and none: "xs = [] \<Longrightarrow> Q (None, it) A"
    and some: "\<And>k v xs' it A' T'. xs = xs' @ [(k, v)] \<Longrightarrow> bmap_ok A' m T' \<Longrightarrow>
      contents T' = fr @ xs' @ ((k, f v) # bk) \<Longrightarrow>
      iter_at (blocks T') (length fr) (length xs') it \<Longrightarrow>
      framed A (owned T) A' (owned T') \<Longrightarrow> Q (Some (k, v), it) A'"
  shows "runs (iter_mut_next_back f it) A Q"
proof (cases xs rule: rev_cases)
  case Nil
  with it have none_left: "(iter_mut_next_back f it :: ('k, 'v, ('k \<times> 'v) option \<times> iter) sprog) = ret (None, it)"
    by (simp add: iter_mut_next_back_def iter_mut_peek_back_mut_def iter_at_def fun_eq_iff)
  show ?thesis unfolding none_left using none[OF Nil] by (rule runs_ret)
next
  case (snoc xs' x)
  obtain k v where x: "x = (k, v)" by (cases x)
  have cu: "it_length it \<noteq> 0" "it_back it = pos (blocks T) (length fr + length xs')"
    using it snoc by (simp_all add: iter_at_def)
  show ?thesis unfolding iter_mut_next_back_def iter_mut_peek_back_mut_def cu(2) iter_mut_advance_eq
  proof (simp only: cu(1) if_False, rule runs_bind, rule runs_cursor_key_value_mut[OF ok])
    show "length fr + length xs' < length (contents T)" "contents T ! (length fr + length xs') = (k, v)"
      using c snoc x by (simp_all add: nth_append)
    fix A' T'
    assume T': "bmap_ok A' m T'" "contents T' = (contents T)[length fr + length xs' := (k, f v)]"
      "addrs (blocks T') = addrs (blocks T)" "framed A (owned T) A' (owned T')"
    have c': "contents T' = fr @ xs' @ ((k, f v) # bk)" using T'(2) c snoc by (simp add: list_update_append)
    have it': "iter_at (blocks T') (length fr) (Suc (length xs')) it" using it snoc iter_at_cong[OF T'(3)] by simp
    have "runs (iter_advance_back it) A' (\<lambda>it A'. Q (Some (k, v), it) A')"
    proof (rule runs_iter_advance_back[OF T'(1) it'])
      fix it2 assume "iter_at (blocks T') (length fr) (length xs') it2"
      then show "Q (Some (k, v), it2) A'" using some[OF _ T'(1) c' _ T'(4)] snoc x by simp
    qed (simp add: c')
    then show "runs (case Some (k, v) of None \<Rightarrow> ret (None, it)
        | Some kv \<Rightarrow> bindP (iter_advance_back it) (\<lambda>it. ret (Some kv, it))) A' Q"
      by (auto intro!: runs_bind runs_ret elim!: runs_conseq)
  qed
qed

lemma edit_step_simulates:
  assumes "edits m A0 S0 s it e"
  shows "\<exists>it' s'. edit_step op it s = Inr ((fst (edit_spec op e), it'), s') \<and> edits m A0 S0 s' it' (snd (edit_spec op e))"
proof -
  obtain fr xs bk where e: "e = (fr, xs, bk)" by (cases e)
  with assms obtain A T where A: "shows_heap s A" "bmap_ok A m T" "contents T = fr @ xs @ bk"
      "iter_at (blocks T) (length fr) (length xs) it" "framed A0 S0 A (owned T)" unfolding edits_def by auto
  let ?ok = "\<lambda>r A'. fst r = fst (edit_spec op e) \<and> (\<forall>s'. shows_heap s' A' \<longrightarrow> edits m A0 S0 s' (snd r) (snd (edit_spec op e)))"
  have "runs (edit_step op it) A ?ok"
  proof (cases op)
    case (EditNext f)
    show ?thesis unfolding EditNext edit_step.simps
      by (rule runs_iter_mut_next[OF A(2-4)])
        (use edits_after[OF _ A(2-5)] framed_trans[OF A(5)] in \<open>auto simp: EditNext e intro: edits_after\<close>)
  next
    case (EditNextBack f)
    show ?thesis unfolding EditNextBack edit_step.simps
      by (rule runs_iter_mut_next_back[OF A(2-4)])
        (use edits_after[OF _ A(2-5)] framed_trans[OF A(5)] in \<open>auto simp: EditNextBack e intro: edits_after\<close>)
  qed
  from runsD[OF this A(1)] show ?thesis by (metis prod.collapse)
qed

interpretation editing: simulation "edits m A0 S0" edit_step edit_spec for m A0 S0
  by unfold_locales (rule edit_step_simulates)

text \<open>A whole use of the iterator, and the entries it leaves.\<close>

definition iter_mut_run :: "'v edit_op list \<Rightarrow> bmap \<Rightarrow> ('k, 'v, ('k \<times> 'v) option list \<times> iter) sprog" where
  "iter_mut_run ops m = bindP (iter_mut_new m) (run_ops edit_step ops)"

fun joined :: "('k, 'v) editing \<Rightarrow> ('k \<times> 'v) list" where
  "joined (fr, xs, bk) = fr @ xs @ bk"

lemma runs_iter_mut_run:
  fixes A :: "('k::linorder, 'v) vheap" and ops :: "'v edit_op list"
  assumes ok: "bmap_ok A m T"
  defines "spec \<equiv> spec_ops edit_spec ops ([], contents T, [])"
  shows "runs (iter_mut_run ops m) A
    (\<lambda>r A'. fst r = fst spec \<and> (\<exists>T'. bmap_ok A' m T' \<and> contents T' = joined (snd spec) \<and> framed A (owned T) A' (owned T')))"
  unfolding iter_mut_run_def iter_mut_new_eq
proof (rule runs_bind, rule runs_iter_new[OF ok])
  fix it assume it: "iter_at (blocks T) 0 (length (contents T)) it"
  show "runs (run_ops edit_step ops it) A
      (\<lambda>r A'. fst r = fst spec \<and> (\<exists>T'. bmap_ok A' m T' \<and> contents T' = joined (snd spec) \<and> framed A (owned T) A' (owned T')))"
    unfolding runs_def
  proof (intro allI impI)
    fix s assume s: "shows_heap s A"
    have "edits m A (owned T) s it ([], contents T, [])"
      by (rule edits_after[OF s ok]) (use it framed_refl[OF bmap_ok_owned[OF ok]] in simp_all)
    from editing.run_simulates[OF this, of ops] obtain it' s' where
      r: "run_ops edit_step ops it s = Inr ((fst spec, it'), s')" "edits m A (owned T) s' it' (snd spec)"
      unfolding spec_def by blast
    from r(2) have "\<exists>A' T'. shows_heap s' A' \<and> bmap_ok A' m T' \<and> contents T' = joined (snd spec) \<and>
        framed A (owned T) A' (owned T')"
      by (cases "snd spec") (auto simp: edits_def)
    with r(1) show "\<exists>r s' A'. run_ops edit_step ops it s = Inr (r, s') \<and> shows_heap s' A' \<and>
        fst r = fst spec \<and> (\<exists>T'. bmap_ok A' m T' \<and> contents T' = joined (snd spec) \<and> framed A (owned T) A' (owned T'))"
      by fastforce
  qed
qed

end
