(* ===== verification/IntoIter.thy ===== *)
theory IntoIter
  imports IterMut World
begin

text \<open>
  \<open>IntoIter\<close>: iteration that moves the entries out and gives the nodes back as it leaves them
  (\<open>dealloc_up_lasts\<close>, \<open>dealloc_up_firsts\<close>). The loops that climb to the parent free one node each
  time round; their fuel is the length of the arena's history, which no number of live nodes exceeds.
\<close>

subsection \<open>Operations\<close>

definition into_iter_new :: "bmap \<Rightarrow> ('k, 'v, iter) sprog" where
  "into_iter_new tree =
     bindP (first_leaf tree) (\<lambda>fl.
     bindP (cursor_new fl 0) (\<lambda>c.
     bindP (last_leaf tree) (\<lambda>ll.
     bindP (cursor_new_at_end ll) (\<lambda>b.
     ret \<lparr>it_cursor = c, it_back = b, it_length = mlength tree\<rparr>))))"

fun up_lasts :: "nat \<Rightarrow> ptr \<Rightarrow> ('k, 'v, unit) sprog" where
  "up_lasts 0 node = fail OutOfFuel"
| "up_lasts (Suc fuel) node =
     bindP (get_at node node_parent) (\<lambda>par.
     bindP (dealloc node) (\<lambda>_.
     case par of None \<Rightarrow> ret ()
     | Some (p, idx) \<Rightarrow>
         bindP (len_at p) (\<lambda>l.
         bindP (assertP (idx \<le> l)) (\<lambda>_.
         if idx \<noteq> l then ret () else up_lasts fuel p))))"

definition dealloc_up_lasts :: "ptr \<times> nat \<Rightarrow> ('k, 'v, unit) sprog" where
  "dealloc_up_lasts addr = (case addr of (node, idx) \<Rightarrow>
     bindP (len_at node) (\<lambda>l.
     bindP (assertP (idx < l)) (\<lambda>_.
     bindP (liftP (nat_sub l 1)) (\<lambda>last_idx.
     if idx \<noteq> last_idx then ret ()
     else (\<lambda>s. up_lasts (Suc (length (slab_log s))) node s)))))"

fun up_firsts :: "nat \<Rightarrow> ptr \<times> nat \<Rightarrow> ('k, 'v, unit) sprog" where
  "up_firsts 0 addr = fail OutOfFuel"
| "up_firsts (Suc fuel) (node, idx) =
     bindP (len_at node) (\<lambda>l.
     bindP (assertP (idx \<le> l)) (\<lambda>_.
     if idx \<noteq> 0 then ret ()
     else bindP (get_at node node_parent) (\<lambda>par.
          bindP (dealloc node) (\<lambda>_.
          case par of None \<Rightarrow> ret () | Some address \<Rightarrow> up_firsts fuel address))))"

definition dealloc_up_firsts :: "ptr \<times> nat \<Rightarrow> ('k, 'v, unit) sprog" where
  "dealloc_up_firsts addr = (\<lambda>s. up_firsts (Suc (length (slab_log s))) addr s)"

definition into_iter_next :: "iter \<Rightarrow> ('k, 'v, ('k \<times> 'v) option \<times> iter) sprog" where
  "into_iter_next it =
     (if it_length it = 0 then ret (None, it)
      else bindP (cursor_read_key_value (it_cursor it)) (\<lambda>kv.
           bindP (liftP (unwrapR kv)) (\<lambda>kv.
           bindP (liftP (unwrapR (cursor_address (it_cursor it)))) (\<lambda>address.
           bindP (cursor_advance (it_cursor it)) (\<lambda>c.
           bindP (dealloc_up_lasts address) (\<lambda>_.
           ret (Some kv, it\<lparr>it_cursor := c, it_length := it_length it - 1\<rparr>)))))))"

definition into_iter_next_back :: "iter \<Rightarrow> ('k, 'v, ('k \<times> 'v) option \<times> iter) sprog" where
  "into_iter_next_back it =
     (if it_length it = 0 then ret (None, it)
      else bindP (cursor_read_key_value (it_back it)) (\<lambda>kv.
           bindP (liftP (unwrapR kv)) (\<lambda>kv.
           bindP (liftP (unwrapR (cursor_address (it_back it)))) (\<lambda>address.
           bindP (cursor_advance_back (it_back it)) (\<lambda>b.
           bindP (dealloc_up_firsts address) (\<lambda>_.
           ret (Some kv, it\<lparr>it_back := b, it_length := it_length it - 1\<rparr>)))))))"

text \<open>A \<open>for\<close> loop over the iterator: the entries it yields, in order.\<close>

fun into_iter_collect :: "nat \<Rightarrow> iter \<Rightarrow> ('k, 'v, ('k \<times> 'v) list) sprog" where
  "into_iter_collect 0 it = fail OutOfFuel"
| "into_iter_collect (Suc fuel) it =
     bindP (into_iter_next it) (\<lambda>(kv, it).
     case kv of None \<Rightarrow> ret []
     | Some x \<Rightarrow> bindP (into_iter_collect fuel it) (\<lambda>xs. ret (x # xs)))"

definition into_iter_all :: "bmap \<Rightarrow> ('k, 'v, ('k \<times> 'v) list) sprog" where
  "into_iter_all m = bindP (into_iter_new m) (\<lambda>it. into_iter_collect (Suc (it_length it)) it)"

subsection \<open>Fuel from the history\<close>

lemma live_bound: "finite (live l) \<and> card (live l) \<le> length l"
proof (induction l rule: live.induct)
  case (2 p l)
  then show ?case using card_insert_le_m1[of "Suc (length l)" "live l" p] by (simp add: card_insert_if)
next
  case (3 p l)
  then show ?case using card_mono[of "live l" "live l - {p}"] by auto
qed simp

lemma runs_with_fuel:
  assumes "\<And>n. finite (dom A) \<Longrightarrow> card (dom A) \<le> n \<Longrightarrow> runs (f n) A Q"
  shows "runs (\<lambda>s. f (length (slab_log s)) s) A Q"
  unfolding runs_def
proof (intro allI impI)
  fix s assume s: "shows_heap s A"
  then have "finite (dom A)" "card (dom A) \<le> length (slab_log s)" using live_bound by (simp_all add: shows_heap_def)
  from assms[OF this] s show "\<exists>r s' A'. f (length (slab_log s)) s = Inr (r, s') \<and> shows_heap s' A' \<and> Q r A'"
    unfolding runs_def by blast
qed

subsection \<open>The part of the tree that is behind the cursor\<close>

fun left_ptrs :: "('k, 'v) path \<Rightarrow> ptr set" where
  "left_ptrs [] = {}"
| "left_ptrs (Fr p ks1 ts1 ks2 ts2 # c) = ptrss ts1 \<union> left_ptrs c"

text \<open>The ancestors that have no child behind the path.\<close>

fun popped :: "('k, 'v) path \<Rightarrow> ptr set" where
  "popped [] = {}"
| "popped (Fr p ks1 ts1 ks2 ts2 # c) = (if ts2 = [] then insert p (popped c) else {})"

fun at_end :: "('k, 'v) path \<Rightarrow> bool" where
  "at_end [] = True"
| "at_end (Fr p ks1 ts1 ks2 ts2 # c) = (ts2 = [] \<and> at_end c)"

fun right_leafs :: "('k, 'v) path \<Rightarrow> ('k, 'v) block list" where
  "right_leafs [] = []"
| "right_leafs (Fr p ks1 ts1 ks2 ts2 # c) = concat (map leafs ts2) @ right_leafs c"

lemma popped_subset: "popped c \<subseteq> set (path_ptrs c)"
  by (induction c rule: popped.induct) auto

lemma left_ptrs_subset: "left_ptrs c \<subseteq> set (path_ptrs c)"
  by (induction c rule: left_ptrs.induct) auto

lemma at_end_all:
  "at_end c \<Longrightarrow> left_ptrs c \<union> set (ptrs t) \<union> popped c = set (ptrs (plug c t))"
proof (induction c t rule: plug.induct)
  case (2 p ks1 ts1 ks2 ts2 c t)
  from 2 show ?case by (auto simp: plug_ptrs)
qed simp

lemma at_end_right_leafs: "at_end c \<Longrightarrow> right_leafs c = []"
  by (induction c rule: at_end.induct) auto

text \<open>The leftmost leaf of a tree.\<close>

lemma first_path:
  "bal h t \<Longrightarrow> \<exists>d p ks vs. t = plug d (Lf p ks vs) \<and> path_shape 0 d \<and> length d = h \<and> length vs = length ks \<and>
     left_ptrs d = {} \<and> leafs t = (p, ks, vs) # right_leafs d"
proof (induction h arbitrary: t)
  case 0
  then obtain p ks vs where "t = Lf p ks vs" "length vs = length ks" by (auto simp: bal_leaf_cases)
  then show ?case by (intro exI[of _ "[]"]) auto
next
  case (Suc h)
  then obtain q ks' u ts where t: "t = Nd q ks' (u # ts)" "length ts = length ks'" "bal h u" "\<forall>u\<in>set ts. bal h u"
    by (auto simp: bal_Suc_cases length_Suc_conv)
  from Suc.IH[OF t(3)] obtain d p ks vs where d: "u = plug d (Lf p ks vs)" "path_shape 0 d" "length d = h"
      "length vs = length ks" "left_ptrs d = {}" "leafs u = (p, ks, vs) # right_leafs d" by blast
  have app: "left_ptrs (d @ [Fr q [] [] ks' ts]) = left_ptrs d" "right_leafs (d @ [Fr q [] [] ks' ts]) = right_leafs d @ concat (map leafs ts)"
    by (induction d rule: left_ptrs.induct) auto
  show ?case
    by (intro exI[of _ "d @ [Fr q [] [] ks' ts]"] exI[of _ p] exI[of _ ks] exI[of _ vs])
      (use t d app in \<open>simp add: plug_append path_shape_append\<close>)
qed

lemma left_ptrs_append: "left_ptrs (c @ d) = left_ptrs c \<union> left_ptrs d"
  by (induction c rule: left_ptrs.induct) auto

lemma right_leafs_append: "right_leafs (c @ d) = right_leafs c @ right_leafs d"
  by (induction c rule: right_leafs.induct) auto

text \<open>The leaf after the tree in the hole of a path: what lies behind the new path is what lay behind
  the old one, the tree, and the ancestors that were left.\<close>

lemma next_path:
  "path_shape h c \<Longrightarrow> bal h t \<Longrightarrow> \<not> at_end c \<Longrightarrow>
   \<exists>d p ks vs. plug c t = plug d (Lf p ks vs) \<and> path_shape 0 d \<and> length vs = length ks \<and>
     left_ptrs d = left_ptrs c \<union> set (ptrs t) \<union> popped c \<and> right_leafs c = (p, ks, vs) # right_leafs d"
proof (induction c t arbitrary: h rule: plug.induct)
  case (2 q ks1 ts1 ks2 ts2 c t)
  show ?case
  proof (cases ts2)
    case Nil
    with "2.prems" have "bal (Suc h) (Nd q (ks1 @ ks2) (ts1 @ t # ts2))" "\<not> at_end c" by auto
    from "2.IH"[OF _ this] "2.prems"(1) show ?thesis using Nil by (auto simp: Un_ac)
  next
    case (Cons u ts)
    with "2.prems" obtain k ks where ks2: "ks2 = k # ks" "length ts = length ks" "bal h u" by (cases ks2) auto
    from first_path[OF ks2(3)] obtain d p ks' vs where d: "u = plug d (Lf p ks' vs)" "path_shape 0 d" "length d = h"
        "length vs = length ks'" "left_ptrs d = {}" "leafs u = (p, ks', vs) # right_leafs d" by blast
    show ?thesis
      by (intro exI[of _ "d @ Fr q (ks1 @ [k]) (ts1 @ [t]) ks ts # c"] exI[of _ p] exI[of _ ks'] exI[of _ vs])
        (use d ks2 Cons "2.prems" in \<open>auto simp: plug_append path_shape_append left_ptrs_append right_leafs_append\<close>)
  qed
qed simp

text \<open>Climbing frees the node and the ancestors that were left.\<close>

lemma runs_up_lasts:
  assumes "path_rep A c q par" "path_shape h c" "distinct (path_ptrs c)" "q \<notin> set (path_ptrs c)"
    "B q = Some v" "\<not> raw v" "vpar v = par" "\<And>r. r \<in> set (path_ptrs c) \<Longrightarrow> r \<notin> left_ptrs c \<Longrightarrow> B r = A r"
    "length c < n" "Q () (B |` (- insert q (popped c)))"
  shows "runs (up_lasts n q) B Q"
  using assms
proof (induction A c q par arbitrary: h B v n rule: path_rep.induct)
  case (1 A q par)
  then obtain f where n: "n = Suc f" by (cases n) auto
  have eq: "B |` (- {q}) = B(q := None)" by (auto simp: fun_eq_iff restrict_map_def)
  have fin: "Q () (B(q := None))" by (rule "1.prems"(10)[unfolded popped.simps eq])
  have par: "par = None" using "1.prems"(1) by simp
  show ?case unfolding n up_lasts.simps
    by (rule runs_bind, rule runs_get_at[where A = B and r = par, OF "1.prems"(5)])
      (use "1.prems"(5-7) par fin in \<open>auto intro!: runs_bind runs_dealloc runs_ret\<close>)
next
  case (2 A p ks1 ts1 ks2 ts2 c q par)
  from "2.prems"(1) obtain ppar where P: "par = Some (p, length ts1)"
      "A p = Some (VInt ppar (ks1 @ ks2) (map root_of ts1 @ q # map root_of ts2))" "path_rep A c p ppar" by auto
  obtain f where n: "n = Suc f" "length c < f" using "2.prems"(9) by (cases n) auto
  let ?B = "B(q := None)"
  have d: "p \<notin> ptrss ts1" "p \<notin> set (path_ptrs c)" "distinct (path_ptrs c)" "p \<noteq> q"
    "q \<notin> set (path_ptrs c)" "ptrss ts1 \<inter> set (path_ptrs c) = {}"
    using "2.prems"(3,4) by auto
  have "p \<notin> left_ptrs (Fr p ks1 ts1 ks2 ts2 # c)" using d left_ptrs_subset[of c] by auto
  then have Bp: "?B p = Some (VInt ppar (ks1 @ ks2) (map root_of ts1 @ q # map root_of ts2))"
    using "2.prems"(8)[of p] P(2) d(4) by simp
  have len: "length ts1 = length ks1" "length ts2 = length ks2" "path_shape (Suc h) c" using "2.prems"(2) by auto
  have rest: "runs (if length ts1 \<noteq> length (ks1 @ ks2) then ret () else up_lasts f p) ?B Q"
  proof (cases ts2)
    case Nil
    have keep: "?B r = A r" if "r \<in> set (path_ptrs c)" "r \<notin> left_ptrs c" for r
    proof -
      have "r \<notin> ptrss ts1" using that(1) d(6) by (metis disjoint_iff)
      with that d(5) "2.prems"(8)[of r] show ?thesis by auto
    qed
    have eq: "?B |` (- insert p (popped c)) = B |` (- insert q (popped (Fr p ks1 ts1 ks2 ts2 # c)))"
      using Nil by (auto simp: fun_eq_iff restrict_map_def)
    have fin: "Q () (?B |` (- insert p (popped c)))" unfolding eq by (rule "2.prems"(10))
    have "runs (up_lasts f p) ?B Q"
      by (rule "2.IH"[OF P(3) len(3) d(3,2) Bp _ _ keep n(2) fin]) simp_all
    then show ?thesis using len Nil by simp
  next
    case (Cons u ts)
    have eq: "?B = B |` (- insert q (popped (Fr p ks1 ts1 ks2 ts2 # c)))"
      using Cons by (auto simp: fun_eq_iff restrict_map_def)
    have fin: "Q () ?B" unfolding eq by (rule "2.prems"(10))
    have "length ts1 \<noteq> length (ks1 @ ks2)" using len Cons by auto
    then show ?thesis by (simp only: if_True not_False_eq_True) (rule runs_ret, rule fin)
  qed
  show ?case unfolding n up_lasts.simps
  proof (rule runs_bind, rule runs_get_at[where A = B and r = par, OF "2.prems"(5)])
    show "runs (bindP (dealloc q) (\<lambda>_. case par of None \<Rightarrow> ret ()
        | Some (p, idx) \<Rightarrow> bindP (len_at p) (\<lambda>l. bindP (assertP (idx \<le> l)) (\<lambda>_.
            if idx \<noteq> l then ret () else up_lasts f p)))) B Q"
      unfolding P(1) option.case prod.case
      by (rule runs_bind, rule runs_dealloc[where A = B, OF "2.prems"(5)], rule runs_bind,
          rule runs_len_at[where A = ?B, OF Bp], rule runs_bind, rule runs_assert)
        (use len rest in simp_all)
  qed (use "2.prems"(6,7) in auto)
qed

subsection \<open>One step\<close>

fun left_leafs :: "('k, 'v) path \<Rightarrow> ('k, 'v) block list" where
  "left_leafs [] = []"
| "left_leafs (Fr p ks1 ts1 ks2 ts2 # c) = left_leafs c @ concat (map leafs ts1)"

lemma leafs_plug: "leafs (plug c u) = left_leafs c @ leafs u @ right_leafs c"
  by (induction c u rule: plug.induct) simp_all

text \<open>The iterator is at index \<open>i\<close> of the leaf in the hole of \<open>c\<close>; all that lies before is freed.\<close>

definition consuming ::
    "('k, 'v) vheap \<Rightarrow> ('k, 'v) bt \<Rightarrow> iter \<Rightarrow> ('k \<times> 'v) list \<Rightarrow> ('k, 'v) vheap \<Rightarrow> bool" where
  "consuming A t it xs B \<longleftrightarrow> it_length it = length xs \<and>
     (if xs = [] then B = A |` (- set (ptrs t))
      else \<exists>c p ks vs i. t = plug c (Lf p ks vs) \<and> path_shape 0 c \<and> length vs = length ks \<and> i < length ks \<and>
        B = A |` (- left_ptrs c) \<and> it_cursor it = \<lparr>cnode = Some p, cindex = i\<rparr> \<and>
        xs = drop i (zip ks vs) @ concat (map bentries (right_leafs c)))"

lemma consumingI:
  assumes "it_length it = length xs" "xs \<noteq> []" "t = plug c (Lf p ks vs)" "path_shape 0 c" "length vs = length ks"
    "i < length ks" "B = A |` (- left_ptrs c)" "it_cursor it = \<lparr>cnode = Some p, cindex = i\<rparr>"
    "xs = drop i (zip ks vs) @ concat (map bentries (right_leafs c))"
  shows "consuming A t it xs B"
  unfolding consuming_def using assms by auto

lemma consuming_Cons:
  "consuming A t it (x # xs) B \<Longrightarrow> it_length it = Suc (length xs) \<and>
     (\<exists>c p ks vs i. t = plug c (Lf p ks vs) \<and> path_shape 0 c \<and> length vs = length ks \<and> i < length ks \<and>
        B = A |` (- left_ptrs c) \<and> it_cursor it = \<lparr>cnode = Some p, cindex = i\<rparr> \<and>
        x # xs = drop i (zip ks vs) @ concat (map bentries (right_leafs c)))"
  unfolding consuming_def by (simp only: list.distinct if_False list.size simp_thms)

lemma path_length_dom:
  "path_rep A c q par \<Longrightarrow> distinct (path_ptrs c) \<Longrightarrow>
   \<exists>S. card S = length c \<and> finite S \<and> S \<subseteq> set (path_ptrs c) \<and> S \<inter> left_ptrs c = {} \<and> S \<subseteq> dom A"
proof (induction A c q par rule: path_rep.induct)
  case (2 A p ks1 ts1 ks2 ts2 c q par)
  then obtain ppar where P: "A p = Some (VInt ppar (ks1 @ ks2) (map root_of ts1 @ q # map root_of ts2))"
    "path_rep A c p ppar" by auto
  from "2.IH"[OF P(2)] "2.prems"(2) obtain S where S: "card S = length c" "finite S" "S \<subseteq> set (path_ptrs c)"
      "S \<inter> left_ptrs c = {}" "S \<subseteq> dom A" by auto
  have d: "p \<notin> set (path_ptrs c)" "p \<notin> ptrss ts1" "ptrss ts1 \<inter> set (path_ptrs c) = {}" using "2.prems"(2) by auto
  have "p \<notin> left_ptrs c" "p \<notin> S" using d(1) left_ptrs_subset[of c] S(3) by auto
  moreover have "S \<inter> ptrss ts1 = {}" using d(3) S(3) by blast
  ultimately show ?case using S P(1) d(2)
    by (intro exI[of _ "insert p S"]) auto
qed auto

lemma fuel_enough:
  assumes "path_rep A c q par" "distinct (path_ptrs c)" "finite (dom (A |` (- left_ptrs c)))"
  shows "length c \<le> card (dom (A |` (- left_ptrs c)))"
proof -
  from path_length_dom[OF assms(1,2)] obtain S where S: "card S = length c" "S \<inter> left_ptrs c = {}" "S \<subseteq> dom A" by blast
  then have "S \<subseteq> dom (A |` (- left_ptrs c))" by auto
  then show ?thesis using card_mono[OF assms(3)] S(1) by metis
qed

lemma runs_dealloc_up_lasts:
  fixes A :: "('k, 'v) vheap"
  assumes t: "tree_in A (plug c (Lf p ks vs))" "path_shape 0 c" and i: "i < length ks"
    and B: "B = A |` (- left_ptrs c)"
    and stay: "i \<noteq> length ks - 1 \<Longrightarrow> Q () B"
    and leave: "i = length ks - 1 \<Longrightarrow> Q () (A |` (- (left_ptrs c \<union> insert p (popped c))))"
  shows "runs (dealloc_up_lasts (p, i)) B Q"
proof -
  obtain par pv nx where p: "A p = Some (VLeaf par ks vs pv nx)" "path_rep A c p par" using t(1) by (rule tree_in_leaf)
  have d: "distinct (path_ptrs c)" "p \<notin> set (path_ptrs c)" using t(1) by (simp_all add: tree_in_def plug_distinct)
  then have "p \<notin> left_ptrs c" using left_ptrs_subset[of c] by auto
  then have Bp: "B p = Some (VLeaf par ks vs pv nx)" using p(1) B by simp
  have "B |` (- insert p (popped c)) = A |` (- (left_ptrs c \<union> insert p (popped c)))"
    unfolding B restrict_union by simp
  then have up: "runs (up_lasts (Suc n) p) B Q"
    if "finite (dom B)" "card (dom B) \<le> n" "i = length ks - 1" for n
    using runs_up_lasts[where B = B and Q = Q and n = "Suc n", OF p(2) t(2) d Bp] fuel_enough[OF p(2) d(1)] that leave B by simp
  show ?thesis unfolding dealloc_up_lasts_def prod.case
  proof (rule runs_bind, rule runs_len_at[where A = B, OF Bp], rule runs_bind, rule runs_assert,
      simp only: vlen.simps i, rule runs_bind, rule runs_lift, rule nat_sub_ok)
    show "1 \<le> vlen (VLeaf par ks vs pv nx)" using i by simp
    show "runs (if i \<noteq> vlen (VLeaf par ks vs pv nx) - 1 then ret ()
        else (\<lambda>s. up_lasts (Suc (length (slab_log s))) p s)) B Q"
    proof (cases "i = length ks - 1")
      case True
      have "runs (\<lambda>s. up_lasts (Suc (length (slab_log s))) p s) B Q"
        by (rule runs_with_fuel) (rule up[OF _ _ True])
      then show ?thesis using True by simp
    next
      case False
      then show ?thesis using stay by (simp add: runs_ret)
    qed
  qed
qed

lemma runs_read_at:
  assumes "A p = Some (VLeaf par ks vs pv nx)" "i < length ks" "Q (Some (ks ! i, vs ! i)) A"
  shows "runs (cursor_read_key_value \<lparr>cnode = Some p, cindex = i\<rparr>) A Q"
  unfolding cursor_read_key_value_def cursor.simps option.case
  by (rule runs_bind, rule runs_get_at[where A = A and r = "(ks ! i, vs ! i)", OF assms(1)])
    (use assms(2,3) in \<open>simp_all add: runs_ret del: node_view.simps\<close>)

lemma runs_advance_at:
  assumes p: "A p = Some (VLeaf par ks vs pv nx)" and i: "i < length ks"
    and Q: "Q (if i = length ks - 1 then \<lparr>cnode = nx, cindex = 0\<rparr> else \<lparr>cnode = Some p, cindex = i + 1\<rparr>) A"
  shows "runs (cursor_advance \<lparr>cnode = Some p, cindex = i\<rparr>) A Q"
  unfolding cursor_advance_def cursor.simps option.case
proof (rule runs_bind, rule runs_get_at[where A = A and r = "length ks - 1", OF p])
  show "node_view n (VLeaf par ks vs pv nx) \<Longrightarrow> nat_sub (len n) 1 = Inr (length ks - 1)" for n
    using i by auto
  show "runs (if i < length ks - 1 then ret \<lparr>cnode = Some p, cindex = i + 1\<rparr>
      else bindP (get_at p node_next) (\<lambda>nx. ret \<lparr>cnode = nx, cindex = 0\<rparr>)) A Q"
    using Q i by (auto intro!: runs_ret runs_bind runs_get_at[where A = A, OF p, OF node_next_view] split: if_splits)
qed

lemma runs_into_iter_next:
  fixes A :: "('k::linorder, 'v) vheap"
  assumes t: "tree_in A t" "bal h t" "filled 1 t" and it: "consuming A t it (x # xs) B"
    and Q: "\<And>it' B. consuming A t it' xs B \<Longrightarrow> it_back it' = it_back it \<Longrightarrow> Q (Some x, it') B"
  shows "runs (into_iter_next it) B Q"
proof -
  from it obtain c p ks vs i where c: "t = plug c (Lf p ks vs)" "path_shape 0 c" "length vs = length ks" "i < length ks"
      "B = A |` (- left_ptrs c)" "it_cursor it = \<lparr>cnode = Some p, cindex = i\<rparr>"
      "x # xs = drop i (zip ks vs) @ concat (map bentries (right_leafs c))" "it_length it = Suc (length xs)"
    using consuming_Cons[OF it] by blast
  have d: "distinct (path_ptrs c)" "p \<notin> set (path_ptrs c)" using t(1) c(1) by (simp_all add: tree_in_def plug_distinct)
  have L: "leafs t = left_leafs c @ (p, ks, vs) # right_leafs c" by (simp add: c(1) leafs_plug)
  have "chain A None (leafs t) None"
    by (rule linked_chain) (use t leafs_ok[OF t(2,3) zero_less_one] leafs_rep(1)[of A None t] in \<open>simp_all add: tree_in_def map_fst_leafs\<close>)
  from chain_at[OF this[unfolded L]] obtain par pv where
    p: "A p = Some (VLeaf par ks vs pv (hd_or (map fst (right_leafs c)) None))" by blast
  have Bp: "B p = Some (VLeaf par ks vs pv (hd_or (map fst (right_leafs c)) None))"
    using p c(5) contra_subsetD[OF left_ptrs_subset d(2)] by simp
  have dr: "drop i (zip ks vs) = (ks ! i, vs ! i) # drop (Suc i) (zip ks vs)"
    using c(3,4) by (simp add: Cons_nth_drop_Suc[symmetric])
  then have x: "x = (ks ! i, vs ! i)" "xs = drop (Suc i) (zip ks vs) @ concat (map bentries (right_leafs c))"
    using c(7) by simp_all
  let ?c = "if i = length ks - 1 then \<lparr>cnode = hd_or (map fst (right_leafs c)) None, cindex = 0\<rparr> else \<lparr>cnode = Some p, cindex = i + 1\<rparr>"
  let ?it = "it\<lparr>it_cursor := ?c, it_length := it_length it - 1\<rparr>"
  have l: "it_length ?it = length xs" using c(8) by simp
  have "runs (dealloc_up_lasts (p, i)) B (\<lambda>_ B. Q (Some x, ?it) B)"
  proof (rule runs_dealloc_up_lasts[OF t(1)[unfolded c(1)] c(2,4,5)])
    assume i: "i \<noteq> length ks - 1"
    show "Q (Some x, ?it) B"
      by (rule Q, rule consumingI[OF l _ c(1,2,3) _ c(5) _, where i = "Suc i"]) (use i x(2) c(3,4) in auto)
  next
    assume i: "i = length ks - 1"
    then have xs: "xs = concat (map bentries (right_leafs c))" using x(2) c(3,4) by simp
    let ?B = "A |` (- (left_ptrs c \<union> insert p (popped c)))"
    show "Q (Some x, ?it) ?B"
    proof (rule Q)
     show "consuming A t ?it xs ?B"
     proof (cases "at_end c")
      case True
      have "left_ptrs c \<union> insert p (popped c) = set (ptrs t)" using at_end_all[OF True, of "Lf p ks vs"] c(1) by simp
      then show ?thesis
        using l xs at_end_right_leafs[OF True] unfolding consuming_def by simp
    next
      case False
      have "bal 0 (Lf p ks vs)" using c(3) by simp
      from next_path[OF c(2) this False] obtain e q ks' vs' where e: "plug c (Lf p ks vs) = plug e (Lf q ks' vs')"
          "path_shape 0 e" "length vs' = length ks'" "left_ptrs e = left_ptrs c \<union> set (ptrs (Lf p ks vs)) \<union> popped c"
          "right_leafs c = (q, ks', vs') # right_leafs e" by blast
      have ks': "0 < length ks'" using leafs_ok[OF t(2,3) zero_less_one, of q ks' vs'] L e(5) by auto
      show ?thesis
      proof (rule consumingI[OF l])
        show "xs \<noteq> []" using ks' e(3,5) xs by auto
        show "t = plug e (Lf q ks' vs')" using c(1) e(1) by simp
      qed (use e ks' xs i in auto)
     qed
    qed simp
  qed
  then show ?thesis unfolding into_iter_next_def c(6) cursor_address_def cursor.simps option.map
    using c(8) x(1)
    by (auto intro!: runs_bind runs_read_at[where A = B, OF Bp c(4)] runs_lift
        runs_advance_at[where A = B, OF Bp c(4)] runs_ret elim!: runs_conseq)
qed

lemma into_iter_next_none: "it_length it = 0 \<Longrightarrow> into_iter_next it = ret (None, it)"
  by (simp add: into_iter_next_def)

lemma runs_into_iter_collect:
  fixes A :: "('k::linorder, 'v) vheap"
  assumes t: "tree_in A t" "bal h t" "filled 1 t"
  shows "consuming A t it xs B \<Longrightarrow> length xs < n \<Longrightarrow> Q xs (A |` (- set (ptrs t))) \<Longrightarrow> runs (into_iter_collect n it) B Q"
proof (induction xs arbitrary: it B n Q)
  case Nil
  then obtain f where n: "n = Suc f" by (cases n) auto
  have it: "it_length it = 0" "B = A |` (- set (ptrs t))" using Nil(1) by (simp_all add: consuming_def)
  show ?case unfolding n into_iter_collect.simps into_iter_next_none[OF it(1)] bindP_ret prod.case option.case it(2)
    by (rule runs_ret, rule Nil(3))
next
  case (Cons x xs)
  then obtain f where n: "n = Suc f" "length xs < f" by (cases n) auto
  show ?case unfolding n(1) into_iter_collect.simps
  proof (rule runs_bind, rule runs_into_iter_next[OF t Cons.prems(1)])
    fix it' B' assume "consuming A t it' xs B'"
    then have "runs (into_iter_collect f it') B' (\<lambda>xs A. Q (x # xs) A)"
      by (rule Cons.IH[OF _ n(2)]) (rule Cons.prems(3))
    then show "runs (case (Some x, it') of (kv, it) \<Rightarrow> case kv of None \<Rightarrow> ret []
        | Some x \<Rightarrow> bindP (into_iter_collect f it) (\<lambda>xs. ret (x # xs))) B' Q"
      by (auto intro!: runs_bind runs_ret elim!: runs_conseq)
  qed
qed

lemma into_iter_new_eq: "into_iter_new = iter_new"
  by (simp add: fun_eq_iff into_iter_new_def iter_new_def)

lemma consuming_start:
  fixes A :: "('k::linorder, 'v) vheap"
  assumes t: "tree_in A t" "bal h t" "filled 1 t" and it: "iter_at (leafs t) 0 (length (entries t)) it"
  shows "consuming A t it (entries t) A"
proof -
  have ne: "entries t \<noteq> []" by (rule entries_not_Nil[OF t(2,3)])
  from first_path[OF t(2)] obtain d p ks vs where d: "t = plug d (Lf p ks vs)" "path_shape 0 d"
      "length vs = length ks" "left_ptrs d = {}" "leafs t = (p, ks, vs) # right_leafs d" by blast
  have ks: "0 < length ks" using leafs_ok[OF t(2,3) zero_less_one, of p ks vs] d(5) by simp
  have cu: "it_cursor it = \<lparr>cnode = Some p, cindex = 0\<rparr>" "it_length it = length (entries t)"
    using it ne pos_split[of 0 "(p, ks, vs)" "[]" "right_leafs d"] ks by (simp_all add: iter_at_def d(5))
  show ?thesis
  proof (rule consumingI[OF cu(2) ne d(1,2,3) ks _ cu(1)])
    show "A = A |` (- left_ptrs d)" by (simp add: d(4) fun_eq_iff restrict_map_def)
    show "entries t = drop 0 (zip ks vs) @ concat (map bentries (right_leafs d))"
      using leafs_entries[OF t(2)] d(5) by simp
  qed
qed

text \<open>A whole \<open>for\<close> loop: the entries in order, and no node left.\<close>

lemma runs_into_iter_all:
  fixes A :: "('k::linorder, 'v) vheap"
  assumes ok: "bmap_ok A m T" and Q: "Q (contents T) (A |` (- owned T))"
  shows "runs (into_iter_all m) A Q"
  unfolding into_iter_all_def into_iter_new_eq
proof (rule runs_bind, rule runs_iter_new[OF ok])
  fix it assume it: "iter_at (blocks T) 0 (length (contents T)) it"
  show "runs (into_iter_collect (Suc (it_length it)) it) A Q"
  proof (cases T)
    case None
    then have n: "it_length it = 0" using it by (simp add: iter_at_def)
    have "A |` (- {}) = A" by (simp add: fun_eq_iff restrict_map_def)
    then have "Q [] A" using Q None by simp
    then show ?thesis unfolding into_iter_collect.simps into_iter_next_none[OF n] bindP_ret prod.case option.case
      by (rule runs_ret)
  next
    case (Some t)
    with ok have t: "tree_in A t" "bal (height m) t" "filled 1 t" by (simp_all add: tree_ok_def)
    have "consuming A t it (entries t) A" by (rule consuming_start[OF t]) (use it Some in simp)
    from runs_into_iter_collect[where Q = Q, OF t this, of "Suc (it_length it)"] Q it show ?thesis
      by (simp add: Some iter_at_def del: into_iter_collect.simps)
  qed
qed

text \<open>A loop that consumes one map of a store: the map is gone, the others are as they were.\<close>

lemma world_consume:
  assumes w: "world_ok tight s ms kvss" and i: "i < length ms"
    and f: "\<And>A T Q. bmap_ok A (ms ! i) T \<Longrightarrow> Q (g (contents T)) (A |` (- owned T)) \<Longrightarrow> runs (f (ms ! i)) A Q"
  shows "\<exists>s'. f (ms ! i) s = Inr (g (kvss ! i), s') \<and> world_ok tight s' (del_at i ms) (del_at i kvss)"
proof -
  have "\<exists>r s'. f (ms ! i) s = Inr (r, s') \<and> r = g (kvss ! i) \<and>
    world_ok (tight \<and> True) s' (ms[i := new_in]) (kvss[i := []])"
  proof (rule world_run[OF w i])
    fix A T assume T: "bmap_ok A (ms ! i) T" "contents T = kvss ! i"
    show "runs (f (ms ! i)) A (\<lambda>r A'. r = g (kvss ! i) \<and>
      (\<exists>T' S'. bmap_ok A' new_in T' \<and> contents T' = [] \<and> owned T' \<subseteq> S' \<and>
        framed A (owned T) A' S' \<and> (True \<longrightarrow> S' = owned T')))"
      using framed_restrict[OF bmap_ok_owned[OF T(1)]] T(2)
      by (intro f[OF T(1)]) (auto simp: new_in_def intro!: exI[of _ None])
  qed
  then show ?thesis using world_ok_remove[OF _ i, of tight _ new_in kvss] by (auto simp: new_in_def)
qed

lemma world_into_iter:
  assumes w: "world_ok tight s ms kvss" and i: "i < length ms"
  shows "\<exists>s'. into_iter_all (ms ! i) s = Inr (kvss ! i, s') \<and> world_ok tight s' (del_at i ms) (del_at i kvss)"
  by (rule world_consume[where g = "\<lambda>kvs. kvs", OF w i]) (rule runs_into_iter_all)

end
