(* ===== verification/Range.thy ===== *)
theory Range
  imports IntoIter
begin

text \<open>
  \<open>Range\<close> and \<open>RangeMut\<close> of \<open>src/src/map.rs\<close>, and \<open>node_bounds\<close>, which turns bounds on keys into the
  addresses of the first and of the last entry of the range. Against the number of keys below a bound,
  the addresses are the right ones; the iteration stops when a cursor arrives at the address of
  the other end, before that entry is yielded.
\<close>

subsection \<open>Bounds\<close>

record node_bounds =
  start_node :: ptr
  end_node :: ptr
  start_index :: nat
  end_index :: nat

definition bounds_start :: "node_bounds \<Rightarrow> ptr \<times> nat" where
  "bounds_start b = (start_node b, start_index b)"

definition bounds_end :: "node_bounds \<Rightarrow> ptr \<times> nat" where
  "bounds_end b = (end_node b, end_index b)"

definition start_address :: "bmap \<Rightarrow> ('k::linorder) bound \<Rightarrow> ('k, 'v, (ptr \<times> nat) option) sprog" where
  "start_address m b =
     (case b of
        Included k \<Rightarrow> bindP (find_key m k) (\<lambda>r. case r of
            NoRoot \<Rightarrow> ret None
          | Before node idx \<Rightarrow> normalize_address node idx
          | At node idx \<Rightarrow> ret (Some (node, idx)))
      | Excluded k \<Rightarrow> bindP (find_key m k) (\<lambda>r. case r of
            NoRoot \<Rightarrow> ret None
          | Before node idx \<Rightarrow> normalize_address node idx
          | At node idx \<Rightarrow> address_after node idx)
      | Unbounded \<Rightarrow> bindP (first_leaf m) (\<lambda>l. ret (map_option (\<lambda>node. (node, 0)) l)))"

definition end_address :: "bmap \<Rightarrow> ('k::linorder) bound \<Rightarrow> ('k, 'v, (ptr \<times> nat) option) sprog" where
  "end_address m b =
     (case b of
        Included k \<Rightarrow> bindP (find_key m k) (\<lambda>r. case r of
            NoRoot \<Rightarrow> ret None
          | Before node idx \<Rightarrow> address_before node idx
          | At node idx \<Rightarrow> ret (Some (node, idx)))
      | Excluded k \<Rightarrow> bindP (find_key m k) (\<lambda>r. case r of
            NoRoot \<Rightarrow> ret None
          | Before node idx \<Rightarrow> address_before node idx
          | At node idx \<Rightarrow> address_before node idx)
      | Unbounded \<Rightarrow> bindP (last_leaf m) (\<lambda>l. case l of
            None \<Rightarrow> ret None
          | Some leaf \<Rightarrow> bindP (get_at leaf (\<lambda>n. nat_sub (len n) 1)) (\<lambda>i. ret (Some (leaf, i)))))"

definition bounds_cross :: "ptr \<times> nat \<Rightarrow> ptr \<times> nat \<Rightarrow> ('k, 'v, bool) sprog" where
  "bounds_cross st en = (case (st, en) of ((sn, si), (en, ei)) \<Rightarrow>
     if sn = en \<and> si = ei + 1 then ret True
     else if si = 0 then bindP (get_at sn node_prev) (\<lambda>pv. ret (pv = Some en))
     else ret False)"

definition node_bounds :: "bmap \<Rightarrow> ('k::linorder) bounds \<Rightarrow> ('k, 'v, node_bounds option) sprog" where
  "node_bounds m bs =
     bindP (start_address m (fst bs)) (\<lambda>st. case st of None \<Rightarrow> ret None | Some st \<Rightarrow>
     bindP (end_address m (snd bs)) (\<lambda>en. case en of None \<Rightarrow> ret None | Some en \<Rightarrow>
     bindP (bounds_cross st en) (\<lambda>cross.
     if cross then ret None
     else ret (Some \<lparr>start_node = fst st, end_node = fst en, start_index = snd st, end_index = snd en\<rparr>))))"

subsection \<open>Iteration\<close>

record range =
  rg_cursor :: cursor
  rg_back :: cursor
  rg_bounds :: "node_bounds option"

definition range_new :: "bmap \<Rightarrow> ('k::linorder) bounds \<Rightarrow> ('k, 'v, range) sprog" where
  "range_new tree bs =
     bindP (node_bounds tree bs) (\<lambda>b.
     bindP (case b of None \<Rightarrow> ret cursor_new_detached
        | Some b \<Rightarrow> cursor_new (Some (fst (bounds_start b))) (snd (bounds_start b))) (\<lambda>c.
     bindP (case b of None \<Rightarrow> ret cursor_new_detached
        | Some b \<Rightarrow> cursor_new (Some (fst (bounds_end b))) (snd (bounds_end b))) (\<lambda>bc.
     ret \<lparr>rg_cursor = c, rg_back = bc, rg_bounds = b\<rparr>)))"

definition assume_bounds :: "range \<Rightarrow> node_bounds res" where
  "assume_bounds r = (case rg_bounds r of None \<Rightarrow> Inl UninitRead | Some b \<Rightarrow> Inr b)"

definition range_peek :: "range \<Rightarrow> ('k, 'v, ('k \<times> 'v) option) sprog" where
  "range_peek r = cursor_key_value (rg_cursor r)"

definition range_peek_back :: "range \<Rightarrow> ('k, 'v, ('k \<times> 'v) option) sprog" where
  "range_peek_back r = cursor_key_value (rg_back r)"

definition range_advance :: "range \<Rightarrow> ('k, 'v, range) sprog" where
  "range_advance r =
     bindP (cursor_advance (rg_cursor r)) (\<lambda>c.
     if \<not> cursor_is_attached c then ret (r\<lparr>rg_cursor := c, rg_back := cursor_detach (rg_back r)\<rparr>)
     else bindP (liftP (assume_bounds r)) (\<lambda>b.
          if cursor_address c = Some (bounds_end b)
          then ret (r\<lparr>rg_cursor := cursor_detach c, rg_back := cursor_detach (rg_back r)\<rparr>)
          else ret (r\<lparr>rg_cursor := c\<rparr>)))"

definition range_advance_back :: "range \<Rightarrow> ('k, 'v, range) sprog" where
  "range_advance_back r =
     bindP (cursor_advance_back (rg_back r)) (\<lambda>c.
     if \<not> cursor_is_attached c then ret (r\<lparr>rg_back := c, rg_cursor := cursor_detach (rg_cursor r)\<rparr>)
     else bindP (liftP (assume_bounds r)) (\<lambda>b.
          if cursor_address c = Some (bounds_start b)
          then ret (r\<lparr>rg_cursor := cursor_detach (rg_cursor r), rg_back := cursor_detach c\<rparr>)
          else ret (r\<lparr>rg_back := c\<rparr>)))"

definition range_next :: "range \<Rightarrow> ('k, 'v, ('k \<times> 'v) option \<times> range) sprog" where
  "range_next r =
     bindP (range_peek r) (\<lambda>kv.
     case kv of None \<Rightarrow> ret (None, r)
     | Some kv \<Rightarrow> bindP (range_advance r) (\<lambda>r. ret (Some kv, r)))"

definition range_next_back :: "range \<Rightarrow> ('k, 'v, ('k \<times> 'v) option \<times> range) sprog" where
  "range_next_back r =
     bindP (range_peek_back r) (\<lambda>kv.
     case kv of None \<Rightarrow> ret (None, r)
     | Some kv \<Rightarrow> bindP (range_advance_back r) (\<lambda>r. ret (Some kv, r)))"

text \<open>A \<open>for\<close> loop over the range, and over the reversed range.\<close>

fun range_collect :: "nat \<Rightarrow> range \<Rightarrow> ('k, 'v, ('k \<times> 'v) list) sprog" where
  "range_collect 0 r = fail OutOfFuel"
| "range_collect (Suc fuel) r =
     bindP (range_next r) (\<lambda>(kv, r).
     case kv of None \<Rightarrow> ret []
     | Some x \<Rightarrow> bindP (range_collect fuel r) (\<lambda>xs. ret (x # xs)))"

fun range_collect_back :: "nat \<Rightarrow> range \<Rightarrow> ('k, 'v, ('k \<times> 'v) list) sprog" where
  "range_collect_back 0 r = fail OutOfFuel"
| "range_collect_back (Suc fuel) r =
     bindP (range_next_back r) (\<lambda>(kv, r).
     case kv of None \<Rightarrow> ret []
     | Some x \<Rightarrow> bindP (range_collect_back fuel r) (\<lambda>xs. ret (x # xs)))"

definition range_all :: "bmap \<Rightarrow> ('k::linorder) bounds \<Rightarrow> ('k, 'v, ('k \<times> 'v) list) sprog" where
  "range_all m bs = bindP (range_new m bs) (range_collect (Suc (mlength m)))"

definition range_all_back :: "bmap \<Rightarrow> ('k::linorder) bounds \<Rightarrow> ('k, 'v, ('k \<times> 'v) list) sprog" where
  "range_all_back m bs = bindP (range_new m bs) (range_collect_back (Suc (mlength m)))"

subsection \<open>Addresses around a place of the chain\<close>

definition addr_at :: "('k, 'v) block list \<Rightarrow> nat \<Rightarrow> (ptr \<times> nat) option" where
  "addr_at L n = (if n < length (addrs L) then Some (addrs L ! n) else None)"

definition addr_before :: "('k, 'v) block list \<Rightarrow> nat \<Rightarrow> (ptr \<times> nat) option" where
  "addr_before L n = (case n of 0 \<Rightarrow> None | Suc j \<Rightarrow> addr_at L j)"

lemma addr_split_at: "i < length ks \<Longrightarrow> addr_at (L1 @ (p, ks, vs) # L2) (length (addrs L1) + i) = Some (p, i)"
  by (simp add: addr_at_def nth_append)

lemma addr_after_block:
  assumes "chain A pv (L1 @ (p, ks, vs) # L2) None"
  shows "addr_at (L1 @ (p, ks, vs) # L2) (length (addrs L1) + length ks) = map_option (\<lambda>q. (q, 0)) (hd_or (map fst L2) None)"
proof (cases L2)
  case (Cons b L3)
  then obtain q ks' vs' where b: "b = (q, ks', vs')" "ks' \<noteq> []" using assms by (cases b) (auto simp: chain_append)
  then show ?thesis using addr_split_at[of 0 ks' "L1 @ [(p, ks, vs)]" q vs' L3] Cons by simp
qed (simp add: addr_at_def)

lemma addr_first: "chain A pv L nx \<Longrightarrow> addr_at L 0 = map_option (\<lambda>q. (q, 0)) (hd_or (map fst L) None)"
proof (cases L)
  case (Cons b L')
  assume "chain A pv L nx"
  then obtain p ks vs where "b = (p, ks, vs)" "ks \<noteq> []" using Cons by (cases b) auto
  then show ?thesis using addr_split_at[of 0 ks "[]" p vs L'] Cons by simp
qed (simp add: addr_at_def)

lemma addr_last:
  assumes "chain A pv (L @ [(p, ks, vs)]) nx"
  shows "addr_before (L @ [(p, ks, vs)]) (length (addrs (L @ [(p, ks, vs)]))) = Some (p, length ks - 1)"
proof -
  have ks: "ks \<noteq> []" using assms by (simp add: chain_append)
  then have len: "length (addrs (L @ [(p, ks, vs)])) = Suc (length (addrs L) + (length ks - 1))" by (cases ks) auto
  show ?thesis unfolding len using addr_split_at[of "length ks - 1" ks L p vs "[]"] ks
    by (simp only: addr_before_def nat.case) simp
qed

lemma runs_normalize_address:
  assumes ch: "chain A pv (L1 @ (p, ks, vs) # L2) None" and i: "i \<le> length ks"
    and Q: "Q (addr_at (L1 @ (p, ks, vs) # L2) (length (addrs L1) + i)) A"
  shows "runs (normalize_address p i) A Q"
proof -
  obtain par where p: "A p = Some (VLeaf par ks vs (last_or pv (map fst L1)) (hd_or (map fst L2) None))"
    using ch chain_at by blast
  show ?thesis
  proof (cases "i < length ks")
    case True
    then show ?thesis unfolding normalize_address_def
      using Q addr_split_at[of i ks L1 p vs L2] by (auto intro!: runs_bind runs_len_at[where A = A, OF p] runs_ret)
  next
    case False
    then have "i = length ks" using i by simp
    then show ?thesis unfolding normalize_address_def
      using Q addr_after_block[OF ch]
      by (auto intro!: runs_bind runs_len_at[where A = A, OF p] runs_assert runs_get_at[where A = A, OF p, OF node_next_view] runs_ret)
  qed
qed

lemma runs_address_after:
  assumes ch: "chain A pv (L1 @ (p, ks, vs) # L2) None" and i: "i < length ks"
    and Q: "Q (addr_at (L1 @ (p, ks, vs) # L2) (Suc (length (addrs L1) + i))) A"
  shows "runs (address_after p i) A Q"
proof -
  obtain par where p: "A p = Some (VLeaf par ks vs (last_or pv (map fst L1)) (hd_or (map fst L2) None))"
    using ch chain_at by blast
  have len: "nat_sub (vlen (VLeaf par ks vs (last_or pv (map fst L1)) (hd_or (map fst L2) None))) 1 = Inr (length ks - 1)"
    using i by simp
  show ?thesis
  proof (cases "i < length ks - 1")
    case True
    then have "Q (Some (p, i + 1)) A" using Q addr_split_at[of "Suc i" ks L1 p vs L2] by simp
    then show ?thesis unfolding address_after_def using True
      by (intro runs_bind runs_len_at[where A = A, OF p] runs_lift[OF len]) (simp add: runs_ret)
  next
    case False
    then have i': "i = length ks - 1" "Suc (length (addrs L1) + i) = length (addrs L1) + length ks" using i by simp_all
    have "Q (map_option (\<lambda>q. (q, 0)) (hd_or (map fst L2) None)) A"
      using Q unfolding i'(2) addr_after_block[OF ch] .
    then show ?thesis unfolding address_after_def using i'(1)
      by (intro runs_bind runs_len_at[where A = A, OF p] runs_lift[OF len])
        (auto intro!: runs_bind runs_get_at[where A = A, OF p, OF node_next_view] runs_ret)
  qed
qed

lemma runs_address_before:
  assumes ch: "chain A None (L1 @ (p, ks, vs) # L2) nx" and i: "i \<le> length ks"
    and Q: "Q (addr_before (L1 @ (p, ks, vs) # L2) (length (addrs L1) + i)) A"
  shows "runs (address_before p i) A Q"
proof -
  obtain par where p: "A p = Some (VLeaf par ks vs (last_or None (map fst L1)) (hd_or (map fst L2) nx))"
    using ch chain_at by blast
  show ?thesis
  proof (cases i)
    case (Suc j)
    then have "Q (Some (p, j)) A" using Q i addr_split_at[of j ks L1 p vs L2] by (simp add: addr_before_def)
    then show ?thesis unfolding address_before_def Suc by (simp add: runs_ret)
  next
    case 0
    show ?thesis unfolding address_before_def 0
    proof (simp only: less_irrefl if_False, rule runs_bind, rule runs_get_at[where A = A, OF p, OF node_prev_view], assumption)
      show "runs (case last_or None (map fst L1) of None \<Rightarrow> ret None
          | Some q \<Rightarrow> bindP (len_at q) (\<lambda>l. bindP (liftP (nat_sub l 1)) (\<lambda>i. ret (Some (q, i))))) A Q"
      proof (cases L1 rule: rev_cases)
        case Nil
        then have "Q None A" using Q 0 by (simp add: addr_before_def)
        then show ?thesis unfolding Nil by (simp only: list.map last_or_simps option.case) (rule runs_ret)
      next
        case (snoc L0 b)
        obtain q ks' vs' where b: "b = (q, ks', vs')" by (cases b)
        have ch': "chain A None (L0 @ (q, ks', vs') # (p, ks, vs) # L2) nx" using ch snoc b by simp
        from chain_at[OF this] obtain par' pv' nx' where q: "A q = Some (VLeaf par' ks' vs' pv' nx')" "ks' \<noteq> []" by blast
        have len: "length (addrs L1) = Suc (length (addrs L0) + (length ks' - 1))" using q(2) snoc b by (cases ks') auto
        have "addr_before (L1 @ (p, ks, vs) # L2) (length (addrs L1) + i) =
            addr_at (L1 @ (p, ks, vs) # L2) (length (addrs L0) + (length ks' - 1))"
          unfolding len 0 by (simp only: addr_before_def add_0_right nat.case)
        then have "Q (Some (q, length ks' - 1)) A"
          using Q addr_split_at[of "length ks' - 1" ks' L0 q vs' "(p, ks, vs) # L2"] q(2) snoc b by simp
        moreover have "last_or None (map fst L1) = Some q" by (simp add: snoc b last_or_def)
        moreover have "nat_sub (vlen (VLeaf par' ks' vs' pv' nx')) 1 = Inr (length ks' - 1)" using q(2) by (cases ks') auto
        ultimately show ?thesis
          by (auto simp del: One_nat_def intro!: runs_bind runs_len_at[where A = A, OF q(1)] runs_lift runs_ret)
      qed
    qed
  qed
qed

subsection \<open>The addresses of a range\<close>

text \<open>The number of keys below a bound.\<close>

fun first_index :: "('k::linorder) bound \<Rightarrow> ('k \<times> 'v) list \<Rightarrow> nat" where
  "first_index (Included k) kvs = length (filter (\<lambda>x. fst x < k) kvs)"
| "first_index (Excluded k) kvs = length (filter (\<lambda>x. fst x \<le> k) kvs)"
| "first_index Unbounded kvs = 0"

fun end_index_of :: "('k::linorder) bound \<Rightarrow> ('k \<times> 'v) list \<Rightarrow> nat" where
  "end_index_of (Included k) kvs = length (filter (\<lambda>x. fst x \<le> k) kvs)"
| "end_index_of (Excluded k) kvs = length (filter (\<lambda>x. fst x < k) kvs)"
| "end_index_of Unbounded kvs = length kvs"

lemma ents_sep_after: "length ks = length xs \<Longrightarrow> ents (sep_after ks xs) = concat (map ents xs)"
  by (induction ks xs rule: list_induct2) auto

lemma ents_left_items:
  "path_shape h c \<Longrightarrow> ents (left_items c) = concat (map bentries (left_leafs c))"
proof (induction h c rule: path_shape.induct)
  case (2 h p ks1 ts1 ks2 ts2 c)
  have "concat (map bentries (leafs u)) = entries u" if "u \<in> set ts1" for u
    using "2.prems" that leafs_entries[of h u] by auto
  then have "concat (map (\<lambda>u. concat (map bentries (leafs u))) ts1) = concat (map entries ts1)"
    by (intro arg_cong[of _ _ concat] map_cong) auto
  with 2 show ?case by (simp add: ents_sep_after concat_map_concat comp_def entries_def[abs_def])
qed simp

lemma filter_around:
  fixes k :: "'k::linorder"
  assumes "\<forall>x\<in>set xs. fst x < k" "\<forall>y\<in>set ys. k < fst y"
  shows "filter (\<lambda>x. fst x < k) (xs @ (k, v) # ys) = xs" "filter (\<lambda>x. fst x \<le> k) (xs @ (k, v) # ys) = xs @ [(k, v)]"
    "filter (\<lambda>x. fst x < k) (xs @ ys) = xs" "filter (\<lambda>x. fst x \<le> k) (xs @ ys) = xs"
proof -
  have "filter (\<lambda>x. fst x < k) xs = xs" "filter (\<lambda>x. fst x \<le> k) xs = xs"
    using assms(1) by (auto simp: filter_id_conv intro: less_imp_le)
  moreover have "filter (\<lambda>x. fst x < k) ys = []" "filter (\<lambda>x. fst x \<le> k) ys = []"
    using assms(2) by (auto simp: filter_empty_conv dest: less_asym leD)
  ultimately show "filter (\<lambda>x. fst x < k) (xs @ (k, v) # ys) = xs"
    "filter (\<lambda>x. fst x \<le> k) (xs @ (k, v) # ys) = xs @ [(k, v)]"
    "filter (\<lambda>x. fst x < k) (xs @ ys) = xs" "filter (\<lambda>x. fst x \<le> k) (xs @ ys) = xs" by simp_all
qed

text \<open>What \<open>find\<close> returns, as a place of the chain.\<close>

lemma locate_place:
  fixes A :: "('k::linorder, 'v) vheap"
  assumes ok: "bmap_ok A m (Some t)" and r: "locates t (height m) k r"
  obtains (At) L1 p ks vs L2 i where "r = At p i" "leafs t = L1 @ (p, ks, vs) # L2" "i < length ks"
      "length (filter (\<lambda>x. fst x < k) (entries t)) = length (addrs L1) + i"
      "length (filter (\<lambda>x. fst x \<le> k) (entries t)) = Suc (length (addrs L1) + i)"
  | (Before) L1 p ks vs L2 i where "r = Before p i" "leafs t = L1 @ (p, ks, vs) # L2" "i \<le> length ks"
      "length (filter (\<lambda>x. fst x < k) (entries t)) = length (addrs L1) + i"
      "length (filter (\<lambda>x. fst x \<le> k) (entries t)) = length (addrs L1) + i"
proof -
  have ch: "chain A None (leafs t) None" using bmap_chain[OF ok] by simp
  have pre: "length (ents (left_items c) @ zip (take i ks) (take i vs)) = length (addrs (left_leafs c)) + i"
    if "t = plug c (Lf p ks vs)" "path_shape 0 c" "i \<le> length ks" "length vs = length ks" for c p ks vs i
  proof -
    have "chain A None (left_leafs c) (Some p)" using ch that(1) by (simp add: leafs_plug chain_append)
    from chain_lengths[OF this] show ?thesis using that by (simp add: ents_left_items min_def)
  qed
  show ?thesis
    using r
  proof (cases rule: locates_cases)
    case (At c p ks vs i)
    note e = entries_at[OF At(3,5-9)]
    let ?xs = "ents (left_items c) @ zip (take i ks) (take i vs)"
    have "filter (\<lambda>x. fst x < k) (entries t) = ?xs" "length (filter (\<lambda>x. fst x \<le> k) (entries t)) = Suc (length ?xs)"
      unfolding At(2) e(1) filter_around[OF e(2,3)] by simp_all
    then show ?thesis
      using that(1)[of p i "left_leafs c" ks vs "right_leafs c"] At pre[of c p ks vs i] by (simp add: leafs_plug)
  next
    case (Before c p ks vs i)
    note e = entries_before[OF Before(3,5,7,8)]
    let ?xs = "ents (left_items c) @ zip (take i ks) (take i vs)"
    have "filter (\<lambda>x. fst x < k) (entries t) = ?xs" "filter (\<lambda>x. fst x \<le> k) (entries t) = ?xs"
      unfolding Before(2) e(1) filter_around[OF e(2,3)] by simp_all
    then show ?thesis
      using that(2)[of p i "left_leafs c" ks vs "right_leafs c"] Before pre[of c p ks vs i] by (simp add: leafs_plug)
  qed
qed

lemma runs_start_address:
  fixes A :: "('k::linorder, 'v) vheap"
  assumes ok: "bmap_ok A m T" and Q: "Q (addr_at (blocks T) (first_index b (contents T))) A"
  shows "runs (start_address m b) A Q"
proof (cases T)
  case None
  then have "Q None A" using Q by (simp add: addr_at_def)
  moreover have "find_key m k = (ret NoRoot :: ('k, 'v, found) sprog)" "first_leaf m = (ret None :: ('k, 'v, ptr option) sprog)" for k
    using ok None by (simp_all add: find_key_def first_leaf_def)
  ultimately show ?thesis unfolding start_address_def by (cases b) (simp_all add: runs_ret_eta)
next
  case (Some t)
  note ok' = ok[unfolded Some]
  have ch: "chain A None (leafs t) None" using bmap_chain[OF ok'] by simp
  show ?thesis
  proof (cases b)
    case (Included k)
    show ?thesis unfolding start_address_def Included bound.case
    proof (rule runs_bind, rule runs_find_key[OF ok])
      fix t' r assume "T = Some t'" "locates t' (height m) k r"
      then have "locates t (height m) k r" using Some by simp
      with ok' show "runs (case r of NoRoot \<Rightarrow> ret None | Before node idx \<Rightarrow> normalize_address node idx
          | At node idx \<Rightarrow> ret (Some (node, idx))) A Q"
      proof (cases rule: locate_place)
        case (At L1 p ks vs L2 i)
        then show ?thesis using Q Some Included addr_split_at[of i ks L1 p vs L2] by (simp add: runs_ret)
      next
        case (Before L1 p ks vs L2 i)
        then show ?thesis using Q Some Included ch runs_normalize_address[of A None L1 p ks vs L2 i Q] by simp
      qed
    qed (use Some in simp)
  next
    case (Excluded k)
    show ?thesis unfolding start_address_def Excluded bound.case
    proof (rule runs_bind, rule runs_find_key[OF ok])
      fix t' r assume "T = Some t'" "locates t' (height m) k r"
      then have "locates t (height m) k r" using Some by simp
      with ok' show "runs (case r of NoRoot \<Rightarrow> ret None | Before node idx \<Rightarrow> normalize_address node idx
          | At node idx \<Rightarrow> address_after node idx) A Q"
      proof (cases rule: locate_place)
        case (At L1 p ks vs L2 i)
        then show ?thesis using Q Some Excluded ch runs_address_after[of A None L1 p ks vs L2 i Q] by simp
      next
        case (Before L1 p ks vs L2 i)
        then show ?thesis using Q Some Excluded ch runs_normalize_address[of A None L1 p ks vs L2 i Q] by simp
      qed
    qed (use Some in simp)
  next
    case Unbounded
    note addr_first[OF ch]
    then show ?thesis unfolding start_address_def Unbounded bound.case
      using Q Some Unbounded by (intro runs_bind runs_first_leaf_block[OF ok] runs_ret) simp
  qed
qed

lemma runs_end_address:
  fixes A :: "('k::linorder, 'v) vheap"
  assumes ok: "bmap_ok A m T" and Q: "Q (addr_before (blocks T) (end_index_of b (contents T))) A"
  shows "runs (end_address m b) A Q"
proof (cases T)
  case None
  then have "Q None A" using Q by (cases b) (simp_all add: addr_before_def addr_at_def)
  moreover have "find_key m k = (ret NoRoot :: ('k, 'v, found) sprog)" "last_leaf m = (ret None :: ('k, 'v, ptr option) sprog)" for k
    using ok None by (simp_all add: find_key_def last_leaf_def)
  ultimately show ?thesis unfolding end_address_def by (cases b) (simp_all add: runs_ret_eta)
next
  case (Some t)
  note ok' = ok[unfolded Some]
  have ch: "chain A None (leafs t) None" using bmap_chain[OF ok'] by simp
  have before: "runs (address_before p i) A Q"
    if "leafs t = L1 @ (p, ks, vs) # L2" "i \<le> length ks" "end_index_of b (contents T) = length (addrs L1) + i" for L1 p ks vs L2 i
    using runs_address_before[of A L1 p ks vs L2 None i Q] Q Some ch that by simp
  show ?thesis
  proof (cases b)
    case (Included k)
    show ?thesis unfolding end_address_def Included bound.case
    proof (rule runs_bind, rule runs_find_key[OF ok])
      fix t' r assume "T = Some t'" "locates t' (height m) k r"
      then have "locates t (height m) k r" using Some by simp
      with ok' show "runs (case r of NoRoot \<Rightarrow> ret None | Before node idx \<Rightarrow> address_before node idx
          | At node idx \<Rightarrow> ret (Some (node, idx))) A Q"
      proof (cases rule: locate_place)
        case (At L1 p ks vs L2 i)
        then have "Q (Some (p, i)) A"
          using Q Some Included addr_split_at[of i ks L1 p vs L2] by (simp add: addr_before_def)
        then show ?thesis using At(1) by (simp add: runs_ret)
      next
        case (Before L1 p ks vs L2 i)
        then show ?thesis using before[OF Before(2,3)] Some Included by simp
      qed
    qed (use Some in simp)
  next
    case (Excluded k)
    show ?thesis unfolding end_address_def Excluded bound.case
    proof (rule runs_bind, rule runs_find_key[OF ok])
      fix t' r assume "T = Some t'" "locates t' (height m) k r"
      then have "locates t (height m) k r" using Some by simp
      with ok' show "runs (case r of NoRoot \<Rightarrow> ret None | Before node idx \<Rightarrow> address_before node idx
          | At node idx \<Rightarrow> address_before node idx) A Q"
      proof (cases rule: locate_place)
        case (At L1 p ks vs L2 i)
        then show ?thesis using before[OF At(2)] Some Excluded by simp
      next
        case (Before L1 p ks vs L2 i)
        then show ?thesis using before[OF Before(2,3)] Some Excluded by simp
      qed
    qed (use Some in simp)
  next
    case Unbounded
    have "leafs t \<noteq> []" using contents_Nil_iff[OF ok'] blocks_contents[OF ok'] by auto
    then obtain L0 bl where "leafs t = L0 @ [bl]" by (cases "leafs t" rule: rev_cases) auto
    then obtain p ks vs where L: "leafs t = L0 @ [(p, ks, vs)]" by (cases bl) auto
    with chain_at[of A None L0 p ks vs "[]" None] ch obtain par pv nx where
      p: "A p = Some (VLeaf par ks vs pv nx)" "ks \<noteq> []" by auto
    have "last_or None (map fst (blocks T)) = Some p" using L Some by (simp add: last_or_def)
    moreover have "Q (Some (p, length ks - 1)) A"
      using Q addr_last[of A None L0 p ks vs None] ch L length_contents[OF ok] Some Unbounded by simp
    ultimately show ?thesis unfolding end_address_def Unbounded bound.case
      by (intro runs_bind runs_last_leaf_block[OF ok])
        (simp del: One_nat_def, intro runs_bind runs_get_at[where A = A, OF p(1) node_last_idx[OF _ p(2)]] runs_ret)
  qed
qed

subsection \<open>The overlap check\<close>

lemma bmap_distinct: "bmap_ok A m T \<Longrightarrow> distinct (map fst (blocks T))"
  by (cases T) (auto simp: map_fst_leafs tree_in_def intro: distinct_leaves)

lemma block_unique:
  assumes "distinct (map fst L)" "L = L1 @ (p, x) # L2" "L = M1 @ (p, y) # M2"
  shows "L1 = M1"
proof -
  have "map fst L1 @ p # map fst L2 = map fst M1 @ p # map fst M2" using assms(2,3) by (metis list.simps(9) map_append fst_conv)
  moreover have "p \<notin> set (map fst L1)" "p \<notin> set (map fst L2)" using assms(1,2) by auto
  ultimately have "map fst L1 = map fst M1" by (metis append_Cons_eq_iff)
  then have "length L1 = length M1" by (metis length_map)
  then show ?thesis using assms(2,3) by (metis append_eq_append_conv)
qed

lemma distinct_addrs: "distinct (map fst L) \<Longrightarrow> distinct (addrs L)"
  by (induction L) (auto simp: distinct_map inj_on_def addrs_def)

lemma runs_bounds_cross:
  assumes ch: "chain A None L None" and d: "distinct (map fst L)" and a: "a < length (addrs L)" and e: "e < length (addrs L)"
    and le: "a \<le> Suc e" and Q: "Q (a = Suc e) A"
  shows "runs (bounds_cross (addrs L ! a) (addrs L ! e)) A Q"
proof -
  from a obtain L1 p ks vs L2 i where s: "L = L1 @ (p, ks, vs) # L2" "i < length ks" "a = length (addrs L1) + i"
    "addrs L ! a = (p, i)" by (rule addr_split)
  from e obtain M1 q ks' vs' M2 j where s': "L = M1 @ (q, ks', vs') # M2" "j < length ks'" "e = length (addrs M1) + j"
    "addrs L ! e = (q, j)" by (rule addr_split)
  have same: "p = q \<and> i = j + 1 \<longleftrightarrow> a = Suc e" if "i \<noteq> 0"
  proof
    assume "p = q \<and> i = j + 1"
    then show "a = Suc e" using block_unique[OF d s(1)] s'(1,3) s(3) by auto
  next
    assume "a = Suc e"
    then have "e = length (addrs L1) + (i - 1)" using s(3) that by simp
    then have "addr_at L e = Some (p, i - 1)" using addr_split_at[of "i - 1" ks L1 p vs L2] s(1,2) by simp
    then show "p = q \<and> i = j + 1" using s'(4) e that by (simp add: addr_at_def)
  qed
  have prev: "last_or None (map fst L1) = Some q \<longleftrightarrow> a = Suc e" if "i = 0"
  proof
    assume "last_or None (map fst L1) = Some q"
    then obtain L0 y where L1: "L1 = L0 @ [(q, y)]" by (cases L1 rule: rev_cases) (auto simp: last_or_def)
    then have "M1 = L0" using block_unique[OF d, of M1 q "(ks', vs')" M2 L0 y "(p, ks, vs) # L2"] s(1) s'(1) by simp
    with L1 s(1) s'(1) have "L1 = M1 @ [(q, ks', vs')]" by simp
    then have "e < a" using s(3) s'(2,3) that by simp
    then show "a = Suc e" using le by simp
  next
    assume ae: "a = Suc e"
    then have "L1 \<noteq> []" using s(3) that by auto
    then obtain L0 r ks2 vs2 where L1: "L1 = L0 @ [(r, ks2, vs2)]" by (cases L1 rule: rev_cases) auto
    have "ks2 \<noteq> []" using ch unfolding s(1) L1 by (simp add: chain_append)
    then have e: "e = length (addrs L0) + (length ks2 - 1)" "length ks2 - 1 < length ks2"
      using ae s(3) that L1 by (cases ks2; simp)+
    have "addr_at L e = Some (r, length ks2 - 1)"
      using addr_split_at[OF e(2), of L0 r vs2 "(p, ks, vs) # L2"] s(1) L1 e(1) by simp
    then have "r = q" using s'(4) by (simp add: addr_at_def split: if_splits)
    then show "last_or None (map fst L1) = Some q" by (simp add: L1 last_or_def)
  qed
  obtain par where p: "A p = Some (VLeaf par ks vs (last_or None (map fst L1)) (hd_or (map fst L2) None))"
    using ch chain_at unfolding s(1) by blast
  show ?thesis unfolding bounds_cross_def s(4) s'(4) prod.case
  proof (cases "i = 0")
    case True
    then show "runs (if p = q \<and> i = j + 1 then ret True
        else if i = 0 then bindP (get_at p node_prev) (\<lambda>pv. ret (pv = Some q)) else ret False) A Q"
      using Q prev[OF True] by (auto intro!: runs_bind runs_get_at[where A = A, OF p, OF node_prev_view] runs_ret)
  next
    case False
    then show "runs (if p = q \<and> i = j + 1 then ret True
        else if i = 0 then bindP (get_at p node_prev) (\<lambda>pv. ret (pv = Some q)) else ret False) A Q"
      using Q same[OF False] by (auto intro!: runs_ret)
  qed
qed

text \<open>The bounds of a range that is not inverted.\<close>

definition bounds_at :: "('k, 'v) block list \<Rightarrow> nat \<Rightarrow> nat \<Rightarrow> node_bounds" where
  "bounds_at L a e = \<lparr>start_node = fst (addrs L ! a), end_node = fst (addrs L ! e),
     start_index = snd (addrs L ! a), end_index = snd (addrs L ! e)\<rparr>"

lemma runs_node_bounds:
  fixes A :: "('k::linorder, 'v) vheap"
  assumes ok: "bmap_ok A m T" and le: "first_index lo (contents T) \<le> end_index_of hi (contents T)"
    and none: "first_index lo (contents T) = end_index_of hi (contents T) \<Longrightarrow> Q None A"
    and some: "\<And>a e. first_index lo (contents T) = a \<Longrightarrow> end_index_of hi (contents T) = Suc e \<Longrightarrow> a \<le> e \<Longrightarrow>
      e < length (contents T) \<Longrightarrow> Q (Some (bounds_at (blocks T) a e)) A"
  shows "runs (node_bounds m (lo, hi)) A Q"
proof -
  let ?L = "blocks T" and ?a = "first_index lo (contents T)" and ?e = "end_index_of hi (contents T)"
  note len = length_contents[OF ok]
  have e: "?e \<le> length (contents T)" by (cases hi) auto
  show ?thesis unfolding node_bounds_def fst_conv snd_conv
  proof (rule runs_bind, rule runs_start_address[OF ok])
    show "runs (case addr_at ?L ?a of None \<Rightarrow> ret None
        | Some st \<Rightarrow> bindP (end_address m hi) (\<lambda>en. case en of None \<Rightarrow> ret None
          | Some en \<Rightarrow> bindP (bounds_cross st en) (\<lambda>cross. if cross then ret None
              else ret (Some \<lparr>start_node = fst st, end_node = fst en, start_index = snd st, end_index = snd en\<rparr>)))) A Q"
    proof (cases "?a < length (addrs ?L)")
      case False
      then have "?a = ?e" using le e len by simp
      then show ?thesis using none False by (simp add: addr_at_def runs_ret)
    next
      case True
      show ?thesis
      proof (cases ?e)
        case 0
        then have z: "?a = ?e" "addr_before ?L ?e = None" using le by (simp_all add: addr_before_def)
        have "runs (end_address m hi) A (\<lambda>en A. en = None \<and> Q None A)"
          by (rule runs_end_address[OF ok]) (use z none in simp)
        then show ?thesis using True
          by (auto simp: addr_at_def intro!: runs_bind elim!: runs_conseq intro: runs_ret)
      next
        case (Suc e')
        have e': "e' < length (addrs ?L)" using e len Suc by simp
        then have ab: "addr_before ?L ?e = Some (addrs ?L ! e')" by (simp add: Suc addr_before_def addr_at_def)
        have "runs (bounds_cross (addrs ?L ! ?a) (addrs ?L ! e')) A (\<lambda>cross A.
            runs (if cross then ret None else ret (Some (bounds_at ?L ?a e'))) A Q)"
        proof (rule runs_bounds_cross[OF bmap_chain[OF ok] bmap_distinct[OF ok] True e'])
          show "?a \<le> Suc e'" using le Suc by simp
          show "runs (if ?a = Suc e' then ret None else ret (Some (bounds_at ?L ?a e'))) A Q"
            using none some[of ?a e'] Suc le e' len by (auto intro!: runs_ret)
        qed
        then have fin: "runs (bindP (bounds_cross (addrs ?L ! ?a) (addrs ?L ! e')) (\<lambda>cross. if cross then ret None
            else ret (Some (bounds_at ?L ?a e')))) A Q" by (rule runs_bind)
        show ?thesis using True
          by (simp add: addr_at_def)
            (rule runs_bind, rule runs_end_address[OF ok], simp add: ab fin[unfolded bounds_at_def])
      qed
    qed
  qed
qed

subsection \<open>Running through a range\<close>

lemma bounds_ends [simp]:
  "bounds_start (bounds_at L a e) = addrs L ! a" "bounds_end (bounds_at L a e) = addrs L ! e"
  by (simp_all add: bounds_start_def bounds_end_def bounds_at_def)

lemma pos_address: "n < length (addrs L) \<Longrightarrow> cursor_address (pos L n) = Some (addrs L ! n) \<and> cursor_is_attached (pos L n)"
  by (simp add: cursor_address_def cursor_is_attached_def)

lemma pos_detached: "cursor_is_attached \<lparr>cnode = None, cindex = i\<rparr> \<longleftrightarrow> False" "cnode (cursor_detach c) = None"
  by (simp_all add: cursor_is_attached_def cursor_detach_def)

lemma runs_cursor_new_pos:
  assumes "chain A pv L nx" "n < length (addrs L)" "Q (pos L n) A"
  shows "runs (cursor_new (Some (fst (addrs L ! n))) (snd (addrs L ! n))) A Q"
  by (rule runs_cursor_new[where n = n and Q = Q, OF assms(1) _ assms(3)]) (use assms(2) in \<open>simp add: pos_def\<close>)

lemma runs_range_new:
  fixes A :: "('k::linorder, 'v) vheap"
  assumes ok: "bmap_ok A m T" and le: "first_index lo (contents T) \<le> end_index_of hi (contents T)"
    and none: "\<And>r. first_index lo (contents T) = end_index_of hi (contents T) \<Longrightarrow>
      cnode (rg_cursor r) = None \<Longrightarrow> cnode (rg_back r) = None \<Longrightarrow> Q r A"
    and some: "\<And>a e. first_index lo (contents T) = a \<Longrightarrow> end_index_of hi (contents T) = Suc e \<Longrightarrow> a \<le> e \<Longrightarrow>
      e < length (contents T) \<Longrightarrow>
      Q \<lparr>rg_cursor = pos (blocks T) a, rg_back = pos (blocks T) e, rg_bounds = Some (bounds_at (blocks T) a e)\<rparr> A"
  shows "runs (range_new m (lo, hi)) A Q"
  unfolding range_new_def
proof (rule runs_bind, rule runs_node_bounds[OF ok le])
  assume "first_index lo (contents T) = end_index_of hi (contents T)"
  then have "Q \<lparr>rg_cursor = cursor_new_detached, rg_back = cursor_new_detached, rg_bounds = None\<rparr> A"
    by (rule none) (simp_all add: cursor_new_detached_def)
  then show "runs (bindP (case None of None \<Rightarrow> ret cursor_new_detached
        | Some b \<Rightarrow> cursor_new (Some (fst (bounds_start b))) (snd (bounds_start b))) (\<lambda>c.
      bindP (case None of None \<Rightarrow> ret cursor_new_detached
        | Some b \<Rightarrow> cursor_new (Some (fst (bounds_end b))) (snd (bounds_end b))) (\<lambda>bc.
      ret \<lparr>rg_cursor = c, rg_back = bc, rg_bounds = None\<rparr>))) A Q"
    by (simp add: runs_ret_eta)
next
  fix a e
  assume ae: "first_index lo (contents T) = a" "end_index_of hi (contents T) = Suc e" "a \<le> e" "e < length (contents T)"
  let ?b = "bounds_at (blocks T) a e"
  have e: "a < length (addrs (blocks T))" "e < length (addrs (blocks T))" using ae(3,4) length_contents[OF ok] by simp_all
  note ch = bmap_chain[OF ok]
  show "runs (bindP (case Some ?b of None \<Rightarrow> ret cursor_new_detached
        | Some b \<Rightarrow> cursor_new (Some (fst (bounds_start b))) (snd (bounds_start b))) (\<lambda>c.
      bindP (case Some ?b of None \<Rightarrow> ret cursor_new_detached
        | Some b \<Rightarrow> cursor_new (Some (fst (bounds_end b))) (snd (bounds_end b))) (\<lambda>bc.
      ret \<lparr>rg_cursor = c, rg_back = bc, rg_bounds = Some ?b\<rparr>))) A Q"
    unfolding option.case bounds_ends
    by (rule runs_bind, rule runs_cursor_new_pos[OF ch e(1)], rule runs_bind, rule runs_cursor_new_pos[OF ch e(2)],
        rule runs_ret, rule some[OF ae])
qed

lemma runs_range_next:
  fixes A :: "('k::linorder, 'v) vheap"
  assumes ok: "bmap_ok A m T" and c: "rg_cursor r = pos (blocks T) f" and b: "rg_bounds r = Some (bounds_at (blocks T) a e)"
    and f: "f < length (contents T)" and e: "e < length (contents T)"
    and stop: "\<And>r'. Suc f = e \<or> Suc f = length (contents T) \<Longrightarrow> cnode (rg_cursor r') = None \<Longrightarrow>
      cnode (rg_back r') = None \<Longrightarrow> Q (Some (contents T ! f), r') A"
    and go: "\<And>r'. Suc f \<noteq> e \<Longrightarrow> Suc f < length (contents T) \<Longrightarrow> rg_cursor r' = pos (blocks T) (Suc f) \<Longrightarrow>
      rg_back r' = rg_back r \<Longrightarrow> rg_bounds r' = rg_bounds r \<Longrightarrow> Q (Some (contents T ! f), r') A"
  shows "runs (range_next r) A Q"
proof -
  note ch = bmap_chain[OF ok] and len = length_contents[OF ok]
  have f': "f < length (addrs (blocks T))" using f len by simp
  have adv: "runs (range_advance r) A (\<lambda>r' A. Q (Some (contents T ! f), r') A)"
    unfolding range_advance_def c
  proof (rule runs_bind, rule runs_cursor_advance[OF ch f'])
    show "runs (if \<not> cursor_is_attached (pos (blocks T) (Suc f))
        then ret (r\<lparr>rg_cursor := pos (blocks T) (Suc f), rg_back := cursor_detach (rg_back r)\<rparr>)
        else bindP (liftP (assume_bounds r)) (\<lambda>b. if cursor_address (pos (blocks T) (Suc f)) = Some (bounds_end b)
          then ret (r\<lparr>rg_cursor := cursor_detach (pos (blocks T) (Suc f)), rg_back := cursor_detach (rg_back r)\<rparr>)
          else ret (r\<lparr>rg_cursor := pos (blocks T) (Suc f)\<rparr>))) A (\<lambda>r' A. Q (Some (contents T ! f), r') A)"
    proof (cases "Suc f < length (contents T)")
      case False
      then have "pos (blocks T) (Suc f) = \<lparr>cnode = None, cindex = 0\<rparr>" using len by (simp add: pos_end)
      then show ?thesis using False f stop by (auto simp: pos_detached intro!: runs_ret)
    next
      case True
      then have at: "cursor_address (pos (blocks T) (Suc f)) = Some (addrs (blocks T) ! Suc f)"
          "cursor_is_attached (pos (blocks T) (Suc f))" using pos_address len by metis+
      have "addrs (blocks T) ! Suc f = addrs (blocks T) ! e \<longleftrightarrow> Suc f = e"
        using nth_eq_iff_index_eq[OF distinct_addrs[OF bmap_distinct[OF ok]]] True e len by simp
      then show ?thesis using at stop go True
        by (auto simp: assume_bounds_def b pos_detached intro!: runs_ret)
    qed
  qed
  show ?thesis unfolding range_next_def range_peek_def c
    using adv blocks_contents[OF ok]
    by (intro runs_bind runs_cursor_key_value[OF ch f']) (auto intro!: runs_bind runs_ret elim!: runs_conseq)
qed

lemma range_next_detached: "cnode (rg_cursor r) = None \<Longrightarrow> range_next r = ret (None, r)"
  by (simp add: range_next_def range_peek_def cursor_key_value_def fun_eq_iff)

lemma runs_range_collect:
  fixes A :: "('k::linorder, 'v) vheap"
  assumes ok: "bmap_ok A m T" and e: "e < length (contents T)"
  shows "rg_cursor r = pos (blocks T) f \<Longrightarrow> rg_bounds r = Some (bounds_at (blocks T) a e) \<Longrightarrow> f < length (contents T) \<Longrightarrow>
    length (contents T) - f < n \<Longrightarrow>
    Q (if f < e then take (e - f) (drop f (contents T)) else drop f (contents T)) A \<Longrightarrow>
    runs (range_collect n r) A Q"
proof (induction n arbitrary: f r Q)
  case (Suc n)
  have d: "drop f (contents T) = contents T ! f # drop (Suc f) (contents T)" using Suc.prems(3) by (simp add: Cons_nth_drop_Suc)
  show ?case unfolding range_collect.simps
  proof (rule runs_bind, rule runs_range_next[OF ok Suc.prems(1,2,3) e])
    fix r' :: range
    assume st: "Suc f = e \<or> Suc f = length (contents T)" "cnode (rg_cursor r') = None"
    have "(if f < e then take (e - f) (drop f (contents T)) else drop f (contents T)) = [contents T ! f]"
      using st(1) e by (auto simp: d)
    then have fin: "Q [contents T ! f] A" using Suc.prems(5) by simp
    obtain j where j: "n = Suc j" using Suc.prems(3,4) by (cases n) auto
    show "runs (case (Some (contents T ! f), r') of (kv, r) \<Rightarrow> case kv of None \<Rightarrow> ret []
        | Some x \<Rightarrow> bindP (range_collect n r) (\<lambda>xs. ret (x # xs))) A Q"
      unfolding prod.case option.case j range_collect.simps range_next_detached[OF st(2)] bindP_ret
      by (rule runs_ret, rule fin)
  next
    fix r' :: range
    assume go: "Suc f \<noteq> e" "Suc f < length (contents T)" "rg_cursor r' = pos (blocks T) (Suc f)" "rg_bounds r' = rg_bounds r"
    have fin: "Q (contents T ! f # (if Suc f < e then take (e - Suc f) (drop (Suc f) (contents T)) else drop (Suc f) (contents T))) A"
    proof (cases "f < e")
      case True
      then show ?thesis using Suc.prems(5) go(1) by (simp add: d Suc_lessI take_Cons')
    next
      case False
      then show ?thesis using Suc.prems(5) go(1) by (simp add: d)
    qed
    have lt: "length (contents T) - Suc f < n" using go(2) Suc.prems(4) by simp
    have "runs (range_collect n r') A (\<lambda>xs A. Q (contents T ! f # xs) A)"
      by (rule Suc.IH[where f = "Suc f", OF go(3) _ go(2)]) (use go(4) Suc.prems(2) lt fin in simp_all)
    then show "runs (case (Some (contents T ! f), r') of (kv, r) \<Rightarrow> case kv of None \<Rightarrow> ret []
        | Some x \<Rightarrow> bindP (range_collect n r) (\<lambda>xs. ret (x # xs))) A Q"
      by (auto intro!: runs_bind runs_ret elim!: runs_conseq)
  qed
qed simp

text \<open>A \<open>for\<close> loop over a range that is not inverted: nothing when it is empty; everything up to the last
  entry of the map when it has one entry; all but its last entry when it has more.\<close>

definition range_yields :: "nat \<Rightarrow> nat \<Rightarrow> 'a list \<Rightarrow> 'a list" where
  "range_yields a e xs = (if a = e then [] else if Suc a = e then drop a xs else take (e - 1 - a) (drop a xs))"

lemma runs_range_all:
  fixes A :: "('k::linorder, 'v) vheap"
  assumes ok: "bmap_ok A m T" and le: "first_index lo (contents T) \<le> end_index_of hi (contents T)"
    and Q: "Q (range_yields (first_index lo (contents T)) (end_index_of hi (contents T)) (contents T)) A"
  shows "runs (range_all m (lo, hi)) A Q"
  unfolding range_all_def
proof (rule runs_bind, rule runs_range_new[OF ok le])
  fix r :: range assume "first_index lo (contents T) = end_index_of hi (contents T)" and r: "cnode (rg_cursor r) = None"
  then have fin: "Q [] A" using Q by (simp add: range_yields_def)
  show "runs (range_collect (Suc (mlength m)) r) A Q"
    unfolding range_collect.simps range_next_detached[OF r] bindP_ret prod.case option.case by (rule runs_ret, rule fin)
next
  fix a e
  assume ae: "first_index lo (contents T) = a" "end_index_of hi (contents T) = Suc e" "a \<le> e" "e < length (contents T)"
  have fin: "Q (if a < e then take (e - a) (drop a (contents T)) else drop a (contents T)) A"
    using Q ae by (auto simp: range_yields_def split: if_splits)
  show "runs (range_collect (Suc (mlength m))
      \<lparr>rg_cursor = pos (blocks T) a, rg_back = pos (blocks T) e, rg_bounds = Some (bounds_at (blocks T) a e)\<rparr>) A Q"
    by (rule runs_range_collect[where f = a, OF ok ae(4)]) (use ae map_len_contents[OF ok] fin in simp_all)
qed

end
