(* ===== verification/RangeBack.thy ===== *)
theory RangeBack
  imports Range
begin

text \<open>
  Ranges run through backwards, and ranges whose bounds are inverted. Backwards, the iteration stops at
  the address of the first entry before it is yielded. Inverted bounds are only recognised when the two
  addresses are neighbours or the first one opens a leaf; otherwise the range runs to the end of the map.
\<close>

subsection \<open>Backwards\<close>

lemma runs_range_next_back:
  fixes A :: "('k::linorder, 'v) vheap"
  assumes ok: "bmap_ok A m T" and c: "rg_back r = pos (blocks T) f" and b: "rg_bounds r = Some (bounds_at (blocks T) a e)"
    and f: "f < length (contents T)" and a: "a < length (contents T)"
    and stop: "\<And>r'. f = Suc a \<or> f = 0 \<Longrightarrow> cnode (rg_back r') = None \<Longrightarrow> Q (Some (contents T ! f), r') A"
    and go: "\<And>r' j. f = Suc j \<Longrightarrow> j \<noteq> a \<Longrightarrow> rg_back r' = pos (blocks T) j \<Longrightarrow> rg_bounds r' = rg_bounds r \<Longrightarrow>
      Q (Some (contents T ! f), r') A"
  shows "runs (range_next_back r) A Q"
proof -
  note ch = bmap_chain[OF ok] and len = length_contents[OF ok]
  have f': "f < length (addrs (blocks T))" using f len by simp
  have adv: "runs (range_advance_back r) A (\<lambda>r' A. Q (Some (contents T ! f), r') A)"
    unfolding range_advance_back_def c
  proof (rule runs_bind, rule runs_cursor_advance_back[OF ch f'])
    show "runs (if \<not> cursor_is_attached (pos_before (blocks T) f)
        then ret (r\<lparr>rg_back := pos_before (blocks T) f, rg_cursor := cursor_detach (rg_cursor r)\<rparr>)
        else bindP (liftP (assume_bounds r)) (\<lambda>b. if cursor_address (pos_before (blocks T) f) = Some (bounds_start b)
          then ret (r\<lparr>rg_cursor := cursor_detach (rg_cursor r), rg_back := cursor_detach (pos_before (blocks T) f)\<rparr>)
          else ret (r\<lparr>rg_back := pos_before (blocks T) f\<rparr>))) A (\<lambda>r' A. Q (Some (contents T ! f), r') A)"
    proof (cases f)
      case 0
      then show ?thesis using stop by (auto simp: pos_detached intro!: runs_ret)
    next
      case (Suc j)
      then have at: "cursor_address (pos (blocks T) j) = Some (addrs (blocks T) ! j)" "cursor_is_attached (pos (blocks T) j)"
        using pos_address[of j "blocks T"] f' by simp_all
      have "addrs (blocks T) ! j = addrs (blocks T) ! a \<longleftrightarrow> j = a"
        using nth_eq_iff_index_eq[OF distinct_addrs[OF bmap_distinct[OF ok]]] f' a len Suc by simp
      then show ?thesis using at stop go Suc
        by (auto simp: assume_bounds_def b pos_detached intro!: runs_ret)
    qed
  qed
  show ?thesis unfolding range_next_back_def range_peek_back_def c
    using adv blocks_contents[OF ok]
    by (intro runs_bind runs_cursor_key_value[OF ch f']) (auto intro!: runs_bind runs_ret elim!: runs_conseq)
qed

lemma range_next_back_detached: "cnode (rg_back r) = None \<Longrightarrow> range_next_back r = ret (None, r)"
  by (simp add: range_next_back_def range_peek_back_def cursor_key_value_def fun_eq_iff)

lemma runs_range_collect_back:
  fixes A :: "('k::linorder, 'v) vheap"
  assumes ok: "bmap_ok A m T" and a: "a < length (contents T)"
  shows "rg_back r = pos (blocks T) f \<Longrightarrow> rg_bounds r = Some (bounds_at (blocks T) a e) \<Longrightarrow> f < length (contents T) \<Longrightarrow>
    Suc f < n \<Longrightarrow>
    Q (rev (drop (if a < f then Suc a else 0) (take (Suc f) (contents T)))) A \<Longrightarrow>
    runs (range_collect_back n r) A Q"
proof (induction n arbitrary: f r Q)
  case (Suc n)
  have t: "take (Suc f) (contents T) = take f (contents T) @ [contents T ! f]"
    using Suc.prems(3) by (simp add: take_Suc_conv_app_nth)
  show ?case unfolding range_collect_back.simps
  proof (rule runs_bind, rule runs_range_next_back[OF ok Suc.prems(1,2,3) a])
    fix r' :: range
    assume st: "f = Suc a \<or> f = 0" "cnode (rg_back r') = None"
    have "rev (drop (if a < f then Suc a else 0) (take (Suc f) (contents T))) = [contents T ! f]"
      using st(1) Suc.prems(3) by (auto simp: t)
    then have fin: "Q [contents T ! f] A" using Suc.prems(5) by simp
    obtain j where j: "n = Suc j" using Suc.prems(4) by (cases n) auto
    show "runs (case (Some (contents T ! f), r') of (kv, r) \<Rightarrow> case kv of None \<Rightarrow> ret []
        | Some x \<Rightarrow> bindP (range_collect_back n r) (\<lambda>xs. ret (x # xs))) A Q"
      unfolding prod.case option.case j range_collect_back.simps range_next_back_detached[OF st(2)] bindP_ret
      by (rule runs_ret, rule fin)
  next
    fix r' :: range and j
    assume go: "f = Suc j" "j \<noteq> a" "rg_back r' = pos (blocks T) j" "rg_bounds r' = rg_bounds r"
    have "rev (drop (if a < f then Suc a else 0) (take (Suc f) (contents T))) =
        contents T ! f # rev (drop (if a < j then Suc a else 0) (take (Suc j) (contents T)))"
      unfolding t using go(1,2) Suc.prems(3) by auto
    then have fin: "Q (contents T ! f # rev (drop (if a < j then Suc a else 0) (take (Suc j) (contents T)))) A"
      using Suc.prems(5) by simp
    have "runs (range_collect_back n r') A (\<lambda>xs A. Q (contents T ! f # xs) A)"
      by (rule Suc.IH[where f = j, OF go(3)]) (use go Suc.prems(2-4) fin in simp_all)
    then show "runs (case (Some (contents T ! f), r') of (kv, r) \<Rightarrow> case kv of None \<Rightarrow> ret []
        | Some x \<Rightarrow> bindP (range_collect_back n r) (\<lambda>xs. ret (x # xs))) A Q"
      by (auto intro!: runs_bind runs_ret elim!: runs_conseq)
  qed
qed simp

text \<open>A loop over the reversed range: everything down to the first entry of the map when the range has one
  entry; all but its first entry when it has more.\<close>

definition range_yields_back :: "nat \<Rightarrow> nat \<Rightarrow> 'a list \<Rightarrow> 'a list" where
  "range_yields_back a e xs =
     (if a = e then [] else if Suc a = e then rev (take e xs) else rev (drop (Suc a) (take e xs)))"

lemma runs_range_all_back:
  fixes A :: "('k::linorder, 'v) vheap"
  assumes ok: "bmap_ok A m T" and le: "first_index lo (contents T) \<le> end_index_of hi (contents T)"
    and Q: "Q (range_yields_back (first_index lo (contents T)) (end_index_of hi (contents T)) (contents T)) A"
  shows "runs (range_all_back m (lo, hi)) A Q"
  unfolding range_all_back_def
proof (rule runs_bind, rule runs_range_new[OF ok le])
  fix r :: range assume "first_index lo (contents T) = end_index_of hi (contents T)" and r: "cnode (rg_back r) = None"
  then have fin: "Q [] A" using Q by (simp add: range_yields_back_def)
  show "runs (range_collect_back (Suc (mlength m)) r) A Q"
    unfolding range_collect_back.simps range_next_back_detached[OF r] bindP_ret prod.case option.case by (rule runs_ret, rule fin)
next
  fix a e
  assume ae: "first_index lo (contents T) = a" "end_index_of hi (contents T) = Suc e" "a \<le> e" "e < length (contents T)"
  have fin: "Q (rev (drop (if a < e then Suc a else 0) (take (Suc e) (contents T)))) A"
    using Q ae by (auto simp: range_yields_back_def split: if_splits)
  show "runs (range_collect_back (Suc (mlength m))
      \<lparr>rg_cursor = pos (blocks T) a, rg_back = pos (blocks T) e, rg_bounds = Some (bounds_at (blocks T) a e)\<rparr>) A Q"
    by (rule runs_range_collect_back[where f = e and a = a, OF ok]) (use ae map_len_contents[OF ok] fin in simp_all)
qed

subsection \<open>Inverted bounds\<close>

text \<open>In a map of one leaf, bounds with a key or more between the end and the start are not recognised.\<close>

lemma runs_bounds_cross_leaf:
  fixes A :: "('k::linorder, 'v) vheap"
  assumes ok: "bmap_ok A m T" and h: "height m = 0" and a: "a < length (contents T)" and e: "Suc e < a"
    and Q: "Q False A"
  shows "runs (bounds_cross (addrs (blocks T) ! a) (addrs (blocks T) ! e)) A Q"
proof -
  obtain t where t: "T = Some t" using ok a by (cases T) auto
  then have "bal 0 t" using ok h by (simp add: tree_ok_def)
  then obtain p ks vs where lf: "t = Lf p ks vs" "length vs = length ks" by (auto simp: bal_leaf_cases)
  have "length (contents T) = length ks" using lf by (simp add: t entries_def)
  then have "addrs (blocks T) ! a = (p, a)" "addrs (blocks T) ! e = (p, e)" "a \<noteq> 0" using t lf a e by simp_all
  then show ?thesis unfolding bounds_cross_def using e Q by (simp add: runs_ret)
qed

lemma runs_range_inverted:
  fixes A :: "('k::linorder, 'v) vheap"
  assumes ok: "bmap_ok A m T" and h: "height m = 0" and a: "first_index lo (contents T) < length (contents T)"
    and e: "0 < end_index_of hi (contents T)" "end_index_of hi (contents T) < first_index lo (contents T)"
    and Q: "Q (drop (first_index lo (contents T)) (contents T)) A"
  shows "runs (range_all m (lo, hi)) A Q"
proof -
  let ?L = "blocks T" and ?a = "first_index lo (contents T)"
  obtain e' where e': "end_index_of hi (contents T) = Suc e'" "Suc e' < ?a" using e by (cases "end_index_of hi (contents T)") auto
  note len = length_contents[OF ok] and ch = bmap_chain[OF ok]
  have in_L: "?a < length (addrs ?L)" "e' < length (addrs ?L)" using a e'(2) len by simp_all
  have st: "addr_at ?L ?a = Some (addrs ?L ! ?a)" and en: "addr_before ?L (Suc e') = Some (addrs ?L ! e')"
    using in_L by (simp_all add: addr_at_def addr_before_def)
  have bounds: "runs (node_bounds m (lo, hi)) A (\<lambda>r A'. r = Some (bounds_at ?L ?a e') \<and> A' = A)"
    unfolding node_bounds_def fst_conv snd_conv
  proof (rule runs_then)
    show "runs (start_address m lo) A (\<lambda>r A'. r = Some (addrs ?L ! ?a) \<and> A' = A)"
      by (rule runs_start_address[OF ok]) (simp add: st)
    have en': "runs (end_address m hi) A (\<lambda>r A'. r = Some (addrs ?L ! e') \<and> A' = A)"
      by (rule runs_end_address[OF ok]) (simp add: e'(1) en)
    have cr: "runs (bounds_cross (addrs ?L ! ?a) (addrs ?L ! e')) A (\<lambda>r A'. r = False \<and> A' = A)"
      by (rule runs_bounds_cross_leaf[OF ok h a e'(2)]) simp
    show "runs (case Some (addrs ?L ! ?a) of None \<Rightarrow> ret None
        | Some st \<Rightarrow> bindP (end_address m hi) (\<lambda>en. case en of None \<Rightarrow> ret None
          | Some en \<Rightarrow> bindP (bounds_cross st en) (\<lambda>cross. if cross then ret None
              else ret (Some \<lparr>start_node = fst st, end_node = fst en, start_index = snd st, end_index = snd en\<rparr>))))
        A (\<lambda>r A'. r = Some (bounds_at ?L ?a e') \<and> A' = A)"
      unfolding option.case
      by (rule runs_then[OF en'], unfold option.case, rule runs_then[OF cr]) (simp add: runs_ret bounds_at_def)
  qed
  show ?thesis unfolding range_all_def range_new_def
  proof (rule runs_bind, rule runs_then[OF bounds], unfold option.case bounds_ends)
    show "runs (bindP (cursor_new (Some (fst (addrs ?L ! ?a))) (snd (addrs ?L ! ?a))) (\<lambda>c.
        bindP (cursor_new (Some (fst (addrs ?L ! e'))) (snd (addrs ?L ! e'))) (\<lambda>bc.
        ret \<lparr>rg_cursor = c, rg_back = bc, rg_bounds = Some (bounds_at ?L ?a e')\<rparr>))) A
      (\<lambda>a A'. runs (range_collect (Suc (mlength m)) a) A' Q)"
    proof (rule runs_bind, rule runs_cursor_new_pos[OF ch in_L(1)], rule runs_bind, rule runs_cursor_new_pos[OF ch in_L(2)],
        rule runs_ret, rule runs_range_collect[where f = ?a, OF ok])
      show "e' < length (contents T)" "length (contents T) - ?a < Suc (mlength m)"
        using in_L(2) len map_len_contents[OF ok] by simp_all
    qed (use a e'(2) Q in simp_all)
  qed
qed

end
