(* ===== verification/RangeMut.thy ===== *)
theory RangeMut
  imports RangeBack
begin

text \<open>
  \<open>RangeMut\<close> and the key and value adaptors of ranges (\<open>src/src/map.rs\<close>). As in \<open>IterMut\<close>, the caller of
  \<open>next\<close> writes through the reference it gets: the value is replaced by \<open>f\<close> of it, and the old entry is
  the result. The iteration has the same ends as \<open>Range\<close>, so that a loop over a range of one entry
  writes all values up to the end of the map.
\<close>

subsection \<open>Operations\<close>

definition range_mut_new :: "bmap \<Rightarrow> ('k::linorder) bounds \<Rightarrow> ('k, 'v, range) sprog" where
  "range_mut_new tree bs =
     bindP (node_bounds tree bs) (\<lambda>b.
     bindP (case b of None \<Rightarrow> ret cursor_new_detached
        | Some b \<Rightarrow> cursor_new (Some (fst (bounds_start b))) (snd (bounds_start b))) (\<lambda>c.
     bindP (case b of None \<Rightarrow> ret cursor_new_detached
        | Some b \<Rightarrow> cursor_new (Some (fst (bounds_end b))) (snd (bounds_end b))) (\<lambda>bc.
     ret \<lparr>rg_cursor = c, rg_back = bc, rg_bounds = b\<rparr>)))"

definition range_mut_peek :: "range \<Rightarrow> ('k, 'v, ('k \<times> 'v) option) sprog" where
  "range_mut_peek r = cursor_key_value (rg_cursor r)"

definition range_mut_peek_back :: "range \<Rightarrow> ('k, 'v, ('k \<times> 'v) option) sprog" where
  "range_mut_peek_back r = cursor_key_value (rg_back r)"

definition range_mut_peek_mut :: "('v \<Rightarrow> 'v) \<Rightarrow> range \<Rightarrow> ('k, 'v, ('k \<times> 'v) option) sprog" where
  "range_mut_peek_mut f r = cursor_key_value_mut f (rg_cursor r)"

definition range_mut_peek_back_mut :: "('v \<Rightarrow> 'v) \<Rightarrow> range \<Rightarrow> ('k, 'v, ('k \<times> 'v) option) sprog" where
  "range_mut_peek_back_mut f r = cursor_key_value_mut f (rg_back r)"

definition range_mut_advance :: "range \<Rightarrow> ('k, 'v, range) sprog" where
  "range_mut_advance r =
     bindP (cursor_advance (rg_cursor r)) (\<lambda>c.
     if \<not> cursor_is_attached c then ret (r\<lparr>rg_cursor := c, rg_back := cursor_detach (rg_back r)\<rparr>)
     else bindP (liftP (assume_bounds r)) (\<lambda>b.
          if cursor_address c = Some (bounds_end b)
          then ret (r\<lparr>rg_cursor := cursor_detach c, rg_back := cursor_detach (rg_back r)\<rparr>)
          else ret (r\<lparr>rg_cursor := c\<rparr>)))"

definition range_mut_advance_back :: "range \<Rightarrow> ('k, 'v, range) sprog" where
  "range_mut_advance_back r =
     bindP (cursor_advance_back (rg_back r)) (\<lambda>c.
     if \<not> cursor_is_attached c then ret (r\<lparr>rg_back := c, rg_cursor := cursor_detach (rg_cursor r)\<rparr>)
     else bindP (liftP (assume_bounds r)) (\<lambda>b.
          if cursor_address c = Some (bounds_start b)
          then ret (r\<lparr>rg_cursor := cursor_detach (rg_cursor r), rg_back := cursor_detach c\<rparr>)
          else ret (r\<lparr>rg_back := c\<rparr>)))"

definition range_mut_next :: "('v \<Rightarrow> 'v) \<Rightarrow> range \<Rightarrow> ('k, 'v, ('k \<times> 'v) option \<times> range) sprog" where
  "range_mut_next f r =
     bindP (range_mut_peek_mut f r) (\<lambda>kv.
     case kv of None \<Rightarrow> ret (None, r)
     | Some kv \<Rightarrow> bindP (range_mut_advance r) (\<lambda>r. ret (Some kv, r)))"

definition range_mut_next_back :: "('v \<Rightarrow> 'v) \<Rightarrow> range \<Rightarrow> ('k, 'v, ('k \<times> 'v) option \<times> range) sprog" where
  "range_mut_next_back f r =
     bindP (range_mut_peek_back_mut f r) (\<lambda>kv.
     case kv of None \<Rightarrow> ret (None, r)
     | Some kv \<Rightarrow> bindP (range_mut_advance_back r) (\<lambda>r. ret (Some kv, r)))"

text \<open>A \<open>for\<close> loop over the mutable range that replaces every value it gets by \<open>f\<close> of it.\<close>

fun range_mut_collect :: "('v \<Rightarrow> 'v) \<Rightarrow> nat \<Rightarrow> range \<Rightarrow> ('k, 'v, ('k \<times> 'v) list) sprog" where
  "range_mut_collect f 0 r = fail OutOfFuel"
| "range_mut_collect f (Suc fuel) r =
     bindP (range_mut_next f r) (\<lambda>(kv, r).
     case kv of None \<Rightarrow> ret []
     | Some x \<Rightarrow> bindP (range_mut_collect f fuel r) (\<lambda>xs. ret (x # xs)))"

definition range_mut_all :: "('v \<Rightarrow> 'v) \<Rightarrow> bmap \<Rightarrow> ('k::linorder) bounds \<Rightarrow> ('k, 'v, ('k \<times> 'v) list) sprog" where
  "range_mut_all f m bs = bindP (range_mut_new m bs) (range_mut_collect f (Suc (mlength m)))"

text \<open>\<open>range_keys\<close>, \<open>range_values\<close> and \<open>range_values_mut\<close>: a range and a projection of what it yields.\<close>

definition range_keys_next :: "range \<Rightarrow> ('k, 'v, 'k option \<times> range) sprog" where
  "range_keys_next r = bindP (range_next r) (\<lambda>(kv, r). ret (map_option fst kv, r))"

definition range_values_next :: "range \<Rightarrow> ('k, 'v, 'v option \<times> range) sprog" where
  "range_values_next r = bindP (range_next r) (\<lambda>(kv, r). ret (map_option snd kv, r))"

definition range_values_mut_next :: "('v \<Rightarrow> 'v) \<Rightarrow> range \<Rightarrow> ('k, 'v, 'v option \<times> range) sprog" where
  "range_values_mut_next f r = bindP (range_mut_next f r) (\<lambda>(kv, r). ret (map_option snd kv, r))"

subsection \<open>Writing along a range\<close>

lemma range_mut_eqs:
  "range_mut_new = range_new" "range_mut_advance = range_advance"
  by (simp_all add: fun_eq_iff range_mut_new_def range_new_def range_mut_advance_def range_advance_def)

lemma bounds_at_cong: "addrs L' = addrs L \<Longrightarrow> bounds_at L' a e = bounds_at L a e"
  by (simp add: bounds_at_def)

lemma pos_cong: "addrs L' = addrs L \<Longrightarrow> pos L' n = pos L n"
  by (simp add: pos_def)

lemma runs_range_mut_next:
  fixes A :: "('k::linorder, 'v) vheap"
  assumes ok: "bmap_ok A m T" and c: "rg_cursor r = pos (blocks T) i" and b: "rg_bounds r = Some (bounds_at (blocks T) a e)"
    and i: "i < length (contents T)" and e: "e < length (contents T)" and kv: "contents T ! i = (k, v)"
    and stop: "\<And>r' A' T'. Suc i = e \<or> Suc i = length (contents T) \<Longrightarrow> bmap_ok A' m T' \<Longrightarrow>
      contents T' = (contents T)[i := (k, f v)] \<Longrightarrow> framed A (owned T) A' (owned T') \<Longrightarrow> cnode (rg_cursor r') = None \<Longrightarrow> Q (Some (k, v), r') A'"
    and go: "\<And>r' A' T'. Suc i \<noteq> e \<Longrightarrow> Suc i < length (contents T) \<Longrightarrow> bmap_ok A' m T' \<Longrightarrow>
      contents T' = (contents T)[i := (k, f v)] \<Longrightarrow> framed A (owned T) A' (owned T') \<Longrightarrow> rg_cursor r' = pos (blocks T') (Suc i) \<Longrightarrow>
      rg_bounds r' = Some (bounds_at (blocks T') a e) \<Longrightarrow> Q (Some (k, v), r') A'"
  shows "runs (range_mut_next f r) A Q"
  unfolding range_mut_next_def range_mut_peek_mut_def c range_mut_eqs
proof (rule runs_bind, rule runs_cursor_key_value_mut[OF ok i kv], unfold option.case)
  fix A' T'
  assume T': "bmap_ok A' m T'" "contents T' = (contents T)[i := (k, f v)]" "addrs (blocks T') = addrs (blocks T)"
    "framed A (owned T) A' (owned T')"
  note len = length_contents[OF T'(1)]
  have i': "i < length (addrs (blocks T'))" using i T'(2) len by simp
  have c': "rg_cursor r = pos (blocks T') i" "rg_bounds r = Some (bounds_at (blocks T') a e)"
    using c b pos_cong[OF T'(3)] bounds_at_cong[OF T'(3)] by simp_all
  have "runs (range_advance r) A' (\<lambda>r' A. Q (Some (k, v), r') A)"
    unfolding range_advance_def c'(1)
  proof (rule runs_bind, rule runs_cursor_advance[OF bmap_chain[OF T'(1)] i'])
    show "runs (if \<not> cursor_is_attached (pos (blocks T') (Suc i))
        then ret (r\<lparr>rg_cursor := pos (blocks T') (Suc i), rg_back := cursor_detach (rg_back r)\<rparr>)
        else bindP (liftP (assume_bounds r)) (\<lambda>b. if cursor_address (pos (blocks T') (Suc i)) = Some (bounds_end b)
          then ret (r\<lparr>rg_cursor := cursor_detach (pos (blocks T') (Suc i)), rg_back := cursor_detach (rg_back r)\<rparr>)
          else ret (r\<lparr>rg_cursor := pos (blocks T') (Suc i)\<rparr>))) A' (\<lambda>r' A. Q (Some (k, v), r') A)"
    proof (cases "Suc i < length (contents T')")
      case False
      then have "pos (blocks T') (Suc i) = \<lparr>cnode = None, cindex = 0\<rparr>" using len by (simp add: pos_end)
      then show ?thesis using False i stop[OF _ T'(1,2,4)] T'(2) by (auto simp: pos_detached intro!: runs_ret)
    next
      case True
      then have at: "cursor_address (pos (blocks T') (Suc i)) = Some (addrs (blocks T') ! Suc i)"
          "cursor_is_attached (pos (blocks T') (Suc i))" using pos_address len by metis+
      have "addrs (blocks T') ! Suc i = addrs (blocks T') ! e \<longleftrightarrow> Suc i = e"
        using nth_eq_iff_index_eq[OF distinct_addrs[OF bmap_distinct[OF T'(1)]]] True e len T'(2) by simp
      then show ?thesis using at stop[OF _ T'(1,2,4)] go[OF _ _ T'(1,2,4)] True T'(2)
        by (auto simp: assume_bounds_def c'(2) pos_detached intro!: runs_ret)
    qed
  qed
  then show "runs (bindP (range_advance r) (\<lambda>r. ret (Some (k, v), r))) A' Q"
    by (auto intro!: runs_bind runs_ret elim!: runs_conseq)
qed

lemma range_mut_next_detached: "cnode (rg_cursor r) = None \<Longrightarrow> range_mut_next f r = ret (None, r)"
  by (simp add: range_mut_next_def range_mut_peek_mut_def cursor_key_value_mut_def fun_eq_iff)

text \<open>What the loop gets from place \<open>i\<close> on, and the list it leaves.\<close>

definition rest_of_range :: "nat \<Rightarrow> nat \<Rightarrow> 'a list \<Rightarrow> 'a list" where
  "rest_of_range e i xs = (if i < e then take (e - i) (drop i xs) else drop i xs)"

definition overwrite :: "('v \<Rightarrow> 'v) \<Rightarrow> nat \<Rightarrow> nat \<Rightarrow> ('k \<times> 'v) list \<Rightarrow> ('k \<times> 'v) list" where
  "overwrite f i n xs = take i xs @ map (\<lambda>(k, v). (k, f v)) (take n (drop i xs)) @ drop (i + n) xs"

lemma rest_of_range_step:
  assumes "i < length xs" "e < length xs"
  shows "Suc i = e \<or> Suc i = length xs \<Longrightarrow> rest_of_range e i xs = [xs ! i]"
    and "Suc i \<noteq> e \<Longrightarrow> Suc i < length xs \<Longrightarrow> rest_of_range e i xs = xs ! i # rest_of_range e (Suc i) xs"
proof -
  have d: "drop i xs = xs ! i # drop (Suc i) xs" using assms(1) by (simp add: Cons_nth_drop_Suc)
  show "rest_of_range e i xs = [xs ! i]" if "Suc i = e \<or> Suc i = length xs"
    using that assms by (auto simp: rest_of_range_def d)
  show "rest_of_range e i xs = xs ! i # rest_of_range e (Suc i) xs" if "Suc i \<noteq> e" "Suc i < length xs"
    using that by (auto simp: rest_of_range_def d take_Cons' dest: Suc_lessI)
qed

lemma overwrite_step:
  assumes "i < length xs" "xs ! i = (k, v)"
  shows "overwrite f i (Suc n) xs = overwrite f (Suc i) n (xs[i := (k, f v)])"
proof -
  have d: "drop i xs = (k, v) # drop (Suc i) xs" using assms by (metis Cons_nth_drop_Suc)
  have t: "take (Suc i) (xs[i := (k, f v)]) = take i xs @ [(k, f v)]"
    using assms(1) by (simp add: take_Suc_conv_app_nth)
  show ?thesis by (simp add: overwrite_def d t)
qed

lemma overwrite_0 [simp]: "overwrite f i 0 xs = xs"
  by (simp add: overwrite_def)

lemma rest_of_range_update: "rest_of_range e (Suc i) (xs[i := y]) = rest_of_range e (Suc i) xs"
  by (simp add: rest_of_range_def)

lemma runs_range_mut_collect:
  fixes A :: "('k::linorder, 'v) vheap"
  assumes "bmap_ok A m T" "e < length (contents T)" "rg_cursor r = pos (blocks T) i"
    "rg_bounds r = Some (bounds_at (blocks T) a e)" "i < length (contents T)" "length (contents T) - i < n"
    "\<And>A' T'. bmap_ok A' m T' \<Longrightarrow>
      contents T' = overwrite f i (length (rest_of_range e i (contents T))) (contents T) \<Longrightarrow>
      framed A (owned T) A' (owned T') \<Longrightarrow> Q (rest_of_range e i (contents T)) A'"
  shows "runs (range_mut_collect f n r) A Q"
  using assms
proof (induction n arbitrary: A T i r Q)
  case (Suc n)
  obtain k v where kv: "contents T ! i = (k, v)" by (cases "contents T ! i")
  note step = rest_of_range_step[OF Suc.prems(5,2)] overwrite_step[OF Suc.prems(5) kv]
  show ?case unfolding range_mut_collect.simps
  proof (rule runs_bind, rule runs_range_mut_next[OF Suc.prems(1,3,4,5,2) kv])
    fix r' :: range and A' T'
    assume st: "Suc i = e \<or> Suc i = length (contents T)" "bmap_ok A' m T'" "contents T' = (contents T)[i := (k, f v)]"
      "framed A (owned T) A' (owned T')" "cnode (rg_cursor r') = None"
    have fin: "Q [(k, v)] A'" using Suc.prems(7)[OF st(2) _ st(4)] st(3) step(1)[OF st(1)] step(3)[of f 0] kv by simp
    obtain j where j: "n = Suc j" using Suc.prems(5,6) by (cases n) auto
    show "runs (case (Some (k, v), r') of (kv, r) \<Rightarrow> case kv of None \<Rightarrow> ret []
        | Some x \<Rightarrow> bindP (range_mut_collect f n r) (\<lambda>xs. ret (x # xs))) A' Q"
      unfolding prod.case option.case j range_mut_collect.simps range_mut_next_detached[OF st(5)] bindP_ret
      by (rule runs_ret, rule fin)
  next
    fix r' :: range and A' T'
    assume go: "Suc i \<noteq> e" "Suc i < length (contents T)" "bmap_ok A' m T'" "contents T' = (contents T)[i := (k, f v)]"
      "framed A (owned T) A' (owned T')" "rg_cursor r' = pos (blocks T') (Suc i)" "rg_bounds r' = Some (bounds_at (blocks T') a e)"
    let ?ys = "rest_of_range e (Suc i) (contents T)"
    have ys: "rest_of_range e (Suc i) (contents T') = ?ys" unfolding go(4) by (rule rest_of_range_update)
    have "runs (range_mut_collect f n r') A' (\<lambda>xs A. Q ((k, v) # xs) A)"
    proof (rule Suc.IH[OF go(3) _ go(6,7)])
      fix B U assume B: "bmap_ok B m U"
        "contents U = overwrite f (Suc i) (length (rest_of_range e (Suc i) (contents T'))) (contents T')"
        "framed A' (owned T') B (owned U)"
      have "contents U = overwrite f i (length (rest_of_range e i (contents T))) (contents T)"
        using B(2) step(2)[OF go(1,2)] step(3)[of f "length ?ys"] go(4) ys by simp
      then show "Q ((k, v) # rest_of_range e (Suc i) (contents T')) B"
        using Suc.prems(7)[OF B(1) _ framed_trans[OF go(5) B(3)]] step(2)[OF go(1,2)] ys kv by simp
    qed (use go(2,4) Suc.prems(2,6) in simp_all)
    then show "runs (case (Some (k, v), r') of (kv, r) \<Rightarrow> case kv of None \<Rightarrow> ret []
        | Some x \<Rightarrow> bindP (range_mut_collect f n r) (\<lambda>xs. ret (x # xs))) A' Q"
      by (auto intro!: runs_bind runs_ret elim!: runs_conseq)
  qed
qed simp

lemma runs_range_mut_all:
  fixes A :: "('k::linorder, 'v) vheap"
  defines "ys lo hi xs \<equiv> range_yields (first_index lo xs) (end_index_of hi xs) xs"
  assumes ok: "bmap_ok A m T" and le: "first_index lo (contents T) \<le> end_index_of hi (contents T)"
    and Q: "\<And>A' T'. bmap_ok A' m T' \<Longrightarrow>
      contents T' = overwrite f (first_index lo (contents T)) (length (ys lo hi (contents T))) (contents T) \<Longrightarrow>
      framed A (owned T) A' (owned T') \<Longrightarrow> Q (ys lo hi (contents T)) A'"
  shows "runs (range_mut_all f m (lo, hi)) A Q"
  unfolding range_mut_all_def range_mut_eqs
proof (rule runs_bind, rule runs_range_new[OF ok le])
  fix r :: range assume z: "first_index lo (contents T) = end_index_of hi (contents T)" and r: "cnode (rg_cursor r) = None"
  then have "Q [] A" using Q[OF ok] framed_refl[OF bmap_ok_owned[OF ok]] by (simp add: ys_def range_yields_def)
  then show "runs (range_mut_collect f (Suc (mlength m)) r) A Q"
    unfolding range_mut_collect.simps range_mut_next_detached[OF r] bindP_ret prod.case option.case by (rule runs_ret)
next
  fix a e
  assume ae: "first_index lo (contents T) = a" "end_index_of hi (contents T) = Suc e" "a \<le> e" "e < length (contents T)"
  have y: "ys lo hi (contents T) = rest_of_range e a (contents T)"
    using ae by (auto simp: ys_def range_yields_def rest_of_range_def)
  show "runs (range_mut_collect f (Suc (mlength m))
      \<lparr>rg_cursor = pos (blocks T) a, rg_back = pos (blocks T) e, rg_bounds = Some (bounds_at (blocks T) a e)\<rparr>) A Q"
    by (rule runs_range_mut_collect[where i = a and a = a and e = e, OF ok ae(4)])
      (use ae map_len_contents[OF ok] Q y in simp_all)
qed

end
