(* ===== verification/Accessors.thy ===== *)
theory Accessors
  imports IterMut
begin

text \<open>
  The accessors of \<open>src/src/map.rs\<close> that hand out a key with a mutable reference to its value, and the
  iterator methods that only look or count. As before, the caller's write through the reference is the
  argument \<open>f\<close>; the result is the entry before the write.
\<close>

subsection \<open>Operations\<close>

definition node_key_val_mut :: "('v \<Rightarrow> 'v) \<Rightarrow> nat \<Rightarrow> ('k, 'v) node \<Rightarrow> (('k \<times> 'v) \<times> ('k, 'v) node) res" where
  "node_key_val_mut f idx n =
     bindR (assertR (idx < len n)) (\<lambda>_.
     bindR (arr_get (keys n) idx) (\<lambda>k.
     bindR (d_leaf n) (\<lambda>l.
     bindR (arr_get (vals l) idx) (\<lambda>v.
     bindR (write_val idx (f v) n) (\<lambda>n'. Inr ((k, v), n'))))))"

definition node_first_key_value_mut :: "('v \<Rightarrow> 'v) \<Rightarrow> ('k, 'v) node \<Rightarrow> (('k \<times> 'v) \<times> ('k, 'v) node) res" where
  "node_first_key_value_mut f n =
     bindR (assertR (0 < len n)) (\<lambda>_.
     bindR (arr_get (keys n) 0) (\<lambda>k.
     bindR (d_leaf n) (\<lambda>l.
     bindR (arr_get (vals l) 0) (\<lambda>v.
     bindR (write_val 0 (f v) n) (\<lambda>n'. Inr ((k, v), n'))))))"

definition node_last_key_value_mut :: "('v \<Rightarrow> 'v) \<Rightarrow> ('k, 'v) node \<Rightarrow> (('k \<times> 'v) \<times> ('k, 'v) node) res" where
  "node_last_key_value_mut f n =
     bindR (assertR (0 < len n)) (\<lambda>_.
     bindR (nat_sub (len n) 1) (\<lambda>i.
     bindR (arr_get (keys n) i) (\<lambda>k.
     bindR (d_leaf n) (\<lambda>l.
     bindR (arr_get (vals l) i) (\<lambda>v.
     bindR (write_val i (f v) n) (\<lambda>n'. Inr ((k, v), n')))))))"

definition get_key_value_mut :: "bmap \<Rightarrow> 'k::linorder \<Rightarrow> ('v \<Rightarrow> 'v) \<Rightarrow> ('k, 'v, ('k \<times> 'v) option) sprog" where
  "get_key_value_mut m k f =
     bindP (find_key m k) (\<lambda>r.
     case r of
       At node idx \<Rightarrow> bindP (upd_ret_at node (node_key_val_mut f idx)) (\<lambda>kv. ret (Some kv))
     | _ \<Rightarrow> ret None)"

definition first_key_value_mut :: "bmap \<Rightarrow> ('v \<Rightarrow> 'v) \<Rightarrow> ('k, 'v, ('k \<times> 'v) option) sprog" where
  "first_key_value_mut m f =
     bindP (first_leaf m) (\<lambda>l. case l of None \<Rightarrow> ret None
       | Some node \<Rightarrow> bindP (upd_ret_at node (node_first_key_value_mut f)) (\<lambda>kv. ret (Some kv)))"

definition last_key_value_mut :: "bmap \<Rightarrow> ('v \<Rightarrow> 'v) \<Rightarrow> ('k, 'v, ('k \<times> 'v) option) sprog" where
  "last_key_value_mut m f =
     bindP (last_leaf m) (\<lambda>l. case l of None \<Rightarrow> ret None
       | Some node \<Rightarrow> bindP (upd_ret_at node (node_last_key_value_mut f)) (\<lambda>kv. ret (Some kv)))"

definition iter_mut_peek :: "iter \<Rightarrow> ('k, 'v, ('k \<times> 'v) option) sprog" where
  "iter_mut_peek it = (if it_length it = 0 then ret None else cursor_key_value (it_cursor it))"

definition iter_mut_peek_back :: "iter \<Rightarrow> ('k, 'v, ('k \<times> 'v) option) sprog" where
  "iter_mut_peek_back it = (if it_length it = 0 then ret None else cursor_key_value (it_back it))"

definition iter_mut_size_hint :: "iter \<Rightarrow> nat \<times> nat option" where
  "iter_mut_size_hint it = (it_length it, Some (it_length it))"

definition iter_mut_len :: "iter \<Rightarrow> nat" where
  "iter_mut_len it = it_length it"

definition into_iter_size_hint :: "iter \<Rightarrow> nat \<times> nat option" where
  "into_iter_size_hint it = (it_length it, Some (it_length it))"

definition into_iter_len :: "iter \<Rightarrow> nat" where
  "into_iter_len it = it_length it"

definition keys_size_hint :: "iter \<Rightarrow> nat \<times> nat option" where
  "keys_size_hint it = iter_size_hint it"

definition keys_len :: "iter \<Rightarrow> nat" where
  "keys_len it = iter_len it"

definition values_size_hint :: "iter \<Rightarrow> nat \<times> nat option" where
  "values_size_hint it = iter_size_hint it"

definition values_len :: "iter \<Rightarrow> nat" where
  "values_len it = iter_len it"

definition values_mut_size_hint :: "iter \<Rightarrow> nat \<times> nat option" where
  "values_mut_size_hint it = iter_mut_size_hint it"

definition values_mut_len :: "iter \<Rightarrow> nat" where
  "values_mut_len it = iter_mut_len it"

subsection \<open>Writing through the reference\<close>

lemma runs_same:
  assumes "\<And>s. shows_heap s A \<Longrightarrow> m s = m' s" "runs m' A Q"
  shows "runs m A Q"
  using assms unfolding runs_def by simp

lemma upd_ret_at_same:
  assumes "shows_heap s A" "A p = Some v" "\<And>n. node_view n v \<Longrightarrow> f n = g n"
  shows "upd_ret_at p f s = upd_ret_at p g s"
proof -
  obtain n where "nodes s p = Some n" "node_view n v" using shows_heapE[OF assms(1,2)] .
  then show ?thesis using assms(3) by (simp add: upd_ret_at_def deref_def bindP_def)
qed

lemma key_val_mut_eq:
  "node_key_val_mut f i = (\<lambda>n. bindR (key_val i n) (\<lambda>(k, v). bindR (write_val i (f v) n) (\<lambda>n'. Inr ((k, v), n'))))"
  by (rule ext) (simp add: node_key_val_mut_def key_val_def bindR_def split: sum.splits)

lemma first_key_value_mut_eq: "node_first_key_value_mut f = node_key_val_mut f 0"
  by (rule ext) (simp add: node_first_key_value_mut_def node_key_val_mut_def)

lemma last_key_value_mut_eq: "len n = Suc i \<Longrightarrow> node_last_key_value_mut f n = node_key_val_mut f i n"
  by (simp add: node_last_key_value_mut_def node_key_val_mut_def)

lemma runs_get_key_value_mut:
  fixes A :: "('k::linorder, 'v) vheap"
  assumes ok: "bmap_ok A m T"
    and absent: "map_of (contents T) k = None \<Longrightarrow> Q None A"
    and there: "\<And>A' T' v. map_of (contents T) k = Some v \<Longrightarrow> bmap_ok A' m T' \<Longrightarrow>
      contents T' = kv_insert k (f v) (contents T) \<Longrightarrow> framed A (owned T) A' (owned T') \<Longrightarrow> Q (Some (k, v)) A'"
  shows "runs (get_key_value_mut m k f) A Q"
  unfolding get_key_value_mut_def
proof (rule runs_find_write[where f = f and Q = Q, OF ok absent], assumption)
  fix p i par ks vs pv nx A' T'
  assume p: "A p = Some (VLeaf par ks vs pv nx)" "i < length ks" "ks ! i = k" and v: "map_of (contents T) k = Some (vs ! i)"
    and A': "A' = A(p \<mapsto> VLeaf par ks (vs[i := f (vs ! i)]) pv nx)"
    and w: "bmap_ok A' m T'" "contents T' = kv_insert k (f (vs ! i)) (contents T)" "framed A (owned T) A' (owned T')"
  have up: "node_upd_ret (node_key_val_mut f i) (VLeaf par ks vs pv nx) (k, vs ! i) (VLeaf par ks (vs[i := f (vs ! i)]) pv nx)"
    unfolding key_val_mut_eq
    by (rule write_upd_ret[OF p(2)]) (simp add: key_val_view[OF _ p(2)] p(3) del: node_view.simps)
  show "runs (bindP (upd_ret_at p (node_key_val_mut f i)) (\<lambda>kv. ret (Some kv))) A Q"
    by (rule runs_bind, rule runs_upd_ret_at[where A = A, OF p(1) up], rule runs_ret, fold A')
      (rule there[OF v w])
qed

text \<open>An operation that overwrites the value of the \<open>n\<close>-th entry.\<close>

definition writes_nth ::
    "('k::linorder, 'v, ('k \<times> 'v) option) sprog \<Rightarrow> ('v \<Rightarrow> 'v) \<Rightarrow> ('k, 'v) vheap \<Rightarrow> bmap \<Rightarrow> ('k, 'v) bt option \<Rightarrow> nat \<Rightarrow> bool" where
  "writes_nth prog f A m T n \<longleftrightarrow>
     runs prog A (\<lambda>r A'. case contents T ! n of (k, v) \<Rightarrow> r = Some (k, v) \<and>
       (\<exists>T'. bmap_ok A' m T' \<and> contents T' = (contents T)[n := (k, f v)] \<and> framed A (owned T) A' (owned T')))"

lemma writes_cursor:
  assumes ok: "bmap_ok A m T" and n: "n < length (contents T)"
  shows "writes_nth (cursor_key_value_mut f (pos (blocks T) n)) f A m T n"
proof -
  obtain k v where kv: "contents T ! n = (k, v)" by (cases "contents T ! n")
  show ?thesis unfolding writes_nth_def kv prod.case
    by (rule runs_cursor_key_value_mut[OF ok n kv]) auto
qed

lemma writes_first:
  assumes ok: "bmap_ok A m T" and n: "0 < length (contents T)"
  shows "writes_nth (first_key_value_mut m f) f A m T 0"
proof -
  have c: "pos (blocks T) 0 = \<lparr>cnode = hd_or (map fst (blocks T)) None, cindex = 0\<rparr>"
    by (rule pos_first[OF bmap_chain[OF ok]])
  have eq: "(case l of None \<Rightarrow> ret None | Some node \<Rightarrow> bindP (upd_ret_at node (node_first_key_value_mut f)) (\<lambda>kv. ret (Some kv)))
      = (cursor_key_value_mut f \<lparr>cnode = l, cindex = 0\<rparr> :: ('a, 'b, ('a \<times> 'b) option) sprog)" for l
    by (simp add: cursor_key_value_mut_def first_key_value_mut_eq key_val_mut_eq split: option.splits)
  show ?thesis unfolding writes_nth_def first_key_value_mut_def eq
    by (rule runs_bind, rule runs_first_leaf_block[OF ok], fold c, rule writes_cursor[OF ok n, unfolded writes_nth_def])
qed

lemma writes_last:
  assumes ok: "bmap_ok A m T" and n: "0 < length (contents T)"
  shows "writes_nth (last_key_value_mut m f) f A m T (length (contents T) - 1)"
proof -
  let ?n = "length (contents T) - 1"
  have "?n < length (addrs (blocks T))" using n length_contents[OF ok] by simp
  from chain_pos[OF bmap_chain[OF ok] this] obtain L1 p ks vs L2 i par pv nx where
    c: "blocks T = L1 @ (p, ks, vs) # L2" "i < length ks" "?n = length (addrs L1) + i"
      "pos (blocks T) ?n = \<lparr>cnode = Some p, cindex = i\<rparr>" "A p = Some (VLeaf par ks vs pv nx)" by metis
  have "length (contents T) = length (addrs L1) + length ks + length (addrs L2)"
    using length_contents[OF ok] c(1) by simp
  then have l: "length ks = Suc i" "length (addrs L2) = 0" using c(2,3) n by linarith+
  have "L2 = []"
    using bmap_chain[OF ok] l(2) unfolding c(1) chain_append by (cases L2) auto
  then have p: "last_or None (map fst (blocks T)) = Some p" using c(1) by (simp add: last_or_def)
  have eq: "bindP (upd_ret_at p (node_last_key_value_mut f)) (\<lambda>kv. ret (Some kv)) s = cursor_key_value_mut f (pos (blocks T) ?n) s"
    if s: "shows_heap s A" for s
  proof -
    have "upd_ret_at p (node_last_key_value_mut f) s = upd_ret_at p (node_key_val_mut f i) s"
      by (rule upd_ret_at_same[OF s c(5)], rule last_key_value_mut_eq) (use l(1) in simp)
    then show ?thesis unfolding c(4) cursor_key_value_mut_def by (simp add: key_val_mut_eq bindP_def)
  qed
  show ?thesis unfolding writes_nth_def last_key_value_mut_def
    by (rule runs_bind, rule runs_last_leaf_block[OF ok], unfold p option.case, rule runs_same[OF eq], assumption,
        rule writes_cursor[OF ok, unfolded writes_nth_def]) (use n in simp)
qed

lemma writes_empty:
  assumes "bmap_ok A m None" "Q None A"
  shows "runs (first_key_value_mut m f) A Q" "runs (last_key_value_mut m f) A Q"
  using assms by (auto simp: first_key_value_mut_def last_key_value_mut_def first_leaf_def last_leaf_def intro!: runs_bind runs_ret runs_ret_eta)

end
