(* ===== verification/MutUse.thy ===== *)
theory MutUse
  imports RangeMut Accessors World
begin

text \<open>
  Mutable iterators and ranges used in any way: any sequence of calls, from either end, with any bounds,
  broken off anywhere. A call may panic (advancing past the end); what is shown is that a use that returns
  has only replaced values of the map.
\<close>

subsection \<open>Programs that may stop\<close>

definition if_runs ::
    "('k, 'v, 'a) sprog \<Rightarrow> ('k, 'v) vheap \<Rightarrow> ('a \<Rightarrow> ('k, 'v) vheap \<Rightarrow> bool) \<Rightarrow> bool" where
  "if_runs m A Q \<longleftrightarrow>
     (\<forall>s r s'. shows_heap s A \<longrightarrow> m s = Inr (r, s') \<longrightarrow> (\<exists>A'. shows_heap s' A' \<and> Q r A'))"

lemma if_runsD: "if_runs m A Q \<Longrightarrow> shows_heap s A \<Longrightarrow> m s = Inr (r, s') \<Longrightarrow> \<exists>A'. shows_heap s' A' \<and> Q r A'"
  by (auto simp: if_runs_def)

lemma if_runs_runs: "runs m A Q \<Longrightarrow> if_runs m A Q"
  by (fastforce simp: if_runs_def runs_def)

lemma if_runs_ret: "Q a A \<Longrightarrow> if_runs (ret a) A Q"
  by (auto simp: if_runs_def)

lemma if_runs_fail: "if_runs (fail e) A Q"
  by (simp add: if_runs_def)

lemma if_runs_lift: "(\<And>a. r = Inr a \<Longrightarrow> Q a A) \<Longrightarrow> if_runs (liftP r) A Q"
  by (cases r) (auto simp: if_runs_def)

lemma if_runs_bind:
  assumes "if_runs m A (\<lambda>a A'. if_runs (f a) A' Q)"
  shows "if_runs (bindP m f) A Q"
  unfolding if_runs_def
proof (intro allI impI)
  fix s r s' assume s: "shows_heap s A" "bindP m f s = Inr (r, s')"
  then obtain a s1 where a: "m s = Inr (a, s1)" "f a s1 = Inr (r, s')"
    by (auto simp: bindP_apply split: sum.splits)
  from if_runsD[OF assms s(1) a(1)] obtain A1 where "shows_heap s1 A1" "if_runs (f a) A1 Q" by blast
  then show "\<exists>A'. shows_heap s' A' \<and> Q r A'" by (metis if_runsD a(2))
qed

lemma if_runs_conseq: "if_runs m A P \<Longrightarrow> (\<And>r A'. P r A' \<Longrightarrow> Q r A') \<Longrightarrow> if_runs m A Q"
  unfolding if_runs_def by meson

text \<open>An invariant of the steps is one of every sequence of steps.\<close>

lemma if_runs_ops:
  fixes step :: "'op \<Rightarrow> 'c \<Rightarrow> ('k, 'v, 'out \<times> 'c) sprog"
  assumes "\<And>op c A. I c A \<Longrightarrow> if_runs (step op c) A (\<lambda>r A'. I (snd r) A')"
  shows "I c A \<Longrightarrow> if_runs (run_ops step ops c) A (\<lambda>r A'. I (snd r) A')"
proof (induction ops arbitrary: c A)
  case Nil
  then show ?case unfolding run_ops.simps by (intro if_runs_ret) simp
next
  case (Cons op ops)
  show ?case unfolding run_ops.simps
  proof (rule if_runs_bind, rule if_runs_conseq[OF assms[OF Cons.prems]])
    fix r :: "'out \<times> 'c" and A' assume r: "I (snd r) A'"
    show "if_runs (case r of (out, c) \<Rightarrow> bindP (run_ops step ops c) (\<lambda>(outs, c). ret (out # outs, c))) A' (\<lambda>r A'. I (snd r) A')"
      unfolding case_prod_beta
      by (rule if_runs_bind, rule if_runs_conseq[OF Cons.IH[OF r]]) (simp add: case_prod_beta if_runs_ret)
  qed
qed

text \<open>What a program that returns has done to the other maps.\<close>

lemma world_if_runs:
  fixes prog :: "('k::linorder, 'v, 'a) sprog"
  assumes w: "world_ok tight s ms kvss" and i: "i < length ms" and r: "prog s = Inr (r, s')"
    and run: "\<And>A T. bmap_ok A (ms ! i) T \<Longrightarrow> contents T = kvss ! i \<Longrightarrow>
      if_runs prog A (\<lambda>r A'. \<exists>T' S'. bmap_ok A' (g r) T' \<and> P (contents T') \<and> owned T' \<subseteq> S' \<and> framed A (owned T) A' S')"
  shows "\<exists>kvs. P kvs \<and> world_ok False s' (ms[i := g r]) (kvss[i := kvs])"
proof -
  obtain A Ts where A: "shows_heap s A" "list_all2 (bmap_ok A) ms Ts" "kvss = map contents Ts" "separate Ts"
    using w unfolding world_ok_def by blast
  have i': "i < length Ts" using i A(2) by (simp add: list_all2_lengthD)
  have "bmap_ok A (ms ! i) (Ts ! i)" using A(2) i by (rule list_all2_nthD)
  moreover have "contents (Ts ! i) = kvss ! i" using A(3) i' by simp
  ultimately have "if_runs prog A (\<lambda>r A'. \<exists>T' S'. bmap_ok A' (g r) T' \<and> P (contents T') \<and> owned T' \<subseteq> S' \<and>
      framed A (owned (Ts ! i)) A' S')" by (rule run)
  from if_runsD[OF this A(1) r] obtain A' T' S' where A': "shows_heap s' A'" "bmap_ok A' (g r) T'" "P (contents T')"
      "owned T' \<subseteq> S'" "framed A (owned (Ts ! i)) A' S'" by blast
  moreover have "map contents (Ts[i := T']) = kvss[i := contents T']" using A(3) by (simp add: map_update)
  ultimately show ?thesis
    unfolding world_ok_def using world_upd[OF A(2,4) i A'(5,2,4)] by blast
qed

subsection \<open>Cursors on a map whose values are replaced\<close>

definition cursor_on :: "('k, 'v) block list \<Rightarrow> cursor \<Rightarrow> bool" where
  "cursor_on L c \<longleftrightarrow> cnode c = None \<or> (\<exists>n<length (addrs L). c = pos L n)"

definition rewritten :: "bmap \<Rightarrow> ('k::linorder, 'v) vheap \<Rightarrow> ('k, 'v) bt option \<Rightarrow> ('k, 'v) vheap \<Rightarrow> bool" where
  "rewritten m A0 T0 A \<longleftrightarrow>
     (\<exists>T. bmap_ok A m T \<and> addrs (blocks T) = addrs (blocks T0) \<and> map fst (contents T) = map fst (contents T0) \<and>
        framed A0 (owned T0) A (owned T))"

lemma rewritten_refl: "bmap_ok A m T \<Longrightarrow> rewritten m A T A"
  using framed_refl[OF bmap_ok_owned] by (auto simp: rewritten_def)

lemma cursor_on_cong: "addrs L' = addrs L \<Longrightarrow> cursor_on L' c \<longleftrightarrow> cursor_on L c"
  by (simp add: cursor_on_def pos_def)

lemma cursor_on_pos: "cursor_on L (pos L n)"
  by (cases "n < length (addrs L)") (auto simp: cursor_on_def)

lemma cursor_on_detach: "cursor_on L (cursor_detach c)"
  by (simp add: cursor_on_def cursor_detach_def)

lemma rewritten_write:
  assumes w: "rewritten m A0 T0 A" and c: "cursor_on (blocks T0) c"
  shows "if_runs (cursor_key_value_mut f c) A (\<lambda>r A'. rewritten m A0 T0 A')"
proof (cases "cnode c")
  case None
  then show ?thesis using w by (simp add: cursor_key_value_mut_def if_runs_ret)
next
  case (Some p)
  obtain T where T: "bmap_ok A m T" "addrs (blocks T) = addrs (blocks T0)" "map fst (contents T) = map fst (contents T0)"
      "framed A0 (owned T0) A (owned T)" using w unfolding rewritten_def by blast
  obtain n where n: "n < length (addrs (blocks T))" "c = pos (blocks T) n"
    using c Some T(2) by (auto simp: cursor_on_def pos_def)
  then have n': "n < length (contents T)" using length_contents[OF T(1)] by simp
  obtain k v where kv: "contents T ! n = (k, v)" by (cases "contents T ! n")
  show ?thesis unfolding n(2)
  proof (rule if_runs_runs, rule runs_cursor_key_value_mut[OF T(1) n' kv])
    fix A' T' assume T': "bmap_ok A' m T'" "contents T' = (contents T)[n := (k, f v)]" "addrs (blocks T') = addrs (blocks T)"
      "framed A (owned T) A' (owned T')"
    have "map fst (contents T') = map fst (contents T)"
      using kv n' unfolding T'(2) map_update by (metis fst_conv list_update_id nth_map)
    then show "rewritten m A0 T0 A'"
      using T T' framed_trans[OF T(4) T'(4)] unfolding rewritten_def by auto
  qed
qed

lemma rewritten_advance:
  assumes w: "rewritten m A0 T0 A" and c: "cursor_on (blocks T0) c"
  shows "if_runs (cursor_advance c) A (\<lambda>c' A'. A' = A \<and> cursor_on (blocks T0) c')"
    and "if_runs (cursor_advance_back c) A (\<lambda>c' A'. A' = A \<and> cursor_on (blocks T0) c')"
proof -
  obtain T where T: "bmap_ok A m T" "addrs (blocks T) = addrs (blocks T0)" using w unfolding rewritten_def by blast
  note ch = bmap_chain[OF T(1)]
  have "if_runs (cursor_advance c) A (\<lambda>c' A'. A' = A \<and> cursor_on (blocks T) c') \<and>
    if_runs (cursor_advance_back c) A (\<lambda>c' A'. A' = A \<and> cursor_on (blocks T) c')"
  proof (cases "cnode c")
    case None
    then show ?thesis
      by (auto simp: cursor_advance_def cursor_advance_back_def if_runs_fail cursor_on_def intro: if_runs_ret)
        (simp add: if_runs_def bindP_apply)
  next
    case (Some p)
    obtain n where n: "n < length (addrs (blocks T))" "c = pos (blocks T) n"
      using c Some T(2) by (auto simp: cursor_on_def pos_def)
    have "cursor_on (blocks T) (pos_before (blocks T) n)"
      by (cases n) (simp_all add: cursor_on_pos cursor_on_def[of _ "\<lparr>cnode = None, cindex = 0\<rparr>"])
    then show ?thesis unfolding n(2)
      by (intro conjI if_runs_runs runs_cursor_advance[OF ch n(1)] runs_cursor_advance_back[OF ch n(1)])
        (simp_all add: cursor_on_pos)
  qed
  then show "if_runs (cursor_advance c) A (\<lambda>c' A'. A' = A \<and> cursor_on (blocks T0) c')"
    "if_runs (cursor_advance_back c) A (\<lambda>c' A'. A' = A \<and> cursor_on (blocks T0) c')"
    unfolding cursor_on_cong[OF T(2)] by simp_all
qed


subsection \<open>Any use of a mutable iterator\<close>

text \<open>A call of \<open>IterMut\<close> or of \<open>RangeMut\<close> that changes the iterator or lets the caller write.\<close>

datatype 'v mut_op =
    MutNext "'v \<Rightarrow> 'v" | MutNextBack "'v \<Rightarrow> 'v" | MutPeek "'v \<Rightarrow> 'v" | MutPeekBack "'v \<Rightarrow> 'v"
  | MutAdvance | MutAdvanceBack

fun iter_mut_step :: "'v mut_op \<Rightarrow> iter \<Rightarrow> ('k, 'v, ('k \<times> 'v) option \<times> iter) sprog" where
  "iter_mut_step (MutNext f) it = iter_mut_next f it"
| "iter_mut_step (MutNextBack f) it = iter_mut_next_back f it"
| "iter_mut_step (MutPeek f) it = bindP (iter_mut_peek_mut f it) (\<lambda>kv. ret (kv, it))"
| "iter_mut_step (MutPeekBack f) it = bindP (iter_mut_peek_back_mut f it) (\<lambda>kv. ret (kv, it))"
| "iter_mut_step MutAdvance it = bindP (iter_mut_advance it) (\<lambda>it. ret (None, it))"
| "iter_mut_step MutAdvanceBack it = bindP (iter_mut_advance_back it) (\<lambda>it. ret (None, it))"

definition iter_mut_use :: "'v mut_op list \<Rightarrow> bmap \<Rightarrow> ('k, 'v, ('k \<times> 'v) option list \<times> iter) sprog" where
  "iter_mut_use ops m = bindP (iter_mut_new m) (run_ops iter_mut_step ops)"

definition iter_on :: "('k, 'v) block list \<Rightarrow> iter \<Rightarrow> bool" where
  "iter_on L it \<longleftrightarrow> cursor_on L (it_cursor it) \<and> cursor_on L (it_back it)"

text \<open>Passing on what a first step established.\<close>

lemma if_runs_then:
  "if_runs m A (\<lambda>a A'. A' = A \<and> P a) \<Longrightarrow> (\<And>a. P a \<Longrightarrow> if_runs (f a) A Q) \<Longrightarrow> if_runs (bindP m f) A Q"
  by (rule if_runs_bind, erule if_runs_conseq) blast

lemma if_runs_write_then:
  assumes "rewritten m A0 T0 A" "cursor_on (blocks T0) c"
    "\<And>a A'. rewritten m A0 T0 A' \<Longrightarrow> if_runs (g a) A' Q"
  shows "if_runs (bindP (cursor_key_value_mut f c) g) A Q"
  by (rule if_runs_bind, rule if_runs_conseq[OF rewritten_write[OF assms(1,2)]], rule assms(3))

lemma iter_mut_peeks:
  assumes "rewritten m A0 T0 A" "iter_on (blocks T0) it"
  shows "if_runs (iter_mut_peek_mut f it) A (\<lambda>r A'. rewritten m A0 T0 A')"
    and "if_runs (iter_mut_peek_back_mut f it) A (\<lambda>r A'. rewritten m A0 T0 A')"
  using assms rewritten_write
  by (auto simp: iter_mut_peek_mut_def iter_mut_peek_back_mut_def iter_on_def intro!: if_runs_ret)

lemma iter_mut_moves:
  assumes "rewritten m A0 T0 A" "iter_on (blocks T0) it"
  shows "if_runs (iter_mut_advance it) A (\<lambda>it' A'. A' = A \<and> iter_on (blocks T0) it')"
    and "if_runs (iter_mut_advance_back it) A (\<lambda>it' A'. A' = A \<and> iter_on (blocks T0) it')"
proof -
  have c: "cursor_on (blocks T0) (it_cursor it)" "cursor_on (blocks T0) (it_back it)"
    using assms(2) by (simp_all add: iter_on_def)
  show "if_runs (iter_mut_advance it) A (\<lambda>it' A'. A' = A \<and> iter_on (blocks T0) it')"
    unfolding iter_mut_advance_def using c(2)
    by (auto simp: iter_on_def if_runs_fail intro!: if_runs_then[OF rewritten_advance(1)[OF assms(1) c(1)]] if_runs_ret)
  show "if_runs (iter_mut_advance_back it) A (\<lambda>it' A'. A' = A \<and> iter_on (blocks T0) it')"
    unfolding iter_mut_advance_back_def using c(1)
    by (auto simp: iter_on_def if_runs_fail intro!: if_runs_then[OF rewritten_advance(2)[OF assms(1) c(2)]] if_runs_ret)
qed

lemma iter_mut_step_ok:
  assumes w: "rewritten m A0 T0 A" and it: "iter_on (blocks T0) it"
  shows "if_runs (iter_mut_step op it) A (\<lambda>r A'. rewritten m A0 T0 A' \<and> iter_on (blocks T0) (snd r))"
proof -
  note peek = iter_mut_peeks[OF w it] and move = iter_mut_moves[OF _ it]
  show ?thesis
  proof (cases op)
    case (MutNext f)
    show ?thesis unfolding MutNext iter_mut_step.simps iter_mut_next_def
      by (rule if_runs_bind, rule if_runs_conseq[OF peek(1)])
        (auto simp: it intro!: if_runs_ret if_runs_then[OF move(1)] split: option.splits)
  next
    case (MutNextBack f)
    show ?thesis unfolding MutNextBack iter_mut_step.simps iter_mut_next_back_def
      by (rule if_runs_bind, rule if_runs_conseq[OF peek(2)])
        (auto simp: it intro!: if_runs_ret if_runs_then[OF move(2)] split: option.splits)
  qed (auto simp: it w intro!: if_runs_ret if_runs_bind if_runs_conseq[OF peek(1)] if_runs_conseq[OF peek(2)]
      if_runs_conseq[OF move(1)[OF w]] if_runs_conseq[OF move(2)[OF w]])
qed

lemma if_runs_iter_mut_use:
  fixes A :: "('k::linorder, 'v) vheap"
  assumes ok: "bmap_ok A m T"
  shows "if_runs (iter_mut_use ops m) A (\<lambda>r A'. rewritten m A T A')"
  unfolding iter_mut_use_def iter_mut_new_eq
proof (rule if_runs_bind, rule if_runs_runs, rule runs_iter_new_pos[OF ok])
  let ?it = "\<lparr>it_cursor = pos (blocks T) 0, it_back = pos (blocks T) (length (addrs (blocks T)) - 1), it_length = mlength m\<rparr>"
  have "rewritten m A T A \<and> iter_on (blocks T) ?it"
    using rewritten_refl[OF ok] by (simp add: iter_on_def cursor_on_pos)
  from if_runs_ops[of "\<lambda>it A'. rewritten m A T A' \<and> iter_on (blocks T) it" iter_mut_step, OF _ this]
  show "if_runs (run_ops iter_mut_step ops ?it) A (\<lambda>r A'. rewritten m A T A')"
    by (rule if_runs_conseq) (auto intro: iter_mut_step_ok)
qed

subsection \<open>Any use of a mutable range\<close>

fun range_mut_step :: "'v mut_op \<Rightarrow> range \<Rightarrow> ('k, 'v, ('k \<times> 'v) option \<times> range) sprog" where
  "range_mut_step (MutNext f) r = range_mut_next f r"
| "range_mut_step (MutNextBack f) r = range_mut_next_back f r"
| "range_mut_step (MutPeek f) r = bindP (range_mut_peek_mut f r) (\<lambda>kv. ret (kv, r))"
| "range_mut_step (MutPeekBack f) r = bindP (range_mut_peek_back_mut f r) (\<lambda>kv. ret (kv, r))"
| "range_mut_step MutAdvance r = bindP (range_mut_advance r) (\<lambda>r. ret (None, r))"
| "range_mut_step MutAdvanceBack r = bindP (range_mut_advance_back r) (\<lambda>r. ret (None, r))"

definition range_mut_use ::
    "'v mut_op list \<Rightarrow> bmap \<Rightarrow> ('k::linorder) bounds \<Rightarrow> ('k, 'v, ('k \<times> 'v) option list \<times> range) sprog" where
  "range_mut_use ops m bs = bindP (range_mut_new m bs) (run_ops range_mut_step ops)"

definition range_on :: "('k, 'v) block list \<Rightarrow> range \<Rightarrow> bool" where
  "range_on L r \<longleftrightarrow> cursor_on L (rg_cursor r) \<and> cursor_on L (rg_back r)"

text \<open>Bounds of any kind, inverted ones included, give addresses of entries.\<close>

lemma runs_bounds_cross_any:
  fixes A :: "('k::linorder, 'v) vheap"
  assumes ch: "chain A None L None" and a: "a < length (addrs L)" and Q: "\<And>b. Q b A"
  shows "runs (bounds_cross (addrs L ! a) en) A Q"
proof -
  obtain L1 p ks vs L2 i where s: "L = L1 @ (p, ks, vs) # L2" "addrs L ! a = (p, i)" using addr_split[OF a] by metis
  obtain par where p: "A p = Some (VLeaf par ks vs (last_or None (map fst L1)) (hd_or (map fst L2) None))"
    using ch chain_at unfolding s(1) by blast
  show ?thesis unfolding bounds_cross_def s(2)
    by (cases en) (auto intro!: runs_bind runs_get_at[where A = A, OF p, OF node_prev_view] runs_ret Q)
qed

lemma runs_node_bounds_any:
  fixes A :: "('k::linorder, 'v) vheap"
  assumes ok: "bmap_ok A m T" and none: "Q None A"
    and some: "\<And>a e. a < length (addrs (blocks T)) \<Longrightarrow> e < length (addrs (blocks T)) \<Longrightarrow> Q (Some (bounds_at (blocks T) a e)) A"
  shows "runs (node_bounds m bs) A Q"
proof -
  let ?L = "blocks T"
  have fin: "runs (bindP (bounds_cross (addrs ?L ! a) (addrs ?L ! e)) (\<lambda>cross. if cross then ret None
      else ret (Some \<lparr>start_node = fst (addrs ?L ! a), end_node = fst (addrs ?L ! e), start_index = snd (addrs ?L ! a),
        end_index = snd (addrs ?L ! e)\<rparr>))) A Q" if "a < length (addrs ?L)" "e < length (addrs ?L)" for a e
    by (rule runs_bind, rule runs_bounds_cross_any[OF bmap_chain[OF ok] that(1)])
      (use none some[OF that] in \<open>simp add: runs_ret bounds_at_def\<close>)
  have en: "runs (bindP (end_address m (snd bs)) (\<lambda>en. case en of None \<Rightarrow> ret None
      | Some en \<Rightarrow> bindP (bounds_cross (addrs ?L ! a) en) (\<lambda>cross. if cross then ret None
          else ret (Some \<lparr>start_node = fst (addrs ?L ! a), end_node = fst en, start_index = snd (addrs ?L ! a), end_index = snd en\<rparr>)))) A Q"
    if a: "a < length (addrs ?L)" for a
    by (rule runs_bind, rule runs_end_address[OF ok], cases "end_index_of (snd bs) (contents T)")
      (use none fin[OF a] in \<open>simp_all add: addr_before_def addr_at_def runs_ret\<close>)
  show ?thesis unfolding node_bounds_def
    by (rule runs_bind, rule runs_start_address[OF ok])
      (use none en in \<open>simp add: addr_at_def runs_ret\<close>)
qed

lemma runs_range_new_any:
  fixes A :: "('k::linorder, 'v) vheap"
  assumes ok: "bmap_ok A m T" and Q: "\<And>r. range_on (blocks T) r \<Longrightarrow> Q r A"
  shows "runs (range_new m bs) A Q"
  unfolding range_new_def
proof (rule runs_bind, rule runs_node_bounds_any[OF ok])
  have off: "cursor_on (blocks T) cursor_new_detached" by (simp add: cursor_on_def cursor_new_detached_def)
  show "runs (bindP (case None of None \<Rightarrow> ret cursor_new_detached
        | Some b \<Rightarrow> cursor_new (Some (fst (bounds_start b))) (snd (bounds_start b))) (\<lambda>c.
      bindP (case None of None \<Rightarrow> ret cursor_new_detached
        | Some b \<Rightarrow> cursor_new (Some (fst (bounds_end b))) (snd (bounds_end b))) (\<lambda>bc.
      ret \<lparr>rg_cursor = c, rg_back = bc, rg_bounds = None\<rparr>))) A Q"
    unfolding option.case bindP_ret by (rule runs_ret, rule Q) (simp add: range_on_def off)
  fix a e assume ae: "a < length (addrs (blocks T))" "e < length (addrs (blocks T))"
  show "runs (bindP (case Some (bounds_at (blocks T) a e) of None \<Rightarrow> ret cursor_new_detached
        | Some b \<Rightarrow> cursor_new (Some (fst (bounds_start b))) (snd (bounds_start b))) (\<lambda>c.
      bindP (case Some (bounds_at (blocks T) a e) of None \<Rightarrow> ret cursor_new_detached
        | Some b \<Rightarrow> cursor_new (Some (fst (bounds_end b))) (snd (bounds_end b))) (\<lambda>bc.
      ret \<lparr>rg_cursor = c, rg_back = bc, rg_bounds = Some (bounds_at (blocks T) a e)\<rparr>))) A Q"
    unfolding option.case bounds_ends
    by (rule runs_bind, rule runs_cursor_new_pos[OF bmap_chain[OF ok] ae(1)], rule runs_bind,
        rule runs_cursor_new_pos[OF bmap_chain[OF ok] ae(2)], rule runs_ret, rule Q) (simp add: range_on_def cursor_on_pos)
qed

lemma range_mut_moves:
  assumes "rewritten m A0 T0 A" "range_on (blocks T0) r"
  shows "if_runs (range_mut_advance r) A (\<lambda>r' A'. A' = A \<and> range_on (blocks T0) r')"
    and "if_runs (range_mut_advance_back r) A (\<lambda>r' A'. A' = A \<and> range_on (blocks T0) r')"
proof -
  have c: "cursor_on (blocks T0) (rg_cursor r)" "cursor_on (blocks T0) (rg_back r)"
    using assms(2) by (simp_all add: range_on_def)
  show "if_runs (range_mut_advance r) A (\<lambda>r' A'. A' = A \<and> range_on (blocks T0) r')"
    unfolding range_mut_advance_def
    by (rule if_runs_then[OF rewritten_advance(1)[OF assms(1) c(1)]])
      (auto simp: range_on_def cursor_on_detach c(2) intro!: if_runs_bind if_runs_lift if_runs_ret)
  show "if_runs (range_mut_advance_back r) A (\<lambda>r' A'. A' = A \<and> range_on (blocks T0) r')"
    unfolding range_mut_advance_back_def
    by (rule if_runs_then[OF rewritten_advance(2)[OF assms(1) c(2)]])
      (auto simp: range_on_def cursor_on_detach c(1) intro!: if_runs_bind if_runs_lift if_runs_ret)
qed

lemma range_mut_step_ok:
  assumes w: "rewritten m A0 T0 A" and r: "range_on (blocks T0) r"
  shows "if_runs (range_mut_step op r) A (\<lambda>x A'. rewritten m A0 T0 A' \<and> range_on (blocks T0) (snd x))"
proof -
  have c: "cursor_on (blocks T0) (rg_cursor r)" "cursor_on (blocks T0) (rg_back r)"
    using r by (simp_all add: range_on_def)
  note put = if_runs_write_then[OF w c(1)] if_runs_write_then[OF w c(2)] and move = range_mut_moves[where m = m and ?A0.0 = A0, OF _ r]
  show ?thesis
    by (cases op) (auto simp: range_mut_next_def range_mut_next_back_def range_mut_peek_mut_def range_mut_peek_back_mut_def
        r w intro!: put if_runs_ret if_runs_then[OF move(1)] if_runs_then[OF move(2)] split: option.splits)
qed

lemma if_runs_range_mut_use:
  fixes A :: "('k::linorder, 'v) vheap"
  assumes ok: "bmap_ok A m T"
  shows "if_runs (range_mut_use ops m bs) A (\<lambda>r A'. rewritten m A T A')"
  unfolding range_mut_use_def range_mut_eqs
proof (rule if_runs_bind, rule if_runs_runs, rule runs_range_new_any[OF ok])
  fix r assume r: "range_on (blocks T) r"
  then have "rewritten m A T A \<and> range_on (blocks T) r" using rewritten_refl[OF ok] by simp
  from if_runs_ops[of "\<lambda>r A'. rewritten m A T A' \<and> range_on (blocks T) r" range_mut_step, OF _ this]
  show "if_runs (run_ops range_mut_step ops r) A (\<lambda>r A'. rewritten m A T A')"
    by (rule if_runs_conseq) (auto intro: range_mut_step_ok)
qed

text \<open>In a shared store: the keys of the map and the other maps stay.\<close>

lemma world_rewritten:
  fixes prog :: "('k::linorder, 'v, 'a) sprog"
  assumes "world_ok tight s ms kvss" "i < length ms" "prog s = Inr (r, s')"
    and "\<And>A T. bmap_ok A (ms ! i) T \<Longrightarrow> if_runs prog A (\<lambda>r A'. rewritten (ms ! i) A T A')"
  shows "\<exists>kvs. map fst kvs = map fst (kvss ! i) \<and> world_ok False s' ms (kvss[i := kvs])"
proof -
  have "\<exists>kvs. map fst kvs = map fst (kvss ! i) \<and> world_ok False s' (ms[i := ms ! i]) (kvss[i := kvs])"
  proof (rule world_if_runs[where g = "\<lambda>_. ms ! i" and P = "\<lambda>kvs. map fst kvs = map fst (kvss ! i)"])
    show "world_ok tight s ms kvss" "i < length ms" "prog s = Inr (r, s')" by (rule assms)+
    fix A T assume T: "bmap_ok A (ms ! i) T" "contents T = kvss ! i"
    show "if_runs prog A (\<lambda>r A'. \<exists>T' S'. bmap_ok A' (ms ! i) T' \<and> map fst (contents T') = map fst (kvss ! i) \<and>
        owned T' \<subseteq> S' \<and> framed A (owned T) A' S')"
      by (rule if_runs_conseq[OF assms(4)[OF T(1)]]) (use T(2) in \<open>auto simp: rewritten_def\<close>)
  qed
  then show ?thesis by simp
qed

end
