(* ===== verification/IntoIterBack.thy ===== *)
theory IntoIterBack
  imports IntoIter
begin

text \<open>
  The reversed loop over \<open>IntoIter\<close>: \<open>next_back\<close> alone. It frees a leaf when it has yielded its first
  entry, and with it the ancestors whose first child was left (\<open>dealloc_up_firsts\<close>).
\<close>

subsection \<open>The reversed loop\<close>

fun into_iter_collect_back :: "nat \<Rightarrow> iter \<Rightarrow> ('k, 'v, ('k \<times> 'v) list) sprog" where
  "into_iter_collect_back 0 it = fail OutOfFuel"
| "into_iter_collect_back (Suc fuel) it =
     bindP (into_iter_next_back it) (\<lambda>(kv, it).
     case kv of None \<Rightarrow> ret []
     | Some x \<Rightarrow> bindP (into_iter_collect_back fuel it) (\<lambda>xs. ret (x # xs)))"

definition into_iter_rev_all :: "bmap \<Rightarrow> ('k, 'v, ('k \<times> 'v) list) sprog" where
  "into_iter_rev_all m = bindP (into_iter_new m) (\<lambda>it. into_iter_collect_back (Suc (it_length it)) it)"

subsection \<open>The part of the tree that is before the cursor of the back\<close>

fun right_ptrs :: "('k, 'v) path \<Rightarrow> ptr set" where
  "right_ptrs [] = {}"
| "right_ptrs (Fr p ks1 ts1 ks2 ts2 # c) = ptrss ts2 \<union> right_ptrs c"

text \<open>The ancestors that have no child before the path.\<close>

fun popped_back :: "('k, 'v) path \<Rightarrow> ptr set" where
  "popped_back [] = {}"
| "popped_back (Fr p ks1 ts1 ks2 ts2 # c) = (if ts1 = [] then insert p (popped_back c) else {})"

fun at_start :: "('k, 'v) path \<Rightarrow> bool" where
  "at_start [] = True"
| "at_start (Fr p ks1 ts1 ks2 ts2 # c) = (ts1 = [] \<and> at_start c)"

lemma right_ptrs_subset: "right_ptrs c \<subseteq> set (path_ptrs c)"
  by (induction c rule: right_ptrs.induct) auto

lemma at_start_all:
  "at_start c \<Longrightarrow> right_ptrs c \<union> set (ptrs t) \<union> popped_back c = set (ptrs (plug c t))"
proof (induction c t rule: plug.induct)
  case (2 p ks1 ts1 ks2 ts2 c t)
  from 2 show ?case by (auto simp: plug_ptrs)
qed simp

lemma at_start_left_leafs: "at_start c \<Longrightarrow> left_leafs c = []"
  by (induction c rule: at_start.induct) auto

lemma right_ptrs_append: "right_ptrs (c @ d) = right_ptrs c \<union> right_ptrs d"
  by (induction c rule: right_ptrs.induct) auto

lemma left_leafs_append: "left_leafs (c @ d) = left_leafs d @ left_leafs c"
  by (induction c rule: left_leafs.induct) auto

text \<open>The rightmost leaf of a tree.\<close>

lemma last_path:
  "bal h t \<Longrightarrow> \<exists>d p ks vs. t = plug d (Lf p ks vs) \<and> path_shape 0 d \<and> length d = h \<and> length vs = length ks \<and>
     right_ptrs d = {} \<and> leafs t = left_leafs d @ [(p, ks, vs)]"
proof (induction h arbitrary: t)
  case 0
  then obtain p ks vs where "t = Lf p ks vs" "length vs = length ks" by (auto simp: bal_leaf_cases)
  then show ?case by (intro exI[of _ "[]"]) auto
next
  case (Suc h)
  then obtain q ks' ts u where t: "t = Nd q ks' (ts @ [u])" "length ts = length ks'" "bal h u" "\<forall>u\<in>set ts. bal h u"
    by (auto simp: bal_Suc_cases length_Suc_conv_rev)
  from Suc.IH[OF t(3)] obtain d p ks vs where d: "u = plug d (Lf p ks vs)" "path_shape 0 d" "length d = h"
      "length vs = length ks" "right_ptrs d = {}" "leafs u = left_leafs d @ [(p, ks, vs)]" by blast
  show ?case
    by (intro exI[of _ "d @ [Fr q ks' ts [] []]"] exI[of _ p] exI[of _ ks] exI[of _ vs])
      (use t d in \<open>simp add: plug_append path_shape_append right_ptrs_append left_leafs_append\<close>)
qed

text \<open>The leaf before the tree in the hole of a path: what lies after the new path is what lay after the
  old one, the tree, and the ancestors that were left.\<close>

lemma prev_path:
  "path_shape h c \<Longrightarrow> bal h t \<Longrightarrow> \<not> at_start c \<Longrightarrow>
   \<exists>d p ks vs. plug c t = plug d (Lf p ks vs) \<and> path_shape 0 d \<and> length vs = length ks \<and>
     right_ptrs d = right_ptrs c \<union> set (ptrs t) \<union> popped_back c \<and> left_leafs c = left_leafs d @ [(p, ks, vs)]"
proof (induction c t arbitrary: h rule: plug.induct)
  case (2 q ks1 ts1 ks2 ts2 c t)
  show ?case
  proof (cases ts1 rule: rev_cases)
    case Nil
    with "2.prems" have "bal (Suc h) (Nd q (ks1 @ ks2) (ts1 @ t # ts2))" "\<not> at_start c" by auto
    from "2.IH"[OF _ this] "2.prems"(1) show ?thesis using Nil by (auto simp: Un_ac)
  next
    case (snoc ts u)
    with "2.prems" obtain ks k where ks1: "ks1 = ks @ [k]" "length ts = length ks" "bal h u"
      by (cases ks1 rule: rev_cases) auto
    from last_path[OF ks1(3)] obtain d p ks' vs where d: "u = plug d (Lf p ks' vs)" "path_shape 0 d" "length d = h"
        "length vs = length ks'" "right_ptrs d = {}" "leafs u = left_leafs d @ [(p, ks', vs)]" by blast
    show ?thesis
      by (intro exI[of _ "d @ Fr q ks ts (k # ks2) (t # ts2) # c"] exI[of _ p] exI[of _ ks'] exI[of _ vs])
        (use d ks1 snoc "2.prems" in \<open>auto simp: plug_append path_shape_append right_ptrs_append left_leafs_append\<close>)
  qed
qed simp

text \<open>Climbing frees the node and the ancestors that were left.\<close>

lemma runs_up_firsts_step:
  assumes "B q = Some v" "\<not> raw v" "i \<le> vlen v" "i \<noteq> 0 \<Longrightarrow> Q () B"
    "i = 0 \<Longrightarrow> runs (case vpar v of None \<Rightarrow> ret () | Some address \<Rightarrow> up_firsts f address) (B(q := None)) Q"
  shows "runs (up_firsts (Suc f) (q, i)) B Q"
  unfolding up_firsts.simps
proof (rule runs_bind, rule runs_len_at[where A = B, OF assms(1)], rule runs_bind, rule runs_assert)
  show "runs (if i \<noteq> 0 then ret () else bindP (get_at q node_parent) (\<lambda>par. bindP (dealloc q) (\<lambda>_.
      case par of None \<Rightarrow> ret () | Some address \<Rightarrow> up_firsts f address))) B Q"
  proof (cases "i = 0")
    case True
    have "runs (bindP (get_at q node_parent) (\<lambda>par. bindP (dealloc q) (\<lambda>_.
        case par of None \<Rightarrow> ret () | Some address \<Rightarrow> up_firsts f address))) B Q"
      by (rule runs_bind, rule runs_get_at[where A = B and r = "vpar v", OF assms(1)])
        (use assms(1,2,5) True in \<open>auto intro!: runs_bind runs_dealloc\<close>)
    then show ?thesis using True by simp
  qed (use assms(4) in \<open>simp add: runs_ret\<close>)
qed (rule assms(3))

lemma runs_up_firsts:
  assumes "path_rep A c q par" "path_shape h c" "distinct (path_ptrs c)" "q \<notin> set (path_ptrs c)"
    "B q = Some v" "\<not> raw v" "vpar v = par" "i \<le> vlen v"
    "\<And>r. r \<in> set (path_ptrs c) \<Longrightarrow> r \<notin> right_ptrs c \<Longrightarrow> B r = A r"
    "length c < n" "i \<noteq> 0 \<Longrightarrow> Q () B" "i = 0 \<Longrightarrow> Q () (B |` (- insert q (popped_back c)))"
  shows "runs (up_firsts n (q, i)) B Q"
  using assms
proof (induction A c q par arbitrary: h B v n i rule: path_rep.induct)
  case (1 A q par)
  then obtain f where n: "n = Suc f" by (cases n) auto
  have eq: "B |` (- {q}) = B(q := None)" by (auto simp: fun_eq_iff restrict_map_def)
  have none: "vpar v = None" using "1.prems"(1,7) by simp
  show ?case unfolding n
    by (rule runs_up_firsts_step[where B = B and Q = Q and i = i, OF "1.prems"(5,6,8,11)], assumption,
        simp only: none option.case, rule runs_ret, rule "1.prems"(12)[unfolded popped_back.simps eq])
next
  case (2 A p ks1 ts1 ks2 ts2 c q par)
  from "2.prems"(1) obtain ppar where P: "par = Some (p, length ts1)"
      "A p = Some (VInt ppar (ks1 @ ks2) (map root_of ts1 @ q # map root_of ts2))" "path_rep A c p ppar" by auto
  obtain f where n: "n = Suc f" "length c < f" using "2.prems"(10) by (cases n) auto
  let ?c = "Fr p ks1 ts1 ks2 ts2 # c" and ?B = "B(q := None)"
  have d: "p \<notin> ptrss ts2" "p \<notin> set (path_ptrs c)" "distinct (path_ptrs c)" "p \<noteq> q"
    "q \<notin> set (path_ptrs c)" "ptrss ts2 \<inter> set (path_ptrs c) = {}"
    using "2.prems"(3,4) by auto
  have "p \<notin> right_ptrs ?c" using d right_ptrs_subset[of c] by auto
  then have Bp: "?B p = Some (VInt ppar (ks1 @ ks2) (map root_of ts1 @ q # map root_of ts2))"
    using "2.prems"(9)[of p] P(2) d(4) by simp
  have len: "length ts1 = length ks1" "path_shape (Suc h) c" using "2.prems"(2) by auto
  have keep: "?B r = A r" if "r \<in> set (path_ptrs c)" "r \<notin> right_ptrs c" for r
  proof -
    have "r \<notin> ptrss ts2" using that(1) d(6) by (metis disjoint_iff)
    with that d(5) "2.prems"(9)[of r] show ?thesis by auto
  qed
  have eq: "ts1 \<noteq> [] \<Longrightarrow> ?B = B |` (- insert q (popped_back ?c))"
    "ts1 = [] \<Longrightarrow> ?B |` (- insert p (popped_back c)) = B |` (- insert q (popped_back ?c))"
    by (auto simp: fun_eq_iff restrict_map_def)
  have stop: "Q () ?B" if "i = 0" "length ts1 \<noteq> 0"
    unfolding eq(1)[OF that(2)[unfolded length_0_conv]] by (rule "2.prems"(12)[OF that(1)])
  have climb: "Q () (?B |` (- insert p (popped_back c)))" if "i = 0" "length ts1 = 0"
    unfolding eq(2)[OF that(2)[unfolded length_0_conv]] by (rule "2.prems"(12)[OF that(1)])
  have up: "i = 0 \<Longrightarrow> runs (up_firsts f (p, length ts1)) ?B Q"
    by (rule "2.IH"[OF P(3) len(2) d(3,2) Bp _ _ _ keep n(2) stop climb]) (simp_all add: len(1))
  show ?case unfolding n
    by (rule runs_up_firsts_step[where B = B and Q = Q and i = i, OF "2.prems"(5,6,8,11)], assumption)
      (use up P(1) "2.prems"(7) in simp)
qed

lemma back_path_dom:
  "path_rep A c q par \<Longrightarrow> distinct (path_ptrs c) \<Longrightarrow>
   \<exists>S. card S = length c \<and> finite S \<and> S \<subseteq> set (path_ptrs c) \<and> S \<inter> right_ptrs c = {} \<and> S \<subseteq> dom A"
proof (induction A c q par rule: path_rep.induct)
  case (2 A p ks1 ts1 ks2 ts2 c q par)
  then obtain ppar where P: "A p = Some (VInt ppar (ks1 @ ks2) (map root_of ts1 @ q # map root_of ts2))"
    "path_rep A c p ppar" by auto
  from "2.IH"[OF P(2)] "2.prems"(2) obtain S where S: "card S = length c" "finite S" "S \<subseteq> set (path_ptrs c)"
      "S \<inter> right_ptrs c = {}" "S \<subseteq> dom A" by auto
  have d: "p \<notin> set (path_ptrs c)" "p \<notin> ptrss ts2" "ptrss ts2 \<inter> set (path_ptrs c) = {}" using "2.prems"(2) by auto
  have "p \<notin> right_ptrs c" "p \<notin> S" using d(1) right_ptrs_subset[of c] S(3) by auto
  moreover have "S \<inter> ptrss ts2 = {}" using d(3) S(3) by blast
  ultimately show ?case using S P(1) d(2)
    by (intro exI[of _ "insert p S"]) auto
qed auto

lemma back_fuel_enough:
  assumes "path_rep A c q par" "distinct (path_ptrs c)" "finite (dom (A |` (- right_ptrs c)))"
  shows "length c \<le> card (dom (A |` (- right_ptrs c)))"
proof -
  from back_path_dom[OF assms(1,2)] obtain S where S: "card S = length c" "S \<inter> right_ptrs c = {}" "S \<subseteq> dom A" by blast
  then have "S \<subseteq> dom (A |` (- right_ptrs c))" by auto
  then show ?thesis using card_mono[OF assms(3)] S(1) by metis
qed

lemma runs_dealloc_up_firsts:
  fixes A :: "('k, 'v) vheap"
  assumes t: "tree_in A (plug c (Lf p ks vs))" "path_shape 0 c" and i: "i < length ks"
    and B: "B = A |` (- right_ptrs c)"
    and stay: "i \<noteq> 0 \<Longrightarrow> Q () B"
    and leave: "i = 0 \<Longrightarrow> Q () (A |` (- (right_ptrs c \<union> insert p (popped_back c))))"
  shows "runs (dealloc_up_firsts (p, i)) B Q"
proof -
  obtain par pv nx where p: "A p = Some (VLeaf par ks vs pv nx)" "path_rep A c p par" using t(1) by (rule tree_in_leaf)
  have d: "distinct (path_ptrs c)" "p \<notin> set (path_ptrs c)" using t(1) by (simp_all add: tree_in_def plug_distinct)
  then have "p \<notin> right_ptrs c" using right_ptrs_subset[of c] by auto
  then have Bp: "B p = Some (VLeaf par ks vs pv nx)" using p(1) B by simp
  have fin: "i = 0 \<Longrightarrow> Q () (B |` (- insert p (popped_back c)))" using leave unfolding B restrict_union by simp
  have "runs (up_firsts (Suc n) (p, i)) B Q" if "finite (dom B)" "card (dom B) \<le> n" for n
    by (rule runs_up_firsts[where B = B and A = A and n = "Suc n", OF p(2) t(2) d Bp])
      (use back_fuel_enough[OF p(2) d(1)] that stay fin i B in simp_all)
  then show ?thesis unfolding dealloc_up_firsts_def by (rule runs_with_fuel)
qed

subsection \<open>One step\<close>

text \<open>The iterator's back is at index \<open>i\<close> of the leaf in the hole of \<open>c\<close>; all that lies after is freed.\<close>

definition consuming_back ::
    "('k, 'v) vheap \<Rightarrow> ('k, 'v) bt \<Rightarrow> iter \<Rightarrow> ('k \<times> 'v) list \<Rightarrow> ('k, 'v) vheap \<Rightarrow> bool" where
  "consuming_back A t it xs B \<longleftrightarrow> it_length it = length xs \<and>
     (if xs = [] then B = A |` (- set (ptrs t))
      else \<exists>c p ks vs i. t = plug c (Lf p ks vs) \<and> path_shape 0 c \<and> length vs = length ks \<and> i < length ks \<and>
        B = A |` (- right_ptrs c) \<and> it_back it = \<lparr>cnode = Some p, cindex = i\<rparr> \<and>
        xs = concat (map bentries (left_leafs c)) @ take (Suc i) (zip ks vs))"

lemma consuming_backI:
  assumes "it_length it = length xs" "xs \<noteq> []" "t = plug c (Lf p ks vs)" "path_shape 0 c" "length vs = length ks"
    "i < length ks" "B = A |` (- right_ptrs c)" "it_back it = \<lparr>cnode = Some p, cindex = i\<rparr>"
    "xs = concat (map bentries (left_leafs c)) @ take (Suc i) (zip ks vs)"
  shows "consuming_back A t it xs B"
  unfolding consuming_back_def using assms by auto

lemma consuming_back_snoc:
  "consuming_back A t it (xs @ [x]) B \<Longrightarrow> it_length it = Suc (length xs) \<and>
     (\<exists>c p ks vs i. t = plug c (Lf p ks vs) \<and> path_shape 0 c \<and> length vs = length ks \<and> i < length ks \<and>
        B = A |` (- right_ptrs c) \<and> it_back it = \<lparr>cnode = Some p, cindex = i\<rparr> \<and>
        xs @ [x] = concat (map bentries (left_leafs c)) @ take (Suc i) (zip ks vs))"
  unfolding consuming_back_def by (simp only: snoc_eq_iff_butlast if_False length_append_singleton simp_thms)

lemma runs_advance_back_at:
  assumes p: "A p = Some (VLeaf par ks vs pv nx)"
    and stay: "i \<noteq> 0 \<Longrightarrow> Q \<lparr>cnode = Some p, cindex = i - 1\<rparr> A"
    and first: "i = 0 \<Longrightarrow> pv = None \<Longrightarrow> Q \<lparr>cnode = None, cindex = 0\<rparr> A"
    and prev: "\<And>q. i = 0 \<Longrightarrow> pv = Some q \<Longrightarrow> \<exists>par' ks' vs' pv' nx'. A q = Some (VLeaf par' ks' vs' pv' nx') \<and>
      ks' \<noteq> [] \<and> Q \<lparr>cnode = Some q, cindex = length ks' - 1\<rparr> A"
  shows "runs (cursor_advance_back \<lparr>cnode = Some p, cindex = i\<rparr>) A Q"
proof (cases "i = 0")
  case False
  then show ?thesis using stay by (simp add: cursor_advance_back_def runs_ret)
next
  case True
  have pr: "runs (get_at p node_prev) A (\<lambda>r A'. r = pv \<and> A' = A)"
    by (rule runs_get_at[where A = A, OF p, OF node_prev_view], assumption) simp
  show ?thesis unfolding cursor_advance_back_def cursor.simps option.case True
  proof (simp, rule runs_then[OF pr])
    show "runs (bindP (case pv of None \<Rightarrow> ret 0 | Some node \<Rightarrow> get_at node (\<lambda>n. nat_sub (len n) 1))
        (\<lambda>i. ret \<lparr>cnode = pv, cindex = i\<rparr>)) A Q"
    proof (cases pv)
      case None
      then show ?thesis unfolding None option.case bindP_ret by (intro runs_ret first[OF True None])
    next
      case (Some q)
      from prev[OF True this] obtain par' ks' vs' pv' nx' where q: "A q = Some (VLeaf par' ks' vs' pv' nx')"
          "ks' \<noteq> []" "Q \<lparr>cnode = Some q, cindex = length ks' - 1\<rparr> A" by blast
      show ?thesis unfolding Some option.case
        by (rule runs_bind, rule runs_get_at[where A = A and r = "length ks' - 1", OF q(1)])
          (use node_last_idx[OF _ q(2)] q(3) in \<open>auto simp: runs_ret simp del: node_view.simps\<close>)
    qed
  qed
qed

text \<open>The leaf before the one at the back is still there, so that the cursor may read its length.\<close>

lemma back_prev_live:
  fixes A :: "('k::linorder, 'v) vheap"
  assumes t: "tree_in A (plug c (Lf p ks vs))" "bal h (plug c (Lf p ks vs))" "filled 1 (plug c (Lf p ks vs))"
    "path_shape 0 c" "length vs = length ks" and B: "B = A |` (- right_ptrs c)"
  shows "\<exists>par pv nx. B p = Some (VLeaf par ks vs pv nx) \<and>
    (pv = None \<longrightarrow> at_start c) \<and>
    (\<forall>q. pv = Some q \<longrightarrow> (\<exists>d ks' vs' par' pv' nx'. \<not> at_start c \<and> plug c (Lf p ks vs) = plug d (Lf q ks' vs') \<and>
      path_shape 0 d \<and> length vs' = length ks' \<and> ks' \<noteq> [] \<and> B q = Some (VLeaf par' ks' vs' pv' nx') \<and>
      right_ptrs d = right_ptrs c \<union> insert p (popped_back c) \<and> left_leafs c = left_leafs d @ [(q, ks', vs')]))"
proof -
  let ?t = "plug c (Lf p ks vs)"
  have L: "leafs ?t = left_leafs c @ (p, ks, vs) # right_leafs c" by (simp add: leafs_plug)
  have "chain A None (leafs ?t) None"
    by (rule linked_chain)
      (use t leafs_ok[OF t(2,3) zero_less_one] leafs_rep(1)[of A None ?t] in \<open>simp_all add: tree_in_def map_fst_leafs\<close>)
  from chain_at[OF this[unfolded L]] obtain par nx where
    p: "A p = Some (VLeaf par ks vs (last_or None (map fst (left_leafs c))) nx)" by blast
  have live: "B q = A q" if "?t = plug d (Lf q ks' vs')" "right_ptrs c \<subseteq> right_ptrs d" for d q ks' vs'
  proof -
    have "q \<notin> set (path_ptrs d)" using t(1) unfolding that(1) by (auto simp: tree_in_def plug_distinct)
    then have "q \<notin> right_ptrs c" using right_ptrs_subset[of d] that(2) by auto
    then show ?thesis using B by simp
  qed
  show ?thesis
  proof (cases "at_start c")
    case True
    then show ?thesis using p live[of c p ks vs] at_start_left_leafs[OF True] by (simp add: last_or_def)
  next
    case False
    have "bal 0 (Lf p ks vs)" using t(5) by simp
    from prev_path[OF t(4) this False] obtain d q ks' vs' where d: "?t = plug d (Lf q ks' vs')" "path_shape 0 d"
        "length vs' = length ks'" "right_ptrs d = right_ptrs c \<union> set (ptrs (Lf p ks vs)) \<union> popped_back c"
        "left_leafs c = left_leafs d @ [(q, ks', vs')]" by blast
    have "ks' \<noteq> []" using leafs_ok[OF t(2,3) zero_less_one, of q ks' vs'] L d(5) by auto
    moreover obtain par' pv' nx' where "A q = Some (VLeaf par' ks' vs' pv' nx')"
      using t(1) unfolding d(1) by (rule tree_in_leaf)
    moreover have "B q = A q" by (rule live[OF d(1)]) (auto simp: d(4))
    moreover have "last_or None (map fst (left_leafs c)) = Some q" using d(5) by (simp add: last_or_def)
    ultimately show ?thesis using p live[of c p ks vs] d False by auto
  qed
qed

lemma runs_into_iter_next_back:
  fixes A :: "('k::linorder, 'v) vheap"
  assumes t: "tree_in A t" "bal h t" "filled 1 t" and it: "consuming_back A t it (xs @ [x]) B"
    and Q: "\<And>it' B. consuming_back A t it' xs B \<Longrightarrow> it_cursor it' = it_cursor it \<Longrightarrow> Q (Some x, it') B"
  shows "runs (into_iter_next_back it) B Q"
proof -
  from it obtain c p ks vs i where c: "t = plug c (Lf p ks vs)" "path_shape 0 c" "length vs = length ks" "i < length ks"
      "B = A |` (- right_ptrs c)" "it_back it = \<lparr>cnode = Some p, cindex = i\<rparr>"
      "xs @ [x] = concat (map bentries (left_leafs c)) @ take (Suc i) (zip ks vs)" "it_length it = Suc (length xs)"
    using consuming_back_snoc[OF it] by blast
  from back_prev_live[OF t[unfolded c(1)] c(2,3,5)] obtain par pv nx where
    Bp: "B p = Some (VLeaf par ks vs pv nx)" and start: "pv = None \<Longrightarrow> at_start c"
    and before: "\<And>q. pv = Some q \<Longrightarrow> \<exists>d ks' vs' par' pv' nx'. \<not> at_start c \<and> plug c (Lf p ks vs) = plug d (Lf q ks' vs') \<and>
      path_shape 0 d \<and> length vs' = length ks' \<and> ks' \<noteq> [] \<and> B q = Some (VLeaf par' ks' vs' pv' nx') \<and>
      right_ptrs d = right_ptrs c \<union> insert p (popped_back c) \<and> left_leafs c = left_leafs d @ [(q, ks', vs')]"
    by blast
  have tk: "take (Suc i) (zip ks vs) = take i (zip ks vs) @ [(ks ! i, vs ! i)]"
    using c(3,4) by (simp add: take_Suc_conv_app_nth)
  have x: "x = (ks ! i, vs ! i)" "xs = concat (map bentries (left_leafs c)) @ take i (zip ks vs)"
    using c(7) unfolding tk by simp_all
  let ?it = "\<lambda>b. it\<lparr>it_back := b, it_length := it_length it - 1\<rparr>"
  have l: "it_length (?it b) = length xs" for b using c(8) by simp
  let ?B = "A |` (- (right_ptrs c \<union> insert p (popped_back c)))"
  have stay: "Q (Some x, ?it \<lparr>cnode = Some p, cindex = i - 1\<rparr>) B" if "i \<noteq> 0"
    by (rule Q, rule consuming_backI[OF l _ c(1,2,3) _ c(5), where i = "i - 1"]) (use that x(2) c(3,4) in auto)
  have first: "Q (Some x, ?it \<lparr>cnode = None, cindex = 0\<rparr>) ?B" if "i = 0" "pv = None"
  proof (rule Q)
    have "right_ptrs c \<union> insert p (popped_back c) = set (ptrs t)"
      using at_start_all[OF start[OF that(2)], of "Lf p ks vs"] c(1) by simp
    then show "consuming_back A t (?it \<lparr>cnode = None, cindex = 0\<rparr>) xs ?B"
      using l x(2) at_start_left_leafs[OF start[OF that(2)]] that(1) unfolding consuming_back_def by simp
  qed simp
  have prev: "\<exists>par' ks' vs' pv' nx'. B q = Some (VLeaf par' ks' vs' pv' nx') \<and> ks' \<noteq> [] \<and>
      Q (Some x, ?it \<lparr>cnode = Some q, cindex = length ks' - 1\<rparr>) ?B" if "i = 0" "pv = Some q" for q
  proof -
    from before[OF that(2)] obtain d ks' vs' par' pv' nx' where e: "plug c (Lf p ks vs) = plug d (Lf q ks' vs')"
        "path_shape 0 d" "length vs' = length ks'" "ks' \<noteq> []" "B q = Some (VLeaf par' ks' vs' pv' nx')"
        "right_ptrs d = right_ptrs c \<union> insert p (popped_back c)" "left_leafs c = left_leafs d @ [(q, ks', vs')]" by blast
    have z: "zip ks' vs' \<noteq> []" using e(3,4) by (cases ks'; cases vs') auto
    have "consuming_back A t (?it \<lparr>cnode = Some q, cindex = length ks' - 1\<rparr>) xs ?B"
      by (rule consuming_backI[OF l _ _ e(2,3), where i = "length ks' - 1"])
        (use e x(2) z c(1) that(1) in auto)
    then show ?thesis using e(4,5) Q by auto
  qed
  have adv: "runs (cursor_advance_back \<lparr>cnode = Some p, cindex = i\<rparr>) B
      (\<lambda>b B'. B' = B \<and> (i \<noteq> 0 \<longrightarrow> Q (Some x, ?it b) B) \<and> (i = 0 \<longrightarrow> Q (Some x, ?it b) ?B))"
    by (rule runs_advance_back_at[where A = B, OF Bp]) (use stay first prev in blast)+
  have free: "runs (dealloc_up_firsts (p, i)) B (\<lambda>_. Q (Some x, ?it b))"
    if "i \<noteq> 0 \<longrightarrow> Q (Some x, ?it b) B" "i = 0 \<longrightarrow> Q (Some x, ?it b) ?B" for b
    by (rule runs_dealloc_up_firsts[OF t(1)[unfolded c(1)] c(2,4,5)]) (use that in simp_all)
  show ?thesis unfolding into_iter_next_back_def c(6) cursor_address_def cursor.simps option.map
    using c(8) x(1)
    by (auto intro!: runs_bind runs_read_at[where A = B, OF Bp c(4)] runs_lift
        runs_conseq[OF adv] runs_conseq[OF free] runs_ret)
qed

subsection \<open>The whole loop\<close>

lemma into_iter_next_back_none: "it_length it = 0 \<Longrightarrow> into_iter_next_back it = ret (None, it)"
  by (simp add: into_iter_next_back_def)

lemma runs_into_iter_collect_back:
  fixes A :: "('k::linorder, 'v) vheap"
  assumes t: "tree_in A t" "bal h t" "filled 1 t"
  shows "consuming_back A t it xs B \<Longrightarrow> length xs < n \<Longrightarrow> Q (rev xs) (A |` (- set (ptrs t))) \<Longrightarrow>
    runs (into_iter_collect_back n it) B Q"
proof (induction xs arbitrary: it B n Q rule: rev_induct)
  case Nil
  then obtain f where n: "n = Suc f" by (cases n) auto
  have it: "it_length it = 0" "B = A |` (- set (ptrs t))" using Nil(1) by (simp_all add: consuming_back_def)
  show ?case unfolding n into_iter_collect_back.simps into_iter_next_back_none[OF it(1)] bindP_ret prod.case option.case it(2)
    by (rule runs_ret, rule Nil(3)[unfolded rev.simps])
next
  case (snoc x xs)
  then obtain f where n: "n = Suc f" "length xs < f" by (cases n) auto
  have fin: "Q (x # rev xs) (A |` (- set (ptrs t)))" using snoc.prems(3) by simp
  show ?case unfolding n(1) into_iter_collect_back.simps
  proof (rule runs_bind, rule runs_into_iter_next_back[OF t snoc.prems(1)])
    fix it' B' assume "consuming_back A t it' xs B'"
    then have "runs (into_iter_collect_back f it') B' (\<lambda>xs A. Q (x # xs) A)"
      by (rule snoc.IH[OF _ n(2)]) (rule fin)
    then show "runs (case (Some x, it') of (kv, it) \<Rightarrow> case kv of None \<Rightarrow> ret []
        | Some x \<Rightarrow> bindP (into_iter_collect_back f it) (\<lambda>xs. ret (x # xs))) B' Q"
      by (auto intro!: runs_bind runs_ret elim!: runs_conseq)
  qed
qed

lemma consuming_back_start:
  fixes A :: "('k::linorder, 'v) vheap"
  assumes t: "tree_in A t" "bal h t" "filled 1 t" and it: "iter_at (leafs t) 0 (length (entries t)) it"
  shows "consuming_back A t it (entries t) A"
proof -
  have ne: "entries t \<noteq> []" by (rule entries_not_Nil[OF t(2,3)])
  from last_path[OF t(2)] obtain d p ks vs where d: "t = plug d (Lf p ks vs)" "path_shape 0 d"
      "length vs = length ks" "right_ptrs d = {}" "leafs t = left_leafs d @ [(p, ks, vs)]" by blast
  have "chain A None (leafs t) None"
    by (rule linked_chain)
      (use t leafs_ok[OF t(2,3) zero_less_one] leafs_rep(1)[of A None t] in \<open>simp_all add: tree_in_def map_fst_leafs\<close>)
  then have len: "length (addrs (leafs t)) = length (entries t)"
    using chain_lengths[of A None "leafs t" None] leafs_entries[OF t(2)] by simp
  have ks: "ks \<noteq> []" using leafs_ok[OF t(2,3) zero_less_one, of p ks vs] d(5) by auto
  have "length (entries t) - 1 = length (addrs (left_leafs d)) + (length ks - 1)" "length ks - 1 < bsize (p, ks, vs)"
    using ks d(5) len[symmetric] by (cases ks; simp)+
  then have "pos (leafs t) (length (entries t) - 1) = \<lparr>cnode = Some p, cindex = length ks - 1\<rparr>"
    using pos_split[of "length ks - 1" "(p, ks, vs)" "left_leafs d" "[]"] d(5) by simp
  then have cu: "it_back it = \<lparr>cnode = Some p, cindex = length ks - 1\<rparr>" "it_length it = length (entries t)"
    using it ne by (simp_all add: iter_at_def)
  show ?thesis
  proof (rule consuming_backI[OF cu(2) ne d(1,2,3) _ _ cu(1)])
    show "A = A |` (- right_ptrs d)" by (simp add: d(4) fun_eq_iff restrict_map_def)
    show "entries t = concat (map bentries (left_leafs d)) @ take (Suc (length ks - 1)) (zip ks vs)"
      using leafs_entries[OF t(2)] d(3,5) ks by simp
  qed (use ks in simp)
qed

text \<open>A whole reversed loop: the entries from the last to the first, and no node left.\<close>

lemma runs_into_iter_rev_all:
  fixes A :: "('k::linorder, 'v) vheap"
  assumes ok: "bmap_ok A m T" and Q: "Q (rev (contents T)) (A |` (- owned T))"
  shows "runs (into_iter_rev_all m) A Q"
  unfolding into_iter_rev_all_def into_iter_new_eq
proof (rule runs_bind, rule runs_iter_new[OF ok])
  fix it assume it: "iter_at (blocks T) 0 (length (contents T)) it"
  show "runs (into_iter_collect_back (Suc (it_length it)) it) A Q"
  proof (cases T)
    case None
    then have n: "it_length it = 0" using it by (simp add: iter_at_def)
    have "A |` (- {}) = A" by (simp add: fun_eq_iff restrict_map_def)
    then have "Q [] A" using Q None by simp
    then show ?thesis unfolding into_iter_collect_back.simps into_iter_next_back_none[OF n] bindP_ret prod.case option.case
      by (rule runs_ret)
  next
    case (Some t)
    with ok have t: "tree_in A t" "bal (height m) t" "filled 1 t" by (simp_all add: tree_ok_def)
    have "consuming_back A t it (entries t) A" by (rule consuming_back_start[OF t]) (use it Some in simp)
    from runs_into_iter_collect_back[where Q = Q, OF t this, of "Suc (it_length it)"] Q it show ?thesis
      by (simp add: Some iter_at_def del: into_iter_collect_back.simps)
  qed
qed

lemma world_into_iter_rev:
  assumes w: "world_ok tight s ms kvss" and i: "i < length ms"
  shows "\<exists>s'. into_iter_rev_all (ms ! i) s = Inr (rev (kvss ! i), s') \<and> world_ok tight s' (del_at i ms) (del_at i kvss)"
  by (rule world_consume[OF w i]) (rule runs_into_iter_rev_all)

end
