(* ===== verification/BothEnds.thy ===== *)
theory BothEnds
  imports IntoIter
begin

text \<open>
  \<open>IntoIter\<close> used from both ends. Each end frees a leaf when it has yielded its last entry in its own
  direction; neither knows of the other. When the two ends meet inside a leaf nobody frees it, and when
  the front has freed a leaf, the back cursor still follows the link into it. An iterator that is dropped
  before its end frees nothing more.
\<close>

subsection \<open>Taking a number of entries\<close>

fun into_iter_take :: "nat \<Rightarrow> iter \<Rightarrow> ('k, 'v, ('k \<times> 'v) list \<times> iter) sprog" where
  "into_iter_take 0 it = ret ([], it)"
| "into_iter_take (Suc n) it =
     bindP (into_iter_next it) (\<lambda>(kv, it).
     case kv of None \<Rightarrow> ret ([], it)
     | Some x \<Rightarrow> bindP (into_iter_take n it) (\<lambda>(xs, it). ret (x # xs, it)))"

fun into_iter_take_back :: "nat \<Rightarrow> iter \<Rightarrow> ('k, 'v, ('k \<times> 'v) list \<times> iter) sprog" where
  "into_iter_take_back 0 it = ret ([], it)"
| "into_iter_take_back (Suc n) it =
     bindP (into_iter_next_back it) (\<lambda>(kv, it).
     case kv of None \<Rightarrow> ret ([], it)
     | Some x \<Rightarrow> bindP (into_iter_take_back n it) (\<lambda>(xs, it). ret (x # xs, it)))"

definition into_iter_both :: "nat \<Rightarrow> nat \<Rightarrow> bmap \<Rightarrow> ('k, 'v, ('k \<times> 'v) list \<times> ('k \<times> 'v) list) sprog" where
  "into_iter_both i j m =
     bindP (into_iter_new m) (\<lambda>it.
     bindP (into_iter_take i it) (\<lambda>(xs, it).
     bindP (into_iter_take_back j it) (\<lambda>(ys, it). ret (xs, ys))))"

subsection \<open>The front\<close>

lemma runs_into_iter_take:
  fixes A :: "('k::linorder, 'v) vheap"
  assumes t: "tree_in A t" "bal h t" "filled 1 t"
  shows "consuming A t it (ys @ xs) B \<Longrightarrow>
    (\<And>it' B. consuming A t it' xs B \<Longrightarrow> it_back it' = it_back it \<Longrightarrow> Q (ys, it') B) \<Longrightarrow>
    runs (into_iter_take (length ys) it) B Q"
proof (induction ys arbitrary: it B Q)
  case Nil
  then show ?case unfolding list.size into_iter_take.simps by (intro runs_ret) simp
next
  case (Cons y ys)
  show ?case unfolding list.size into_iter_take.simps add_Suc_right add_0_right
  proof (rule runs_bind, rule runs_into_iter_next[OF t Cons.prems(1)[unfolded append_Cons]])
    fix it' B' assume it': "consuming A t it' (ys @ xs) B'" "it_back it' = it_back it"
    have "runs (into_iter_take (length ys) it') B' (\<lambda>(xs, it) A. Q (y # xs, it) A)"
      by (rule Cons.IH[OF it'(1)]) (use Cons.prems(2) it'(2) in simp)
    then show "runs (case (Some y, it') of (kv, it) \<Rightarrow> case kv of None \<Rightarrow> ret ([], it)
        | Some x \<Rightarrow> bindP (into_iter_take (length ys) it) (\<lambda>(xs, it). ret (x # xs, it))) B' Q"
      by (auto intro!: runs_bind runs_ret elim!: runs_conseq)
  qed
qed

lemma left_leafs_ptrs: "fst ` set (left_leafs c) \<subseteq> left_ptrs c"
proof (induction c rule: left_leafs.induct)
  case (2 p ks1 ts1 ks2 ts2 c)
  have "fst ` set (leafs u) \<subseteq> set (ptrs u)" for u :: "('a, 'b) bt"
    using leaves_in_ptrs[of u] map_fst_leafs[of u] by (metis set_map)
  with 2 show ?case by fastforce
qed simp

subsection \<open>The back in the last leaf\<close>

lemma back_step:
  assumes B: "B p = Some (VLeaf par ks vs pv nx)" "length vs = length ks" "Suc i < length ks"
    and it: "it_back it = \<lparr>cnode = Some p, cindex = Suc i\<rparr>" "it_length it = Suc n"
  shows "runs (into_iter_next_back it) B
    (\<lambda>r B'. r = (Some (ks ! Suc i, vs ! Suc i), it\<lparr>it_back := \<lparr>cnode = Some p, cindex = i\<rparr>, it_length := n\<rparr>) \<and> B' = B)"
proof -
  have stay: "runs (dealloc_up_firsts (p, Suc i)) B (\<lambda>r B'. r = () \<and> B' = B)"
  proof -
    have "runs (up_firsts (Suc f) (p, Suc i)) B (\<lambda>r B'. r = () \<and> B' = B)" for f
      unfolding up_firsts.simps
      by (rule runs_bind, rule runs_len_at[where A = B, OF B(1)], rule runs_bind, rule runs_assert)
        (use B(3) in \<open>simp_all add: runs_ret\<close>)
    then show ?thesis unfolding dealloc_up_firsts_def runs_def by blast
  qed
  have adv: "runs (cursor_advance_back \<lparr>cnode = Some p, cindex = Suc i\<rparr>) B (\<lambda>r B'. r = \<lparr>cnode = Some p, cindex = i\<rparr> \<and> B' = B)"
    by (simp add: cursor_advance_back_def runs_ret)
  have rd: "runs (cursor_read_key_value \<lparr>cnode = Some p, cindex = Suc i\<rparr>) B (\<lambda>r B'. r = Some (ks ! Suc i, vs ! Suc i) \<and> B' = B)"
    by (rule runs_read_at[where A = B, OF B(1,3)]) simp
  show ?thesis unfolding into_iter_next_back_def it(1) it(2) cursor_address_def cursor.simps option.map
    by (simp, rule runs_then[OF rd], simp, rule runs_then[OF adv], rule runs_then[OF stay]) (simp add: runs_ret it(2))
qed

lemma faults_take_back:
  assumes B: "B p = Some (VLeaf par ks vs (Some q) nx)" "length vs = length ks" "B q = None"
  shows "i < length ks \<Longrightarrow> it_back it = \<lparr>cnode = Some p, cindex = i\<rparr> \<Longrightarrow> it_length it = Suc i \<Longrightarrow>
    faults (into_iter_take_back (Suc i) it) B DanglingPointer"
proof (induction i arbitrary: it)
  case 0
  have rd: "runs (cursor_read_key_value \<lparr>cnode = Some p, cindex = 0\<rparr>) B (\<lambda>r B'. r = Some (ks ! 0, vs ! 0) \<and> B' = B)"
    by (rule runs_read_at[where A = B, OF B(1) 0(1)]) simp
  have pv: "runs (get_at p node_prev) B (\<lambda>r B'. r = Some q \<and> B' = B)"
    by (rule runs_get_at[where A = B, OF B(1), OF node_prev_view], assumption) simp
  have "faults (cursor_advance_back \<lparr>cnode = Some p, cindex = 0\<rparr>) B DanglingPointer"
    unfolding cursor_advance_back_def cursor.simps option.case
    by (simp, rule faults_then[OF pv], simp, rule faults_bind_now, rule faults_dangling[where A = B, OF B(3)])
  then have "faults (into_iter_next_back it) B DanglingPointer"
    unfolding into_iter_next_back_def 0(2,3) cursor_address_def cursor.simps option.map
    by (simp, intro faults_then[OF rd]) (simp add: faults_bind_now)
  then show ?case by (simp add: faults_bind_now)
next
  case (Suc i)
  note step = back_step[where B = B, OF B(1,2) Suc.prems]
  show ?case unfolding into_iter_take_back.simps(2)[of "Suc i"]
  proof (rule faults_then[OF step])
    have "faults (into_iter_take_back (Suc i) (it\<lparr>it_back := \<lparr>cnode = Some p, cindex = i\<rparr>, it_length := Suc i\<rparr>)) B DanglingPointer"
      by (rule Suc.IH) (use Suc.prems(1) in simp_all)
    then show "faults (case (Some (ks ! Suc i, vs ! Suc i), it\<lparr>it_back := \<lparr>cnode = Some p, cindex = i\<rparr>, it_length := Suc i\<rparr>) of
        (kv, it) \<Rightarrow> case kv of None \<Rightarrow> ret ([], it)
        | Some x \<Rightarrow> bindP (into_iter_take_back (Suc i) it) (\<lambda>(xs, it). ret (x # xs, it))) B DanglingPointer"
      unfolding prod.case option.case by (rule faults_bind_now)
  qed
qed

subsection \<open>The ends meet\<close>

lemma leafs_not_Nil: "bal h t \<Longrightarrow> leafs t \<noteq> []"
  using first_path[of h t] by auto

lemma last_two: "2 \<le> length xs \<Longrightarrow> \<exists>ys a b. xs = ys @ [a, b]"
proof (cases xs rule: rev_cases)
  case (snoc zs b)
  assume "2 \<le> length xs"
  with snoc show ?thesis by (cases zs rule: rev_cases) auto
qed simp

lemma two_leaves:
  assumes "bal h t" "filled 1 t" "0 < h"
  shows "\<exists>L0 q ks1 vs1 p ks vs. leafs t = (L0 @ [(q, ks1, vs1)]) @ [(p, ks, vs)]"
proof -
  obtain h' where "h = Suc h'" using assms(3) by (cases h) auto
  then obtain r rks ts where t: "t = Nd r rks ts" "length ts = length rks + 1" "\<forall>u\<in>set ts. bal h' u"
    using assms(1) by (auto simp: bal_Suc_cases)
  have "2 \<le> length ts" using assms(2) t(1,2) by simp
  then obtain us u w where ts: "ts = us @ [u, w]" using last_two by blast
  have "leafs u \<noteq> []" "leafs w \<noteq> []" using t(3) leafs_not_Nil unfolding ts by auto
  then have "2 \<le> length (leafs t)" unfolding t(1) ts by (cases "leafs u"; cases "leafs w") simp_all
  then obtain L0 b1 b2 where "leafs t = L0 @ [b1, b2]" using last_two by blast
  then show ?thesis by (cases b1; cases b2) simp
qed

lemma faults_into_iter_both:
  fixes A :: "('k::linorder, 'v) vheap"
  assumes ok: "bmap_ok A m T" and h: "0 < height m"
  shows "\<exists>i j. i + j = length (contents T) \<and> 0 < i \<and> 0 < j \<and> faults (into_iter_both i j m) A DanglingPointer"
proof -
  obtain t where T: "T = Some t" using ok h by (cases T) auto
  then have t: "tree_in A t" "bal (height m) t" "filled 1 t" using ok by (simp_all add: tree_ok_def)
  obtain L0 q ks1 vs1 p ks vs where L: "leafs t = (L0 @ [(q, ks1, vs1)]) @ [(p, ks, vs)]"
    using two_leaves[OF t(2,3) h] by metis
  let ?L1 = "L0 @ [(q, ks1, vs1)]"
  let ?ys = "concat (map bentries ?L1)"
  have ch: "chain A None (leafs t) None" using bmap_chain[OF ok] T by simp
  have p: "\<exists>par. A p = Some (VLeaf par ks vs (Some q) None)" "length vs = length ks" "ks \<noteq> []"
    using chain_at[of A None ?L1 p ks vs "[]" None] ch L by (auto simp: last_or_def)
  have ent: "entries t = ?ys @ zip ks vs" using leafs_entries[OF t(2)] L by simp
  have len1: "length (addrs ?L1) = length ?ys" using ch chain_lengths[of A None ?L1 "Some p"] by (simp add: L chain_append)
  have "faults (into_iter_both (length ?ys) (length ks) m) A DanglingPointer"
    unfolding into_iter_both_def into_iter_new_eq
  proof (rule faults_bind_later, rule runs_iter_new[OF ok], rule faults_bind_later)
    fix it assume it: "iter_at (blocks T) 0 (length (contents T)) it"
    have cs: "consuming A t it (?ys @ zip ks vs) A"
      using consuming_start[OF t, of it] it T ent by simp
    have "length (addrs (leafs t)) - 1 = length (addrs ?L1) + (length ks - 1)" using p(3) L by (cases ks) auto
    then have "pos (leafs t) (length (addrs (leafs t)) - 1) = \<lparr>cnode = Some p, cindex = length ks - 1\<rparr>"
      using pos_split[of "length ks - 1" "(p, ks, vs)" ?L1 "[]"] p(3) L by simp
    then have bk: "it_back it = \<lparr>cnode = Some p, cindex = length ks - 1\<rparr>"
      using it T p(2,3) ent length_contents[OF ok] by (simp add: iter_at_def)
    show "runs (into_iter_take (length ?ys) it) A
        (\<lambda>a A'. faults (case a of (xs, it) \<Rightarrow> bindP (into_iter_take_back (length ks) it) (\<lambda>(ys, it). ret (xs, ys))) A' DanglingPointer)"
    proof (rule runs_into_iter_take[OF t cs], unfold prod.case, rule faults_bind_now)
      fix it' B assume it': "consuming A t it' (zip ks vs) B" "it_back it' = it_back it"
      have ne: "zip ks vs \<noteq> []" using p(2,3) by (cases ks; cases vs) auto
      then obtain c p' ks' vs' i where c: "t = plug c (Lf p' ks' vs')" "length vs' = length ks'" "i < length ks'"
          "B = A |` (- left_ptrs c)" "zip ks vs = drop i (zip ks' vs') @ concat (map bentries (right_leafs c))"
          "it_length it' = length (zip ks vs)"
        using it'(1) unfolding consuming_def by (auto split: if_splits)
      have split: "left_leafs c @ (p', ks', vs') # right_leafs c = ?L1 @ [(p, ks, vs)]"
        using L c(1) by (simp add: leafs_plug)
      have "right_leafs c = []"
      proof (rule ccontr)
        assume "right_leafs c \<noteq> []"
        then obtain R where "right_leafs c = R @ [(p, ks, vs)]"
          using split by (cases "right_leafs c" rule: rev_cases) auto
        then have "length (zip ks vs) = length ks' - i + length (concat (map bentries R)) + length (zip ks vs)"
          using arg_cong[OF c(5), of length] c(2) p(2) by simp
        then show False using c(3) by simp
      qed
      then have cl: "left_leafs c = ?L1" "p' = p" using split by simp_all
      have d: "p \<notin> left_ptrs c" using t(1) c(1) cl(2) left_ptrs_subset[of c] by (auto simp: tree_in_def plug_distinct)
      have "q \<in> left_ptrs c" using left_leafs_ptrs[of c] cl(1) by auto
      then have B: "B q = None" "B p = A p" using c(4) d by simp_all
      obtain k where k: "length ks = Suc k" using p(3) by (cases ks) auto
      obtain par where "B p = Some (VLeaf par ks vs (Some q) None)" using p(1) B(2) by auto
      from faults_take_back[OF this p(2) B(1), of k it'] k bk it'(2) c(6) p(2)
      show "faults (into_iter_take_back (length ks) it') B DanglingPointer" by simp
    qed
  qed
  moreover have "length ?ys + length ks = length (contents T)" using ent T p(2) by simp
  moreover have "0 < length ?ys" "0 < length ks"
    using p(3) ch L chain_at[of A None L0 q ks1 vs1 "[(p, ks, vs)]" None] by auto
  ultimately show ?thesis by blast
qed

text \<open>In a map of one leaf the front never reaches the last index and the back never the first one.\<close>

lemma runs_take_back_inside:
  assumes B: "B p = Some (VLeaf par ks vs pv nx)" "length vs = length ks"
  shows "i < length ks \<Longrightarrow> n \<le> i \<Longrightarrow> it_back it = \<lparr>cnode = Some p, cindex = i\<rparr> \<Longrightarrow> it_length it = n \<Longrightarrow>
    (\<And>it. it_length it = 0 \<Longrightarrow> Q (rev (take n (drop (Suc i - n) (zip ks vs))), it) B) \<Longrightarrow>
    runs (into_iter_take_back n it) B Q"
proof (induction n arbitrary: i it Q)
  case 0
  then show ?case unfolding into_iter_take_back.simps by (intro runs_ret) simp
next
  case (Suc n)
  then obtain j where j: "i = Suc j" by (cases i) auto
  have lt: "n < length (drop (Suc j - n) (zip ks vs))" using Suc.prems(1,2) B(2) j by simp
  have e: "rev (take (Suc n) (drop (Suc i - Suc n) (zip ks vs))) =
      (ks ! i, vs ! i) # rev (take n (drop (Suc j - n) (zip ks vs)))"
    using Suc.prems(1,2) B(2) lt unfolding j by (simp add: take_Suc_conv_app_nth)
  note step = back_step[where B = B, OF B Suc.prems(1)[unfolded j] Suc.prems(3)[unfolded j] Suc.prems(4)]
  show ?case unfolding into_iter_take_back.simps
  proof (rule runs_then[OF step], unfold prod.case option.case, rule runs_bind, rule Suc.IH)
    show "j < length ks" "n \<le> j" using Suc.prems(1,2) j by simp_all
    fix it' :: iter assume "it_length it' = 0"
    then have "Q ((ks ! i, vs ! i) # rev (take n (drop (Suc j - n) (zip ks vs))), it') B"
      using Suc.prems(5)[of it'] e by simp
    then show "runs (case (rev (take n (drop (Suc j - n) (zip ks vs))), it') of
        (xs, it) \<Rightarrow> ret ((ks ! Suc j, vs ! Suc j) # xs, it)) B Q"
      unfolding prod.case j[symmetric] by (rule runs_ret)
  qed simp_all
qed

lemma plug_is_leaf: "plug c t = Lf p ks vs \<Longrightarrow> c = [] \<and> t = Lf p ks vs"
  by (induction c t rule: plug.induct) auto

lemma runs_into_iter_both_leaf:
  fixes A :: "('k::linorder, 'v) vheap"
  assumes ok: "bmap_ok A m T" and h: "height m = 0" and c: "contents T = xs @ ys" "xs \<noteq> []" "ys \<noteq> []"
    and Q: "Q (xs, rev ys) A"
  shows "runs (into_iter_both (length xs) (length ys) m) A Q"
proof -
  obtain t where T: "T = Some t" using c by (cases T) auto
  then have t: "tree_in A t" "bal (height m) t" "filled 1 t" using ok by (simp_all add: tree_ok_def)
  obtain p ks vs where lf: "t = Lf p ks vs" "length vs = length ks" using t(2) h by (auto simp: bal_leaf_cases)
  have z: "zip ks vs = xs @ ys" using c(1) lf T by (simp add: entries_def)
  then have len: "length ks = length xs + length ys" using lf(2) by (metis length_append length_zip min.idem)
  obtain par pv nx where p: "A p = Some (VLeaf par ks vs pv nx)" using t(1) lf(1) by (auto simp: tree_in_def)
  show ?thesis unfolding into_iter_both_def into_iter_new_eq
  proof (rule runs_bind, rule runs_iter_new[OF ok], rule runs_bind)
    fix it assume it: "iter_at (blocks T) 0 (length (contents T)) it"
    have cs: "consuming A t it (xs @ ys) A" using consuming_start[OF t, of it] it T c(1) by simp
    have bk: "it_back it = \<lparr>cnode = Some p, cindex = length ks - 1\<rparr>"
      using it T lf len c pos_split[of "length ks - 1" "(p, ks, vs)" "[]" "[]"] by (simp add: iter_at_def)
    show "runs (into_iter_take (length xs) it) A (\<lambda>a A'. runs (case a of (xs, it) \<Rightarrow>
        bindP (into_iter_take_back (length ys) it) (\<lambda>(ys, it). ret (xs, ys))) A' Q)"
    proof (rule runs_into_iter_take[OF t cs], unfold prod.case, rule runs_bind)
      fix it' B assume it': "consuming A t it' ys B" "it_back it' = it_back it"
      then obtain d q ks' vs' where d: "t = plug d (Lf q ks' vs')" "B = A |` (- left_ptrs d)" "it_length it' = length ys"
        using c(3) unfolding consuming_def by (auto simp del: not_less split: if_splits)
      then have "d = []" using plug_is_leaf[of d "Lf q ks' vs'" p ks vs] lf(1) by simp
      then have B: "B = A" "it_length it' = length ys" using d(2,3) by (simp_all add: fun_eq_iff restrict_map_def)
      show "runs (into_iter_take_back (length ys) it') B (\<lambda>a A'. runs (case a of (ys, it) \<Rightarrow> ret (xs, ys)) A' Q)"
        unfolding B(1)
      proof (rule runs_take_back_inside[where B = A and i = "length ks - 1", OF p lf(2)])
        show "length ks - 1 < length ks" "length ys \<le> length ks - 1" using len c(2,3) by (cases xs; cases ys; simp)+
        have "Suc (length ks - 1) - length ys = length xs" using len c(2) by (cases xs) simp_all
        then show "runs (case (rev (take (length ys) (drop (Suc (length ks - 1) - length ys) (zip ks vs))), it2) of
            (ys, it) \<Rightarrow> ret (xs, ys)) A Q" for it2
          using Q by (simp add: z runs_ret)
      qed (use bk it'(2) B(2) in simp_all)
    qed
  qed
qed

subsection \<open>Stopping early\<close>

text \<open>A loop that breaks off after \<open>n\<close> entries. \<open>IntoIter\<close> has no \<open>Drop\<close>: nothing happens when the
  iterator goes out of scope.\<close>

definition into_iter_some :: "nat \<Rightarrow> bmap \<Rightarrow> ('k, 'v, ('k \<times> 'v) list) sprog" where
  "into_iter_some n m =
     bindP (into_iter_new m) (\<lambda>it. bindP (into_iter_take n it) (\<lambda>(xs, it). ret xs))"

text \<open>What is freed and what is left.\<close>

lemma consuming_left:
  assumes t: "tree_in A t" and it: "consuming A t it xs B"
  shows "\<exists>L. L \<subseteq> set (ptrs t) \<and> B = A |` (- (set (ptrs t) - L)) \<and> (L = {} \<longleftrightarrow> xs = [])"
proof (cases "xs = []")
  case True
  then show ?thesis using it unfolding consuming_def by (intro exI[of _ "{}"]) simp
next
  case False
  then obtain c p ks vs where c: "t = plug c (Lf p ks vs)" "B = A |` (- left_ptrs c)"
    using it unfolding consuming_def by auto
  have "p \<notin> left_ptrs c" "left_ptrs c \<subseteq> set (ptrs t)" "p \<in> set (ptrs t)"
    using t c(1) left_ptrs_subset[of c] by (auto simp: tree_in_def plug_distinct plug_ptrs)
  moreover then have "set (ptrs t) - (set (ptrs t) - left_ptrs c) = left_ptrs c" by blast
  ultimately show ?thesis using c(2) False by (intro exI[of _ "set (ptrs t) - left_ptrs c"]) auto
qed

lemma runs_into_iter_some:
  fixes A :: "('k::linorder, 'v) vheap"
  assumes ok: "bmap_ok A m T" and n: "n \<le> length (contents T)"
    and Q: "\<And>L. L \<subseteq> owned T \<Longrightarrow> (L = {} \<longleftrightarrow> n = length (contents T)) \<Longrightarrow>
      Q (take n (contents T)) (A |` (- (owned T - L)))"
  shows "runs (into_iter_some n m) A Q"
  unfolding into_iter_some_def into_iter_new_eq
proof (rule runs_bind, rule runs_iter_new[OF ok])
  fix it assume it: "iter_at (blocks T) 0 (length (contents T)) it"
  show "runs (bindP (into_iter_take n it) (\<lambda>(xs, it). ret xs)) A Q"
  proof (cases T)
    case None
    have "A |` (- {}) = A" by (simp add: fun_eq_iff restrict_map_def)
    then have "n = 0" "Q [] A" using None n Q[of "{}"] by simp_all
    then show ?thesis by (simp add: runs_ret_eta)
  next
    case (Some t)
    with ok have t: "tree_in A t" "bal (height m) t" "filled 1 t" by (simp_all add: tree_ok_def)
    have cs: "consuming A t it (take n (entries t) @ drop n (entries t)) A"
      using consuming_start[OF t, of it] it Some by simp
    have len: "length (take n (entries t)) = n" using n Some by simp
    show ?thesis
    proof (rule runs_bind, rule runs_into_iter_take[OF t cs, unfolded len], unfold prod.case, rule runs_ret)
      fix it' B assume "consuming A t it' (drop n (entries t)) B"
      from consuming_left[OF t(1) this] show "Q (take n (entries t)) B"
        using Q n Some by auto
    qed
  qed
qed

lemma framed_part: "L \<subseteq> S \<Longrightarrow> S \<subseteq> dom A \<Longrightarrow> framed A S (A |` (- (S - L))) L"
  by (auto simp: framed_def restrict_map_def domIff split: if_splits)

lemma world_break:
  assumes w: "world_ok tight s ms kvss" and i: "i < length ms" and n: "n \<le> length (kvss ! i)"
  shows "\<exists>s'. into_iter_some n (ms ! i) s = Inr (take n (kvss ! i), s') \<and>
    world_ok (tight \<and> n = length (kvss ! i)) s' (del_at i ms) (del_at i kvss)"
proof -
  have "\<exists>r s'. into_iter_some n (ms ! i) s = Inr (r, s') \<and> r = take n (kvss ! i) \<and>
    world_ok (tight \<and> n = length (kvss ! i)) s' (ms[i := new_in]) (kvss[i := []])"
  proof (rule world_run[OF w i])
    fix A T assume T: "bmap_ok A (ms ! i) T" "contents T = kvss ! i"
    show "runs (into_iter_some n (ms ! i)) A (\<lambda>r A'. r = take n (kvss ! i) \<and>
      (\<exists>T' S'. bmap_ok A' new_in T' \<and> contents T' = [] \<and> owned T' \<subseteq> S' \<and>
        framed A (owned T) A' S' \<and> (n = length (kvss ! i) \<longrightarrow> S' = owned T')))"
    proof (rule runs_into_iter_some[OF T(1)])
      show "n \<le> length (contents T)" using n T(2) by simp
      fix L assume L: "L \<subseteq> owned T" "L = {} \<longleftrightarrow> n = length (contents T)"
      show "take n (contents T) = take n (kvss ! i) \<and> (\<exists>T' S'. bmap_ok (A |` (- (owned T - L))) new_in T' \<and>
          contents T' = [] \<and> owned T' \<subseteq> S' \<and> framed A (owned T) (A |` (- (owned T - L))) S' \<and>
          (n = length (kvss ! i) \<longrightarrow> S' = owned T'))"
        using framed_part[OF L(1) bmap_ok_owned[OF T(1)]] L(2) T(2)
        by (auto simp: new_in_def intro!: exI[of _ None] exI[of _ L])
    qed
  qed
  then show ?thesis using world_ok_remove[OF _ i, of "tight \<and> n = length (kvss ! i)" _ new_in kvss] by (auto simp: new_in_def)
qed

end
