(* ===== verification/ConsumeUse.thy ===== *)
theory ConsumeUse
  imports MutUse IntoIterBack BothEnds
begin

text \<open>
  A consuming iterator used in any way: \<open>next\<close> and \<open>next_back\<close> in any order, dropped anywhere. Such a use
  may follow a freed pointer (then the program has no meaning) or leak; what is shown is that as long as it
  returns it has freed nodes of its own map only. The argument is that all pointers in the nodes of a map
  lead to nodes of the map.
\<close>

datatype take_op = TakeNext | TakeNextBack

fun into_iter_step :: "take_op \<Rightarrow> iter \<Rightarrow> ('k, 'v, ('k \<times> 'v) option \<times> iter) sprog" where
  "into_iter_step TakeNext it = into_iter_next it"
| "into_iter_step TakeNextBack it = into_iter_next_back it"

definition into_iter_use :: "take_op list \<Rightarrow> bmap \<Rightarrow> ('k, 'v, ('k \<times> 'v) option list \<times> iter) sprog" where
  "into_iter_use ops m = bindP (into_iter_new m) (run_ops into_iter_step ops)"

subsection \<open>Pointers stay inside a map\<close>

definition inward :: "('k, 'v) vheap \<Rightarrow> ptr set \<Rightarrow> bool" where
  "inward A S \<longleftrightarrow> (\<forall>p\<in>S. \<forall>v. A p = Some v \<longrightarrow> \<not> raw v \<and> (\<forall>q i. vpar v = Some (q, i) \<longrightarrow> q \<in> S) \<and>
     (\<forall>par ks vs pv nx. v = VLeaf par ks vs pv nx \<longrightarrow> set_option pv \<subseteq> S \<and> set_option nx \<subseteq> S))"

lemma rep_inside:
  "rep A par t \<Longrightarrow> p \<in> set (ptrs t) \<Longrightarrow> A p = Some v \<Longrightarrow>
     \<not> raw v \<and> (\<forall>q i. vpar v = Some (q, i) \<longrightarrow> q \<in> set (ptrs t) \<or> par = Some (q, i))"
  "reps A r j ts \<Longrightarrow> p \<in> ptrss ts \<Longrightarrow> A p = Some v \<Longrightarrow>
     \<not> raw v \<and> (\<forall>q i. vpar v = Some (q, i) \<longrightarrow> q \<in> ptrss ts \<or> q = r)"
proof (induction A par t and A r j ts rule: rep_reps.induct)
  case (2 A par p' ks ts)
  show ?case
  proof (cases "p = p'")
    case False
    then have "p \<in> ptrss ts" using "2.prems"(2) by simp
    with "2.IH" "2.prems" show ?thesis by auto
  qed (use "2.prems" in auto)
next
  case (4 A r j t ts)
  from "4.prems" show ?case using "4.IH" by fastforce
qed auto

lemma linked_inside:
  "linked A pv ls nx \<Longrightarrow> p \<in> set ls \<Longrightarrow> A p = Some (VLeaf par ks vs pv' nx') \<Longrightarrow>
     set_option pv' \<subseteq> set ls \<union> set_option pv \<and> set_option nx' \<subseteq> set ls \<union> set_option nx"
proof (induction ls arbitrary: pv)
  case (Cons l ls)
  show ?case
  proof (cases "p = l")
    case True
    with Cons.prems have "pv' = pv" "nx' = hd_or ls nx" by (simp_all add: links_def)
    then show ?thesis by (cases ls) auto
  next
    case False
    with Cons.IH[of "Some l"] Cons.prems show ?thesis by auto
  qed
qed simp

lemma linked_has_links: "linked A pv ls nx \<Longrightarrow> p \<in> set ls \<Longrightarrow> \<exists>par ks vs pv' nx'. A p = Some (VLeaf par ks vs pv' nx')"
  by (induction ls arbitrary: pv) (auto simp: links_def split: option.splits view.splits)

lemma rep_leaf_in_leaves:
  "rep A par t \<Longrightarrow> p \<in> set (ptrs t) \<Longrightarrow> A p = Some (VLeaf q ks vs pv nx) \<Longrightarrow> p \<in> set (leaves t)"
  "reps A r j ts \<Longrightarrow> p \<in> ptrss ts \<Longrightarrow> A p = Some (VLeaf q ks vs pv nx) \<Longrightarrow> \<exists>t\<in>set ts. p \<in> set (leaves t)"
  by (induction A par t and A r j ts rule: rep_reps.induct) auto

lemma bmap_inward: "bmap_ok A m T \<Longrightarrow> inward A (owned T)"
proof (cases T)
  case (Some t)
  assume "bmap_ok A m T"
  then have t: "rep A None t" "linked A None (leaves t) None" using Some by (simp_all add: tree_in_def)
  have leaf: "set_option pv \<subseteq> set (ptrs t) \<and> set_option nx \<subseteq> set (ptrs t)"
    if p: "p \<in> set (ptrs t)" "A p = Some (VLeaf par ks vs pv nx)" for p par ks vs pv nx
    using linked_inside[OF t(2) rep_leaf_in_leaves(1)[OF t(1) p] p(2)] leaves_in_ptrs[of t] by auto
  show ?thesis
    unfolding inward_def Some owned_simps
  proof (intro ballI allI impI)
    fix p v assume p: "p \<in> set (ptrs t)" "A p = Some v"
    show "\<not> raw v \<and> (\<forall>q i. vpar v = Some (q, i) \<longrightarrow> q \<in> set (ptrs t)) \<and>
        (\<forall>par ks vs pv nx. v = VLeaf par ks vs pv nx \<longrightarrow> set_option pv \<subseteq> set (ptrs t) \<and> set_option nx \<subseteq> set (ptrs t))"
      using rep_inside(1)[OF t(1) p] leaf p by blast
  qed
qed (simp add: inward_def)

subsection \<open>Freeing nodes of the map\<close>

text \<open>Some nodes of \<open>S\<close> are gone, nothing else has changed.\<close>

definition eaten :: "('k, 'v) vheap \<Rightarrow> ptr set \<Rightarrow> ('k, 'v) vheap \<Rightarrow> bool" where
  "eaten A0 S A \<longleftrightarrow> (\<exists>F\<subseteq>S. A = A0 |` (- F))"

lemma eaten_refl: "eaten A S A"
  unfolding eaten_def by (rule exI[of _ "{}"]) (simp add: fun_eq_iff restrict_map_def)

lemma eaten_same: "eaten A0 S A \<Longrightarrow> A p = Some v \<Longrightarrow> A0 p = Some v"
  by (auto simp: eaten_def restrict_map_def split: if_splits)

lemma eaten_more: "eaten A0 S A \<Longrightarrow> p \<in> S \<Longrightarrow> eaten A0 S (A(p := None))"
proof -
  assume "eaten A0 S A" "p \<in> S"
  then obtain F where F: "F \<subseteq> S" "A = A0 |` (- F)" unfolding eaten_def by blast
  have "A(p := None) = A0 |` (- insert p F)" using F(2) by (auto simp: fun_eq_iff restrict_map_def)
  then show ?thesis using F(1) \<open>p \<in> S\<close> unfolding eaten_def by (intro exI[of _ "insert p F"]) simp
qed

lemma if_runs_get:
  assumes "\<And>v n r. A p = Some v \<Longrightarrow> node_view n v \<Longrightarrow> f n = Inr r \<Longrightarrow> Q r A"
  shows "if_runs (get_at p f) A Q"
  unfolding if_runs_def
proof (intro allI impI)
  fix s r s' assume s: "shows_heap s A" "get_at p f s = Inr (r, s')"
  then obtain n where n: "nodes s p = Some n" "f n = Inr r" "s' = s"
    by (auto simp: get_at_def deref_def bindP_apply liftP_def split: option.splits sum.splits)
  obtain v where v: "A p = Some v" using s(1) n(1) unfolding shows_heap_def by (metis domD domI)
  then have "node_view n v" using s(1) n(1) by (simp add: shows_heap_def)
  then show "\<exists>A'. shows_heap s' A' \<and> Q r A'" using assms[OF v _ n(2)] s(1) n(3) by blast
qed

lemma if_runs_free:
  assumes "\<And>v. A p = Some v \<Longrightarrow> Q () (A(p := None))"
  shows "if_runs (dealloc p) A Q"
proof (cases "A p")
  case (Some v)
  then show ?thesis by (intro if_runs_runs runs_dealloc[where A = A, OF Some] assms)
next
  case None
  then have "nodes s p = None" if "shows_heap s A" for s using that unfolding shows_heap_def by (metis domIff)
  then show ?thesis by (simp add: if_runs_def dealloc_def dealloc_and_return_def bindP_apply)
qed

lemma if_runs_state: "(\<And>n. if_runs (f n) A Q) \<Longrightarrow> if_runs (\<lambda>s. f (g s) s) A Q"
  unfolding if_runs_def by blast

lemma if_runs_len: "(\<And>l. Q l A) \<Longrightarrow> if_runs (len_at p) A Q"
  unfolding len_at_def by (rule if_runs_get) simp

lemma if_runs_assert: "Q () A \<Longrightarrow> if_runs (assertP b) A Q"
  unfolding assertP_def by (rule if_runs_lift) (simp add: assertR_def split: if_splits)

lemma if_runs_parent:
  assumes "inward A0 S" "eaten A0 S A" "p \<in> S" "Q None A" "\<And>q i. q \<in> S \<Longrightarrow> Q (Some (q, i)) A"
  shows "if_runs (get_at p node_parent) A Q"
proof (rule if_runs_get)
  fix v n r assume v: "A p = Some v" "node_view n v" "node_parent n = Inr r"
  have "\<not> raw v" "\<forall>q i. vpar v = Some (q, i) \<longrightarrow> q \<in> S"
    using assms(1,3) eaten_same[OF assms(2) v(1)] unfolding inward_def by blast+
  moreover from this(1) have "r = vpar v" using v(2,3) by simp
  ultimately show "Q r A" using assms(4,5) by (cases "vpar v") auto
qed

lemma if_runs_link:
  assumes "inward A0 S" "eaten A0 S A" "p \<in> S" "\<And>r. set_option r \<subseteq> S \<Longrightarrow> Q r A"
  shows "if_runs (get_at p node_next) A Q" "if_runs (get_at p node_prev) A Q"
proof -
  have link: "set_option (leaf_next l) \<subseteq> S \<and> set_option (leaf_prev l) \<subseteq> S"
    if v: "A p = Some v" "node_view n v" "d_leaf n = Inr l" for v n l
  proof -
    have in_S: "\<not> raw v" "\<forall>par ks vs pv nx. v = VLeaf par ks vs pv nx \<longrightarrow> set_option pv \<subseteq> S \<and> set_option nx \<subseteq> S"
      using assms(1,3) eaten_same[OF assms(2) v(1)] unfolding inward_def by blast+
    show ?thesis
    proof (cases v)
      case (VLeaf par ks vs pv nx)
      then have "leaf_next l = nx" "leaf_prev l = pv" using v(2,3) by (auto simp: d_leaf_def)
      then show ?thesis using in_S(2) VLeaf by blast
    next
      case (VInt par ks es)
      then show ?thesis using v(2,3) by (auto simp: d_leaf_def)
    next
      case (VRaw x)
      then show ?thesis using in_S(1) by simp
    qed
  qed
  show "if_runs (get_at p node_next) A Q"
    by (rule if_runs_get) (use link assms(4) in \<open>auto simp: node_next_def bindR_Inr_iff\<close>)
  show "if_runs (get_at p node_prev) A Q"
    by (rule if_runs_get) (use link assms(4) in \<open>auto simp: node_prev_def bindR_Inr_iff\<close>)
qed

lemma if_runs_up:
  assumes "inward A0 S"
  shows "eaten A0 S A \<Longrightarrow> p \<in> S \<Longrightarrow> if_runs (up_lasts fuel p) A (\<lambda>r A'. eaten A0 S A')"
    and "eaten A0 S A \<Longrightarrow> p \<in> S \<Longrightarrow> if_runs (up_firsts fuel (p, idx)) A (\<lambda>r A'. eaten A0 S A')"
proof (induction fuel arbitrary: A p idx)
  case (Suc fuel)
  { case 1
    show ?case unfolding up_lasts.simps
    proof (rule if_runs_bind, rule if_runs_parent[OF assms 1])
      show "if_runs (bindP (dealloc p) (\<lambda>_. case None of None \<Rightarrow> ret ()
          | Some (p, idx) \<Rightarrow> bindP (len_at p) (\<lambda>l. bindP (assertP (idx \<le> l)) (\<lambda>_.
              if idx \<noteq> l then ret () else up_lasts fuel p)))) A (\<lambda>r A'. eaten A0 S A')"
        unfolding option.case by (rule if_runs_bind, rule if_runs_free, rule if_runs_ret, rule eaten_more[OF 1])
      fix q i assume q: "q \<in> S"
      show "if_runs (bindP (dealloc p) (\<lambda>_. case Some (q, i) of None \<Rightarrow> ret ()
          | Some (p, idx) \<Rightarrow> bindP (len_at p) (\<lambda>l. bindP (assertP (idx \<le> l)) (\<lambda>_.
              if idx \<noteq> l then ret () else up_lasts fuel p)))) A (\<lambda>r A'. eaten A0 S A')"
        unfolding option.case prod.case
        by (rule if_runs_bind, rule if_runs_free, rule if_runs_bind, rule if_runs_len, rule if_runs_bind, rule if_runs_assert)
          (use Suc.IH(1)[OF eaten_more[OF 1] q] eaten_more[OF 1] in \<open>simp add: if_runs_ret del: fun_upd_apply\<close>)
    qed
  next
    case 2
    show ?case unfolding up_firsts.simps
    proof (rule if_runs_bind, rule if_runs_len, rule if_runs_bind, rule if_runs_assert, cases "idx = 0")
      case True
      show "if_runs (if idx \<noteq> 0 then ret () else bindP (get_at p node_parent) (\<lambda>par. bindP (dealloc p) (\<lambda>_.
          case par of None \<Rightarrow> ret () | Some address \<Rightarrow> up_firsts fuel address))) A (\<lambda>r A'. eaten A0 S A')"
      proof (simp only: True simp_thms if_False, rule if_runs_bind, rule if_runs_parent[OF assms 2])
        show "if_runs (bindP (dealloc p) (\<lambda>_. case None of None \<Rightarrow> ret () | Some address \<Rightarrow> up_firsts fuel address)) A
            (\<lambda>r A'. eaten A0 S A')"
          unfolding option.case by (rule if_runs_bind, rule if_runs_free, rule if_runs_ret, rule eaten_more[OF 2])
        fix q i assume q: "q \<in> S"
        show "if_runs (bindP (dealloc p) (\<lambda>_. case Some (q, i) of None \<Rightarrow> ret () | Some address \<Rightarrow> up_firsts fuel address)) A
            (\<lambda>r A'. eaten A0 S A')"
          unfolding option.case
          by (rule if_runs_bind, rule if_runs_free) (rule Suc.IH(2)[OF eaten_more[OF 2] q])
      qed
    qed (use 2 in \<open>simp add: if_runs_ret\<close>)
  }
qed (simp_all add: if_runs_fail)

subsection \<open>Steps of the iterator\<close>

definition within :: "ptr set \<Rightarrow> iter \<Rightarrow> bool" where
  "within S it \<longleftrightarrow> set_option (cnode (it_cursor it)) \<subseteq> S \<and> set_option (cnode (it_back it)) \<subseteq> S"

lemma if_runs_read: "if_runs (cursor_read_key_value c) A (\<lambda>r A'. A' = A)"
  unfolding cursor_read_key_value_def
  by (cases "cnode c") (auto intro!: if_runs_ret if_runs_bind if_runs_get)

lemma if_runs_cursor_moves:
  assumes "inward A0 S" "eaten A0 S A" "set_option (cnode c) \<subseteq> S"
  shows "if_runs (cursor_advance c) A (\<lambda>c' A'. A' = A \<and> set_option (cnode c') \<subseteq> S)"
    and "if_runs (cursor_advance_back c) A (\<lambda>c' A'. A' = A \<and> set_option (cnode c') \<subseteq> S)"
proof -
  show "if_runs (cursor_advance c) A (\<lambda>c' A'. A' = A \<and> set_option (cnode c') \<subseteq> S)"
  proof (cases "cnode c")
    case (Some p)
    then have p: "p \<in> S" using assms(3) by simp
    show ?thesis unfolding cursor_advance_def Some option.case
      by (rule if_runs_bind, rule if_runs_get)
        (use assms(3) Some in \<open>auto intro!: if_runs_ret if_runs_bind if_runs_link(1)[OF assms(1,2) p]\<close>)
  qed (simp add: cursor_advance_def if_runs_fail)
  show "if_runs (cursor_advance_back c) A (\<lambda>c' A'. A' = A \<and> set_option (cnode c') \<subseteq> S)"
  proof (cases "0 < cindex c")
    case True
    then show ?thesis using assms(3) by (simp add: cursor_advance_back_def if_runs_ret)
  next
    case False
    show ?thesis
    proof (cases "cnode c")
      case (Some p)
      then have p: "p \<in> S" using assms(3) by simp
      show ?thesis unfolding cursor_advance_back_def Some option.case
      proof (simp only: False if_False, rule if_runs_bind, rule if_runs_link(2)[OF assms(1,2) p])
        fix pv assume pv: "set_option pv \<subseteq> S"
        have "if_runs (case pv of None \<Rightarrow> ret 0 | Some node \<Rightarrow> get_at node (\<lambda>n. nat_sub (len n) 1)) A (\<lambda>i A'. A' = A)"
          by (cases pv) (auto intro!: if_runs_ret if_runs_get)
        then show "if_runs (bindP (case pv of None \<Rightarrow> ret 0 | Some node \<Rightarrow> get_at node (\<lambda>n. nat_sub (len n) 1))
            (\<lambda>i. ret \<lparr>cnode = pv, cindex = i\<rparr>)) A (\<lambda>c' A'. A' = A \<and> set_option (cnode c') \<subseteq> S)"
          by (rule if_runs_bind[OF if_runs_conseq]) (simp add: pv if_runs_ret)
      qed
    qed (use False in \<open>simp add: cursor_advance_back_def if_runs_def bindP_apply\<close>)
  qed
qed

lemma if_runs_address:
  assumes "set_option (cnode c) \<subseteq> S" "\<And>p i. p \<in> S \<Longrightarrow> if_runs (f (p, i)) A Q"
  shows "if_runs (bindP (liftP (unwrapR (cursor_address c))) f) A Q"
  using assms by (cases "cnode c") (auto simp: cursor_address_def if_runs_def bindP_apply)

lemma if_runs_dealloc_up:
  assumes "inward A0 S" "eaten A0 S A" "p \<in> S"
  shows "if_runs (dealloc_up_lasts (p, i)) A (\<lambda>r A'. eaten A0 S A')"
    and "if_runs (dealloc_up_firsts (p, i)) A (\<lambda>r A'. eaten A0 S A')"
proof -
  note up = if_runs_up[OF assms]
  show "if_runs (dealloc_up_lasts (p, i)) A (\<lambda>r A'. eaten A0 S A')"
    unfolding dealloc_up_lasts_def prod.case
  proof (rule if_runs_bind, rule if_runs_len, rule if_runs_bind, rule if_runs_assert, rule if_runs_bind, rule if_runs_lift)
    fix last_idx
    have "if_runs (\<lambda>s. up_lasts (Suc (length (slab_log s))) p s) A (\<lambda>r A'. eaten A0 S A')"
      by (rule if_runs_state[where g = "\<lambda>s. Suc (length (slab_log s))" and f = "\<lambda>n. up_lasts n p"], rule up(1))
    then show "if_runs (if i \<noteq> last_idx then ret () else (\<lambda>s. up_lasts (Suc (length (slab_log s))) p s)) A (\<lambda>r A'. eaten A0 S A')"
      using assms(2) by (cases "i = last_idx") (simp_all only: simp_thms if_True if_False if_runs_ret)
  qed
  show "if_runs (dealloc_up_firsts (p, i)) A (\<lambda>r A'. eaten A0 S A')"
    unfolding dealloc_up_firsts_def
    by (rule if_runs_state[where g = "\<lambda>s. Suc (length (slab_log s))" and f = "\<lambda>n. up_firsts n (p, i)"], rule up(2))
qed

lemma into_iter_step_ok:
  assumes "inward A0 S" "eaten A0 S A" "within S it"
  shows "if_runs (into_iter_step op it) A (\<lambda>r A'. eaten A0 S A' \<and> within S (snd r))"
proof (cases op)
  case TakeNext
  have c: "set_option (cnode (it_cursor it)) \<subseteq> S" using assms(3) by (simp add: within_def)
  show ?thesis unfolding TakeNext into_iter_step.simps into_iter_next_def
  proof (cases "it_length it = 0")
    case False
    show "if_runs (if it_length it = 0 then ret (None, it)
      else bindP (cursor_read_key_value (it_cursor it)) (\<lambda>kv.
           bindP (liftP (unwrapR kv)) (\<lambda>kv.
           bindP (liftP (unwrapR (cursor_address (it_cursor it)))) (\<lambda>address.
           bindP (cursor_advance (it_cursor it)) (\<lambda>c.
           bindP (dealloc_up_lasts address) (\<lambda>_.
           ret (Some kv, it\<lparr>it_cursor := c, it_length := it_length it - 1\<rparr>))))))) A (\<lambda>r A'. eaten A0 S A' \<and> within S (snd r))"
      using False assms(3)
      by (simp only: if_False, intro if_runs_bind if_runs_conseq[OF if_runs_read], simp,
          intro if_runs_bind if_runs_lift if_runs_address[OF c] if_runs_conseq[OF if_runs_cursor_moves(1)[OF assms(1,2) c]])
        (auto simp: within_def intro!: if_runs_bind if_runs_conseq[OF if_runs_dealloc_up(1)[OF assms(1,2)]] if_runs_ret)
  qed (use assms in \<open>simp add: if_runs_ret\<close>)
next
  case TakeNextBack
  have c: "set_option (cnode (it_back it)) \<subseteq> S" using assms(3) by (simp add: within_def)
  show ?thesis unfolding TakeNextBack into_iter_step.simps into_iter_next_back_def
    using assms(3)
    by (auto simp: within_def assms(2) intro!: if_runs_ret if_runs_bind if_runs_conseq[OF if_runs_read] if_runs_lift
        if_runs_address[OF c] if_runs_conseq[OF if_runs_cursor_moves(2)[OF assms(1,2) c]]
        if_runs_conseq[OF if_runs_dealloc_up(2)[OF assms(1,2)]])
qed

lemma if_runs_into_iter_use:
  fixes A :: "('k::linorder, 'v) vheap"
  assumes ok: "bmap_ok A m T"
  shows "if_runs (into_iter_use ops m) A (\<lambda>r A'. eaten A (owned T) A')"
  unfolding into_iter_use_def into_iter_new_eq
proof (rule if_runs_bind, rule if_runs_runs, rule runs_iter_new_pos[OF ok])
  let ?it = "\<lparr>it_cursor = pos (blocks T) 0, it_back = pos (blocks T) (length (addrs (blocks T)) - 1), it_length = mlength m\<rparr>"
  have "fst ` set (addrs L) \<subseteq> set (map fst L)" for L :: "('k, 'v) block list" by (force simp: addrs_def)
  from this[of "blocks T"] have "fst ` set (addrs (blocks T)) \<subseteq> owned T"
    using leaves_in_ptrs by (cases T) (auto simp: map_fst_leafs simp del: set_map)
  then have "set_option (cnode (pos (blocks T) n)) \<subseteq> owned T" for n by (auto simp: pos_def)
  then have "eaten A (owned T) A \<and> within (owned T) ?it" by (simp add: eaten_refl within_def)
  from if_runs_ops[of "\<lambda>it A'. eaten A (owned T) A' \<and> within (owned T) it" into_iter_step, OF _ this]
  show "if_runs (run_ops into_iter_step ops ?it) A (\<lambda>r A'. eaten A (owned T) A')"
    by (rule if_runs_conseq) (auto intro: into_iter_step_ok bmap_inward[OF ok])
qed

text \<open>In a shared store: the other maps stay as they are.\<close>

lemma eaten_framed: "eaten A S A' \<Longrightarrow> S \<subseteq> dom A \<Longrightarrow> \<exists>S'. framed A S A' S'"
proof -
  assume e: "eaten A S A'" "S \<subseteq> dom A"
  then obtain F where "F \<subseteq> S" "A' = A |` (- F)" unfolding eaten_def by blast
  then show ?thesis using e(2)
    by (intro exI[of _ "S - F"]) (auto simp: framed_def restrict_map_def split: if_splits)
qed

lemma world_into_iter_use:
  fixes s :: "('k::linorder, 'v) store"
  assumes w: "world_ok tight s ms kvss" and i: "i < length ms" and r: "into_iter_use ops (ms ! i) s = Inr (r, s')"
  shows "world_ok False s' (del_at i ms) (del_at i kvss)"
proof -
  have "\<exists>kvs. kvs = [] \<and> world_ok False s' (ms[i := new_in]) (kvss[i := kvs])"
  proof (rule world_if_runs[where g = "\<lambda>_. new_in" and P = "\<lambda>kvs. kvs = []"])
    show "world_ok tight s ms kvss" "i < length ms" "into_iter_use ops (ms ! i) s = Inr (r, s')" by (rule w i r)+
    fix A T assume T: "bmap_ok A (ms ! i) T"
    show "if_runs (into_iter_use ops (ms ! i)) A (\<lambda>r A'. \<exists>T' S'. bmap_ok A' new_in T' \<and> contents T' = [] \<and>
        owned T' \<subseteq> S' \<and> framed A (owned T) A' S')"
    proof (rule if_runs_conseq[OF if_runs_into_iter_use[OF T]])
      fix r A' assume "eaten A (owned T) A'"
      then obtain S' where "framed A (owned T) A' S'" using eaten_framed[OF _ bmap_ok_owned[OF T]] by blast
      then show "\<exists>T' S'. bmap_ok A' new_in T' \<and> contents T' = [] \<and> owned T' \<subseteq> S' \<and> framed A (owned T) A' S'"
        by (intro exI[of _ None] exI[of _ S']) (simp add: new_in_def)
    qed
  qed
  then show ?thesis using world_ok_remove[OF _ i, of False _ new_in kvss] by (auto simp: new_in_def)
qed

end
