(* ===== verification/Looks.thy ===== *)
theory Looks
  imports MapOps
begin

text \<open>
  Programs that only look: whatever they return, they leave the store as it was, slot for slot. Closure
  rules for the combinators, and the lookups of \<open>src/src/map.rs\<close>, which are built from them.
\<close>

named_theorems looks_intro "programs that leave the state alone"

definition looks :: "('s, 'a) prog \<Rightarrow> bool" where
  "looks m \<longleftrightarrow> (\<forall>s r s'. m s = Inr (r, s') \<longrightarrow> s' = s)"

lemma looksD: "looks m \<Longrightarrow> m s = Inr (r, s') \<Longrightarrow> s' = s"
  by (auto simp: looks_def)

lemma looks_ret [looks_intro]: "looks (ret a)"
  by (simp add: looks_def)

lemma looks_fail [looks_intro]: "looks (fail e)"
  by (simp add: looks_def)

lemma looks_lift [looks_intro]: "looks (liftP r)"
  by (auto simp: looks_def liftP_def split: sum.splits)

lemma looks_assert [looks_intro]: "looks (assertP b)"
  unfolding assertP_def by (rule looks_lift)

lemma looks_bind [looks_intro]: "looks m \<Longrightarrow> (\<And>a. looks (f a)) \<Longrightarrow> looks (bindP m f)"
  by (fastforce simp: looks_def bindP_apply split: sum.splits prod.splits)

lemma looks_get_at [looks_intro]: "looks (get_at p f)"
  by (auto simp: looks_def get_at_def deref_def bindP_apply liftP_def split: option.splits sum.splits)

lemma looks_len_at [looks_intro]: "looks (len_at p)"
  unfolding len_at_def by (rule looks_get_at)

lemma looks_option [looks_intro]: "looks f \<Longrightarrow> (\<And>a. looks (g a)) \<Longrightarrow> looks (case x of None \<Rightarrow> f | Some a \<Rightarrow> g a)"
  by (cases x) simp_all

lemma looks_sum [looks_intro]: "(\<And>a. looks (f a)) \<Longrightarrow> (\<And>b. looks (g b)) \<Longrightarrow> looks (case x of Inl a \<Rightarrow> f a | Inr b \<Rightarrow> g b)"
  by (cases x) simp_all

lemma looks_found [looks_intro]:
  "looks f \<Longrightarrow> (\<And>p i. looks (g p i)) \<Longrightarrow> (\<And>p i. looks (h p i)) \<Longrightarrow>
   looks (case r of NoRoot \<Rightarrow> f | Before p i \<Rightarrow> g p i | At p i \<Rightarrow> h p i)"
  by (cases r) simp_all

subsection \<open>Lookups\<close>

lemma looks_find_loop [looks_intro]: "looks (find_loop h node k)"
  by (induction h arbitrary: node) (auto intro!: looks_intro)

lemma looks_find_key [looks_intro]: "looks (find_key m k)"
  unfolding find_key_def by (intro looks_intro)

lemma looks_at_entry [looks_intro]: "looks (at_entry f r)"
  unfolding at_entry_def by (intro looks_intro)

lemma looks_leaf_loops [looks_intro]: "looks (first_leaf_loop h node)" "looks (last_leaf_loop h node)"
  by (induction h arbitrary: node) (auto intro!: looks_intro)

lemma looks_leaves [looks_intro]: "looks (first_leaf m)" "looks (last_leaf m)"
  unfolding first_leaf_def last_leaf_def by (intro looks_intro)+

lemma looks_retrieval [looks_intro]:
  "looks (contains_key m k)" "looks (map_get m k)" "looks (get_key m k)" "looks (get_key_value m k)"
  "looks (first_key_value m)" "looks (last_key_value m)"
  unfolding contains_key_def map_get_def get_key_def get_key_value_def first_key_value_def last_key_value_def
  by (intro looks_intro)+

text \<open>The operations that leave the map and the store alone.\<close>

fun looking :: "('k, 'v) map_op \<Rightarrow> bool" where
  "looking Len = True" | "looking IsEmpty = True" | "looking (ContainsKey k) = True" | "looking (Get k) = True"
| "looking (GetKey k) = True" | "looking (GetKeyValue k) = True" | "looking FirstKeyValue = True"
| "looking LastKeyValue = True" | "looking _ = False"

lemma looks_op: "looking op \<Longrightarrow> looks (run_op pick op m)"
  by (cases op) (auto intro!: looks_intro)

lemma looking_keeps: "looking op \<Longrightarrow> run_op pick op m s = Inr ((out, m'), s') \<Longrightarrow> m' = m"
  by (cases op) (auto simp: bindP_apply split: sum.splits)

lemma looking_answers:
  assumes "looking op" "represents s m kvs"
  shows "run_op pick op m s = Inr ((fst (spec_op op kvs), m), s)"
proof -
  have any: "run_op pick op m = run_op bump op m" using assms(1) by (cases op) simp_all
  obtain m' s' where r: "run_op bump op m s = Inr ((fst (spec_op op kvs), m'), s')"
    using op_represents[OF bump_slab.slab_axioms assms(2)] by blast
  show ?thesis using r looking_keeps[OF assms(1) r] looksD[OF looks_op[OF assms(1)] r] by (simp add: any)
qed

subsection \<open>The leaf that a descent ends in\<close>

lemma leaf_keys_below:
  fixes k :: "'k::linorder"
  assumes "items_below k (its @ map2 Ent (take i ks) (take i vs))" "i \<le> length ks" "length vs = length ks"
  shows "\<forall>j<i. ks ! j < k"
proof (intro allI impI)
  fix j assume j: "j < i"
  have "map2 Ent (take i ks) (take i vs) ! j \<in> set (map2 Ent (take i ks) (take i vs))"
    using j assms(2,3) by (intro nth_mem) simp
  then have "mark_of (map2 Ent (take i ks) (take i vs) ! j) < EntAt k" using assms(1) by (simp only: set_append) blast
  then show "ks ! j < k" using j assms(2,3) by simp
qed

lemma leaf_key_above:
  fixes k :: "'k::linorder"
  assumes "items_above k (map2 Ent (drop i ks) (drop i vs) @ its)" "i < length ks" "length vs = length ks"
  shows "k < ks ! i"
proof -
  have "map2 Ent (drop i ks) (drop i vs) ! 0 \<in> set (map2 Ent (drop i ks) (drop i vs))"
    using assms(2,3) by (intro nth_mem) simp
  then have "EntAt k < mark_of (map2 Ent (drop i ks) (drop i vs) ! 0)" using assms(1) by (simp only: set_append) blast
  then show ?thesis using assms(2,3) by simp
qed

lemma locates_linear:
  fixes A :: "('k::linorder, 'v) vheap"
  assumes ok: "bmap_ok A m T" and T: "T = Some t" and l: "locates t (height m) k r"
  shows "\<exists>p par ks vs pv nx xs ys. A p = Some (VLeaf par ks vs pv nx) \<and> map fst (contents T) = xs @ ks @ ys \<and>
    (\<forall>x\<in>set xs. x < k) \<and> (\<forall>y\<in>set ys. k < y) \<and>
    r = (case linear_search ks k of Inr i \<Rightarrow> At p i | Inl i \<Rightarrow> Before p i)"
proof -
  have place: ?thesis
    if c: "t = plug c (Lf p ks vs)" "path_shape 0 c" "length vs = length ks"
      "items_below k (left_items c)" "items_above k (right_items c)"
      and r: "r = (case linear_search ks k of Inr i \<Rightarrow> At p i | Inl i \<Rightarrow> Before p i)" for c p ks vs
  proof -
    have "tree_in A (plug c (Lf p ks vs))" using ok T c(1) by simp
    then obtain par pv nx where p: "A p = Some (VLeaf par ks vs pv nx)" by (rule tree_in_leaf)
    have "map fst (contents T) = map fst (ents (left_items c)) @ ks @ map fst (ents (right_items c))"
      using T c(1) plug_entries[OF c(2,3)] c(3) by simp
    moreover have "\<forall>x\<in>set (map fst (ents (left_items c))). x < k" "\<forall>y\<in>set (map fst (ents (right_items c))). k < y"
      using ents_bounds(1)[OF c(4)] ents_bounds(2)[OF c(5)] by auto
    ultimately show ?thesis using p r by blast
  qed
  from l show ?thesis
  proof (cases rule: locates_cases)
    case (At c p ks vs i)
    have "\<forall>j<i. ks ! j < k" by (rule leaf_keys_below[OF At(8) _ At(5)]) (use At(6) in simp)
    then have "length (takeWhile (\<lambda>x. x < k) ks) = i" using At(6,7) by (intro takeWhile_prefix_length) auto
    then have "linear_search ks k = Inr i" using At(6,7) by (simp add: linear_search_def)
    then show ?thesis using place[OF At(2,3,5)] At(1,8,9) by simp
  next
    case (Before c p ks vs i)
    have below: "\<forall>j<i. ks ! j < k" by (rule leaf_keys_below[OF Before(7,6,5)])
    have above: "i < length ks \<longrightarrow> k < ks ! i" using leaf_key_above[OF Before(8) _ Before(5)] by simp
    have "length (takeWhile (\<lambda>x. x < k) ks) = i" using below above Before(6) by (intro takeWhile_prefix_length) auto
    then have "linear_search ks k = Inl i" using above by (auto simp: linear_search_def)
    then show ?thesis using place[OF Before(2,3,5)] Before(1,7,8) by simp
  qed
qed

lemma find_loop_scan:
  assumes "represents s m kvs" "root m = Some p"
  shows "\<exists>leaf n l ks xs ys. nodes s leaf = Some n \<and> node_keys n = Inr ks \<and> d_leaf n = Inr l \<and>
    map fst kvs = xs @ ks @ ys \<and> (\<forall>x\<in>set xs. x < k) \<and> (\<forall>y\<in>set ys. k < y) \<and>
    find_loop (height m) p k s = Inr (case linear_search ks k of Inr i \<Rightarrow> At leaf i | Inl i \<Rightarrow> Before leaf i, s)"
proof -
  obtain A T where A: "shows_heap s A" "bmap_ok A m T" "contents T = kvs"
    using assms(1) by (auto simp: represents_def)
  obtain t where T: "T = Some t" using A(2) assms(2) by (cases T) auto
  have "runs (find_key m k) A (\<lambda>r A'. locates t (height m) k r)"
    by (rule runs_find_key[OF A(2)]) (use T in simp_all)
  from runsD[OF this A(1)] obtain r s' where r: "find_key m k s = Inr (r, s')" "locates t (height m) k r" by blast
  have s': "s' = s" by (rule looksD[OF looks_find_key r(1)])
  from locates_linear[OF A(2) T r(2)] obtain q par ks vs pv nx xs ys where
    q: "A q = Some (VLeaf par ks vs pv nx)" "map fst (contents T) = xs @ ks @ ys" "\<forall>x\<in>set xs. x < k" "\<forall>y\<in>set ys. k < y"
      "r = (case linear_search ks k of Inr i \<Rightarrow> At q i | Inl i \<Rightarrow> Before q i)" by blast
  obtain n where n: "nodes s q = Some n" "node_view n (VLeaf par ks vs pv nx)" using shows_heapE[OF A(1) q(1)] .
  obtain l where "d_leaf n = Inr l" using n(2) by (auto simp: d_leaf_def)
  moreover have "find_loop (height m) p k s = Inr (case linear_search ks k of Inr i \<Rightarrow> At q i | Inl i \<Rightarrow> Before q i, s)"
    using r(1) s' q(5) assms(2) by (simp add: find_key_def)
  ultimately show ?thesis using n(1) node_keys_view(1)[OF n(2)] q(2-4) A(3) by blast
qed

end
