(* ===== verification/BSet.thy ===== *)
theory BSet
  imports Range
begin

text \<open>
  The set (\<open>src/src/set.rs\<close>): a map whose values are units. Every operation delegates to the map and
  keeps the keys of its answer. The set simulates a finite set of the mathematical kind, with the least
  and the greatest element.
\<close>

subsection \<open>Operations\<close>

record bset =
  set_map :: bmap

definition set_new_in :: bset where
  "set_new_in = \<lparr>set_map = new_in\<rparr>"

definition set_len :: "bset \<Rightarrow> nat" where
  "set_len b = map_len (set_map b)"

definition set_is_empty :: "bset \<Rightarrow> bool" where
  "set_is_empty b = map_is_empty (set_map b)"

definition set_clear :: "bset \<Rightarrow> ('k, unit, 'k list \<times> bset) sprog" where
  "set_clear b = bindP (map_clear (set_map b)) (\<lambda>((ks, _), m). ret (ks, b\<lparr>set_map := m\<rparr>))"

definition set_first :: "bset \<Rightarrow> ('k, unit, 'k option) sprog" where
  "set_first b = bindP (first_key_value (set_map b)) (\<lambda>kv. ret (map_option fst kv))"

definition set_last :: "bset \<Rightarrow> ('k, unit, 'k option) sprog" where
  "set_last b = bindP (last_key_value (set_map b)) (\<lambda>kv. ret (map_option fst kv))"

definition set_contains :: "bset \<Rightarrow> 'k::linorder \<Rightarrow> ('k, unit, bool) sprog" where
  "set_contains b k = contains_key (set_map b) k"

definition set_get :: "bset \<Rightarrow> 'k::linorder \<Rightarrow> ('k, unit, 'k option) sprog" where
  "set_get b k = get_key (set_map b) k"

definition set_insert ::
    "(slab_event list \<Rightarrow> ptr) \<Rightarrow> bset \<Rightarrow> 'k::linorder \<Rightarrow> ('k, unit, bool \<times> bset) sprog" where
  "set_insert pick b k =
     bindP (map_insert pick (set_map b) k ()) (\<lambda>(old, m). ret (old = None, b\<lparr>set_map := m\<rparr>))"

definition set_remove :: "bset \<Rightarrow> 'k::linorder \<Rightarrow> ('k, unit, bool \<times> bset) sprog" where
  "set_remove b k =
     bindP (map_remove (set_map b) k) (\<lambda>(old, m). ret (old \<noteq> None, b\<lparr>set_map := m\<rparr>))"

definition set_pop_first :: "bset \<Rightarrow> ('k, unit, 'k option \<times> bset) sprog" where
  "set_pop_first b =
     bindP (pop_first (set_map b)) (\<lambda>(kv, m). ret (map_option fst kv, b\<lparr>set_map := m\<rparr>))"

definition set_pop_last :: "bset \<Rightarrow> ('k, unit, 'k option \<times> bset) sprog" where
  "set_pop_last b =
     bindP (pop_last (set_map b)) (\<lambda>(kv, m). ret (map_option fst kv, b\<lparr>set_map := m\<rparr>))"

definition set_extend ::
    "(slab_event list \<Rightarrow> ptr) \<Rightarrow> bset \<Rightarrow> 'k::linorder list \<Rightarrow> ('k, unit, bset) sprog" where
  "set_extend pick b ks =
     bindP (map_extend pick (set_map b) (map (\<lambda>k. (k, ())) ks)) (\<lambda>m. ret (b\<lparr>set_map := m\<rparr>))"

subsection \<open>Iterators\<close>

definition set_iter_new :: "bset \<Rightarrow> ('k, unit, iter) sprog" where
  "set_iter_new b = iter_new (set_map b)"

definition set_iter_next :: "iter \<Rightarrow> ('k, unit, 'k option \<times> iter) sprog" where
  "set_iter_next it = bindP (iter_next it) (\<lambda>(kv, it). ret (map_option fst kv, it))"

definition set_iter_next_back :: "iter \<Rightarrow> ('k, unit, 'k option \<times> iter) sprog" where
  "set_iter_next_back it = bindP (iter_next_back it) (\<lambda>(kv, it). ret (map_option fst kv, it))"

definition set_iter_size_hint :: "iter \<Rightarrow> nat \<times> nat option" where
  "set_iter_size_hint it = iter_size_hint it"

definition set_iter_len :: "iter \<Rightarrow> nat" where
  "set_iter_len it = iter_len it"

definition set_into_iter_new :: "bset \<Rightarrow> ('k, unit, iter) sprog" where
  "set_into_iter_new b = into_iter_new (set_map b)"

definition set_into_iter_next :: "iter \<Rightarrow> ('k, unit, 'k option \<times> iter) sprog" where
  "set_into_iter_next it = bindP (into_iter_next it) (\<lambda>(kv, it). ret (map_option fst kv, it))"

definition set_into_iter_next_back :: "iter \<Rightarrow> ('k, unit, 'k option \<times> iter) sprog" where
  "set_into_iter_next_back it = bindP (into_iter_next_back it) (\<lambda>(kv, it). ret (map_option fst kv, it))"

definition set_range_new :: "bset \<Rightarrow> ('k::linorder) bounds \<Rightarrow> ('k, unit, range) sprog" where
  "set_range_new b bs = range_new (set_map b) bs"

definition set_range_next :: "range \<Rightarrow> ('k, unit, 'k option \<times> range) sprog" where
  "set_range_next r = bindP (range_next r) (\<lambda>(kv, r). ret (map_option fst kv, r))"

definition set_range_next_back :: "range \<Rightarrow> ('k, unit, 'k option \<times> range) sprog" where
  "set_range_next_back r = bindP (range_next_back r) (\<lambda>(kv, r). ret (map_option fst kv, r))"

subsection \<open>What a set stands for\<close>

definition represents_set :: "('k::linorder, unit) store \<Rightarrow> bset \<Rightarrow> 'k set \<Rightarrow> bool" where
  "represents_set s b S \<longleftrightarrow> (\<exists>kvs. represents s (set_map b) kvs \<and> fst ` set kvs = S)"

lemma represents_set_new: "represents_set new_store set_new_in {}"
  unfolding represents_set_def set_new_in_def using represents_new by (intro exI[of _ "[]"]) simp

definition least :: "('k::linorder) set \<Rightarrow> 'k option" where
  "least S = (if S = {} then None else Some (Min S))"

definition greatest :: "('k::linorder) set \<Rightarrow> 'k option" where
  "greatest S = (if S = {} then None else Some (Max S))"

definition remove_opt :: "'k option \<Rightarrow> 'k set \<Rightarrow> 'k set" where
  "remove_opt x S = (case x of None \<Rightarrow> S | Some k \<Rightarrow> S - {k})"

lemma kv_first_least: "kv_sorted kvs \<Longrightarrow> map_option fst (kv_first kvs) = least (fst ` set kvs)"
proof (cases kvs)
  case (Cons kv kvs')
  assume "kv_sorted kvs"
  then have "\<forall>x\<in>set kvs'. fst kv < fst x" using Cons by (cases kv) simp
  then have "Min (fst ` set kvs) = fst kv" using Cons by (intro Min_eqI) (auto intro: less_imp_le)
  then show ?thesis using Cons by (simp add: least_def)
qed (simp add: least_def)

lemma kv_last_greatest: "kv_sorted kvs \<Longrightarrow> map_option fst (kv_last kvs) = greatest (fst ` set kvs)"
proof (cases kvs rule: rev_cases)
  case (snoc kvs' kv)
  assume "kv_sorted kvs"
  then have "\<forall>x\<in>set kvs'. fst x < fst kv" using snoc by (simp add: kv_sorted_append)
  then have "Max (fst ` set kvs) = fst kv" using snoc by (intro Max_eqI) (auto intro: less_imp_le)
  then show ?thesis using snoc by (simp add: greatest_def kv_last_def)
qed (simp add: greatest_def kv_last_def)

lemma keys_tl: "kv_sorted kvs \<Longrightarrow> fst ` set (tl kvs) = remove_opt (least (fst ` set kvs)) (fst ` set kvs)"
proof (cases kvs)
  case (Cons kv kvs')
  assume s: "kv_sorted kvs"
  then have "fst kv \<notin> fst ` set kvs'" using kv_sorted_distinct[OF s] Cons by simp
  then show ?thesis using kv_first_least[OF s, symmetric] Cons by (auto simp: remove_opt_def)
qed (simp add: remove_opt_def least_def)

lemma keys_butlast:
  "kv_sorted kvs \<Longrightarrow> fst ` set (butlast kvs) = remove_opt (greatest (fst ` set kvs)) (fst ` set kvs)"
proof (cases kvs rule: rev_cases)
  case (snoc kvs' kv)
  assume s: "kv_sorted kvs"
  then have "fst kv \<notin> fst ` set kvs'" using kv_sorted_distinct[OF s] snoc by simp
  then show ?thesis using kv_last_greatest[OF s, symmetric] snoc by (auto simp: remove_opt_def kv_last_def)
qed (simp add: remove_opt_def greatest_def)

lemma keys_dom: "fst ` set kvs = dom (map_of kvs)"
  by (simp add: dom_map_of_conv_image_fst)

lemma keys_insert: "fst ` set (kv_insert k v kvs) = insert k (fst ` set kvs)"
  by (simp add: keys_dom map_of_kv_insert)

lemma keys_delete: "fst ` set (kv_delete k kvs) = fst ` set kvs - {k}"
  by (simp add: keys_dom map_of_kv_delete)

lemma keys_extend: "fst ` set (fold (\<lambda>(k, v). kv_insert k v) xs kvs) = fst ` set xs \<union> fst ` set kvs"
proof (induction xs arbitrary: kvs)
  case (Cons x xs)
  then show ?case by (cases x) (simp add: keys_insert)
qed simp

lemma keys_card: "kv_sorted kvs \<Longrightarrow> card (fst ` set kvs) = length kvs"
  using distinct_card[OF kv_sorted_distinct] by fastforce

subsection \<open>The set simulates a finite set\<close>

datatype 'k set_op =
    SetLen | SetIsEmpty | SetContains 'k | SetGet 'k | SetFirst | SetLast | SetInsert 'k | SetRemove 'k
  | SetPopFirst | SetPopLast | SetExtend "'k list"

datatype 'k set_out = SNum nat | SFlag bool | SKey "'k option" | SDone

fun run_set_op ::
    "(slab_event list \<Rightarrow> ptr) \<Rightarrow> ('k::linorder) set_op \<Rightarrow> bset \<Rightarrow> ('k, unit, 'k set_out \<times> bset) sprog" where
  "run_set_op pick SetLen b = ret (SNum (set_len b), b)"
| "run_set_op pick SetIsEmpty b = ret (SFlag (set_is_empty b), b)"
| "run_set_op pick (SetContains k) b = bindP (set_contains b k) (\<lambda>r. ret (SFlag r, b))"
| "run_set_op pick (SetGet k) b = bindP (set_get b k) (\<lambda>r. ret (SKey r, b))"
| "run_set_op pick SetFirst b = bindP (set_first b) (\<lambda>r. ret (SKey r, b))"
| "run_set_op pick SetLast b = bindP (set_last b) (\<lambda>r. ret (SKey r, b))"
| "run_set_op pick (SetInsert k) b = bindP (set_insert pick b k) (\<lambda>(r, b). ret (SFlag r, b))"
| "run_set_op pick (SetRemove k) b = bindP (set_remove b k) (\<lambda>(r, b). ret (SFlag r, b))"
| "run_set_op pick SetPopFirst b = bindP (set_pop_first b) (\<lambda>(r, b). ret (SKey r, b))"
| "run_set_op pick SetPopLast b = bindP (set_pop_last b) (\<lambda>(r, b). ret (SKey r, b))"
| "run_set_op pick (SetExtend ks) b = bindP (set_extend pick b ks) (\<lambda>b. ret (SDone, b))"

fun spec_set_op :: "('k::linorder) set_op \<Rightarrow> 'k set \<Rightarrow> 'k set_out \<times> 'k set" where
  "spec_set_op SetLen S = (SNum (card S), S)"
| "spec_set_op SetIsEmpty S = (SFlag (S = {}), S)"
| "spec_set_op (SetContains k) S = (SFlag (k \<in> S), S)"
| "spec_set_op (SetGet k) S = (SKey (if k \<in> S then Some k else None), S)"
| "spec_set_op SetFirst S = (SKey (least S), S)"
| "spec_set_op SetLast S = (SKey (greatest S), S)"
| "spec_set_op (SetInsert k) S = (SFlag (k \<notin> S), insert k S)"
| "spec_set_op (SetRemove k) S = (SFlag (k \<in> S), S - {k})"
| "spec_set_op SetPopFirst S = (SKey (least S), remove_opt (least S) S)"
| "spec_set_op SetPopLast S = (SKey (greatest S), remove_opt (greatest S) S)"
| "spec_set_op (SetExtend ks) S = (SDone, set ks \<union> S)"

text \<open>The operation of the map behind an operation of the set, and what the set keeps of its answer.\<close>

fun set_to_map :: "'k set_op \<Rightarrow> ('k, unit) map_op" where
  "set_to_map SetLen = Len"
| "set_to_map SetIsEmpty = IsEmpty"
| "set_to_map (SetContains k) = ContainsKey k"
| "set_to_map (SetGet k) = GetKey k"
| "set_to_map SetFirst = FirstKeyValue"
| "set_to_map SetLast = LastKeyValue"
| "set_to_map (SetInsert k) = Insert k ()"
| "set_to_map (SetRemove k) = Remove k"
| "set_to_map SetPopFirst = PopFirst"
| "set_to_map SetPopLast = PopLast"
| "set_to_map (SetExtend ks) = Extend (map (\<lambda>k. (k, ())) ks)"

fun set_answer :: "'k set_op \<Rightarrow> ('k, unit) outcome \<Rightarrow> 'k set_out" where
  "set_answer op (Num n) = SNum n"
| "set_answer op (Flag b) = SFlag b"
| "set_answer op (OptKey k) = SKey k"
| "set_answer op (OptEntry kv) = SKey (map_option fst kv)"
| "set_answer op (OptVal v) = SFlag (case op of SetInsert _ \<Rightarrow> v = None | _ \<Rightarrow> v \<noteq> None)"
| "set_answer op _ = SDone"

lemma set_delegates:
  "run_set_op pick op b =
     bindP (run_op pick (set_to_map op) (set_map b)) (\<lambda>(out, m). ret (set_answer op out, b\<lparr>set_map := m\<rparr>))"
  by (cases op; simp add: set_len_def set_is_empty_def set_contains_def set_get_def set_first_def set_last_def
      set_insert_def set_remove_def set_pop_first_def set_pop_last_def set_extend_def bindP_assoc
      case_prod_beta' comp_def fun_eq_iff) (simp_all add: ret_def)

lemma set_spec:
  assumes "kv_sorted kvs"
  shows "set_answer op (fst (spec_op (set_to_map op) kvs)) = fst (spec_set_op op (fst ` set kvs))"
    and "fst ` set (snd (spec_op (set_to_map op) kvs)) = snd (spec_set_op op (fst ` set kvs))"
proof -
  have mem: "map_of kvs k = None \<longleftrightarrow> k \<notin> fst ` set kvs" for k by (simp add: map_of_eq_None_iff)
  have get: "map_option (\<lambda>_. k) (map_of kvs k) = (if k \<in> fst ` set kvs then Some k else None)" for k
    using mem[of k] by (cases "map_of kvs k") auto
  show "set_answer op (fst (spec_op (set_to_map op) kvs)) = fst (spec_set_op op (fst ` set kvs))"
    by (cases op) (simp_all add: assms keys_card get mem kv_first_least kv_last_greatest)
  show "fst ` set (snd (spec_op (set_to_map op) kvs)) = snd (spec_set_op op (fst ` set kvs))"
    by (cases op) (simp_all add: assms keys_insert keys_delete keys_extend keys_tl keys_butlast image_image)
qed

lemma set_op_represents:
  assumes "slab pick" "represents_set s b S"
  shows "\<exists>b' s'. run_set_op pick op b s = Inr ((fst (spec_set_op op S), b'), s') \<and>
    represents_set s' b' (snd (spec_set_op op S))"
proof -
  obtain kvs where kvs: "represents s (set_map b) kvs" "fst ` set kvs = S"
    using assms(2) by (auto simp: represents_set_def)
  from op_represents[OF assms(1) kvs(1), of "set_to_map op"] obtain m' s' where
    r: "run_op pick (set_to_map op) (set_map b) s = Inr ((fst (spec_op (set_to_map op) kvs), m'), s')"
      "represents s' m' (snd (spec_op (set_to_map op) kvs))" by blast
  note spec = set_spec[OF represents_sorted[OF kvs(1)], of op, unfolded kvs(2)]
  from r(1) have "run_set_op pick op b s = Inr ((fst (spec_set_op op S), b\<lparr>set_map := m'\<rparr>), s')"
    by (simp add: set_delegates spec(1))
  moreover have "represents_set s' (b\<lparr>set_map := m'\<rparr>) (snd (spec_set_op op S))"
    using r(2) spec(2) by (auto simp: represents_set_def)
  ultimately show ?thesis by blast
qed

lemma set_simulation: "slab pick \<Longrightarrow> simulation represents_set (run_set_op pick) spec_set_op"
  by unfold_locales (rule set_op_represents)

interpretation bump_set: simulation represents_set "run_set_op bump" spec_set_op
  by (rule set_simulation[OF bump_slab.slab_axioms])

subsection \<open>Iteration over a set simulates taking from its sorted list\<close>

datatype set_iter_op = SetNext | SetNextBack | SetRemaining

datatype 'k set_iter_out = SItem "'k option" | SHint "nat \<times> nat option"

fun set_iter_step :: "set_iter_op \<Rightarrow> iter \<Rightarrow> ('k, unit, 'k set_iter_out \<times> iter) sprog" where
  "set_iter_step SetNext it = bindP (set_iter_next it) (\<lambda>(k, it). ret (SItem k, it))"
| "set_iter_step SetNextBack it = bindP (set_iter_next_back it) (\<lambda>(k, it). ret (SItem k, it))"
| "set_iter_step SetRemaining it = ret (SHint (set_iter_size_hint it), it)"

fun set_iter_spec :: "set_iter_op \<Rightarrow> 'k list \<Rightarrow> 'k set_iter_out \<times> 'k list" where
  "set_iter_spec SetNext ks = (SItem (if ks = [] then None else Some (hd ks)), tl ks)"
| "set_iter_spec SetNextBack ks = (SItem (if ks = [] then None else Some (last ks)), butlast ks)"
| "set_iter_spec SetRemaining ks = (SHint (length ks, Some (length ks)), ks)"

definition set_iterates :: "bset \<Rightarrow> ('k::linorder) set \<Rightarrow> ('k, unit) store \<Rightarrow> iter \<Rightarrow> 'k list \<Rightarrow> bool" where
  "set_iterates b S s it ks \<longleftrightarrow>
     (\<exists>kvs xs. iterates (set_map b) kvs s it xs \<and> fst ` set kvs = S \<and> map fst xs = ks)"

lemma set_iter_step_simulates:
  assumes "set_iterates b S s it ks"
  shows "\<exists>it' s'. set_iter_step op it s = Inr ((fst (set_iter_spec op ks), it'), s') \<and>
    set_iterates b S s' it' (snd (set_iter_spec op ks))"
proof -
  obtain kvs xs where x: "iterates (set_map b) kvs s it xs" "fst ` set kvs = S" "map fst xs = ks"
    using assms by (auto simp: set_iterates_def)
  have keep: "iterates (set_map b) kvs s' it' ys \<Longrightarrow> map fst ys = ks' \<Longrightarrow> set_iterates b S s' it' ks'" for s' it' ys ks'
    using x(2) by (auto simp: set_iterates_def)
  show ?thesis
  proof (cases op)
    case SetNext
    with iter_step_simulates[OF x(1), of Next] x(3) show ?thesis
      by (cases xs) (auto simp: set_iter_next_def bindP_apply split: sum.splits intro!: keep)
  next
    case SetNextBack
    with iter_step_simulates[OF x(1), of NextBack] x(3) show ?thesis
      by (cases xs rule: rev_cases)
        (auto simp: set_iter_next_back_def bindP_apply kv_last_def split: sum.splits intro!: keep)
  next
    case SetRemaining
    with iter_step_simulates[OF x(1), of Remaining] x(3) show ?thesis
      by (auto simp: set_iter_size_hint_def intro!: keep)
  qed
qed

interpretation set_reading: simulation "set_iterates b S" set_iter_step set_iter_spec for b S
  by unfold_locales (rule set_iter_step_simulates)

lemma keys_sorted_list: "kv_sorted kvs \<Longrightarrow> map fst kvs = sorted_list_of_set (fst ` set kvs)"
  using sorted_list_of_set.idem_if_sorted_distinct[of "map fst kvs"] kv_sorted_distinct[of kvs]
  by (simp add: kv_sorted_def strict_sorted_iff)

lemma set_iter_new_iterates:
  assumes "represents_set s b S"
  shows "\<exists>it s'. set_iter_new b s = Inr (it, s') \<and> set_iterates b S s' it (sorted_list_of_set S)"
proof -
  obtain kvs where kvs: "represents s (set_map b) kvs" "fst ` set kvs = S"
    using assms by (auto simp: represents_set_def)
  from iter_new_iterates[OF kvs(1)] keys_sorted_list[OF represents_sorted[OF kvs(1)]] kvs(2)
  show ?thesis unfolding set_iter_new_def set_iterates_def by metis
qed

lemma set_iterates_represents: "set_iterates b S s it ks \<Longrightarrow> represents_set s b S"
  unfolding set_iterates_def represents_set_def using iterates_represents by blast

end
