(* ===== verification/Compare.thy ===== *)
theory Compare
  imports IterMut
begin

text \<open>
  The comparison traits of \<open>src/src/map.rs\<close> (\<open>PartialEq\<close>, \<open>PartialOrd\<close>, \<open>Ord\<close>, \<open>Hash\<close>): loops over the
  iterators of the two maps. The traits of the keys and values are parameters. The loops are those of
  \<open>Iterator::eq\<close>, \<open>partial_cmp\<close> and \<open>cmp\<close>; their fuel is one more than the length of the first map.
\<close>

subsection \<open>Operations\<close>

datatype ordering = Less | Equal | Greater

definition eq_pair :: "('k \<Rightarrow> 'k \<Rightarrow> bool) \<Rightarrow> ('v \<Rightarrow> 'v \<Rightarrow> bool) \<Rightarrow> 'k \<times> 'v \<Rightarrow> 'k \<times> 'v \<Rightarrow> bool" where
  "eq_pair eqk eqv x y \<longleftrightarrow> eqk (fst x) (fst y) \<and> eqv (snd x) (snd y)"

definition cmp_pair ::
    "('k \<Rightarrow> 'k \<Rightarrow> ordering option) \<Rightarrow> ('v \<Rightarrow> 'v \<Rightarrow> ordering option) \<Rightarrow> 'k \<times> 'v \<Rightarrow> 'k \<times> 'v \<Rightarrow> ordering option" where
  "cmp_pair ck cv x y =
     (case ck (fst x) (fst y) of Some Equal \<Rightarrow> cv (snd x) (snd y) | r \<Rightarrow> r)"

fun iter_eq :: "nat \<Rightarrow> ('k \<times> 'v \<Rightarrow> 'k \<times> 'v \<Rightarrow> bool) \<Rightarrow> iter \<Rightarrow> iter \<Rightarrow> ('k, 'v, bool) sprog" where
  "iter_eq 0 f a b = fail OutOfFuel"
| "iter_eq (Suc fuel) f a b =
     bindP (iter_next a) (\<lambda>(x, a).
     bindP (iter_next b) (\<lambda>(y, b).
     case (x, y) of
       (None, None) \<Rightarrow> ret True
     | (Some x, Some y) \<Rightarrow> if f x y then iter_eq fuel f a b else ret False
     | _ \<Rightarrow> ret False))"

fun iter_compare ::
    "nat \<Rightarrow> ('k \<times> 'v \<Rightarrow> 'k \<times> 'v \<Rightarrow> ordering option) \<Rightarrow> iter \<Rightarrow> iter \<Rightarrow> ('k, 'v, ordering option) sprog" where
  "iter_compare 0 f a b = fail OutOfFuel"
| "iter_compare (Suc fuel) f a b =
     bindP (iter_next a) (\<lambda>(x, a).
     bindP (iter_next b) (\<lambda>(y, b).
     case (x, y) of
       (None, None) \<Rightarrow> ret (Some Equal)
     | (None, Some y) \<Rightarrow> ret (Some Less)
     | (Some x, None) \<Rightarrow> ret (Some Greater)
     | (Some x, Some y) \<Rightarrow> if f x y = Some Equal then iter_compare fuel f a b else ret (f x y)))"

fun iter_hash :: "nat \<Rightarrow> ('k \<Rightarrow> 'h \<Rightarrow> 'h) \<Rightarrow> ('v \<Rightarrow> 'h \<Rightarrow> 'h) \<Rightarrow> iter \<Rightarrow> 'h \<Rightarrow> ('k, 'v, 'h) sprog" where
  "iter_hash 0 hk hv a st = fail OutOfFuel"
| "iter_hash (Suc fuel) hk hv a st =
     bindP (iter_next a) (\<lambda>(x, a).
     case x of None \<Rightarrow> ret st
     | Some (k, v) \<Rightarrow> iter_hash fuel hk hv a (hv v (hk k st)))"

definition map_eq ::
    "('k \<Rightarrow> 'k \<Rightarrow> bool) \<Rightarrow> ('v \<Rightarrow> 'v \<Rightarrow> bool) \<Rightarrow> bmap \<Rightarrow> bmap \<Rightarrow> ('k, 'v, bool) sprog" where
  "map_eq eqk eqv m1 m2 =
     bindP (iter_new m1) (\<lambda>a. bindP (iter_new m2) (\<lambda>b.
     iter_eq (Suc (mlength m1)) (eq_pair eqk eqv) a b))"

definition map_partial_cmp ::
    "('k \<Rightarrow> 'k \<Rightarrow> ordering option) \<Rightarrow> ('v \<Rightarrow> 'v \<Rightarrow> ordering option) \<Rightarrow> bmap \<Rightarrow> bmap \<Rightarrow>
     ('k, 'v, ordering option) sprog" where
  "map_partial_cmp ck cv m1 m2 =
     bindP (iter_new m1) (\<lambda>a. bindP (iter_new m2) (\<lambda>b.
     iter_compare (Suc (mlength m1)) (cmp_pair ck cv) a b))"

definition total :: "('a \<Rightarrow> 'a \<Rightarrow> ordering) \<Rightarrow> 'a \<Rightarrow> 'a \<Rightarrow> ordering option" where
  "total c x y = Some (c x y)"

definition map_cmp ::
    "('k \<Rightarrow> 'k \<Rightarrow> ordering) \<Rightarrow> ('v \<Rightarrow> 'v \<Rightarrow> ordering) \<Rightarrow> bmap \<Rightarrow> bmap \<Rightarrow> ('k, 'v, ordering) sprog" where
  "map_cmp ck cv m1 m2 =
     bindP (map_partial_cmp (total ck) (total cv) m1 m2) (\<lambda>r. liftP (unwrapR r))"

definition map_hash :: "('k \<Rightarrow> 'h \<Rightarrow> 'h) \<Rightarrow> ('v \<Rightarrow> 'h \<Rightarrow> 'h) \<Rightarrow> bmap \<Rightarrow> 'h \<Rightarrow> ('k, 'v, 'h) sprog" where
  "map_hash hk hv m st = bindP (iter_new m) (\<lambda>a. iter_hash (Suc (mlength m)) hk hv a st)"

subsection \<open>The lists behind the loops\<close>

fun lex_compare :: "('a \<Rightarrow> 'a \<Rightarrow> ordering option) \<Rightarrow> 'a list \<Rightarrow> 'a list \<Rightarrow> ordering option" where
  "lex_compare f [] [] = Some Equal"
| "lex_compare f [] (y # ys) = Some Less"
| "lex_compare f (x # xs) [] = Some Greater"
| "lex_compare f (x # xs) (y # ys) = (if f x y = Some Equal then lex_compare f xs ys else f x y)"

text \<open>An iterator over a map of an abstract heap, with the entries it has not yielded.\<close>

definition reads :: "('k::linorder, 'v) vheap \<Rightarrow> iter \<Rightarrow> ('k \<times> 'v) list \<Rightarrow> bool" where
  "reads A it xs \<longleftrightarrow>
     (\<exists>m T fr bk. bmap_ok A m T \<and> contents T = fr @ xs @ bk \<and> iter_at (blocks T) (length fr) (length xs) it)"

lemma runs_new_reads:
  assumes "bmap_ok A m T" "\<And>it. reads A it (contents T) \<Longrightarrow> Q it A"
  shows "runs (iter_new m) A Q"
proof (rule runs_iter_new[OF assms(1)], rule assms(2))
  fix it assume "iter_at (blocks T) 0 (length (contents T)) it"
  then show "reads A it (contents T)" unfolding reads_def
    by (intro exI[of _ m] exI[of _ T] exI[of _ "[]"]) (use assms(1) in simp)
qed

lemma runs_next_reads:
  assumes "reads A it xs" "xs = [] \<Longrightarrow> Q (None, it) A"
    "\<And>x xs' it. xs = x # xs' \<Longrightarrow> reads A it xs' \<Longrightarrow> Q (Some x, it) A"
  shows "runs (iter_next it) A Q"
proof -
  obtain m T fr bk where T: "bmap_ok A m T" "contents T = fr @ xs @ bk" "iter_at (blocks T) (length fr) (length xs) it"
    using assms(1) by (auto simp: reads_def)
  show ?thesis
  proof (rule runs_iter_next[OF T])
    fix x xs' it' assume x: "xs = x # xs'" "iter_at (blocks T) (length (fr @ [x])) (length xs') it'"
    then have "reads A it' xs'" unfolding reads_def
      by (intro exI[of _ m] exI[of _ T] exI[of _ "fr @ [x]"] exI[of _ bk]) (use T in simp)
    with x(1) show "Q (Some x, it') A" by (rule assms(3))
  qed (rule assms(2))
qed

lemma runs_iter_eq:
  assumes "reads A a xs" "reads A b ys" "length xs < fuel" "Q (list_all2 f xs ys) A"
  shows "runs (iter_eq fuel f a b) A Q"
  using assms
proof (induction fuel arbitrary: a b xs ys)
  case (Suc fuel)
  show ?case unfolding iter_eq.simps
  proof (rule runs_bind, rule runs_next_reads[OF Suc.prems(1)]; simp only: prod.case; rule runs_bind,
      rule runs_next_reads[OF Suc.prems(2)]; simp only: prod.case option.case)
    fix x xs' a' y ys' b' assume x: "xs = x # xs'" "reads A a' xs'" "ys = y # ys'" "reads A b' ys'"
    show "runs (if f x y then iter_eq fuel f a' b' else ret False) A Q"
      by (rule runs_if, rule Suc.IH[OF x(2,4)]) (use Suc.prems(3,4) x in \<open>auto intro!: runs_ret\<close>)
  qed (use Suc.prems(4) in \<open>auto intro!: runs_ret\<close>)
qed simp

lemma runs_iter_compare:
  assumes "reads A a xs" "reads A b ys" "length xs < fuel" "Q (lex_compare f xs ys) A"
  shows "runs (iter_compare fuel f a b) A Q"
  using assms
proof (induction fuel arbitrary: a b xs ys)
  case (Suc fuel)
  show ?case unfolding iter_compare.simps
  proof (rule runs_bind, rule runs_next_reads[OF Suc.prems(1)]; simp only: prod.case; rule runs_bind,
      rule runs_next_reads[OF Suc.prems(2)]; simp only: prod.case option.case)
    fix x xs' a' y ys' b' assume x: "xs = x # xs'" "reads A a' xs'" "ys = y # ys'" "reads A b' ys'"
    show "runs (if f x y = Some Equal then iter_compare fuel f a' b' else ret (f x y)) A Q"
      by (rule runs_if, rule Suc.IH[OF x(2,4)]) (use Suc.prems(3,4) x in \<open>auto intro!: runs_ret\<close>)
  qed (use Suc.prems(4) in \<open>auto intro!: runs_ret\<close>)
qed simp

lemma runs_iter_hash:
  assumes "reads A a xs" "length xs < fuel" "Q (fold (\<lambda>(k, v) st. hv v (hk k st)) xs st) A"
  shows "runs (iter_hash fuel hk hv a st) A Q"
  using assms
proof (induction fuel arbitrary: a xs st)
  case (Suc fuel)
  show ?case unfolding iter_hash.simps
  proof (rule runs_bind, rule runs_next_reads[OF Suc.prems(1)]; simp only: prod.case option.case)
    fix x xs' a' assume x: "xs = x # xs'" "reads A a' xs'"
    obtain k v where kv: "x = (k, v)" by (cases x)
    show "runs (case x of (k, v) \<Rightarrow> iter_hash fuel hk hv a' (hv v (hk k st))) A Q"
      unfolding kv prod.case by (rule Suc.IH[OF x(2)]) (use Suc.prems(2,3) x(1) kv in simp_all)
  qed (use Suc.prems(3) in \<open>auto intro!: runs_ret\<close>)
qed simp

lemma runs_map_eq:
  assumes "bmap_ok A m1 T1" "bmap_ok A m2 T2" "Q (list_all2 (eq_pair eqk eqv) (contents T1) (contents T2)) A"
  shows "runs (map_eq eqk eqv m1 m2) A Q"
  unfolding map_eq_def
  by (rule runs_bind, rule runs_new_reads[OF assms(1)], rule runs_bind, rule runs_new_reads[OF assms(2)],
      rule runs_iter_eq) (use assms(3) map_len_contents[OF assms(1)] in simp_all)

lemma runs_map_partial_cmp:
  assumes "bmap_ok A m1 T1" "bmap_ok A m2 T2" "Q (lex_compare (cmp_pair ck cv) (contents T1) (contents T2)) A"
  shows "runs (map_partial_cmp ck cv m1 m2) A Q"
  unfolding map_partial_cmp_def
  by (rule runs_bind, rule runs_new_reads[OF assms(1)], rule runs_bind, rule runs_new_reads[OF assms(2)],
      rule runs_iter_compare) (use assms(3) map_len_contents[OF assms(1)] in simp_all)

lemma runs_map_hash:
  assumes "bmap_ok A m T" "Q (fold (\<lambda>(k, v) st. hv v (hk k st)) (contents T) st) A"
  shows "runs (map_hash hk hv m st) A Q"
  unfolding map_hash_def
  by (rule runs_bind, rule runs_new_reads[OF assms(1)], rule runs_iter_hash)
    (use assms(2) map_len_contents[OF assms(1)] in simp_all)

end
