(* ===== verification/NodeIter.thy ===== *)
theory NodeIter
  imports World
begin

text \<open>
  What the tracing collector asks of a map (\<open>src/src/copyable/sealed.rs\<close> and its implementation in
  \<open>src/src/map.rs\<close>): the pre-order traversal \<open>NodeIter\<close> of its nodes, and the check that it lives in a given
  store. The traversal works on maps of a single leaf. On a map with internal nodes it climbs from its first
  leaf, mistakes the parent's own index for that of the leaf, and never returns to the right height.
\<close>

subsection \<open>The traversal\<close>

record node_iter =
  ni_current :: "ptr option"
  ni_height :: nat
  ni_max :: nat

definition node_iter_new :: "ptr option \<Rightarrow> nat \<Rightarrow> node_iter" where
  "node_iter_new r h = \<lparr>ni_current = r, ni_height = h, ni_max = h\<rparr>"

definition map_nodes :: "bmap \<Rightarrow> node_iter" where
  "map_nodes m = node_iter_new (root m) (height m)"

text \<open>The loop that looks for the next sibling of an ancestor; it ends at the root at the latest.\<close>

function node_iter_up :: "nat \<Rightarrow> nat \<Rightarrow> ptr \<Rightarrow> ('k, 'v, ptr option \<times> nat) sprog" where
  "node_iter_up mx h node =
     (if h < mx
      then bindP (get_at node (\<lambda>n. unwrapR (parent n))) (\<lambda>node.
           bindP (get_at node (\<lambda>n. case parent_idx n of None \<Rightarrow> Inl UninitRead | Some i \<Rightarrow> Inr i)) (\<lambda>index.
           bindP (len_at node) (\<lambda>l.
           if index < l
           then bindP (liftP (u16_add index 1)) (\<lambda>i. bindP (get_at node (edge i)) (\<lambda>e. ret (Some e, h + 1)))
           else node_iter_up mx (h + 1) node)))
      else if h = mx then ret (None, h)
      else fail Unreachable)"
  by pat_completeness auto
termination
  by (relation "measure (\<lambda>(mx, h, _). mx - h)") auto

declare node_iter_up.simps [simp del]

definition node_iter_next :: "node_iter \<Rightarrow> ('k, 'v, ptr option \<times> node_iter) sprog" where
  "node_iter_next it =
     (case ni_current it of
        None \<Rightarrow> ret (None, it)
      | Some next' \<Rightarrow>
          if 0 < ni_height it
          then bindP (get_at next' (edge 0)) (\<lambda>e.
               ret (Some next', it\<lparr>ni_current := Some e, ni_height := ni_height it - 1\<rparr>))
          else bindP (node_iter_up (ni_max it) (ni_height it) next') (\<lambda>(c, h).
               ret (Some next', it\<lparr>ni_current := c, ni_height := h\<rparr>)))"

fun node_iter_collect :: "nat \<Rightarrow> node_iter \<Rightarrow> ('k, 'v, ptr list) sprog" where
  "node_iter_collect 0 it = fail OutOfFuel"
| "node_iter_collect (Suc fuel) it =
     bindP (node_iter_next it) (\<lambda>(p, it).
     case p of None \<Rightarrow> ret []
     | Some p \<Rightarrow> bindP (node_iter_collect fuel it) (\<lambda>ps. ret (p # ps)))"

subsection \<open>The store of a map\<close>

text \<open>A map as the collector is given it: with its field \<open>store\<close>, the address of the store that it was
  created in. The other operations only follow that reference, so they take the map alone.\<close>

record 'm placed =
  in_store :: nat
  tree :: 'm

definition assert_store :: "'m placed \<Rightarrow> nat \<Rightarrow> ('k, 'v, unit) sprog" where
  "assert_store b addr = assertP (in_store b = addr)"

subsection \<open>Maps without internal nodes\<close>

text \<open>On a leaf the traversal does not look at the store at all.\<close>

lemma collect_low:
  assumes "height m = 0"
  shows "node_iter_collect (Suc (Suc fuel)) (map_nodes m) = ret (case root m of None \<Rightarrow> [] | Some p \<Rightarrow> [p])"
  using assms
  by (cases "root m") (simp_all add: map_nodes_def node_iter_new_def node_iter_next_def node_iter_up.simps fun_eq_iff)

lemma owned_low:
  assumes "bmap_ok A m T" "height m = 0"
  shows "owned T = set (case root m of None \<Rightarrow> [] | Some p \<Rightarrow> [p])"
  using assms by (cases T) (auto simp: tree_ok_def bal_leaf_cases)

subsection \<open>Maps with internal nodes\<close>

lemma node_iter_down:
  assumes "A p = Some (VInt par ks es)"
    "faults (node_iter_collect fuel \<lparr>ni_current = Some (es ! 0), ni_height = h, ni_max = mx\<rparr>) A e"
  shows "faults (node_iter_collect (Suc fuel) \<lparr>ni_current = Some p, ni_height = Suc h, ni_max = mx\<rparr>) A e"
proof -
  have "runs (node_iter_next \<lparr>ni_current = Some p, ni_height = Suc h, ni_max = mx\<rparr>) A
      (\<lambda>r A'. r = (Some p, \<lparr>ni_current = Some (es ! 0), ni_height = h, ni_max = mx\<rparr>) \<and> A' = A)"
    unfolding node_iter_next_def node_iter.simps option.case
    by (simp, intro runs_bind runs_edge[where A = A, OF assms(1)] runs_ret) auto
  then show ?thesis unfolding node_iter_collect.simps
    by (intro faults_bind_later) (auto elim!: runs_conseq intro!: faults_bind_now assms(2))
qed

text \<open>The parent's own index is read: undefined for the root, 0 for a node on the left edge.\<close>

lemma node_iter_climb_root:
  assumes "A l = Some (VLeaf (Some (p, i)) ks vs pv nx)" "A p = Some (VInt None pks es)" "0 < mx"
  shows "faults (node_iter_collect (Suc fuel) \<lparr>ni_current = Some l, ni_height = 0, ni_max = mx\<rparr>) A UninitRead"
proof -
  have "runs (get_at l (\<lambda>n. unwrapR (parent n))) A (\<lambda>r A'. r = p \<and> A' = A)"
    by (rule runs_get_at[where A = A, OF assms(1)]) auto
  moreover have "faults (get_at p (\<lambda>n. case parent_idx n of None \<Rightarrow> Inl UninitRead | Some i \<Rightarrow> Inr i)) A UninitRead"
    by (rule faults_get_at[where A = A, OF assms(2)]) auto
  ultimately have "faults (node_iter_up mx 0 l) A UninitRead"
    unfolding node_iter_up.simps[of mx 0 l] using assms(3)
    by (simp only: if_True) (rule faults_then, assumption, rule faults_bind_now)
  then show ?thesis by (simp add: node_iter_next_def faults_bind_now)
qed

lemma node_iter_climb:
  assumes "A l = Some (VLeaf (Some (p, i)) ks vs pv nx)" "A p = Some (VInt (Some (g, 0)) pks es)" "pks \<noteq> []" "0 < mx"
    "A (es ! 1) = Some (VLeaf par' ks' vs' pv' nx')"
  shows "faults (node_iter_collect (Suc (Suc fuel)) \<lparr>ni_current = Some l, ni_height = 0, ni_max = mx\<rparr>) A WrongVariant"
proof -
  have 1: "runs (get_at l (\<lambda>n. unwrapR (parent n))) A (\<lambda>r A'. r = p \<and> A' = A)"
    by (rule runs_get_at[where A = A, OF assms(1)]) auto
  have 2: "runs (get_at p (\<lambda>n. case parent_idx n of None \<Rightarrow> Inl UninitRead | Some i \<Rightarrow> Inr i)) A (\<lambda>r A'. r = 0 \<and> A' = A)"
    by (rule runs_get_at[where A = A, OF assms(2)]) auto
  have 3: "runs (len_at p) A (\<lambda>r A'. r = length pks \<and> A' = A)"
    by (rule runs_len_at[where A = A, OF assms(2)]) simp
  have 4: "runs (get_at p (edge 1)) A (\<lambda>r A'. r = es ! 1 \<and> A' = A)"
    by (rule runs_edge[where A = A, OF assms(2)]) (use assms(3) in \<open>cases pks; simp\<close>)+
  have "runs (node_iter_up mx 0 l) A (\<lambda>r A'. r = (Some (es ! 1), 1) \<and> A' = A)"
    unfolding node_iter_up.simps[of mx 0 l]
    using assms(3,4) 1 2 3 4
    by (auto intro!: runs_bind runs_ret elim!: runs_conseq)
  then have "runs (node_iter_next \<lparr>ni_current = Some l, ni_height = 0, ni_max = mx\<rparr>) A
      (\<lambda>r A'. r = (Some l, \<lparr>ni_current = Some (es ! 1), ni_height = 1, ni_max = mx\<rparr>) \<and> A' = A)"
    by (auto simp: node_iter_next_def intro!: runs_bind runs_ret elim!: runs_conseq)
  moreover have "faults (node_iter_next \<lparr>ni_current = Some (es ! 1), ni_height = 1, ni_max = mx\<rparr>) A WrongVariant"
    unfolding node_iter_next_def node_iter.simps option.case
    by (simp only: zero_less_one if_True, rule faults_bind_now, rule faults_get_at[where A = A, OF assms(5)], erule edge_wrong) simp
  ultimately show ?thesis unfolding node_iter_collect.simps(2)[of "Suc fuel"]
    by (intro faults_then[where A = A]) (auto intro!: faults_bind_now)
qed

lemma faults_node_iter:
  fixes A :: "('k::linorder, 'v) vheap"
  assumes "rep A par t" "bal (Suc h) t" "filled 1 t" "par = None \<or> (\<exists>g. par = Some (g, 0))" "Suc h \<le> mx"
  shows "faults (node_iter_collect (Suc (Suc (Suc h)) + fuel) \<lparr>ni_current = Some (root_of t), ni_height = Suc h, ni_max = mx\<rparr>) A
    (if h = 0 \<and> par = None then UninitRead else WrongVariant)"
  using assms
proof (induction h arbitrary: t par fuel)
  case 0
  then obtain p ks ts where t: "t = Nd p ks ts" "length ts = length ks + 1" "\<forall>u\<in>set ts. bal 0 u"
    by (auto simp: bal_Suc_cases)
  have ks: "ks \<noteq> []" using "0.prems"(3) t(1) by auto
  then have ts: "0 < length ts" "1 < length ts" using t(2) by (cases ks; simp)+
  have p: "A p = Some (VInt par ks (map root_of ts))" "reps A p 0 ts" using "0.prems"(1) t(1) by auto
  obtain l0 ks0 vs0 pv0 nx0 where l0: "root_of (ts ! 0) = l0" "A l0 = Some (VLeaf (Some (p, 0)) ks0 vs0 pv0 nx0)"
    using reps_nth[OF p(2) ts(1)] t(3) nth_mem[OF ts(1)] by (cases "ts ! 0") auto
  obtain l1 ks1 vs1 pv1 nx1 where l1: "root_of (ts ! 1) = l1" "A l1 = Some (VLeaf (Some (p, 1)) ks1 vs1 pv1 nx1)"
    using reps_nth[OF p(2) ts(2)] t(3) nth_mem[OF ts(2)] by (cases "ts ! 1") auto
  have "faults (node_iter_collect (Suc (Suc fuel)) \<lparr>ni_current = Some l0, ni_height = 0, ni_max = mx\<rparr>) A
      (if par = None then UninitRead else WrongVariant)"
    using "0.prems"(4)
  proof (elim disjE exE)
    assume "par = None"
    then show ?thesis using node_iter_climb_root[OF l0(2) p(1)[unfolded \<open>par = None\<close>]] "0.prems"(5) by simp
  next
    fix g assume g: "par = Some (g, 0)"
    have "A (map root_of ts ! 1) = Some (VLeaf (Some (p, 1)) ks1 vs1 pv1 nx1)" using l1 ts by simp
    from node_iter_climb[OF l0(2) p(1)[unfolded g] ks _ this] g "0.prems"(5) show ?thesis by simp
  qed
  then show ?case using node_iter_down[where A = A, OF p(1)] l0(1) ts t(1) by simp
next
  case (Suc h)
  then obtain p ks ts where t: "t = Nd p ks ts" "length ts = length ks + 1" "\<forall>u\<in>set ts. bal (Suc h) u"
    by (auto simp: bal_Suc_cases)
  have ts: "0 < length ts" using t(2) by simp
  have p: "A p = Some (VInt par ks (map root_of ts))" "reps A p 0 ts" using Suc.prems(1) t(1) by auto
  have c: "rep A (Some (p, 0)) (ts ! 0)" "bal (Suc h) (ts ! 0)"
    using reps_nth[OF p(2) ts] t(3) nth_mem[OF ts] by simp_all
  have "filled (M div 2) (ts ! 0)" using Suc.prems(3) t(1) nth_mem[OF ts] by simp
  then have f: "filled 1 (ts ! 0)" by (rule filled_mono) (simp add: M_def)
  have "faults (node_iter_collect (Suc (Suc (Suc h)) + fuel) \<lparr>ni_current = Some (root_of (ts ! 0)), ni_height = Suc h, ni_max = mx\<rparr>) A
      WrongVariant"
    using Suc.IH[OF c f _ , of fuel] Suc.prems(5) by simp
  then show ?case using node_iter_down[where A = A, OF p(1)] ts t(1) by simp
qed

end
