(* ===== verification/Copyable.thy ===== *)
theory Copyable
  imports BSet Compare NodeIter Looks
begin

text \<open>
  The copyable maps and sets (\<open>src/src/copyable/map.rs\<close>, \<open>src/src/copyable/set.rs\<close>): a map kept as raw bytes,
  so that it can be copied and is never dropped. Only reading operations are offered; they delegate to the
  map, which \<open>Deref\<close> finds in the bytes. Every copy points to the same nodes.

  \<open>transmute\<close> turns a map into an array of as many bytes, and reading the array at the type of the map
  gives the map back; so the model keeps the bytes as the record that they stand for. What gets lost is the
  alignment: an array of bytes may lie at any address, and a reference to a map must not. Every operation
  that takes \<open>&self\<close> therefore has the address of these bytes as an argument, and dereferencing at an address
  that is not aligned is the fault \<open>Misaligned\<close>.
\<close>

subsection \<open>Raw maps\<close>

text \<open>\<open>align_of::<BTreeMap>()\<close>, which is that of its pointers and lengths, on a target of 64 bits.\<close>

definition map_align :: nat where
  "map_align = 8"

record raw_bmap =
  raw_data :: bmap

definition raw_from :: "bmap \<Rightarrow> raw_bmap" where
  "raw_from m = \<lparr>raw_data = m\<rparr>"

definition raw_clone :: "raw_bmap \<Rightarrow> raw_bmap" where
  "raw_clone r = \<lparr>raw_data = raw_data r\<rparr>"

definition raw_deref :: "nat \<Rightarrow> raw_bmap \<Rightarrow> ('s, bmap) prog" where
  "raw_deref at r = (if map_align dvd at then ret (raw_data r) else fail Misaligned)"

subsection \<open>Maps\<close>

record copy_map =
  copy_inner :: raw_bmap

definition copy_from :: "bmap \<Rightarrow> copy_map" where
  "copy_from m = \<lparr>copy_inner = raw_from m\<rparr>"

definition copy_build :: "(bmap \<Rightarrow> ('k, 'v, bmap) sprog) \<Rightarrow> ('k, 'v, copy_map) sprog" where
  "copy_build f = bindP (f new_in) (\<lambda>m. ret (copy_from m))"

text \<open>The code copies the struct as it is, without a call of the clone of its field.\<close>

definition copy_clone :: "copy_map \<Rightarrow> copy_map" where
  "copy_clone c = \<lparr>copy_inner = copy_inner c\<rparr>"

definition copy_len :: "nat \<Rightarrow> copy_map \<Rightarrow> ('k, 'v, nat) sprog" where
  "copy_len at c = bindP (raw_deref at (copy_inner c)) (\<lambda>m. ret (map_len m))"

definition copy_is_empty :: "nat \<Rightarrow> copy_map \<Rightarrow> ('k, 'v, bool) sprog" where
  "copy_is_empty at c = bindP (raw_deref at (copy_inner c)) (\<lambda>m. ret (map_is_empty m))"

definition copy_contains_key :: "nat \<Rightarrow> copy_map \<Rightarrow> 'k::linorder \<Rightarrow> ('k, 'v, bool) sprog" where
  "copy_contains_key at c k = bindP (raw_deref at (copy_inner c)) (\<lambda>m. contains_key m k)"

definition copy_get :: "nat \<Rightarrow> copy_map \<Rightarrow> 'k::linorder \<Rightarrow> ('k, 'v, 'v option) sprog" where
  "copy_get at c k = bindP (raw_deref at (copy_inner c)) (\<lambda>m. map_get m k)"

definition copy_get_key :: "nat \<Rightarrow> copy_map \<Rightarrow> 'k::linorder \<Rightarrow> ('k, 'v, 'k option) sprog" where
  "copy_get_key at c k = bindP (raw_deref at (copy_inner c)) (\<lambda>m. get_key m k)"

definition copy_get_key_value :: "nat \<Rightarrow> copy_map \<Rightarrow> 'k::linorder \<Rightarrow> ('k, 'v, ('k \<times> 'v) option) sprog" where
  "copy_get_key_value at c k = bindP (raw_deref at (copy_inner c)) (\<lambda>m. get_key_value m k)"

definition copy_first_key_value :: "nat \<Rightarrow> copy_map \<Rightarrow> ('k, 'v, ('k \<times> 'v) option) sprog" where
  "copy_first_key_value at c = bindP (raw_deref at (copy_inner c)) (\<lambda>m. first_key_value m)"

definition copy_last_key_value :: "nat \<Rightarrow> copy_map \<Rightarrow> ('k, 'v, ('k \<times> 'v) option) sprog" where
  "copy_last_key_value at c = bindP (raw_deref at (copy_inner c)) (\<lambda>m. last_key_value m)"

definition copy_iter :: "nat \<Rightarrow> copy_map \<Rightarrow> ('k, 'v, iter) sprog" where
  "copy_iter at c = bindP (raw_deref at (copy_inner c)) (\<lambda>m. iter_new m)"

definition copy_range :: "nat \<Rightarrow> copy_map \<Rightarrow> ('k::linorder) bounds \<Rightarrow> ('k, 'v, range) sprog" where
  "copy_range at c bs = bindP (raw_deref at (copy_inner c)) (\<lambda>m. range_new m bs)"

definition copy_eq ::
    "('k \<Rightarrow> 'k \<Rightarrow> bool) \<Rightarrow> ('v \<Rightarrow> 'v \<Rightarrow> bool) \<Rightarrow> nat \<Rightarrow> copy_map \<Rightarrow> nat \<Rightarrow> copy_map \<Rightarrow> ('k, 'v, bool) sprog" where
  "copy_eq eqk eqv at c at' d =
     bindP (raw_deref at (copy_inner c)) (\<lambda>m. bindP (raw_deref at' (copy_inner d)) (\<lambda>n. map_eq eqk eqv m n))"

definition copy_partial_cmp ::
    "('k \<Rightarrow> 'k \<Rightarrow> ordering option) \<Rightarrow> ('v \<Rightarrow> 'v \<Rightarrow> ordering option) \<Rightarrow> nat \<Rightarrow> copy_map \<Rightarrow> nat \<Rightarrow> copy_map \<Rightarrow>
     ('k, 'v, ordering option) sprog" where
  "copy_partial_cmp ck cv at c at' d =
     bindP (raw_deref at (copy_inner c)) (\<lambda>m. bindP (raw_deref at' (copy_inner d)) (\<lambda>n. map_partial_cmp ck cv m n))"

definition copy_cmp ::
    "('k \<Rightarrow> 'k \<Rightarrow> ordering) \<Rightarrow> ('v \<Rightarrow> 'v \<Rightarrow> ordering) \<Rightarrow> nat \<Rightarrow> copy_map \<Rightarrow> nat \<Rightarrow> copy_map \<Rightarrow>
     ('k, 'v, ordering) sprog" where
  "copy_cmp ck cv at c at' d =
     bindP (raw_deref at (copy_inner c)) (\<lambda>m. bindP (raw_deref at' (copy_inner d)) (\<lambda>n. map_cmp ck cv m n))"

definition copy_hash ::
    "('k \<Rightarrow> 'h \<Rightarrow> 'h) \<Rightarrow> ('v \<Rightarrow> 'h \<Rightarrow> 'h) \<Rightarrow> nat \<Rightarrow> copy_map \<Rightarrow> 'h \<Rightarrow> ('k, 'v, 'h) sprog" where
  "copy_hash hk hv at c st = bindP (raw_deref at (copy_inner c)) (\<lambda>m. map_hash hk hv m st)"

definition copy_nodes :: "nat \<Rightarrow> copy_map \<Rightarrow> ('k, 'v, node_iter) sprog" where
  "copy_nodes at c = bindP (raw_deref at (copy_inner c)) (\<lambda>m. ret (map_nodes m))"

text \<open>The field \<open>store\<close> is in the bytes as well.\<close>

definition copy_assert_store :: "nat \<Rightarrow> copy_map placed \<Rightarrow> nat \<Rightarrow> ('k, 'v, unit) sprog" where
  "copy_assert_store at c addr =
     bindP (raw_deref at (copy_inner (tree c))) (\<lambda>m. assert_store \<lparr>in_store = in_store c, tree = m\<rparr> addr)"

subsection \<open>Sets\<close>

record raw_bset =
  raw_set_data :: bset

definition raw_set_from :: "bset \<Rightarrow> raw_bset" where
  "raw_set_from b = \<lparr>raw_set_data = b\<rparr>"

definition raw_set_clone :: "raw_bset \<Rightarrow> raw_bset" where
  "raw_set_clone r = \<lparr>raw_set_data = raw_set_data r\<rparr>"

definition raw_set_deref :: "nat \<Rightarrow> raw_bset \<Rightarrow> ('s, bset) prog" where
  "raw_set_deref at r = (if map_align dvd at then ret (raw_set_data r) else fail Misaligned)"

record copy_set =
  copy_set_inner :: raw_bset

definition copy_set_from :: "bset \<Rightarrow> copy_set" where
  "copy_set_from b = \<lparr>copy_set_inner = raw_set_from b\<rparr>"

definition copy_set_build :: "(bset \<Rightarrow> ('k, unit, bset) sprog) \<Rightarrow> ('k, unit, copy_set) sprog" where
  "copy_set_build f = bindP (f set_new_in) (\<lambda>b. ret (copy_set_from b))"

definition copy_set_len :: "nat \<Rightarrow> copy_set \<Rightarrow> ('k, unit, nat) sprog" where
  "copy_set_len at c = bindP (raw_set_deref at (copy_set_inner c)) (\<lambda>b. ret (set_len b))"

definition copy_set_is_empty :: "nat \<Rightarrow> copy_set \<Rightarrow> ('k, unit, bool) sprog" where
  "copy_set_is_empty at c = bindP (raw_set_deref at (copy_set_inner c)) (\<lambda>b. ret (set_is_empty b))"

definition copy_set_first :: "nat \<Rightarrow> copy_set \<Rightarrow> ('k, unit, 'k option) sprog" where
  "copy_set_first at c = bindP (raw_set_deref at (copy_set_inner c)) (\<lambda>b. set_first b)"

definition copy_set_last :: "nat \<Rightarrow> copy_set \<Rightarrow> ('k, unit, 'k option) sprog" where
  "copy_set_last at c = bindP (raw_set_deref at (copy_set_inner c)) (\<lambda>b. set_last b)"

definition copy_set_contains :: "nat \<Rightarrow> copy_set \<Rightarrow> 'k::linorder \<Rightarrow> ('k, unit, bool) sprog" where
  "copy_set_contains at c k = bindP (raw_set_deref at (copy_set_inner c)) (\<lambda>b. set_contains b k)"

definition copy_set_get :: "nat \<Rightarrow> copy_set \<Rightarrow> 'k::linorder \<Rightarrow> ('k, unit, 'k option) sprog" where
  "copy_set_get at c k = bindP (raw_set_deref at (copy_set_inner c)) (\<lambda>b. set_get b k)"

definition copy_set_iter :: "nat \<Rightarrow> copy_set \<Rightarrow> ('k, unit, iter) sprog" where
  "copy_set_iter at c = bindP (raw_set_deref at (copy_set_inner c)) (\<lambda>b. set_iter_new b)"

definition copy_set_range :: "nat \<Rightarrow> copy_set \<Rightarrow> ('k::linorder) bounds \<Rightarrow> ('k, unit, range) sprog" where
  "copy_set_range at c bs = bindP (raw_set_deref at (copy_set_inner c)) (\<lambda>b. set_range_new b bs)"

subsection \<open>Reading a copy simulates reading a list\<close>

datatype 'k read_op =
    RLen | RIsEmpty | RContainsKey 'k | RGet 'k | RGetKey 'k | RGetKeyValue 'k | RFirst | RLast

fun run_read :: "nat \<Rightarrow> ('k::linorder) read_op \<Rightarrow> copy_map \<Rightarrow> ('k, 'v, ('k, 'v) outcome \<times> copy_map) sprog" where
  "run_read at RLen c = bindP (copy_len at c) (\<lambda>r. ret (Num r, c))"
| "run_read at RIsEmpty c = bindP (copy_is_empty at c) (\<lambda>r. ret (Flag r, c))"
| "run_read at (RContainsKey k) c = bindP (copy_contains_key at c k) (\<lambda>r. ret (Flag r, c))"
| "run_read at (RGet k) c = bindP (copy_get at c k) (\<lambda>r. ret (OptVal r, c))"
| "run_read at (RGetKey k) c = bindP (copy_get_key at c k) (\<lambda>r. ret (OptKey r, c))"
| "run_read at (RGetKeyValue k) c = bindP (copy_get_key_value at c k) (\<lambda>r. ret (OptEntry r, c))"
| "run_read at RFirst c = bindP (copy_first_key_value at c) (\<lambda>r. ret (OptEntry r, c))"
| "run_read at RLast c = bindP (copy_last_key_value at c) (\<lambda>r. ret (OptEntry r, c))"

fun read_to_map :: "'k read_op \<Rightarrow> ('k, 'v) map_op" where
  "read_to_map RLen = Len"
| "read_to_map RIsEmpty = IsEmpty"
| "read_to_map (RContainsKey k) = ContainsKey k"
| "read_to_map (RGet k) = Get k"
| "read_to_map (RGetKey k) = GetKey k"
| "read_to_map (RGetKeyValue k) = GetKeyValue k"
| "read_to_map RFirst = FirstKeyValue"
| "read_to_map RLast = LastKeyValue"

definition read_spec :: "('k::linorder) read_op \<Rightarrow> ('k \<times> 'v) list \<Rightarrow> ('k, 'v) outcome \<times> ('k \<times> 'v) list" where
  "read_spec op kvs = (fst (spec_op (read_to_map op) kvs), kvs)"

text \<open>Some map of the store, which is \<open>s0\<close> all the time, owns the nodes that the copies point to.\<close>

definition copy_ok ::
    "('k::linorder, 'v) store \<Rightarrow> copy_map \<Rightarrow> ('k, 'v) store \<Rightarrow> copy_map \<Rightarrow> ('k \<times> 'v) list \<Rightarrow> bool" where
  "copy_ok s0 c0 s c kvs \<longleftrightarrow> s = s0 \<and> c = c0 \<and> represents s (raw_data (copy_inner c)) kvs"

lemma raw_deref_apply:
  "bindP (raw_deref at r) f = (if map_align dvd at then f (raw_data r) else fail Misaligned)"
  by (simp add: raw_deref_def fun_eq_iff bindP_apply)

lemmas copy_reads = copy_len_def copy_is_empty_def copy_contains_key_def copy_get_def copy_get_key_def
  copy_get_key_value_def copy_first_key_value_def copy_last_key_value_def

lemma read_misaligned: "\<not> map_align dvd at \<Longrightarrow> run_read at op c s = Inl Misaligned"
  by (cases op) (simp_all add: copy_reads raw_deref_apply bindP_apply)

lemma read_delegates:
  "map_align dvd at \<Longrightarrow>
   run_read at op c = bindP (run_op bump (read_to_map op) (raw_data (copy_inner c))) (\<lambda>(out, m). ret (out, c))"
  by (cases op; simp add: copy_reads raw_deref_apply bindP_assoc) (simp_all add: ret_def)

lemma read_looks: "looking (read_to_map op)"
  by (cases op) simp_all

lemma read_simulates:
  assumes "map_align dvd at" "copy_ok s0 c0 s c kvs"
  shows "\<exists>c' s'. run_read at op c s = Inr ((fst (read_spec op kvs), c'), s') \<and> copy_ok s0 c0 s' c' (snd (read_spec op kvs))"
proof -
  have "represents s (raw_data (copy_inner c)) kvs" using assms(2) unfolding copy_ok_def by blast
  then show ?thesis
    using assms looking_answers[OF read_looks, of s "raw_data (copy_inner c)" kvs bump op]
    by (auto simp: read_delegates copy_ok_def read_spec_def bindP_apply)
qed

lemma copies_simulation: "map_align dvd at \<Longrightarrow> simulation (copy_ok s0 c0) (run_read at) read_spec"
  by unfold_locales (rule read_simulates)

interpretation copies: simulation "copy_ok s0 c0" "run_read 0" read_spec for s0 c0
  by (rule copies_simulation) simp

lemma read_spec_stays: "snd (spec_ops read_spec ops kvs) = kvs"
  by (induction ops) (auto simp: read_spec_def split: prod.splits)

lemma reads_answer:
  assumes "map_align dvd at" "represents s (raw_data (copy_inner c)) kvs"
  shows "run_ops (run_read at) ops c s = Inr ((fst (spec_ops read_spec ops kvs), c), s)"
  using simulation.run_simulates[OF copies_simulation[OF assms(1)], of s c s c kvs ops] assms(2)
  by (auto simp: copy_ok_def)

end
