(* ===== verification/Gc.thy ===== *)
theory Gc
  imports Copyable
begin

text \<open>
  Tracing garbage collection of a store (\<open>src/src/copyable/store.rs\<close>): \<open>tracing_gc\<close> takes the maps by value,
  keeps the nodes that the traversals of these maps meet, and frees all others. A copyable map that is given
  to it is only a copy. Any other map is moved into the closure and dropped there, before its nodes are
  iterated: its entries are gone, and a traversal that looks at its nodes looks at freed ones.
\<close>

subsection \<open>The collector\<close>

text \<open>What \<open>b_trees\<close> may yield, the implementations of \<open>sealed::BTree\<close>: a map, or a copyable map that the
  closure finds at some address. The sets have the fields of a map and call the functions of that map.\<close>

datatype arg = Owned bmap | Copied nat copy_map

fun arg_map :: "arg \<Rightarrow> bmap" where
  "arg_map (Owned m) = m"
| "arg_map (Copied at c) = raw_data (copy_inner c)"

definition arg_assert_store :: "arg placed \<Rightarrow> nat \<Rightarrow> ('k, 'v, unit) sprog" where
  "arg_assert_store b addr =
     (case tree b of
        Owned m \<Rightarrow> assert_store \<lparr>in_store = in_store b, tree = m\<rparr> addr
      | Copied at c \<Rightarrow> copy_assert_store at \<lparr>in_store = in_store b, tree = c\<rparr> addr)"

definition arg_nodes :: "arg \<Rightarrow> ('k, 'v, node_iter) sprog" where
  "arg_nodes x = (case x of Owned m \<Rightarrow> ret (map_nodes m) | Copied at c \<Rightarrow> copy_nodes at c)"

text \<open>The end of the closure, where \<open>b_tree\<close> goes out of scope.\<close>

definition arg_drop :: "arg \<Rightarrow> ('k, 'v, unit) sprog" where
  "arg_drop x = (case x of Owned m \<Rightarrow> bindP (drop_map False m) (\<lambda>_. ret ()) | Copied at c \<Rightarrow> ret ())"

text \<open>\<open>flat_map\<close> is lazy: the closure is called for a map when all maps before it have been traversed.\<close>

fun reachable_nodes :: "nat \<Rightarrow> nat \<Rightarrow> arg placed list \<Rightarrow> ('k, 'v, ptr list) sprog" where
  "reachable_nodes fuel addr [] = ret []"
| "reachable_nodes fuel addr (b # bs) =
     bindP (arg_assert_store b addr) (\<lambda>_.
     bindP (arg_nodes (tree b)) (\<lambda>it.
     bindP (arg_drop (tree b)) (\<lambda>_.
     bindP (node_iter_collect fuel it) (\<lambda>ps.
     bindP (reachable_nodes fuel addr bs) (\<lambda>qs. ret (ps @ qs))))))"

text \<open>\<open>addr\<close> is the address of the store that is collected.\<close>

definition tracing_gc ::
    "(slab_event list \<Rightarrow> ptr list) \<Rightarrow> nat \<Rightarrow> nat \<Rightarrow> arg placed list \<Rightarrow> ('k, 'v, unit) sprog" where
  "tracing_gc visit fuel addr bs =
     bindP (reachable_nodes fuel addr bs) (\<lambda>nodes.
     retain_shared visit (\<lambda>p n. p \<in> set nodes))"

subsection \<open>Arguments\<close>

fun arg_aligned :: "arg \<Rightarrow> bool" where
  "arg_aligned (Owned m) = True"
| "arg_aligned (Copied at c) = (map_align dvd at)"

fun is_copied :: "arg \<Rightarrow> bool" where
  "is_copied (Owned m) = False"
| "is_copied (Copied at c) = True"

text \<open>A map that the collector handles: its store is the right one, and its address is aligned if it is a copy.\<close>

definition ours :: "nat \<Rightarrow> arg placed \<Rightarrow> bool" where
  "ours addr b \<longleftrightarrow> in_store b = addr \<and> arg_aligned (tree b)"

abbreviation arg_height :: "arg placed \<Rightarrow> nat" where
  "arg_height b \<equiv> height (arg_map (tree b))"

text \<open>What belongs to the maps that are not dropped.\<close>

definition kept :: "arg placed list \<Rightarrow> 'a list \<Rightarrow> 'a list" where
  "kept bs xs = map snd (filter (\<lambda>x. is_copied (tree (fst x))) (zip bs xs))"

lemma kept_simps [simp]:
  "kept [] xs = []"
  "kept (b # bs) (x # xs) = (if is_copied (tree b) then x # kept bs xs else kept bs xs)"
  by (simp_all add: kept_def)

lemma kept_map: "map f (kept bs xs) = kept bs (map f xs)"
  by (simp add: kept_def zip_map2 filter_map comp_def case_prod_beta)

lemma arg_assert_here: "ours addr b \<Longrightarrow> bindP (arg_assert_store b addr) f = f ()"
  by (cases "tree b") (auto simp: ours_def arg_assert_store_def copy_assert_store_def assert_store_def raw_deref_def
      fun_eq_iff bindP_apply)

lemma arg_assert_foreign:
  "in_store b \<noteq> addr \<Longrightarrow>
    bindP (arg_assert_store b addr) f s = Inl (if arg_aligned (tree b) then AssertFailed else Misaligned)"
  by (cases "tree b") (auto simp: arg_assert_store_def copy_assert_store_def assert_store_def raw_deref_def bindP_apply)

lemma arg_nodes_here: "arg_aligned x \<Longrightarrow> bindP (arg_nodes x) f = f (map_nodes (arg_map x))"
  by (cases x) (auto simp: arg_nodes_def copy_nodes_def raw_deref_def fun_eq_iff bindP_apply)

lemma reachable_ours:
  "ours addr b \<Longrightarrow> reachable_nodes fuel addr (b # bs) =
     bindP (arg_drop (tree b)) (\<lambda>_.
     bindP (node_iter_collect fuel (map_nodes (arg_map (tree b)))) (\<lambda>ps.
     bindP (reachable_nodes fuel addr bs) (\<lambda>qs. ret (ps @ qs))))"
  by (simp add: arg_assert_here) (simp add: arg_nodes_here ours_def)

text \<open>The heap after the end of the closure.\<close>

definition after_arg :: "arg \<Rightarrow> ('k, 'v) vheap \<Rightarrow> ('k, 'v) bt option \<Rightarrow> ('k, 'v) vheap" where
  "after_arg x A T = (if is_copied x then A else A |` (- owned T))"

lemma runs_arg_drop:
  fixes A :: "('k::linorder, 'v) vheap"
  assumes "bmap_ok A (arg_map x) T" "Q () (after_arg x A T)"
  shows "runs (arg_drop x) A Q"
  using assms
  by (cases x) (auto simp: arg_drop_def after_arg_def intro!: runs_ret runs_bind runs_drop_map[where A = A and T = T])

lemma runs_sweep:
  fixes A :: "('k, 'v) vheap"
  assumes "distinct ps" "set ps \<subseteq> dom A" "Q () (A |` {p. p \<in> set ps \<longrightarrow> f p})"
  shows "runs (for_each ps (\<lambda>p. bindP (deref p) (\<lambda>n. if f p then ret () else dealloc p))) A Q"
  using assms
proof (induction ps arbitrary: A)
  case (Cons p ps)
  then obtain v where v: "A p = Some v" by auto
  have rest: "distinct ps" "p \<notin> set ps" using Cons.prems(1) by simp_all
  show ?case unfolding for_each.simps
  proof (rule runs_bind, rule runs_bind, rule runs_deref[where A = A, OF v], rule runs_if)
    assume p: "f p"
    have "{q. q \<in> set (p # ps) \<longrightarrow> f q} = {q. q \<in> set ps \<longrightarrow> f q}" using p by auto
    then show "runs (ret ()) A (\<lambda>a A'. runs (for_each ps (\<lambda>p. bindP (deref p) (\<lambda>n. if f p then ret () else dealloc p))) A' Q)"
      using Cons.IH[of A] Cons.prems rest by (intro runs_ret) simp
  next
    assume p: "\<not> f p"
    have "A |` {q. q \<in> set (p # ps) \<longrightarrow> f q} = (A(p := None)) |` {q. q \<in> set ps \<longrightarrow> f q}"
      using p by (auto simp: fun_eq_iff restrict_map_def)
    with Cons.prems(3) have Q: "Q () ((A(p := None)) |` {q. q \<in> set ps \<longrightarrow> f q})" by simp
    have dom: "set ps \<subseteq> dom (A(p := None))" using Cons.prems(2) rest(2) by auto
    note IH = Cons.IH[OF rest(1) dom Q]
    then show "runs (dealloc p) A (\<lambda>a A'. runs (for_each ps (\<lambda>p. bindP (deref p) (\<lambda>n. if f p then ret () else dealloc p))) A' Q)"
      by (intro runs_dealloc[where A = A, OF v] IH)
  qed
qed (auto simp: restrict_map_def intro!: runs_ret)

lemma runs_retain_shared:
  fixes A :: "('k, 'v) vheap"
  assumes visit: "visiting visit" and Q: "Q () (A |` {p. f p})"
  shows "runs (retain_shared visit (\<lambda>p n. f p)) A Q"
  unfolding runs_def
proof (intro allI impI)
  fix s assume s: "shows_heap s A"
  let ?ps = "visit (slab_log s)"
  have ps: "set ?ps = dom A" "distinct ?ps"
    using s visiting.visit_live[OF visit] visiting.visit_once[OF visit] by (simp_all add: shows_heap_def)
  have "A |` {p. p \<in> set ?ps \<longrightarrow> f p} = A |` {p. f p}" using ps(1) by (auto simp: fun_eq_iff restrict_map_def)
  with Q have "Q () (A |` {p. p \<in> set ?ps \<longrightarrow> f p})" by simp
  from runs_sweep[of ?ps A Q f, OF ps(2) _ this] ps(1) s
  show "\<exists>r s' A'. retain_shared visit (\<lambda>p n. f p) s = Inr (r, s') \<and> shows_heap s' A' \<and> Q r A'"
    unfolding runs_def retain_shared_def by simp
qed

lemma world_restrict:
  fixes A :: "('k::linorder, 'v) vheap"
  assumes "list_all2 (bmap_ok A) ms Ts" "\<Union> (owned ` set Ts) \<subseteq> S"
  shows "list_all2 (bmap_ok (A |` S)) ms Ts"
proof -
  have "bmap_ok (A |` S) m T" if "bmap_ok A m T" "T \<in> set Ts" for m T
  proof (cases T)
    case (Some t)
    have "owned T \<subseteq> S" using assms(2) that(2) by blast
    then have "set (ptrs t) \<subseteq> S" using Some by simp
    then show ?thesis using that(1) Some by (auto intro!: tree_in_cong[of A])
  qed (use that in simp)
  then show ?thesis using assms(1) unfolding list_all2_conv_all_nth by (metis nth_mem)
qed

lemma separate_Cons: "separate (T # Ts) \<longleftrightarrow> (\<forall>U\<in>set Ts. owned T \<inter> owned U = {}) \<and> separate Ts"
proof
  assume s: "separate (T # Ts)"
  have "owned T \<inter> owned (Ts ! j) = {}" if "j < length Ts" for j
    using s that unfolding separate_def by (metis length_Cons nat.distinct(1) not_less_eq nth_Cons_0 nth_Cons_Suc zero_less_Suc)
  moreover have "separate Ts"
    using s unfolding separate_def by (metis Suc_less_eq length_Cons nat.inject nth_Cons_Suc)
  ultimately show "(\<forall>U\<in>set Ts. owned T \<inter> owned U = {}) \<and> separate Ts" by (metis in_set_conv_nth)
next
  assume s: "(\<forall>U\<in>set Ts. owned T \<inter> owned U = {}) \<and> separate Ts"
  show "separate (T # Ts)" unfolding separate_def
  proof (intro allI impI)
    fix i j assume ij: "i < length (T # Ts)" "j < length (T # Ts)" "i \<noteq> j"
    show "owned ((T # Ts) ! i) \<inter> owned ((T # Ts) ! j) = {}"
    proof (cases i)
      case 0
      then show ?thesis using s ij by (cases j) simp_all
    next
      case (Suc i')
      then show ?thesis using s ij nth_mem[of i' Ts] by (cases j) (auto simp: separate_def)
    qed
  qed
qed

lemma separate_kept: "separate Ts \<Longrightarrow> length bs = length Ts \<Longrightarrow> separate (kept bs Ts) \<and> set (kept bs Ts) \<subseteq> set Ts"
proof (induction Ts arbitrary: bs)
  case (Cons T Ts)
  then obtain b bs' where "bs = b # bs'" "length bs' = length Ts" by (cases bs) auto
  with Cons show ?case by (auto simp: separate_Cons subset_iff)
qed (simp add: kept_def)

lemma list_all2_kept: "list_all2 P xs ys \<Longrightarrow> length bs = length xs \<Longrightarrow> list_all2 P (kept bs xs) (kept bs ys)"
proof (induction arbitrary: bs rule: list_all2_induct)
  case (Cons x xs y ys)
  then show ?case by (cases bs) auto
qed (simp add: kept_def)

text \<open>The rest of the heap, when one map has been dropped or kept.\<close>

lemma after_arg_rest:
  fixes A :: "('k::linorder, 'v) vheap"
  assumes "list_all2 (bmap_ok A) ms Ts" "\<forall>U\<in>set Ts. owned T \<inter> owned U = {}"
  shows "list_all2 (bmap_ok (after_arg x A T)) ms Ts"
  unfolding after_arg_def using assms world_restrict[OF assms(1), of "- owned T"] by auto

subsection \<open>Maps without internal nodes\<close>

lemma runs_reachable_low:
  fixes A :: "('k::linorder, 'v) vheap"
  assumes "list_all2 (bmap_ok A) (map (\<lambda>b. arg_map (tree b)) bs) Ts" "separate Ts" "\<forall>b\<in>set bs. ours addr b \<and> arg_height b = 0"
    and "\<And>ps A'. \<Union> (owned ` set (kept bs Ts)) \<subseteq> set ps \<Longrightarrow> set ps \<subseteq> \<Union> (owned ` set Ts) \<Longrightarrow>
      A' = A |` (- (\<Union> (owned ` set Ts) - \<Union> (owned ` set (kept bs Ts)))) \<Longrightarrow> Q ps A'"
  shows "runs (reachable_nodes (Suc (Suc fuel)) addr bs) A Q"
  using assms
proof (induction bs arbitrary: A Ts Q)
  case Nil
  then show ?case unfolding reachable_nodes.simps by (intro runs_ret) (auto simp: restrict_map_def)
next
  case (Cons b bs)
  obtain T Us where T: "Ts = T # Us" "bmap_ok A (arg_map (tree b)) T" "list_all2 (bmap_ok A) (map (\<lambda>b. arg_map (tree b)) bs) Us"
    using Cons.prems(1) by (auto simp: list_all2_Cons1)
  have sep: "\<forall>U\<in>set Us. owned T \<inter> owned U = {}" "separate Us" using Cons.prems(2) T(1) by (simp_all add: separate_Cons)
  have b: "ours addr b" "arg_height b = 0" using Cons.prems(3) by simp_all
  let ?ps = "case root (arg_map (tree b)) of None \<Rightarrow> [] | Some p \<Rightarrow> [p]"
  have ps: "owned T = set ?ps" by (rule owned_low[OF T(2) b(2)])
  have sub: "set (kept bs Us) \<subseteq> set Us"
    using separate_kept[OF sep(2), of bs] list_all2_lengthD[OF T(3)] by simp
  show ?case unfolding reachable_ours[OF b(1)] collect_low[OF b(2)] bindP_ret
  proof (rule runs_bind, rule runs_arg_drop[OF T(2)], rule runs_bind, rule Cons.IH[OF after_arg_rest[OF T(3) sep(1)] sep(2)])
    show "\<forall>b\<in>set bs. ours addr b \<and> arg_height b = 0" using Cons.prems(3) by simp
    fix qs A' assume qs: "\<Union> (owned ` set (kept bs Us)) \<subseteq> set qs" "set qs \<subseteq> \<Union> (owned ` set Us)"
      and A': "A' = after_arg (tree b) A T |` (- (\<Union> (owned ` set Us) - \<Union> (owned ` set (kept bs Us))))"
    show "runs (ret (?ps @ qs)) A' Q"
    proof (rule runs_ret, rule Cons.prems(4))
      show "\<Union> (owned ` set (kept (b # bs) Ts)) \<subseteq> set (?ps @ qs)" "set (?ps @ qs) \<subseteq> \<Union> (owned ` set Ts)"
        using qs unfolding T(1) set_append ps[symmetric] by auto
      have out: "owned T \<inter> \<Union> (owned ` set (kept bs Us)) = {}" using sep(1) sub by blast
      have "- (\<Union> (owned ` set Ts) - \<Union> (owned ` set (kept (b # bs) Ts))) =
          (if is_copied (tree b) then UNIV else - owned T) \<inter> - (\<Union> (owned ` set Us) - \<Union> (owned ` set (kept bs Us)))"
        using out sep(1) unfolding T(1) by auto
      then show "A' = A |` (- (\<Union> (owned ` set Ts) - \<Union> (owned ` set (kept (b # bs) Ts))))"
        unfolding A' after_arg_def by (auto simp: restrict_map_def fun_eq_iff)
    qed
  qed
qed

lemma world_tracing_gc:
  assumes visit: "visiting visit" and ours: "\<forall>b\<in>set bs. ours addr b \<and> arg_height b = 0"
    and w: "world_ok tight s (map (\<lambda>b. arg_map (tree b)) bs) kvss" and fuel: "2 \<le> fuel"
  shows "\<exists>s'. tracing_gc visit fuel addr bs s = Inr ((), s') \<and>
    world_ok True s' (kept bs (map (\<lambda>b. arg_map (tree b)) bs)) (kept bs kvss)"
proof -
  let ?ms = "map (\<lambda>b. arg_map (tree b)) bs"
  obtain A Ts where A: "shows_heap s A" "list_all2 (bmap_ok A) ?ms Ts" "map contents Ts = kvss" "separate Ts"
    using w unfolding world_ok_def by blast
  obtain fuel' where f: "fuel = Suc (Suc fuel')" using fuel by (metis add_2_eq_Suc le_Suc_ex)
  have len: "length bs = length Ts" using list_all2_lengthD[OF A(2)] by simp
  note k = separate_kept[OF A(4) len]
  let ?K = "\<Union> (owned ` set (kept bs Ts))"
  have "owned T \<subseteq> dom A" if T: "T \<in> set Ts" for T
  proof -
    obtain i where "i < length Ts" "T = Ts ! i" using T by (auto simp: in_set_conv_nth)
    then show ?thesis using list_all2_nthD2[OF A(2)] bmap_ok_owned by metis
  qed
  then have own: "?K \<subseteq> dom A" using k by blast
  have "runs (tracing_gc visit fuel addr bs) A (\<lambda>r A'. A' = A |` ?K)"
    unfolding tracing_gc_def f
  proof (rule runs_bind, rule runs_reachable_low[OF A(2,4) ours])
    fix ps A' assume ps: "?K \<subseteq> set ps" "set ps \<subseteq> \<Union> (owned ` set Ts)" "A' = A |` (- (\<Union> (owned ` set Ts) - ?K))"
    have "A' |` set ps = A |` ?K" using ps(1,2) unfolding ps(3) by (auto simp: restrict_map_def fun_eq_iff)
    then show "runs (retain_shared visit (\<lambda>p n. p \<in> set ps)) A' (\<lambda>r A'. A' = A |` ?K)"
      by (intro runs_retain_shared[OF visit]) simp
  qed
  from runsD[OF this A(1)] obtain s' where s': "tracing_gc visit fuel addr bs s = Inr ((), s')" "shows_heap s' (A |` ?K)"
    by (metis (full_types) old.unit.exhaust)
  have "dom (A |` ?K) = ?K" using own by auto
  moreover have "list_all2 (bmap_ok (A |` ?K)) (kept bs ?ms) (kept bs Ts)"
    by (rule world_restrict[OF list_all2_kept[OF A(2)]]) simp_all
  moreover have "map contents (kept bs Ts) = kept bs kvss" unfolding kept_map A(3) ..
  ultimately show ?thesis using s' k unfolding world_ok_def by blast
qed

subsection \<open>Maps with internal nodes\<close>

text \<open>The fault that the collector stops with at a map that it does not handle.\<close>

fun gc_fault :: "arg \<Rightarrow> fault" where
  "gc_fault (Owned m) = DanglingPointer"
| "gc_fault (Copied at c) =
     (if \<not> map_align dvd at then Misaligned
      else if height (raw_data (copy_inner c)) = 1 then UninitRead else WrongVariant)"

lemma faults_arg:
  fixes A :: "('k::linorder, 'v) vheap"
  assumes ok: "bmap_ok A (arg_map (tree b)) T" and b: "in_store b = addr" "0 < arg_height b \<or> \<not> arg_aligned (tree b)"
    and fuel: "arg_height b + 2 \<le> fuel"
  shows "faults (reachable_nodes fuel addr (b # bs)) A (gc_fault (tree b))"
proof (cases "arg_aligned (tree b)")
  case False
  then show ?thesis
    by (cases "tree b") (simp_all add: faults_def arg_assert_store_def copy_assert_store_def raw_deref_def bindP_apply)
next
  case True
  then have ours: "ours addr b" "0 < arg_height b" using b by (simp_all add: ours_def)
  then obtain h where h: "arg_height b = Suc h" by (metis not0_implies_Suc not_less0)
  then obtain t where t: "T = Some t" using ok by (cases T) auto
  then have t': "rep A None t" "bal (Suc h) t" "filled 1 t" "root (arg_map (tree b)) = Some (root_of t)"
    using ok h by (simp_all add: tree_ok_def tree_in_def)
  obtain d where d: "fuel = Suc (Suc (Suc h)) + d" using fuel h by (metis add.commute add_2_eq_Suc' le_Suc_ex)
  show ?thesis
  proof (cases "tree b")
    case (Owned m)
    have gone: "(A |` (- owned T)) (root_of t) = None" using t by (cases t) simp_all
    note dangling = faults_dangling[where A = "A |` (- owned T)", OF gone]
    have "faults (node_iter_collect fuel (map_nodes m)) (A |` (- owned T)) DanglingPointer"
      unfolding d using t'(4) h Owned
      by (simp add: map_nodes_def node_iter_new_def node_iter_next_def) (intro faults_bind_now dangling)
    then have "faults (bindP (node_iter_collect fuel (map_nodes (arg_map (tree b)))) (\<lambda>ps.
        bindP (reachable_nodes fuel addr bs) (\<lambda>qs. ret (ps @ qs)))) (after_arg (tree b) A T) (gc_fault (tree b))"
      unfolding Owned by (simp add: after_arg_def faults_bind_now)
    then show ?thesis unfolding reachable_ours[OF ours(1)] by (rule faults_bind_later[OF runs_arg_drop[OF ok]])
  next
    case (Copied at c)
    have "faults (node_iter_collect fuel (map_nodes (arg_map (tree b)))) A (if h = 0 then UninitRead else WrongVariant)"
      using faults_node_iter[OF t'(1-3), of "Suc h" d] t'(4) h unfolding d by (simp add: map_nodes_def node_iter_new_def)
    then have "faults (node_iter_collect fuel (map_nodes (arg_map (tree b)))) A (gc_fault (tree b))"
      using Copied h True by simp
    then have "faults (bindP (node_iter_collect fuel (map_nodes (arg_map (tree b)))) (\<lambda>ps.
        bindP (reachable_nodes fuel addr bs) (\<lambda>qs. ret (ps @ qs)))) (after_arg (tree b) A T) (gc_fault (tree b))"
      using Copied by (simp add: after_arg_def faults_bind_now)
    then show ?thesis unfolding reachable_ours[OF ours(1)] by (rule faults_bind_later[OF runs_arg_drop[OF ok]])
  qed
qed

text \<open>Any maps of this store, one of which is not handled.\<close>

lemma faults_reachable:
  fixes A :: "('k::linorder, 'v) vheap"
  assumes "list_all2 (bmap_ok A) (map (\<lambda>b. arg_map (tree b)) bs) Ts" "separate Ts"
    "\<forall>b\<in>set bs. in_store b = addr \<and> arg_height b + 2 \<le> fuel"
    "\<exists>b\<in>set bs. 0 < arg_height b \<or> \<not> arg_aligned (tree b)"
  shows "\<exists>b\<in>set bs. (0 < arg_height b \<or> \<not> arg_aligned (tree b)) \<and> faults (reachable_nodes fuel addr bs) A (gc_fault (tree b))"
  using assms
proof (induction bs arbitrary: A Ts)
  case (Cons b bs)
  obtain T Us where T: "Ts = T # Us" "bmap_ok A (arg_map (tree b)) T" "list_all2 (bmap_ok A) (map (\<lambda>b. arg_map (tree b)) bs) Us"
    using Cons.prems(1) by (auto simp: list_all2_Cons1)
  have sep: "\<forall>U\<in>set Us. owned T \<inter> owned U = {}" "separate Us" using Cons.prems(2) T(1) by (simp_all add: separate_Cons)
  have b: "in_store b = addr" "arg_height b + 2 \<le> fuel" using Cons.prems(3) by simp_all
  show ?case
  proof (cases "0 < arg_height b \<or> \<not> arg_aligned (tree b)")
    case True
    then show ?thesis using faults_arg[OF T(2) b(1) _ b(2), of bs] by auto
  next
    case False
    then have ours: "ours addr b" "arg_height b = 0" using b by (simp_all add: ours_def)
    obtain fuel' where f: "fuel = Suc (Suc fuel')" using b(2) by (metis add_2_eq_Suc' le_Suc_ex add_leD2 add_2_eq_Suc)
    have "\<exists>c\<in>set bs. 0 < arg_height c \<or> \<not> arg_aligned (tree c)" using Cons.prems(4) False by auto
    from Cons.IH[OF after_arg_rest[OF T(3) sep(1), of "tree b"] sep(2) _ this] Cons.prems(3)
    obtain c where c: "c \<in> set bs" "0 < arg_height c \<or> \<not> arg_aligned (tree c)"
        "faults (reachable_nodes fuel addr bs) (after_arg (tree b) A T) (gc_fault (tree c))" by auto
    have "faults (reachable_nodes fuel addr (b # bs)) A (gc_fault (tree c))"
      unfolding reachable_ours[OF ours(1)] f collect_low[OF ours(2)] bindP_ret
      by (intro faults_bind_later[OF runs_arg_drop[OF T(2)]] faults_bind_now) (use c(3) f in simp)
    with c show ?thesis by auto
  qed
qed simp

lemma world_tracing_gc_faults:
  assumes w: "world_ok tight s (map (\<lambda>b. arg_map (tree b)) bs) kvss"
    and here: "\<forall>b\<in>set bs. in_store b = addr \<and> arg_height b + 2 \<le> fuel"
    and bad: "\<exists>b\<in>set bs. 0 < arg_height b \<or> \<not> arg_aligned (tree b)"
  shows "\<exists>b\<in>set bs. (0 < arg_height b \<or> \<not> arg_aligned (tree b)) \<and> tracing_gc visit fuel addr bs s = Inl (gc_fault (tree b))"
proof -
  obtain A Ts where A: "shows_heap s A" "list_all2 (bmap_ok A) (map (\<lambda>b. arg_map (tree b)) bs) Ts" "separate Ts"
    using w unfolding world_ok_def by blast
  obtain b where b: "b \<in> set bs" "0 < arg_height b \<or> \<not> arg_aligned (tree b)"
      "faults (reachable_nodes fuel addr bs) A (gc_fault (tree b))"
    using faults_reachable[OF A(2,3) here bad] by blast
  have "tracing_gc visit fuel addr bs s = Inl (gc_fault (tree b))"
    using b(3) A(1) by (simp add: tracing_gc_def faults_def)
  then show ?thesis using b(1,2) by blast
qed

subsection \<open>A map of another store\<close>

lemma faults_foreign:
  fixes A :: "('k::linorder, 'v) vheap"
  assumes "list_all2 (bmap_ok A) (map (\<lambda>b. arg_map (tree b)) bs1) Ts" "separate Ts"
    "\<forall>b\<in>set bs1. ours addr b \<and> arg_height b = 0" "in_store b \<noteq> addr"
  shows "faults (reachable_nodes (Suc (Suc fuel)) addr (bs1 @ b # bs2)) A
    (if arg_aligned (tree b) then AssertFailed else Misaligned)"
  using assms
proof (induction bs1 arbitrary: A Ts)
  case Nil
  then show ?case unfolding faults_def append_Nil reachable_nodes.simps arg_assert_foreign[OF Nil(4)] by simp
next
  case (Cons c bs1)
  obtain T Us where T: "Ts = T # Us" "bmap_ok A (arg_map (tree c)) T" "list_all2 (bmap_ok A) (map (\<lambda>b. arg_map (tree b)) bs1) Us"
    using Cons.prems(1) by (auto simp: list_all2_Cons1)
  have sep: "\<forall>U\<in>set Us. owned T \<inter> owned U = {}" "separate Us" using Cons.prems(2) T(1) by (simp_all add: separate_Cons)
  have c: "ours addr c" "arg_height c = 0" using Cons.prems(3) by simp_all
  have "faults (reachable_nodes (Suc (Suc fuel)) addr (bs1 @ b # bs2)) (after_arg (tree c) A T)
      (if arg_aligned (tree b) then AssertFailed else Misaligned)"
    by (rule Cons.IH[OF after_arg_rest[OF T(3) sep(1)] sep(2)]) (use Cons.prems in simp_all)
  then show ?case unfolding append_Cons reachable_ours[OF c(1)] collect_low[OF c(2)] bindP_ret
    by (intro faults_bind_later[OF runs_arg_drop[OF T(2)]] faults_bind_now)
qed

lemma world_gc_foreign:
  assumes w: "world_ok tight s (map (\<lambda>b. arg_map (tree b)) bs1) kvss"
    and low: "\<forall>b\<in>set bs1. ours addr b \<and> arg_height b = 0"
    and b: "in_store b \<noteq> addr" and fuel: "2 \<le> fuel"
  shows "tracing_gc visit fuel addr (bs1 @ b # bs2) s = Inl (if arg_aligned (tree b) then AssertFailed else Misaligned)"
proof -
  obtain A Ts where A: "shows_heap s A" "list_all2 (bmap_ok A) (map (\<lambda>b. arg_map (tree b)) bs1) Ts" "separate Ts"
    using w unfolding world_ok_def by blast
  obtain fuel' where f: "fuel = Suc (Suc fuel')" using fuel by (metis add_2_eq_Suc le_Suc_ex)
  from faults_foreign[OF A(2,3) low b] A(1) show ?thesis unfolding f tracing_gc_def faults_def bindP_apply by simp
qed

end
