(* ===== verification/Programs.thy ===== *)
theory Programs
  imports ConsumeUse Looks Gc "HOL-Library.Multiset"
begin

text \<open>
  The programs that use several maps in one store: what mutable iteration and mutable ranges,
  the mutable accessors and \<open>clear\<close> do to all maps of a store, and the states that sequences of all operations reach.
\<close>

subsection \<open>Whole uses of the iterators\<close>

lemma world_edit:
  fixes ops :: "'v edit_op list"
  assumes w: "world_ok tight s ms kvss" and i: "i < length ms"
  defines "spec \<equiv> spec_ops edit_spec ops ([], kvss ! i, [])"
  shows "\<exists>it s'. iter_mut_run ops (ms ! i) s = Inr ((fst spec, it), s') \<and>
    world_ok tight s' ms (kvss[i := joined (snd spec)])"
proof -
  have "\<exists>r s'. iter_mut_run ops (ms ! i) s = Inr (r, s') \<and> fst r = fst spec \<and>
    world_ok (tight \<and> True) s' (ms[i := ms ! i]) (kvss[i := joined (snd spec)])"
  proof (rule world_run[OF w i])
    fix A T assume T: "bmap_ok A (ms ! i) T" "contents T = kvss ! i"
    show "runs (iter_mut_run ops (ms ! i)) A (\<lambda>r A'. fst r = fst spec \<and>
      (\<exists>T' S'. bmap_ok A' (ms ! i) T' \<and> contents T' = joined (snd spec) \<and> owned T' \<subseteq> S' \<and>
        framed A (owned T) A' S' \<and> (True \<longrightarrow> S' = owned T')))"
      using runs_iter_mut_run[OF T(1), of ops] unfolding T(2) spec_def by (rule runs_conseq) blast
  qed
  then show ?thesis by (auto simp: prod_eq_iff)
qed

text \<open>Bounds that are not inverted: the end does not come before the start.\<close>

fun bounds_ordered :: "('k::linorder) bounds \<Rightarrow> bool" where
  "bounds_ordered (Unbounded, hi) = True"
| "bounds_ordered (lo, Unbounded) = True"
| "bounds_ordered (Excluded a, Excluded b) = (a < b)"
| "bounds_ordered (Included a, Included b) = (a \<le> b)"
| "bounds_ordered (Included a, Excluded b) = (a \<le> b)"
| "bounds_ordered (Excluded a, Included b) = (a \<le> b)"

lemma length_filter_mono: "(\<And>x. P x \<Longrightarrow> R x) \<Longrightarrow> length (filter P xs) \<le> length (filter R xs)"
  by (induction xs) (auto simp: le_SucI)

lemma ordered_indices: "bounds_ordered (lo, hi) \<Longrightarrow> first_index lo kvs \<le> end_index_of hi kvs"
  by (cases "(lo, hi)" rule: bounds_ordered.cases) (auto intro!: length_filter_mono)

lemma world_edit_range:
  fixes kvss :: "('k::linorder \<times> 'v) list list" and hi :: "'k bound"
  assumes w: "world_ok tight s ms kvss" and i: "i < length ms"
    and le: "first_index lo (kvss ! i) \<le> end_index_of hi (kvss ! i)"
  defines "a \<equiv> first_index lo (kvss ! i)"
    and "ys \<equiv> range_yields (first_index lo (kvss ! i)) (end_index_of hi (kvss ! i)) (kvss ! i)"
  shows "\<exists>s'. range_mut_all f (ms ! i) (lo, hi) s = Inr (ys, s') \<and>
    world_ok tight s' ms (kvss[i := overwrite f a (length ys) (kvss ! i)])"
proof -
  have "\<exists>r s'. range_mut_all f (ms ! i) (lo, hi) s = Inr (r, s') \<and> r = ys \<and>
    world_ok (tight \<and> True) s' (ms[i := ms ! i]) (kvss[i := overwrite f a (length ys) (kvss ! i)])"
  proof (rule world_run[OF w i])
    fix A T assume T: "bmap_ok A (ms ! i) T" "contents T = kvss ! i"
    show "runs (range_mut_all f (ms ! i) (lo, hi)) A (\<lambda>r A'. r = ys \<and>
      (\<exists>T' S'. bmap_ok A' (ms ! i) T' \<and> contents T' = overwrite f a (length ys) (kvss ! i) \<and> owned T' \<subseteq> S' \<and>
        framed A (owned T) A' S' \<and> (True \<longrightarrow> S' = owned T')))"
      by (rule runs_range_mut_all[OF T(1)]) (use le T(2) in \<open>auto simp: ys_def a_def\<close>)
  qed
  then show ?thesis by auto
qed

lemma world_clear:
  assumes w: "world_ok tight s ms kvss" and i: "i < length ms" and h: "height (ms ! i) = 0"
  shows "\<exists>ks s'. map_clear (ms ! i) s = Inr (((ks, map snd (kvss ! i)), new_in), s') \<and>
    world_ok tight s' (ms[i := new_in]) (kvss[i := []])"
proof -
  have m: "(ms ! i)\<lparr>root := None, mlength := 0\<rparr> = new_in" using h by (simp add: new_in_def)
  have "\<exists>r s'. map_clear (ms ! i) s = Inr (r, s') \<and> (snd (fst r) = map snd (kvss ! i) \<and> snd r = new_in) \<and>
    world_ok (tight \<and> True) s' (ms[i := new_in]) (kvss[i := []])"
  proof (rule world_run[OF w i])
    fix A T assume T: "bmap_ok A (ms ! i) T" "contents T = kvss ! i"
    show "runs (map_clear (ms ! i)) A (\<lambda>r A'. (snd (fst r) = map snd (kvss ! i) \<and> snd r = new_in) \<and>
      (\<exists>T' S'. bmap_ok A' new_in T' \<and> contents T' = [] \<and> owned T' \<subseteq> S' \<and>
        framed A (owned T) A' S' \<and> (True \<longrightarrow> S' = owned T')))"
      using framed_restrict[OF bmap_ok_owned[OF T(1)]] T(2) m
      by (intro runs_map_clear[OF T(1)]) (auto simp: new_in_def intro!: exI[of _ None])
  qed
  then show ?thesis by (auto simp: prod_eq_iff)
qed

subsection \<open>Any use of a mutable accessor\<close>

datatype ('k, 'v) access = AccessKey 'k "'v \<Rightarrow> 'v" | AccessFirst "'v \<Rightarrow> 'v" | AccessLast "'v \<Rightarrow> 'v"

fun run_access :: "('k::linorder, 'v) access \<Rightarrow> bmap \<Rightarrow> ('k, 'v, ('k \<times> 'v) option) sprog" where
  "run_access (AccessKey k f) m = get_key_value_mut m k f"
| "run_access (AccessFirst f) m = first_key_value_mut m f"
| "run_access (AccessLast f) m = last_key_value_mut m f"

lemma runs_writes_nth:
  "writes_nth prog f A m T n \<Longrightarrow>
   runs prog A (\<lambda>r A'. \<exists>T' S'. bmap_ok A' m T' \<and> True \<and> owned T' \<subseteq> S' \<and> framed A (owned T) A' S')"
  unfolding writes_nth_def by (erule runs_conseq) (auto split: prod.splits)

lemma runs_access:
  fixes A :: "('k::linorder, 'v) vheap"
  assumes ok: "bmap_ok A m T"
  shows "runs (run_access a m) A (\<lambda>r A'. \<exists>T' S'. bmap_ok A' m T' \<and> True \<and> owned T' \<subseteq> S' \<and> framed A (owned T) A' S')"
proof -
  have same: "\<exists>T' S'. bmap_ok A m T' \<and> True \<and> owned T' \<subseteq> S' \<and> framed A (owned T) A S'"
    using ok framed_refl[OF bmap_ok_owned[OF ok]] by blast
  have ends: "runs (first_key_value_mut m f) A (\<lambda>r A'. \<exists>T' S'. bmap_ok A' m T' \<and> True \<and> owned T' \<subseteq> S' \<and> framed A (owned T) A' S') \<and>
    runs (last_key_value_mut m f) A (\<lambda>r A'. \<exists>T' S'. bmap_ok A' m T' \<and> True \<and> owned T' \<subseteq> S' \<and> framed A (owned T) A' S')" for f
  proof (cases T)
    case None
    show ?thesis by (intro conjI writes_empty[OF ok[unfolded None]] same)
  next
    case (Some t)
    then have "0 < length (contents T)" using contents_Nil_iff[OF ok] by simp
    then show ?thesis using runs_writes_nth[OF writes_first[OF ok]] runs_writes_nth[OF writes_last[OF ok]] by blast
  qed
  show ?thesis
  proof (cases a)
    case (AccessKey k f)
    show ?thesis unfolding AccessKey run_access.simps
      by (rule runs_get_key_value_mut[OF ok]) (use same in blast)+
  next
    case (AccessFirst f)
    show ?thesis unfolding AccessFirst run_access.simps using ends[of f] by (rule conjunct1)
  next
    case (AccessLast f)
    show ?thesis unfolding AccessLast run_access.simps using ends[of f] by (rule conjunct2)
  qed
qed

lemma world_access:
  assumes "world_ok tight s ms kvss" "i < length ms" "run_access a (ms ! i) s = Inr (r, s')"
  shows "\<exists>kvs. world_ok False s' ms (kvss[i := kvs])"
proof -
  have "\<exists>kvs. True \<and> world_ok False s' (ms[i := ms ! i]) (kvss[i := kvs])"
  proof (rule world_if_runs[where g = "\<lambda>_. ms ! i" and P = "\<lambda>_. True"])
    show "world_ok tight s ms kvss" "i < length ms" "run_access a (ms ! i) s = Inr (r, s')" by (rule assms)+
  qed (rule if_runs_runs, rule runs_access)
  then show ?thesis by simp
qed

subsection \<open>The order in which the maps are listed\<close>

lemma separate_middle: "separate (Ts @ T # Us) \<longleftrightarrow> separate (T # Ts @ Us)"
  by (induction Ts) (auto simp: separate_Cons)

lemma separate_mset: "mset Us = mset Ts \<Longrightarrow> separate Ts \<Longrightarrow> separate Us"
proof (induction Ts arbitrary: Us)
  case (Cons T Ts)
  then have "T \<in> set Us" by (metis list.set_intros(1) set_mset_mset)
  then obtain Vs Ws where U: "Us = Vs @ T # Ws" by (auto dest: split_list)
  then have m: "mset (Vs @ Ws) = mset Ts" using Cons.prems(1) by simp
  then have "set (Vs @ Ws) = set Ts" by (metis set_mset_mset)
  then show ?case unfolding U separate_middle using Cons.IH[OF m] Cons.prems(2) by (simp add: separate_Cons)
qed simp

lemma world_reorder:
  assumes "world_ok tight s ms kvss" "mset ms' = mset ms"
  shows "\<exists>kvss'. world_ok tight s ms' kvss'"
proof -
  obtain A Ts where A: "shows_heap s A" "list_all2 (bmap_ok A) ms Ts" "separate Ts" "tight \<longrightarrow> dom A = \<Union> (owned ` set Ts)"
    using assms(1) unfolding world_ok_def by blast
  obtain Us where U: "list_all2 (bmap_ok A) ms' Us" "mset Us = mset Ts"
    using list_all2_reorder_left_invariance[OF A(2) assms(2)] by blast
  have "set Us = set Ts" using U(2) by (metis set_mset_mset)
  then have "world_ok tight s ms' (map contents Us)"
    using A(1,4) U(1) separate_mset[OF U(2) A(3)]
    unfolding world_ok_def by (intro exI[of _ A] exI[of _ Us]) simp
  then show ?thesis by blast
qed

subsection \<open>Reachable states\<close>

text \<open>Everything that safe code can do with the maps of one store, but for \<open>clear\<close> on a map with internal
  nodes; and tracing collection over all maps. A step is a whole use that returns: an iterator is used and given
  up before the next step, not interleaved with changes of other maps, and what stops with a panic or with undefined
  behaviour reaches no state. A mutable iterator or range may be used in any way and broken off anywhere, a consuming
  iterator may be advanced from both ends and dropped anywhere, and a drop may happen while the thread
  unwinds. Maps that are turned into copyable ones stay in the list, since their nodes stay; and functions that
  only read return the store they are given. The order of the list has no meaning.\<close>

inductive world_step ::
    "(slab_event list \<Rightarrow> ptr) \<Rightarrow> ('k::linorder, 'v) store \<times> bmap list \<Rightarrow>
     ('k, 'v) store \<times> bmap list \<Rightarrow> bool" for pick where
  create: "world_step pick (s, ms) (s, ms @ [new_in])"
| operate: "i < length ms \<Longrightarrow> run_op pick op (ms ! i) s = Inr ((out, m'), s') \<Longrightarrow>
    world_step pick (s, ms) (s', ms[i := m'])"
| access: "i < length ms \<Longrightarrow> run_access a (ms ! i) s = Inr (kv, s') \<Longrightarrow> world_step pick (s, ms) (s', ms)"
| edit: "i < length ms \<Longrightarrow> iter_mut_use ops (ms ! i) s = Inr (r, s') \<Longrightarrow> world_step pick (s, ms) (s', ms)"
| edit_range: "i < length ms \<Longrightarrow> range_mut_use ops (ms ! i) bs s = Inr (r, s') \<Longrightarrow> world_step pick (s, ms) (s', ms)"
| wipe: "i < length ms \<Longrightarrow> height (ms ! i) = 0 \<Longrightarrow> map_clear (ms ! i) s = Inr ((dropped, m'), s') \<Longrightarrow>
    world_step pick (s, ms) (s', ms[i := m'])"
| discard: "i < length ms \<Longrightarrow> drop_map panicking (ms ! i) s = Inr (dropped, s') \<Longrightarrow>
    world_step pick (s, ms) (s', del_at i ms)"
| consume: "i < length ms \<Longrightarrow> into_iter_use takes (ms ! i) s = Inr (r, s') \<Longrightarrow> world_step pick (s, ms) (s', del_at i ms)"
| reorder: "mset ms' = mset ms \<Longrightarrow> world_step pick (s, ms) (s, ms')"
| collect: "visiting visit \<Longrightarrow> map (\<lambda>b. arg_map (tree b)) args = ms \<Longrightarrow>
    \<forall>b\<in>set args. in_store b = addr \<and> arg_height b + 2 \<le> fuel \<Longrightarrow> 2 \<le> fuel \<Longrightarrow>
    tracing_gc visit fuel addr args s = Inr ((), s') \<Longrightarrow> world_step pick (s, ms) (s', kept args ms)"

inductive reachable ::
    "(slab_event list \<Rightarrow> ptr) \<Rightarrow> ('k::linorder, 'v) store \<times> bmap list \<Rightarrow> bool" for pick where
  start: "reachable pick (new_store, [])"
| step: "reachable pick w \<Longrightarrow> world_step pick w w' \<Longrightarrow> reachable pick w'"

text \<open>A collection that returns had only maps without internal nodes to look at.\<close>

lemma world_collect:
  assumes "world_ok tight s (map (\<lambda>b. arg_map (tree b)) args) kvss" "visiting visit"
    "\<forall>b\<in>set args. in_store b = addr \<and> arg_height b + 2 \<le> fuel" "2 \<le> fuel" "tracing_gc visit fuel addr args s = Inr ((), s')"
  shows "world_ok True s' (kept args (map (\<lambda>b. arg_map (tree b)) args)) (kept args kvss)"
proof -
  have "\<not> (\<exists>b\<in>set args. 0 < arg_height b \<or> \<not> arg_aligned (tree b))"
  proof
    assume "\<exists>b\<in>set args. 0 < arg_height b \<or> \<not> arg_aligned (tree b)"
    from world_tracing_gc_faults[OF assms(1,3) this, of visit] show False using assms(5) by auto
  qed
  then have "\<forall>b\<in>set args. ours addr b \<and> arg_height b = 0" using assms(3) by (simp add: ours_def)
  from world_tracing_gc[OF assms(2) this assms(1,4)] assms(5) show ?thesis by auto
qed

lemma world_step_ok:
  assumes "slab pick" "world_step pick w w'" "world_ok False (fst w) (snd w) kvss"
  shows "\<exists>kvss'. world_ok False (fst w') (snd w') kvss'"
  using assms(2,3)
proof cases
  case (create s ms)
  with assms(3) world_ok_create[of False s ms kvss] show ?thesis by (auto intro: exI)
next
  case (operate i ms op s out m' s')
  with assms(3) world_operate[OF assms(1), of False s ms kvss i op] show ?thesis by (auto intro: world_ok_weaken)
next
  case (access i ms a s kv s')
  with assms(3) world_access[of False s ms kvss i a kv s'] show ?thesis by auto
next
  case (edit i ms ops s r s')
  with assms(3) world_rewritten[OF _ _ edit(4) if_runs_iter_mut_use, of False kvss] show ?thesis by auto
next
  case (edit_range i ms ops bs s r s')
  with assms(3) world_rewritten[OF _ _ edit_range(4) if_runs_range_mut_use, of False kvss] show ?thesis by auto
next
  case (wipe i ms s dropped m' s')
  with assms(3) world_clear[of False s ms kvss i] show ?thesis by auto
next
  case (discard i ms panicking s dropped s')
  with assms(3) world_drop[of False s ms kvss i] world_leak[of False s ms kvss i] show ?thesis
    by (cases panicking) auto
next
  case (consume i ms takes s r s')
  with assms(3) world_into_iter_use[of False s ms kvss i takes r s'] show ?thesis by auto
next
  case (reorder ms' ms s)
  with assms(3) world_reorder[of False s ms kvss ms'] show ?thesis by auto
next
  case (collect visit args ms addr fuel s s')
  with assms(3) world_collect[of False s args kvss visit addr fuel s'] show ?thesis by (auto intro: world_ok_weaken)
qed

lemma reachable_ok:
  assumes "slab pick" "reachable pick w"
  shows "\<exists>kvss. world_ok False (fst w) (snd w) kvss"
  using assms(2)
proof induction
  case start
  show ?case using world_ok_new by auto
next
  case (step w w')
  then show ?case using world_step_ok[OF assms(1)] by blast
qed

end
