(* ===== verification/Space.thy ===== *)
theory Space
  imports World
begin

text \<open>
  How many nodes maps need: every node but a root is at least half full, so the nodes of a map are at most
  five sixteenths of its entries and a constant. After any operations on a new map the arena holds no
  more than that and one leaf for every operation that emptied the map.
\<close>

lemma sum_list_scaled:
  fixes f g :: "'a \<Rightarrow> nat"
  assumes "\<And>x. x \<in> set xs \<Longrightarrow> 16 * f x + 4 \<le> 5 * g x"
  shows "16 * sum_list (map f xs) + 4 * length xs \<le> 5 * sum_list (map g xs)"
  using assms by (induction xs) fastforce+

lemma length_ptrs_Nd: "length (ptrs (Nd p ks ts)) = Suc (sum_list (map (\<lambda>t. length (ptrs t)) ts))"
  by (simp add: length_concat comp_def)

text \<open>A subtree whose root is half full.\<close>

lemma nodes_half_full: "bal h t \<Longrightarrow> filled (M div 2) t \<Longrightarrow> 16 * length (ptrs t) + 4 \<le> 5 * length (entries t)"
proof (induction h arbitrary: t)
  case 0
  then show ?case by (auto simp: bal_leaf_cases entries_def M_def)
next
  case (Suc h)
  then obtain p ks ts where t: "t = Nd p ks ts" "length ts = length ks + 1" "\<forall>u\<in>set ts. bal h u"
    by (auto simp: bal_Suc_cases)
  have "16 * sum_list (map (\<lambda>t. length (ptrs t)) ts) + 4 * length ts \<le> 5 * sum_list (map (\<lambda>t. length (entries t)) ts)"
    by (rule sum_list_scaled) (use Suc t in auto)
  moreover have "5 \<le> length ts" using Suc.prems(2) t by (simp add: M_def)
  ultimately show ?case unfolding t(1) length_ptrs_Nd length_entries_Nd[OF t(2)] by (simp add: comp_def)
qed

text \<open>A whole tree, whose root may hold less.\<close>

lemma nodes_bound: "bal h t \<Longrightarrow> filled 1 t \<Longrightarrow> 16 * length (ptrs t) \<le> 5 * length (entries t) + 11"
proof (cases h)
  case 0
  assume "bal h t" "filled 1 t"
  then show ?thesis using 0 by (auto simp: bal_leaf_cases entries_def)
next
  case (Suc h')
  assume a: "bal h t" "filled 1 t"
  then obtain p ks ts where t: "t = Nd p ks ts" "length ts = length ks + 1" "\<forall>u\<in>set ts. bal h' u"
    using Suc by (auto simp: bal_Suc_cases)
  have "16 * sum_list (map (\<lambda>t. length (ptrs t)) ts) + 4 * length ts \<le> 5 * sum_list (map (\<lambda>t. length (entries t)) ts)"
    by (rule sum_list_scaled) (use nodes_half_full a t in auto)
  moreover have "2 \<le> length ts" using a t by simp
  ultimately show ?thesis unfolding t(1) length_ptrs_Nd length_entries_Nd[OF t(2)] by (simp add: comp_def)
qed

lemma owned_bound:
  fixes A :: "('k::linorder, 'v) vheap"
  assumes "bmap_ok A m T"
  shows "finite (owned T) \<and> 16 * card (owned T) \<le> 5 * length (contents T) + 11"
proof (cases T)
  case (Some t)
  then have "bal (height m) t" "filled 1 t" using assms by (simp_all add: tree_ok_def)
  from nodes_bound[OF this] have "16 * card (set (ptrs t)) \<le> 5 * length (entries t) + 11"
    using card_length[of "ptrs t"] by linarith
  then show ?thesis using Some by simp
qed simp

subsection \<open>Any sequence of operations\<close>

text \<open>An operation empties a map at most by taking its last entry away.\<close>

lemma kv_delete_Nil: "kv_sorted kvs \<Longrightarrow> kv_delete k kvs = [] \<Longrightarrow> length kvs \<le> 1"
  by (cases kvs rule: remdups_adj.cases) (auto simp: kv_delete_def split: if_splits)

lemma emptied_length:
  assumes "kv_sorted kvs" "snd (spec_op op kvs) = []"
  shows "length kvs \<le> 1"
proof -
  have "length kvs \<le> 1" if "butlast kvs = []" using that length_butlast[of kvs] by simp
  moreover have "length kvs \<le> 1" if "tl kvs = []" using that by (cases kvs) simp_all
  ultimately show ?thesis using assms kv_delete_Nil[OF assms(1)] fold_insert_not_Nil[of kvs]
    by (cases op) (fastforce simp: kv_update_def split: option.splits prod.splits)+
qed

text \<open>The number of operations in a sequence that empty the map.\<close>

fun leaks :: "('k::linorder, 'v) map_op list \<Rightarrow> ('k \<times> 'v) list \<Rightarrow> nat" where
  "leaks [] kvs = 0"
| "leaks (op # ops) kvs =
     (if kvs \<noteq> [] \<and> snd (spec_op op kvs) = [] then 1 else 0) + leaks ops (snd (spec_op op kvs))"

lemma finite_live: "finite (live l)"
  by (induction l rule: live.induct) simp_all

text \<open>The nodes that the map does not own.\<close>

lemma card_left:
  assumes fr: "framed A (owned T) A' (after_op T T')" and ok: "bmap_ok A m T" and fin: "finite (dom A)"
  shows "card (dom A' - owned T') \<le> card (dom A - owned T) + (if T' = None then card (owned T) else 0)"
proof -
  have d: "dom A' = (dom A - owned T) \<union> after_op T T'" using fr by (simp add: framed_def)
  show ?thesis
  proof (cases T')
    case None
    then show ?thesis using d card_Un_le[of "dom A - owned T" "owned T"] by (simp add: after_op_def)
  next
    case (Some t)
    then have "dom A' - owned T' \<subseteq> dom A - owned T" using d by (auto simp: after_op_def)
    then show ?thesis using card_mono[of "dom A - owned T"] fin Some by simp
  qed
qed

lemma run_space:
  assumes "slab pick"
  shows "shows_heap s A \<Longrightarrow> bmap_ok A m T \<Longrightarrow>
    \<exists>outs m' s' A' T'. run_ops (run_op pick) ops m s = Inr ((outs, m'), s') \<and> shows_heap s' A' \<and> bmap_ok A' m' T' \<and>
      contents T' = snd (spec_ops spec_op ops (contents T)) \<and>
      card (dom A' - owned T') \<le> card (dom A - owned T) + leaks ops (contents T)"
proof (induction ops arbitrary: s A m T)
  case Nil
  then show ?case by auto
next
  case (Cons op ops)
  let ?kvs = "snd (spec_op op (contents T))"
  from runsD[OF runs_op[OF assms Cons.prems(2)] Cons.prems(1)] obtain r s1 A1
    where r: "run_op pick op m s = Inr (r, s1)" "shows_heap s1 A1" "op_ok A T (spec_op op (contents T)) r A1" by blast
  then obtain T1 where T1: "bmap_ok A1 (snd r) T1" "contents T1 = ?kvs" "framed A (owned T) A1 (after_op T T1)"
    unfolding op_ok_def by blast
  have fin: "finite (dom A)" using Cons.prems(1) finite_live unfolding shows_heap_def by metis
  have "card (owned T) \<le> (if contents T \<noteq> [] then 1 else 0)" if "T1 = None"
  proof -
    have "?kvs = []" using T1(1,2) that contents_Nil_iff by metis
    moreover have "kv_sorted (contents T)" by (rule represents_sorted) (use Cons.prems in \<open>auto simp: represents_def\<close>)
    ultimately have "length (contents T) \<le> 1" by (rule emptied_length[rotated])
    then show ?thesis using owned_bound[OF Cons.prems(2)] contents_Nil_iff[OF Cons.prems(2)] by auto
  qed
  moreover have "T1 = None \<longleftrightarrow> ?kvs = []" using T1(1,2) contents_Nil_iff by metis
  ultimately have c: "card (dom A1 - owned T1) \<le> card (dom A - owned T) + (if contents T \<noteq> [] \<and> ?kvs = [] then 1 else 0)"
    using card_left[OF T1(3) Cons.prems(2) fin] by (auto split: if_splits)
  from Cons.IH[OF r(2) T1(1)] obtain outs m' s' A' T'
    where m': "run_ops (run_op pick) ops (snd r) s1 = Inr ((outs, m'), s')" "shows_heap s' A'" "bmap_ok A' m' T'"
      "contents T' = snd (spec_ops spec_op ops ?kvs)" "card (dom A' - owned T') \<le> card (dom A1 - owned T1) + leaks ops ?kvs"
    unfolding T1(2) by blast
  have "run_ops (run_op pick) (op # ops) m s = Inr ((fst r # outs, m'), s')"
    using r(1) m'(1) by (simp add: bindP_apply case_prod_beta)
  moreover have "contents T' = snd (spec_ops spec_op (op # ops) (contents T))"
    using m'(4) by (simp add: Let_def case_prod_beta)
  moreover have "card (dom A' - owned T') \<le> card (dom A - owned T) + leaks (op # ops) (contents T)"
    using m'(5) c by simp
  ultimately show ?case using m'(2,3) by blast
qed

text \<open>The nodes of the store after any operations on a new map.\<close>

lemma run_space_new:
  fixes ops :: "('k::linorder, 'v) map_op list"
  assumes "slab pick"
  shows "\<exists>outs m s. run_ops (run_op pick) ops new_in (new_store :: ('k, 'v) store) = Inr ((outs, m), s) \<and>
    16 * card (live (slab_log s)) \<le> 5 * length (snd (spec_ops spec_op ops [])) + 11 + 16 * leaks ops []"
proof -
  have "bmap_ok (\<lambda>_. None) new_in (None :: ('k, 'v) bt option)" by (simp add: new_in_def)
  from run_space[OF assms shows_new_store this, of ops] obtain outs m s A T
    where r: "run_ops (run_op pick) ops new_in (new_store :: ('k, 'v) store) = Inr ((outs, m), s)" "shows_heap s A" "bmap_ok A m T"
      "contents T = snd (spec_ops spec_op ops [])" "card (dom A - owned T) \<le> leaks ops []"
    by (auto simp: contents_def)
  have "live (slab_log s) = (dom A - owned T) \<union> owned T" using r(2) bmap_ok_owned[OF r(3)] by (auto simp: shows_heap_def)
  then have "card (live (slab_log s)) \<le> card (dom A - owned T) + card (owned T)" by (metis card_Un_le)
  then have "16 * card (live (slab_log s)) \<le> 5 * length (snd (spec_ops spec_op ops [])) + 11 + 16 * leaks ops []"
    using r(5) owned_bound[OF r(3)] unfolding r(4) by linarith
  with r(1) show ?thesis by blast
qed

end
