(* ===== verification/MapProps.thy ===== *)
theory MapProps
  imports Layout Programs Space Looks
begin

text \<open>
  The properties of the map operations, stated on stores and map records. \<open>represents s m kvs\<close> is the
  invariant: the map \<open>m\<close> in the store \<open>s\<close> is an ordered, balanced, filled and linked tree with the
  entries \<open>kvs\<close>. The arena is any one that keeps the contract \<open>slab\<close>.
\<close>

subsection \<open>Concrete maps\<close>

definition built :: "('k::linorder \<times> 'v) list \<Rightarrow> bmap \<times> ('k, 'v) store" where
  "built kvs = (case map_extend bump new_in kvs new_store of Inr r \<Rightarrow> r | Inl _ \<Rightarrow> (new_in, new_store))"

lemma built_represents:
  "represents (snd (built kvs)) (fst (built kvs)) (fold (\<lambda>(k, v). kv_insert k v) kvs [])"
  using op_represents[OF bump_slab.slab_axioms represents_new, of "Extend kvs"]
  by (auto simp: built_def bindP_apply split: sum.splits)

definition small_map :: bmap where
  "small_map = fst (built [(2 :: nat, 20 :: nat), (1, 10)])"

definition small_store :: "(nat, nat) store" where
  "small_store = snd (built [(2, 20), (1, 10)])"

lemma small_represents: "represents small_store small_map [(1, 10), (2, 20)]"
  using built_represents[of "[(2 :: nat, 20 :: nat), (1, 10)]"] by (simp add: small_map_def small_store_def)

definition tall_entries :: "(nat \<times> nat) list" where
  "tall_entries = map (\<lambda>k. (k, 10 * k)) [0..<12]"

definition tall_map :: bmap where
  "tall_map = fst (built tall_entries)"

definition tall_store :: "(nat, nat) store" where
  "tall_store = snd (built tall_entries)"

lemma tall_represents: "represents tall_store tall_map tall_entries"
proof -
  have "fold (\<lambda>(k, v). kv_insert k v) tall_entries [] = tall_entries"
    by (simp add: tall_entries_def upt_rec)
  then show ?thesis using built_represents[of tall_entries] by (simp add: tall_map_def tall_store_def)
qed

lemma opened: "bindP m f s = Inr b \<longleftrightarrow> (\<exists>a s'. m s = Inr (a, s') \<and> f a s' = Inr b)"
  by (auto simp: bindP_apply split: sum.splits)

subsection \<open>Height and number of entries\<close>

lemma height_at_most: "represents s m kvs \<Longrightarrow> length kvs \<le> 8 * 9 ^ height m"
  unfolding represents_def
  by (auto simp: tree_ok_def bmap_ok_def contents_def M_def dest: entries_le split: option.splits)

lemma height_at_least: "represents s m kvs \<Longrightarrow> 0 < height m \<Longrightarrow> 8 * 5 ^ (height m - 1) \<le> length kvs"
proof -
  assume r: "represents s m kvs" and h: "0 < height m"
  obtain A T where A: "bmap_ok A m T" "contents T = kvs" using r by (auto simp: represents_def)
  with h obtain t where "T = Some t" by (cases T) auto
  with A have "bal (height m) t" "filled 1 t" "kvs = entries t" by (auto simp: tree_ok_def)
  then show ?thesis using entries_ge_root[of "height m - 1" t] h by (simp add: M_def)
qed

lemma small_is_low: "height small_map = 0"
proof (rule ccontr)
  assume "height small_map \<noteq> 0"
  then have "8 * 5 ^ (height small_map - 1) \<le> (2 :: nat)" using height_at_least[OF small_represents] by simp
  moreover have "(1 :: nat) \<le> 5 ^ (height small_map - 1)" by simp
  ultimately show False by linarith
qed

lemma tall_is_tall: "0 < height tall_map"
proof (rule ccontr)
  assume "\<not> 0 < height tall_map"
  then have "length tall_entries \<le> M" using height_at_most[OF tall_represents] by (simp add: M_def)
  then show False by (simp add: tall_entries_def M_def)
qed

subsection \<open>Insertion, removal, lookup\<close>

text \<open>C1. \<open>BTreeMap::insert\<close> never panics and never follows a bad pointer on a map that satisfies the
  invariant; it returns the old value of the key, and the map it leaves satisfies the invariant again,
  with the entry in its place in the order and all other entries as they were.\<close>

theorem map_insert_correct:
  assumes "slab pick" "represents s m kvs"
  shows "\<exists>m' s'. map_insert pick m k v s = Inr ((map_of kvs k, m'), s') \<and>
    represents s' m' (kv_insert k v kvs) \<and> kv_sorted (kv_insert k v kvs) \<and>
    map_of (kv_insert k v kvs) = (map_of kvs)(k \<mapsto> v)"
  using op_represents[OF assms, of "Insert k v"] kv_sorted_insert[OF represents_sorted[OF assms(2)]]
  by (auto simp: opened map_of_kv_insert)

theorem map_insert_correct_witness:
  "\<exists>m' s'. map_insert bump small_map 2 7 small_store = Inr ((Some 20, m'), s') \<and>
    represents s' m' [(1, 10), (2, 7)]"
  using map_insert_correct[OF bump_slab.slab_axioms small_represents, of 2 7] by auto

text \<open>C2. \<open>BTreeMap::remove\<close>, with the redistribution and merging of underfull nodes that it causes,
  never panics; it returns the value of the key, and leaves a map that satisfies the invariant and has
  the same entries but for that key.\<close>

theorem map_remove_correct:
  assumes "represents s m kvs"
  shows "\<exists>m' s'. map_remove m k s = Inr ((map_of kvs k, m'), s') \<and> represents s' m' (kv_delete k kvs) \<and>
    map_of (kv_delete k kvs) = (map_of kvs)(k := None)"
  using op_represents[OF bump_slab.slab_axioms assms, of "Remove k"]
  by (auto simp: opened map_of_kv_delete)

theorem map_remove_correct_witness:
  "\<exists>m' s'. map_remove tall_map 3 tall_store = Inr ((Some 30, m'), s') \<and>
    represents s' m' (kv_delete 3 tall_entries)"
  using map_remove_correct[OF tall_represents, of 3] by (auto simp: tall_entries_def upt_rec)

text \<open>C7. Lookup: \<open>get\<close>, \<open>contains_key\<close>, \<open>get_key\<close> and \<open>get_key_value\<close> never fail, give what the
  contents say, and leave the whole store exactly as it was, the nodes of all maps and the state of the arena.\<close>

theorem map_lookup_correct:
  assumes "represents s m kvs"
  shows "map_get m k s = Inr (map_of kvs k, s) \<and>
    contains_key m k s = Inr (k \<in> fst ` set kvs, s) \<and>
    get_key m k s = Inr (map_option (\<lambda>_. k) (map_of kvs k), s) \<and>
    get_key_value m k s = Inr (map_option (Pair k) (map_of kvs k), s)"
  using looking_answers[of "Get k", OF _ assms, of bump] looking_answers[of "ContainsKey k", OF _ assms, of bump]
    looking_answers[of "GetKey k", OF _ assms, of bump] looking_answers[of "GetKeyValue k", OF _ assms, of bump]
  by (auto simp: opened)

theorem map_lookup_correct_witness:
  "map_get tall_map 7 tall_store = Inr (Some 70, tall_store) \<and> contains_key tall_map 12 tall_store = Inr (False, tall_store)"
  using map_lookup_correct[OF tall_represents, of 7] map_lookup_correct[OF tall_represents, of 12]
  by (auto simp: tall_entries_def upt_rec)

text \<open>C21. The descent of \<open>find\<close>, with its binary search in every node, finds what a scan would find: it ends in a leaf of
  the store whose keys are a segment of the keys of the map, with smaller keys before it and greater keys
  after it, and its result is that of a linear search in this leaf: the index of the key, or the index
  where the key would be inserted. Nothing in the store changes.\<close>

theorem find_equals_scan:
  assumes "represents s m kvs" "root m = Some p"
  shows "\<exists>leaf n l ks xs ys. nodes s leaf = Some n \<and> node_keys n = Inr ks \<and> d_leaf n = Inr l \<and>
    map fst kvs = xs @ ks @ ys \<and> (\<forall>x\<in>set xs. x < k) \<and> (\<forall>y\<in>set ys. k < y) \<and>
    find_loop (height m) p k s = Inr (case linear_search ks k of Inr i \<Rightarrow> At leaf i | Inl i \<Rightarrow> Before leaf i, s)"
  by (rule find_loop_scan[OF assms])

lemma represents_root: "represents s m kvs \<Longrightarrow> kvs \<noteq> [] \<Longrightarrow> \<exists>r. root m = Some r"
  unfolding represents_def by (auto simp: bmap_ok_def contents_def split: option.splits)

theorem find_equals_scan_witness:
  "\<exists>p leaf n l ks xs ys. root tall_map = Some p \<and> nodes tall_store leaf = Some n \<and> node_keys n = Inr ks \<and> d_leaf n = Inr l \<and>
    [0..<12] = xs @ ks @ ys \<and> (\<forall>x\<in>set xs. x < 7) \<and> (\<forall>y\<in>set ys. 7 < y) \<and>
    find_loop (height tall_map) p 7 tall_store = Inr (case linear_search ks 7 of Inr i \<Rightarrow> At leaf i | Inl i \<Rightarrow> Before leaf i, tall_store)"
proof -
  obtain p where p: "root tall_map = Some p" using represents_root[OF tall_represents] by (auto simp: tall_entries_def)
  have "map fst tall_entries = [0..<12]" by (simp add: tall_entries_def comp_def)
  then show ?thesis using find_equals_scan[OF tall_represents p, of 7] p by simp
qed

text \<open>The extremes: \<open>first_key_value\<close> and \<open>last_key_value\<close> give the entries with the least and
  the greatest key, \<open>len\<close> the number of entries, and \<open>is_empty\<close> says whether there are none.\<close>

theorem map_extremes_correct:
  assumes "represents s m kvs"
  shows "map_len m = length kvs \<and> (map_is_empty m \<longleftrightarrow> kvs = []) \<and>
    (\<exists>s1. first_key_value m s = Inr (kv_first kvs, s1) \<and> represents s1 m kvs) \<and>
    (\<exists>s2. last_key_value m s = Inr (kv_last kvs, s2) \<and> represents s2 m kvs)"
  using op_represents[OF bump_slab.slab_axioms assms, of Len]
    op_represents[OF bump_slab.slab_axioms assms, of IsEmpty]
    op_represents[OF bump_slab.slab_axioms assms, of FirstKeyValue]
    op_represents[OF bump_slab.slab_axioms assms, of LastKeyValue]
  by (auto simp: opened)

theorem map_extremes_correct_witness:
  "map_len tall_map = 12 \<and> (\<exists>s1. first_key_value tall_map tall_store = Inr (Some (0, 0), s1)) \<and>
   (\<exists>s2. last_key_value tall_map tall_store = Inr (Some (11, 110), s2))"
  using map_extremes_correct[OF tall_represents] by (auto simp: tall_entries_def upt_rec kv_last_def)

text \<open>\<open>pop_first\<close> and \<open>pop_last\<close> remove and return the entries with the least and the greatest key,
  and do nothing on an empty map.\<close>

theorem map_pop_correct:
  assumes "represents s m kvs"
  shows "(\<exists>m1 s1. pop_first m s = Inr ((kv_first kvs, m1), s1) \<and> represents s1 m1 (tl kvs)) \<and>
    (\<exists>m2 s2. pop_last m s = Inr ((kv_last kvs, m2), s2) \<and> represents s2 m2 (butlast kvs))"
  using op_represents[OF bump_slab.slab_axioms assms, of PopFirst]
    op_represents[OF bump_slab.slab_axioms assms, of PopLast]
  by (auto simp: opened)

theorem map_pop_correct_witness:
  "\<exists>m1 s1. pop_first small_map small_store = Inr ((Some (1, 10), m1), s1) \<and> represents s1 m1 [(2, 20)]"
  using map_pop_correct[OF small_represents] by simp

text \<open>\<open>get_or_insert\<close> returns the value of the key when there is one and leaves the map as it is,
  and otherwise inserts the given value and returns it.\<close>

theorem get_or_insert_correct:
  assumes "slab pick" "represents s m kvs"
  shows "\<exists>m' s'. get_or_insert pick m k v s = Inr ((case map_of kvs k of None \<Rightarrow> v | Some w \<Rightarrow> w, m'), s') \<and>
    represents s' m' (if map_of kvs k = None then kv_insert k v kvs else kvs)"
  using op_represents[OF assms, of "GetOrInsert k v"] by (auto simp: opened split: option.splits)

theorem get_or_insert_correct_witness:
  "\<exists>m' s'. get_or_insert reuse small_map 3 30 small_store = Inr ((30, m'), s') \<and>
    represents s' m' [(1, 10), (2, 20), (3, 30)]"
  using get_or_insert_correct[OF reuse_slab.slab_axioms small_represents, of 3 30] by auto

text \<open>Writing through the reference that \<open>get_mut\<close> returns changes the value of that key only.\<close>

theorem get_mut_correct:
  assumes "represents s m kvs"
  shows "\<exists>s'. get_mut m k f s = Inr (map_of kvs k, s') \<and>
    represents s' m (case map_of kvs k of None \<Rightarrow> kvs | Some v \<Rightarrow> kv_insert k (f v) kvs)"
  using op_represents[OF bump_slab.slab_axioms assms, of "GetMut k f"]
  by (auto simp: opened split: option.splits)

theorem get_mut_correct_witness:
  "\<exists>s'. get_mut small_map 2 Suc small_store = Inr (Some 20, s') \<and> represents s' small_map [(1, 10), (2, 21)]"
  using get_mut_correct[OF small_represents, of 2 Suc] by simp

text \<open>\<open>extend\<close> inserts the entries one after the other: the last one wins.\<close>

theorem map_extend_correct:
  assumes "slab pick" "represents s m kvs"
  shows "\<exists>m' s'. map_extend pick m xs s = Inr (m', s') \<and>
    represents s' m' (fold (\<lambda>(k, v). kv_insert k v) xs kvs)"
  using op_represents[OF assms, of "Extend xs"] by (auto simp: opened)

theorem map_extend_correct_witness:
  "\<exists>m' s'. map_extend bump small_map [(5, 50), (0, 1), (5, 51)] small_store = Inr (m', s') \<and>
    represents s' m' [(0, 1), (1, 10), (2, 20), (5, 51)]"
  using map_extend_correct[OF bump_slab.slab_axioms small_represents, of "[(5, 50), (0, 1), (5, 51)]"] by simp

text \<open>C8. \<open>update_and_return\<close> calls the closure once with the value of the key, writes, inserts or
  removes as the closure says, and returns what the closure returned. When the closure panics the
  entry is removed, so that the value that was moved out is not dropped a second time.\<close>

theorem update_and_return_correct:
  assumes "slab pick" "represents s m kvs"
  shows "\<exists>m' s'. update_and_return pick m k u s = Inr ((map_option snd (u (map_of kvs k)), m'), s') \<and>
    represents s' m' (case u (map_of kvs k) of Some (Some v, _) \<Rightarrow> kv_insert k v kvs | _ \<Rightarrow> kv_delete k kvs)"
proof -
  obtain A T where A: "shows_heap s A" "bmap_ok A m T" "contents T = kvs"
    using assms(2) by (auto simp: represents_def)
  have "runs (update_and_return pick m k u) A (\<lambda>r A'. fst r = map_option snd (u (map_of kvs k)) \<and>
      (\<exists>T'. bmap_ok A' (snd r) T' \<and> contents T' = kv_update k u kvs))"
    by (rule runs_update_and_return[OF assms(1) A(2)]) (use A(3) in auto)
  from runsD[OF this A(1)] show ?thesis unfolding represents_def kv_update_def by (metis prod.collapse)
qed

theorem update_and_return_correct_witness:
  "\<exists>m' s'. update_and_return bump small_map 2 (\<lambda>_. None :: (nat option \<times> bool) option) small_store =
    Inr ((None, m'), s') \<and> represents s' m' [(1, 10)]"
  using update_and_return_correct[OF bump_slab.slab_axioms small_represents, of 2
      "\<lambda>_. None :: (nat option \<times> bool) option"]
  by (auto simp: kv_delete_def)

subsection \<open>Any sequence of operations\<close>

text \<open>C3. A map is an ordered map: any sequence of its operations, from any state that satisfies the
  invariant (a new map in particular), ends without a panic and with every answer the one that the
  same sequence gives on the sorted association list.\<close>

theorem map_refines_sorted_list:
  assumes "slab pick" "represents s m kvs"
  shows "\<exists>m' s'. run_ops (run_op pick) ops m s = Inr ((fst (spec_ops spec_op ops kvs), m'), s') \<and>
    represents s' m' (snd (spec_ops spec_op ops kvs))"
  by (rule simulation.run_simulates[OF map_simulation[OF assms(1)] assms(2)])

theorem map_refines_sorted_list_witness:
  "\<exists>m' s'. run_ops (run_op reuse) [Insert 4 True, Insert 2 False, Remove 4, Get 2, PopLast, Len] new_in new_store =
    Inr (([OptVal None, OptVal None, OptVal (Some True), OptVal (Some False), OptEntry (Some (2 :: nat, False)), Num 0], m'), s')"
  using map_refines_sorted_list[OF reuse_slab.slab_axioms represents_new,
      of "[Insert (4 :: nat) True, Insert 2 False, Remove 4, Get 2, PopLast, Len]"]
  by (auto simp: kv_delete_def kv_last_def)

subsection \<open>Maps that share a store\<close>

lemma built_reachable: "reachable bump (snd (built kvs), [fst (built kvs)])"
proof -
  have "reachable bump (new_store, [] @ [new_in])" by (rule reachable.step[OF reachable.start world_step.create])
  then have new: "reachable bump (new_store, [new_in])" by simp
  obtain m s where m: "map_extend bump new_in kvs new_store = Inr (m, s)"
    using op_represents[OF bump_slab.slab_axioms represents_new, of "Extend kvs"] by (auto simp: opened)
  have "world_step bump (new_store, [new_in]) (s, [new_in][0 := m])"
    by (rule world_step.operate[where op = "Extend kvs" and out = Done]) (simp_all add: m bindP_apply)
  then show ?thesis using reachable.step[OF new] m by (simp add: built_def)
qed

text \<open>C4. Safety: in every state that programs reach with any number of maps in one store, every map
  satisfies its invariant, the maps own disjoint parts of the store, and every operation of every map
  returns with the right answer. The steps are: creating maps, any operation, any write through a mutable accessor,
  iterator or range (from either end, with any bounds, broken off anywhere), dropping a map (also while the thread
  unwinds), consuming iteration from both ends dropped anywhere, \<open>clear\<close> on a map without internal nodes, and
  tracing collection of all the maps, in any order. A step is a whole use, that returns: an iterator is used and
  given up before another map is changed. The one use that returns and is left out is \<open>clear\<close> on a map with
  internal nodes.\<close>

theorem reachable_maps_ok:
  assumes "slab pick" "reachable pick (s, ms)"
  shows "\<exists>kvss. world_ok False s ms kvss \<and>
    (\<forall>i<length ms. \<forall>op. \<exists>m' s'. run_op pick op (ms ! i) s = Inr ((fst (spec_op op (kvss ! i)), m'), s'))"
proof -
  obtain kvss where w: "world_ok False s ms kvss" using reachable_ok[OF assms] by auto
  then show ?thesis using world_operate[OF assms(1) w] by blast
qed

theorem reachable_maps_ok_witness:
  "0 < height tall_map \<and> (\<exists>kvss. world_ok False tall_store [tall_map, new_in] kvss \<and>
    (\<exists>out m' s'. run_op bump (Remove 3) tall_map tall_store = Inr ((out, m'), s')))"
proof -
  have "reachable bump (tall_store, [tall_map])" using built_reachable by (simp add: tall_map_def tall_store_def)
  from reachable.step[OF this world_step.create] have "reachable bump (tall_store, [tall_map, new_in])" by simp
  from reachable_maps_ok[OF bump_slab.slab_axioms this] obtain kvss where k: "world_ok False tall_store [tall_map, new_in] kvss"
    "\<forall>i<length [tall_map, new_in]. \<forall>op. \<exists>m' s'. run_op bump op ([tall_map, new_in] ! i) tall_store =
       Inr ((fst (spec_op op (kvss ! i)), m'), s')" by blast
  from k(2) have "\<exists>m' s'. run_op bump (Remove 3) ([tall_map, new_in] ! 0) tall_store =
      Inr ((fst (spec_op (Remove 3) (kvss ! 0)), m'), s')" by (metis length_greater_0_conv list.discI)
  then have "\<exists>out m' s'. run_op bump (Remove 3) tall_map tall_store = Inr ((out, m'), s')" unfolding nth_Cons_0 by blast
  then show ?thesis using k(1) tall_is_tall by blast
qed

text \<open>C5. Non-interference: an operation of one map in a shared store answers as its own contents say,
  changes the contents of that map only, and leaves no node behind except when it empties the map.\<close>

theorem maps_do_not_interfere:
  assumes "slab pick" "world_ok tight s ms kvss" "i < length ms"
  shows "\<exists>m' s'. run_op pick op (ms ! i) s = Inr ((fst (spec_op op (kvss ! i)), m'), s') \<and>
    world_ok (tight \<and> (snd (spec_op op (kvss ! i)) = [] \<longrightarrow> kvss ! i = [])) s'
      (ms[i := m']) (kvss[i := snd (spec_op op (kvss ! i))])"
  by (rule world_operate[OF assms])

theorem maps_do_not_interfere_witness:
  "\<exists>m' s'. run_op bump (Insert 1 2) new_in new_store = Inr ((OptVal None, m'), s') \<and>
    world_ok True s' [m', new_in] [[(1 :: nat, 2 :: nat)], []]"
proof -
  have w: "world_ok True (new_store :: (nat, nat) store) [new_in, new_in] [[], []]"
    using world_ok_create[OF world_ok_create[OF world_ok_new[of True]]] by simp
  show ?thesis using maps_do_not_interfere[OF bump_slab.slab_axioms w, of 0 "Insert 1 2"] by simp
qed

text \<open>C9. Teardown: on a thread that is not panicking, dropping the maps of a store one after the other drops every value of every map
  exactly once, in order, and never frees a node twice; when the store held no other nodes it is
  empty afterwards.\<close>

theorem drop_all_frees:
  assumes "world_ok tight s ms kvss"
  shows "\<exists>s'. drop_all ms s = Inr (map (map snd) kvss, s') \<and> (tight \<longrightarrow> live (slab_log s') = {})"
  using world_drop_all[OF assms] by (cases tight) (auto simp: world_tight_empty)

theorem drop_all_frees_witness:
  "\<exists>s'. drop_all [small_map] small_store = Inr ([[10, 20]], s')"
  using drop_all_frees[OF represents_world[OF small_represents]] by auto

subsection \<open>What goes wrong\<close>

text \<open>C14. \<open>clear\<close> keeps the height of the old tree. After \<open>clear\<close> on a map with internal nodes, one
  insertion makes a leaf the root of a map with the old height, and the next lookup of any key takes
  that leaf for an internal node (an undefined read of the wrong variant of the union).\<close>

theorem clear_breaks_map:
  assumes "slab pick" "represents s m kvs" "0 < height m"
  shows "\<exists>m' s'. bindP (map_clear m) (\<lambda>(_, m). map_insert pick m k v) s = Inr ((None, m'), s') \<and>
    map_get m' x s' = Inl WrongVariant"
proof -
  obtain A T where A: "shows_heap s A" "bmap_ok A m T"
    using assms(2) by (auto simp: represents_def)
  have "runs (bindP (map_clear m) (\<lambda>(_, m). map_insert pick m k v)) A
      (\<lambda>r A'. fst r = None \<and> faults (map_get (snd r) x) A' WrongVariant)"
    by (rule runs_clear_then_insert[OF assms(1) A(2) assms(3), of x])
      (auto simp: map_get_def intro: faults_bind_now)
  from runsD[OF this A(1)] show ?thesis unfolding faults_def by (metis prod.collapse)
qed

theorem clear_breaks_map_witness:
  "\<exists>m' s'. bindP (map_clear tall_map) (\<lambda>(_, m). map_insert bump m 5 6) tall_store = Inr ((None, m'), s') \<and>
    map_get m' 5 s' = Inl WrongVariant"
  by (rule clear_breaks_map[OF bump_slab.slab_axioms tall_represents tall_is_tall])

text \<open>C18. \<open>clear\<close> on a map without internal nodes drops its values once, gives its leaf back, leaves an
  empty map that can be used again, and does not touch the other maps of the store.\<close>

theorem clear_low_map:
  assumes "world_ok tight s ms kvss" "i < length ms" "height (ms ! i) = 0"
  shows "\<exists>ks s'. map_clear (ms ! i) s = Inr (((ks, map snd (kvss ! i)), new_in), s') \<and>
    world_ok tight s' (ms[i := new_in]) (kvss[i := []])"
  by (rule world_clear[OF assms])

theorem clear_low_map_witness: "\<exists>ks s'. map_clear small_map small_store = Inr (((ks, [10, 20]), new_in), s')"
  using clear_low_map[OF represents_world[OF small_represents], of 0] small_is_low by auto

text \<open>C15. Removing the last entry of a map does not give its leaf back: the map forgets its root, and the
  store still holds exactly the nodes that it held before (at least one), which no map owns any more.\<close>

theorem last_removal_leaks:
  assumes "represents s m [(k, v)]"
  shows "\<exists>m' s'. map_remove m k s = Inr ((Some v, m'), s') \<and> m' = new_in \<and>
    live (slab_log s') = live (slab_log s) \<and> live (slab_log s') \<noteq> {}"
proof -
  obtain A T where A: "shows_heap s A" "bmap_ok A m T" "contents T = [(k, v)]"
    using assms by (auto simp: represents_def)
  then obtain t where t: "T = Some t" by (cases T) auto
  have ne: "dom A \<noteq> {}"
    using A(2) t rep_dom(1)[of A None t] by (cases t) (auto simp: tree_in_def)
  have own: "owned T \<subseteq> dom A" by (rule bmap_ok_owned[OF A(2)])
  have "runs (map_remove m k) A (\<lambda>r A'. r = (Some v, new_in) \<and> dom A' = dom A)"
  proof (rule runs_map_remove[OF A(2)])
    fix m' A' T' t' v'
    assume r: "T = Some t'" "map_of (contents T) k = Some v'" "removed A t' (kv_delete k (contents T)) A' m' T'"
    then have "T' = None" "framed A (set (ptrs t')) A' (set (ptrs t'))" "bmap_ok A' m' None" "v' = v"
      using A(3) contents_Nil_iff[of A' m' T'] by (auto simp: removed_def kv_delete_def)
    then show "(Some v', m') = (Some v, new_in) \<and> dom A' = dom A"
      using own r(1) by (auto simp: framed_def new_in_def)
  qed (use A(3) in simp)
  from runsD[OF this A(1)] show ?thesis using ne A(1) unfolding shows_heap_def by metis
qed

lemma single_represents: "represents (snd (built [(1 :: nat, True)])) (fst (built [(1 :: nat, True)])) [(1, True)]"
  using built_represents[of "[(1 :: nat, True)]"] by simp

theorem last_removal_leaks_witness:
  "\<exists>s'. map_remove (fst (built [(1 :: nat, True)])) 1 (snd (built [(1 :: nat, True)])) = Inr ((Some True, new_in), s') \<and>
    live (slab_log s') \<noteq> {}"
  using last_removal_leaks[OF single_represents] by blast

subsection \<open>Bounds\<close>

text \<open>C16. The height stays logarithmic: whatever operations are run on a new map, insertions and removals
  in any order, they return and leave a map of a height \<open>h\<close> with at most \<open>8 * 9 ^ h\<close> entries, and at
  least \<open>8 * 5 ^ (h - 1)\<close> when \<open>h\<close> is above 0.\<close>

theorem height_bounds:
  fixes ops :: "('k::linorder, 'v) map_op list"
  assumes "slab pick"
  shows "\<exists>outs m s. run_ops (run_op pick) ops new_in (new_store :: ('k, 'v) store) = Inr ((outs, m), s) \<and>
    (0 < height m \<longrightarrow> 8 * 5 ^ (height m - 1) \<le> length (snd (spec_ops spec_op ops []))) \<and>
    length (snd (spec_ops spec_op ops [])) \<le> 8 * 9 ^ height m"
proof -
  obtain m s where r: "run_ops (run_op pick) ops new_in (new_store :: ('k, 'v) store) = Inr ((fst (spec_ops spec_op ops []), m), s)"
      "represents s m (snd (spec_ops spec_op ops []))"
    using simulation.run_simulates[OF map_simulation[OF assms] represents_new] by blast
  show ?thesis
    by (intro exI conjI impI, rule r(1), erule height_at_least[OF r(2)], rule height_at_most[OF r(2)])
qed

theorem height_bounds_witness:
  "\<exists>outs m s. run_ops (run_op bump) [Extend tall_entries] new_in new_store = Inr ((outs, m), s) \<and> height m = 1"
proof -
  have "length (snd (spec_ops spec_op [Extend tall_entries] [])) = 12" by (simp add: tall_entries_def upt_rec)
  with height_bounds[OF bump_slab.slab_axioms, of "[Extend tall_entries]"] obtain outs m s where
    r: "run_ops (run_op bump) [Extend tall_entries] new_in new_store = Inr ((outs, m), s)"
    and b: "0 < height m \<longrightarrow> 8 * 5 ^ (height m - 1) \<le> (12 :: nat)" "(12 :: nat) \<le> 8 * 9 ^ height m" by auto
  have "height m - 1 < 1"
  proof (rule ccontr)
    assume h: "\<not> height m - 1 < 1"
    then have "(5 :: nat) ^ 1 \<le> 5 ^ (height m - 1)" by (intro power_increasing) auto
    then show False using b(1) h by simp
  qed
  moreover have "height m \<noteq> 0" using b(2) by (intro notI) simp
  ultimately show ?thesis using r by (intro exI[of _ outs] exI[of _ m] exI[of _ s]) linarith
qed

text \<open>C17. Space: whatever operations are run on a new map in a new store, the store then holds at most five
  nodes for every sixteen entries of the map, less than one more, and one for each operation that emptied the
  map (which leaves its last leaf behind).\<close>

theorem space_bound:
  fixes ops :: "('k::linorder, 'v) map_op list"
  assumes "slab pick"
  shows "\<exists>outs m s. run_ops (run_op pick) ops new_in (new_store :: ('k, 'v) store) = Inr ((outs, m), s) \<and>
    16 * card (live (slab_log s)) \<le> 5 * length (snd (spec_ops spec_op ops [])) + 11 + 16 * leaks ops []"
  by (rule run_space_new[OF assms])

theorem space_bound_witness:
  "(\<exists>outs m s. run_ops (run_op bump) [Extend tall_entries] new_in new_store = Inr ((outs, m), s) \<and> card (live (slab_log s)) \<le> 4) \<and>
   (\<exists>outs m s. run_ops (run_op bump) [Insert (1 :: nat) True, Remove 1] new_in new_store = Inr ((outs, m), s) \<and>
      card (live (slab_log s)) \<le> 1)"
proof -
  have "length (snd (spec_ops spec_op [Extend tall_entries] [])) = 12" by (simp add: tall_entries_def upt_rec)
  moreover have "leaks [Extend tall_entries] [] = 0" by (simp add: tall_entries_def)
  moreover have "leaks [Insert (1 :: nat) True, Remove 1] [] = 1" by (simp add: kv_delete_def)
  moreover have "snd (spec_ops spec_op [Insert (1 :: nat) True, Remove 1] []) = []" by (simp add: kv_delete_def)
  ultimately show ?thesis
    using space_bound[OF bump_slab.slab_axioms, of "[Extend tall_entries]"]
      space_bound[OF bump_slab.slab_axioms, of "[Insert (1 :: nat) True, Remove 1]"] by fastforce
qed

subsection \<open>The layout of the nodes\<close>

text \<open>C6. Well-formedness: in every state that programs can reach with any number of maps in one store
  (by the steps of the reachability property above: all but \<open>clear\<close> on a map with internal nodes), the untagged union and the uninitialised arrays of the nodes are as the code takes
  them to be. From the root of a map, exactly \<open>height\<close> levels of internal nodes lie above leaves; each
  node has initialised slots for its \<open>len\<close> keys, a leaf for its values and an internal node for
  \<open>len + 1\<close> edges to live nodes that point back to their parent with the right index.\<close>

theorem reachable_layout:
  assumes "slab pick" "reachable pick (s, ms)" "m \<in> set ms" "root m = Some r"
  shows "laid_out s (height m) None r"
  using reachable_ok[OF assms(1,2)] world_laid_out[OF _ assms(3,4)] by auto

theorem reachable_layout_witness:
  "\<exists>r. root tall_map = Some r \<and> laid_out tall_store (height tall_map) None r \<and> 0 < height tall_map"
proof -
  from represents_root[OF tall_represents] obtain r where r: "root tall_map = Some r" by (auto simp: tall_entries_def)
  have "reachable bump (tall_store, [tall_map])" using built_reachable by (simp add: tall_map_def tall_store_def)
  from reachable_layout[OF bump_slab.slab_axioms this _ r] show ?thesis using r tall_is_tall by simp
qed

end
