(* ===== verification/IterProps.thy ===== *)
theory IterProps
  imports MapProps Range IntoIterBack
begin

text \<open>
  The properties of the iterators: they yield the entries in order from either end, mutable iteration
  writes exactly the values it yields, and consuming iteration gives all nodes back. The last part
  states where consuming iteration from both ends and iteration over ranges go wrong.
\<close>

subsection \<open>Reading\<close>

text \<open>C11. Double-ended iteration over a map: whatever sequence of \<open>next\<close>, \<open>next_back\<close>, \<open>peek\<close>,
  \<open>peek_back\<close> and \<open>size_hint\<close> is called, the answers are those of taking entries from the two ends of the
  sorted list of entries, none is yielded twice, and the map is as it was.\<close>

theorem iter_refines_list:
  assumes "represents s m kvs"
  shows "\<exists>it s1. iter_new m s = Inr (it, s1) \<and>
    (\<exists>it' s'. run_ops iter_step ops it s1 = Inr ((fst (spec_ops iter_spec ops kvs), it'), s') \<and> represents s' m kvs)"
proof -
  from iter_new_iterates[OF assms] obtain it s1 where "iter_new m s = Inr (it, s1)" "iterates m kvs s1 it kvs" by blast
  with reading.run_simulates[OF this(2), of ops] show ?thesis using iterates_represents by blast
qed

theorem iter_refines_list_witness:
  "\<exists>it s1. iter_new small_map small_store = Inr (it, s1) \<and>
    (\<exists>it' s'. run_ops iter_step [Next, Peek, NextBack, Next] it s1 =
      Inr (([Item (Some (1, 10)), Item (Some (2, 20)), Item (Some (2, 20)), Item None], it'), s') \<and>
      represents s' small_map [(1, 10), (2, 20)])"
  using iter_refines_list[OF small_represents, of "[Next, Peek, NextBack, Next]"] by (simp add: kv_last_def)

text \<open>\<open>Iter::advance\<close> and \<open>advance_back\<close> skip an entry while there is one, and panic when the
  iteration is done.\<close>

theorem iter_advance_correct:
  assumes "iterates m kvs s it xs"
  shows "if xs = [] then iter_advance it s = Inl IterationDone \<and> iter_advance_back it s = Inl IterationDone
    else (\<exists>it' s'. iter_advance it s = Inr (it', s') \<and> iterates m kvs s' it' (tl xs)) \<and>
      (\<exists>it' s'. iter_advance_back it s = Inr (it', s') \<and> iterates m kvs s' it' (butlast xs))"
proof (cases "xs = []")
  case True
  then show ?thesis using iter_advance_done assms by auto
next
  case False
  then show ?thesis using iter_advance_simulates[OF assms] by simp
qed

theorem iter_advance_correct_witness:
  "\<exists>it s1. iter_new small_map small_store = Inr (it, s1) \<and> (\<exists>it' s'. iter_advance it s1 = Inr (it', s'))"
proof -
  from iter_new_iterates[OF small_represents] obtain it s1 where
    it: "iter_new small_map small_store = Inr (it, s1)" "iterates small_map [(1, 10), (2, 20)] s1 it [(1, 10), (2, 20)]"
    by blast
  from iter_advance_correct[OF it(2)] it(1) show ?thesis by auto
qed

text \<open>\<open>Keys\<close> and \<open>Values\<close> yield the keys and the values of what \<open>Iter\<close> yields, from either end.\<close>

theorem keys_values_correct:
  assumes "iterates m kvs s it xs"
  shows "(\<exists>it' s'. keys_next it s = Inr ((map_option fst (kv_first xs), it'), s') \<and> iterates m kvs s' it' (tl xs)) \<and>
    (\<exists>it' s'. keys_next_back it s = Inr ((map_option fst (kv_last xs), it'), s') \<and> iterates m kvs s' it' (butlast xs)) \<and>
    (\<exists>it' s'. values_next it s = Inr ((map_option snd (kv_first xs), it'), s') \<and> iterates m kvs s' it' (tl xs)) \<and>
    (\<exists>it' s'. values_next_back it s = Inr ((map_option snd (kv_last xs), it'), s') \<and> iterates m kvs s' it' (butlast xs))"
  using iter_step_simulates[OF assms, of Next] iter_step_simulates[OF assms, of NextBack]
  by (auto simp: opened keys_next_def keys_next_back_def values_next_def values_next_back_def)

theorem keys_values_correct_witness:
  "\<exists>it s1. iter_new small_map small_store = Inr (it, s1) \<and> (\<exists>it' s'. keys_next_back it s1 = Inr ((Some 2, it'), s'))"
proof -
  from iter_new_iterates[OF small_represents] obtain it s1 where
    it: "iter_new small_map small_store = Inr (it, s1)" "iterates small_map [(1, 10), (2, 20)] s1 it [(1, 10), (2, 20)]"
    by blast
  from keys_values_correct[OF it(2)] it(1) show ?thesis by (auto simp: kv_last_def)
qed

subsection \<open>Writing\<close>

text \<open>C12. Mutable iteration: from a new \<open>IterMut\<close>, any sequence of steps from either end, each writing
  through the reference it yields, returns the old entries in order and leaves a map that satisfies the
  invariant, in which exactly the yielded values were replaced, each once. The other maps of the store
  are untouched, and no node is lost.\<close>

theorem iter_mut_refines:
  assumes "world_ok tight s ms kvss" "i < length ms"
  shows "\<exists>it s'. iter_mut_run ops (ms ! i) s = Inr ((fst (spec_ops edit_spec ops ([], kvss ! i, [])), it), s') \<and>
    world_ok tight s' ms (kvss[i := joined (snd (spec_ops edit_spec ops ([], kvss ! i, [])))])"
  by (rule world_edit[OF assms])

theorem iter_mut_refines_witness:
  "\<exists>it s'. iter_mut_run [EditNext Suc, EditNextBack (\<lambda>v. v + 5), EditNext Suc] small_map small_store =
      Inr (([Some (1, 10), Some (2, 20), None], it), s') \<and> world_ok False s' [small_map] [[(1, 11), (2, 25)]]"
  using iter_mut_refines[OF represents_world[OF small_represents], of 0 "[EditNext Suc, EditNextBack (\<lambda>v. v + 5), EditNext Suc]"]
  by simp

subsection \<open>Consuming\<close>

text \<open>C10. A \<open>for\<close> loop over \<open>into_iter()\<close> yields all entries in order, and a loop over its reversal all
  entries in reverse order. Both end, never follow a freed pointer, and give all nodes of the map back to
  the store, leaves and internal nodes, each once; the other maps of the store are untouched.\<close>

theorem into_iter_frees:
  assumes "world_ok tight s ms kvss" "i < length ms"
  shows "(\<exists>s'. into_iter_all (ms ! i) s = Inr (kvss ! i, s') \<and> world_ok tight s' (del_at i ms) (del_at i kvss)) \<and>
    (\<exists>s'. into_iter_rev_all (ms ! i) s = Inr (rev (kvss ! i), s') \<and> world_ok tight s' (del_at i ms) (del_at i kvss))"
  using world_into_iter[OF assms] world_into_iter_rev[OF assms] by blast

theorem into_iter_frees_witness:
  "(\<exists>s'. into_iter_all tall_map tall_store = Inr (tall_entries, s') \<and> world_ok False s' [] []) \<and>
   (\<exists>s'. into_iter_rev_all tall_map tall_store = Inr (rev tall_entries, s') \<and> world_ok False s' [] [])"
  using into_iter_frees[OF represents_world[OF tall_represents], of 0] by simp

subsection \<open>Ranges\<close>

text \<open>C13. \<open>range\<close> with bounds that are not inverted (no more keys lie before its start than before its end)
  never fails, but yields too few or too many entries: with two or more entries in the range the last one
  is missing, and with exactly one entry the iteration runs on to the end of the map.\<close>

theorem range_yields_wrong_entries:
  assumes "represents s m kvs" "first_index lo kvs \<le> end_index_of hi kvs"
  shows "\<exists>s'. range_all m (lo, hi) s = Inr (range_yields (first_index lo kvs) (end_index_of hi kvs) kvs, s') \<and>
    represents s' m kvs"
proof -
  obtain A T where A: "shows_heap s A" "bmap_ok A m T" "contents T = kvs"
    using assms(1) by (auto simp: represents_def)
  have "runs (range_all m (lo, hi)) A (\<lambda>xs A'. A' = A \<and> xs = range_yields (first_index lo kvs) (end_index_of hi kvs) kvs)"
    by (rule runs_range_all[OF A(2)]) (use assms(2) A(3) in simp_all)
  from runsD[OF this A(1)] show ?thesis using A(2,3) unfolding represents_def by metis
qed

theorem range_yields_wrong_entries_witness:
  "(\<exists>s'. range_all tall_map (Included 2, Included 5) tall_store = Inr ([(2, 20), (3, 30), (4, 40)], s')) \<and>
   (\<exists>s'. range_all tall_map (Included 10, Included 10) tall_store = Inr ([(10, 100), (11, 110)], s'))"
  using range_yields_wrong_entries[OF tall_represents, of "Included 2" "Included 5"]
    range_yields_wrong_entries[OF tall_represents, of "Included 10" "Included 10"]
  by (auto simp: tall_entries_def upt_rec range_yields_def)

end
