(* ===== verification/RangeProps.thy ===== *)
theory RangeProps
  imports RangeMut BothEnds IterProps
begin

text \<open>
  The properties of reversed, mutable and inverted ranges, and of consuming iteration from both ends.
\<close>

subsection \<open>Ranges\<close>

text \<open>C32. A loop over a reversed range never fails, but yields wrong entries: with two or more entries in
  the range the first one is missing, and with exactly one the iteration runs on to the start of the map.\<close>

theorem range_back_yields_wrong_entries:
  assumes "represents s m kvs" "first_index lo kvs \<le> end_index_of hi kvs"
  shows "\<exists>s'. range_all_back m (lo, hi) s =
      Inr (range_yields_back (first_index lo kvs) (end_index_of hi kvs) kvs, s') \<and> represents s' m kvs"
proof -
  obtain A T where A: "shows_heap s A" "bmap_ok A m T" "contents T = kvs"
    using assms(1) by (auto simp: represents_def)
  have "runs (range_all_back m (lo, hi)) A
      (\<lambda>xs A'. A' = A \<and> xs = range_yields_back (first_index lo kvs) (end_index_of hi kvs) kvs)"
    by (rule runs_range_all_back[OF A(2)]) (use assms(2) A(3) in simp_all)
  from runsD[OF this A(1)] show ?thesis using A(2,3) unfolding represents_def by metis
qed

theorem range_back_yields_wrong_entries_witness:
  "(\<exists>s'. range_all_back tall_map (Included 2, Included 5) tall_store = Inr ([(5, 50), (4, 40), (3, 30)], s')) \<and>
   (\<exists>s'. range_all_back tall_map (Included 1, Excluded 2) tall_store = Inr ([(1, 10), (0, 0)], s'))"
  using range_back_yields_wrong_entries[OF tall_represents, of "Included 2" "Included 5"]
    range_back_yields_wrong_entries[OF tall_represents, of "Included 1" "Excluded 2"]
  by (auto simp: tall_entries_def upt_rec range_yields_back_def)

text \<open>C31. \<open>range_mut\<close> writes what \<open>range\<close> yields: a loop that replaces every value it gets changes exactly
  those entries. So the last entry of the range keeps its old value, and when the range has one entry,
  all values from it to the end of the map are overwritten. The other maps of the store are untouched.\<close>

theorem range_mut_writes:
  assumes "world_ok tight s ms kvss" "i < length ms" "first_index lo (kvss ! i) \<le> end_index_of hi (kvss ! i)"
  defines "ys \<equiv> range_yields (first_index lo (kvss ! i)) (end_index_of hi (kvss ! i)) (kvss ! i)"
  shows "\<exists>s'. range_mut_all f (ms ! i) (lo, hi) s = Inr (ys, s') \<and>
    world_ok tight s' ms (kvss[i := overwrite f (first_index lo (kvss ! i)) (length ys) (kvss ! i)])"
  unfolding ys_def by (rule world_edit_range[OF assms(1-3)])

lemma tall_entries_list:
  "tall_entries = [(0, 0), (1, 10), (2, 20), (3, 30), (4, 40), (5, 50), (6, 60), (7, 70), (8, 80), (9, 90), (10, 100), (11, 110)]"
  by (simp add: tall_entries_def upt_rec)

theorem range_mut_writes_witness:
  "\<exists>s'. range_mut_all (\<lambda>_. 7) tall_map (Included 9, Included 9) tall_store = Inr ([(9, 90), (10, 100), (11, 110)], s') \<and>
    world_ok False s' [tall_map] [take 9 tall_entries @ [(9, 7), (10, 7), (11, 7)]]"
  using range_mut_writes[OF represents_world[OF tall_represents], of 0 "Included 9" "Included 9" "\<lambda>_. 7"]
  by (simp add: tall_entries_list range_yields_def overwrite_def)

text \<open>C33. Inverted bounds (the start after the end) are not recognised in a map of one leaf, unless the two
  are neighbours: the range then yields all entries from its start to the end of the map.\<close>

theorem inverted_range_yields:
  assumes "represents s m kvs" "height m = 0" "0 < end_index_of hi kvs"
    "end_index_of hi kvs < first_index lo kvs" "first_index lo kvs < length kvs"
  shows "\<exists>s'. range_all m (lo, hi) s = Inr (drop (first_index lo kvs) kvs, s') \<and> represents s' m kvs"
proof -
  obtain A T where A: "shows_heap s A" "bmap_ok A m T" "contents T = kvs"
    using assms(1) by (auto simp: represents_def)
  have "runs (range_all m (lo, hi)) A (\<lambda>xs A'. A' = A \<and> xs = drop (first_index lo kvs) kvs)"
    by (rule runs_range_inverted[OF A(2) assms(2)]) (use assms A(3) in simp_all)
  from runsD[OF this A(1)] show ?thesis using A(2,3) unfolding represents_def by metis
qed

definition five_entries :: "(nat \<times> nat) list" where
  "five_entries = map (\<lambda>k. (k, 10 * k)) [0..<5]"

lemma five_represents: "represents (snd (built five_entries)) (fst (built five_entries)) five_entries"
proof -
  have "fold (\<lambda>(k, v). kv_insert k v) five_entries [] = five_entries"
    by (simp add: five_entries_def upt_rec)
  then show ?thesis using built_represents[of five_entries] by simp
qed

lemma low_height: "represents s m kvs \<Longrightarrow> length kvs < 8 \<Longrightarrow> height m = 0"
proof (rule ccontr)
  assume r: "represents s m kvs" "length kvs < 8" and h: "height m \<noteq> 0"
  then have "8 * 5 ^ (height m - 1) \<le> length kvs" using height_at_least[OF r(1)] by simp
  moreover have "(1 :: nat) \<le> 5 ^ (height m - 1)" by simp
  ultimately show False using r(2) by linarith
qed

theorem inverted_range_yields_witness:
  "\<exists>s'. range_all (fst (built five_entries)) (Included 3, Included 1) (snd (built five_entries)) =
    Inr ([(3, 30), (4, 40)], s')"
proof -
  have "length five_entries < 8" by (simp add: five_entries_def)
  from inverted_range_yields[OF five_represents low_height[OF five_represents this], of "Included 1" "Included 3"]
  show ?thesis by (auto simp: five_entries_def upt_rec)
qed

subsection \<open>Consuming from both ends\<close>

text \<open>C34. Use after free: every map with internal nodes has a way to be consumed from both ends, taking each
  entry once, in which the back end follows a link to a leaf that the front end has freed.\<close>

theorem into_iter_use_after_free:
  assumes "represents s m kvs" "0 < height m"
  shows "\<exists>i j. i + j = length kvs \<and> 0 < i \<and> 0 < j \<and> into_iter_both i j m s = Inl DanglingPointer"
proof -
  obtain A T where A: "shows_heap s A" "bmap_ok A m T" "contents T = kvs"
    using assms(1) by (auto simp: represents_def)
  from faults_into_iter_both[OF A(2) assms(2)] show ?thesis using A(1,3) by (metis faults_def)
qed

theorem into_iter_use_after_free_witness:
  "\<exists>i j. i + j = 12 \<and> 0 < i \<and> 0 < j \<and> into_iter_both i j tall_map tall_store = Inl DanglingPointer"
  using into_iter_use_after_free[OF tall_represents tall_is_tall] by (simp add: tall_entries_def)

text \<open>C35. Leak: a map of one leaf that is consumed from both ends yields every entry once, the back end in
  reverse order, but its leaf is never given back to the store.\<close>

theorem into_iter_both_leaks:
  assumes "represents s m (xs @ ys)" "height m = 0" "xs \<noteq> []" "ys \<noteq> []"
  shows "\<exists>s'. into_iter_both (length xs) (length ys) m s = Inr ((xs, rev ys), s') \<and>
    live (slab_log s') = live (slab_log s) \<and> live (slab_log s') \<noteq> {}"
proof -
  obtain A T where A: "shows_heap s A" "bmap_ok A m T" "contents T = xs @ ys"
    using assms(1) by (auto simp: represents_def)
  then obtain t where t: "T = Some t" using assms(3) by (cases T) auto
  have ne: "dom A \<noteq> {}" using A(2) t rep_dom(1)[of A None t] by (cases t) (auto simp: tree_in_def)
  have "runs (into_iter_both (length xs) (length ys) m) A (\<lambda>r A'. A' = A \<and> r = (xs, rev ys))"
    by (rule runs_into_iter_both_leaf[OF A(2) assms(2) A(3) assms(3,4)]) simp
  from runsD[OF this A(1)] show ?thesis using A(1) ne unfolding shows_heap_def by metis
qed

theorem into_iter_both_leaks_witness:
  "\<exists>s'. into_iter_both 1 1 small_map small_store = Inr (([(1, 10)], [(2, 20)]), s') \<and> live (slab_log s') \<noteq> {}"
  using into_iter_both_leaks[of small_store small_map "[(1, 10)]" "[(2, 20)]"] small_represents
    low_height[OF small_represents] by auto

text \<open>C36. Leak: \<open>IntoIter\<close> has no \<open>Drop\<close>. A loop over the only map of a store that breaks off after \<open>n\<close>
  entries yields the first \<open>n\<close> entries, and leaves the store without nodes exactly when these were all.\<close>

theorem into_iter_early_leaks:
  assumes "world_ok True s [m] [kvs]" "n \<le> length kvs"
  shows "\<exists>s'. into_iter_some n m s = Inr (take n kvs, s') \<and> (live (slab_log s') = {} \<longleftrightarrow> n = length kvs)"
proof -
  obtain A T where A: "shows_heap s A" "bmap_ok A m T" "contents T = kvs" "dom A = owned T"
    using assms(1) by (auto simp: world_ok_def list_all2_Cons1)
  have "dom (A |` (- (owned T - L))) = L" if "L \<subseteq> owned T" for L using A(4) that by auto
  then have "runs (into_iter_some n m) A (\<lambda>r B. r = take n kvs \<and> (dom B = {} \<longleftrightarrow> n = length kvs))"
    by (intro runs_into_iter_some[OF A(2)]) (use assms(2) A(3) in simp_all)
  from runsD[OF this A(1)] show ?thesis unfolding shows_heap_def by metis
qed

theorem into_iter_early_leaks_witness:
  "\<exists>m s s'. run_op bump (Extend [(1, 10), (2, 20), (3, 30)]) new_in (new_store :: (nat, nat) store) = Inr ((Done, m), s) \<and>
    into_iter_some 2 m s = Inr ([(1, 10), (2, 20)], s') \<and> live (slab_log s') \<noteq> {}"
proof -
  let ?kvs = "[(1, 10), (2, 20), (3, 30)] :: (nat \<times> nat) list"
  have "world_ok True (new_store :: (nat, nat) store) [new_in] [[]]" using world_ok_create[OF world_ok_new[of True]] by simp
  from world_operate[OF bump_slab.slab_axioms this, of 0 "Extend ?kvs"] obtain m s where
    m: "run_op bump (Extend ?kvs) new_in (new_store :: (nat, nat) store) = Inr ((Done, m), s)" "world_ok True s [m] [?kvs]"
    by auto
  from into_iter_early_leaks[OF m(2), of 2] m(1) show ?thesis by auto
qed

end
