(* ===== verification/BSetProps.thy ===== *)
theory BSetProps
  imports BSet MapProps
begin

text \<open>The properties of \<open>BTreeSet\<close>.\<close>

definition small_set :: "bset \<times> (nat, unit) store" where
  "small_set = (case set_extend bump set_new_in [3, 1, 2, 1] new_store of Inr r \<Rightarrow> r | Inl _ \<Rightarrow> (set_new_in, new_store))"

lemma small_set_represents: "represents_set (snd small_set) (fst small_set) {1, 2, 3}"
  using set_op_represents[OF bump_slab.slab_axioms represents_set_new, of "SetExtend [3, 1, 2, 1 :: nat]"]
  by (auto simp: small_set_def bindP_apply insert_commute split: sum.splits)

text \<open>C26. A \<open>BTreeSet\<close> is a finite set: any sequence of its operations, from any set that satisfies the
  invariant, ends without a panic and with every answer the one that the same sequence gives on the
  mathematical set, least and greatest elements included.\<close>

theorem set_refines_finite_set:
  assumes "slab pick" "represents_set s b S"
  shows "\<exists>b' s'. run_ops (run_set_op pick) ops b s = Inr ((fst (spec_ops spec_set_op ops S), b'), s') \<and>
    represents_set s' b' (snd (spec_ops spec_set_op ops S))"
  by (rule simulation.run_simulates[OF set_simulation[OF assms(1)] assms(2)])

theorem set_refines_finite_set_witness:
  "\<exists>b' s'. run_ops (run_set_op reuse) [SetInsert 5, SetInsert 3, SetInsert 5, SetFirst, SetPopLast, SetLen] set_new_in new_store =
    Inr (([SFlag True, SFlag True, SFlag False, SKey (Some 3), SKey (Some 5), SNum 1], b'), s') \<and>
    represents_set s' b' {3 :: nat}"
proof -
  have sub: "{3, 5 :: nat} - {5} = {3}" "{5, 3 :: nat} - {5} = {3}" by auto
  have "spec_ops spec_set_op [SetInsert 5, SetInsert 3, SetInsert 5, SetFirst, SetPopLast, SetLen] {} =
      ([SFlag True, SFlag True, SFlag False, SKey (Some 3), SKey (Some (5 :: nat)), SNum 1], {3})"
    by (simp add: least_def greatest_def remove_opt_def sub insert_commute)
  then show ?thesis
    using set_refines_finite_set[OF reuse_slab.slab_axioms represents_set_new,
        of "[SetInsert (5 :: nat), SetInsert 3, SetInsert 5, SetFirst, SetPopLast, SetLen]"] by (simp only: fst_conv snd_conv)
qed

text \<open>Iterating over a \<open>BTreeSet\<close>, from either end, yields its elements in increasing order, each once,
  with the exact number of those that remain.\<close>

theorem set_iter_sorted:
  assumes "represents_set s b S"
  shows "\<exists>it s1. set_iter_new b s = Inr (it, s1) \<and>
    (\<exists>it' s'. run_ops set_iter_step ops it s1 =
      Inr ((fst (spec_ops set_iter_spec ops (sorted_list_of_set S)), it'), s') \<and> represents_set s' b S)"
proof -
  from set_iter_new_iterates[OF assms] obtain it s1 where
    "set_iter_new b s = Inr (it, s1)" "set_iterates b S s1 it (sorted_list_of_set S)" by blast
  with set_reading.run_simulates[OF this(2), of ops] show ?thesis using set_iterates_represents by blast
qed

theorem set_iter_sorted_witness:
  "\<exists>it s1. set_iter_new (fst small_set) (snd small_set) = Inr (it, s1) \<and>
    (\<exists>it' s'. run_ops set_iter_step [SetNext, SetNextBack, SetRemaining, SetNext, SetNext] it s1 =
      Inr (([SItem (Some 1), SItem (Some 3), SHint (1, Some 1), SItem (Some 2), SItem None], it'), s'))"
proof -
  have "sorted_list_of_set {1, 2, 3 :: nat} = [1, 2, 3]" by simp
  then show ?thesis
    using set_iter_sorted[OF small_set_represents, of "[SetNext, SetNextBack, SetRemaining, SetNext, SetNext]"]
    by (auto simp del: sorted_list_of_set_insert_remove)
qed

end
