(* ===== verification/CompareProps.thy ===== *)
theory CompareProps
  imports Compare MapProps "HOL-Library.Product_Lexorder" "HOL-Library.List_Lexorder"
begin

text \<open>The properties of the comparison traits: equality is equality of the entries, the order is the
  lexicographic order of the entries, and equal maps have equal hashes.\<close>

text \<open>\<open>Ord::cmp\<close> of a linear order.\<close>

definition ord_of :: "'a::linorder \<Rightarrow> 'a \<Rightarrow> ordering" where
  "ord_of x y = (if x < y then Less else if x = y then Equal else Greater)"

lemma ord_of_simps [simp]:
  "ord_of x y = Equal \<longleftrightarrow> x = y" "ord_of x y = Less \<longleftrightarrow> x < y" "ord_of x y = Greater \<longleftrightarrow> y < x"
  by (auto simp: ord_of_def)

lemma cmp_pair_ord: "cmp_pair (total ord_of) (total ord_of) x y = Some (ord_of x y)"
  by (cases x; cases y) (auto simp: cmp_pair_def total_def ord_of_def less_prod_def split: ordering.split)

lemma lex_compare_ord:
  "lex_compare (cmp_pair (total ord_of) (total ord_of)) xs ys = Some (ord_of xs ys)"
proof (induction "cmp_pair (total ord_of) (total ord_of) :: 'a \<times> 'b \<Rightarrow> _" xs ys rule: lex_compare.induct)
  case (4 x xs y ys)
  then show ?case by (auto simp: cmp_pair_ord ord_of_def)
qed (auto simp: ord_of_def)

text \<open>Two maps of one store, read side by side.\<close>

lemma world_reads:
  assumes w: "world_ok tight s ms kvss" and i: "i < length ms" "j < length ms"
    and run: "\<And>A T1 T2. bmap_ok A (ms ! i) T1 \<Longrightarrow> bmap_ok A (ms ! j) T2 \<Longrightarrow> contents T1 = kvss ! i \<Longrightarrow>
      contents T2 = kvss ! j \<Longrightarrow> runs prog A (\<lambda>r A'. A' = A \<and> r = a)"
  shows "\<exists>s'. prog s = Inr (a, s') \<and> world_ok tight s' ms kvss"
proof -
  obtain A Ts where A: "shows_heap s A" "list_all2 (bmap_ok A) ms Ts" "map contents Ts = kvss" "separate Ts"
      "tight \<longrightarrow> dom A = \<Union> (owned ` set Ts)"
    using w unfolding world_ok_def by blast
  have len: "length Ts = length ms" using A(2) by (simp add: list_all2_lengthD)
  have "runs prog A (\<lambda>r A'. A' = A \<and> r = a)"
    by (rule run[of A "Ts ! i" "Ts ! j"]) (use A i len in \<open>auto simp: list_all2_conv_all_nth\<close>)
  from runsD[OF this A(1)] show ?thesis unfolding world_ok_def using A(2-5) by metis
qed

lemma map_eq_lists:
  assumes "world_ok tight s ms kvss" "i < length ms" "j < length ms"
  shows "\<exists>s'. map_eq eqk eqv (ms ! i) (ms ! j) s = Inr (list_all2 (eq_pair eqk eqv) (kvss ! i) (kvss ! j), s') \<and>
    world_ok tight s' ms kvss"
  by (rule world_reads[OF assms], rule runs_map_eq) auto

text \<open>C37. \<open>PartialEq\<close>: two maps of a store compare equal exactly when they have as many entries and
  their entries agree pairwise; with the equality of the keys and values themselves, exactly when they
  stand for the same finite map. Comparing changes nothing.\<close>

theorem map_eq_correct:
  assumes "world_ok tight s ms kvss" "i < length ms" "j < length ms"
  shows "(\<exists>s'. map_eq eqk eqv (ms ! i) (ms ! j) s = Inr (list_all2 (eq_pair eqk eqv) (kvss ! i) (kvss ! j), s') \<and>
      world_ok tight s' ms kvss) \<and>
    (list_all2 (eq_pair (=) (=)) (kvss ! i) (kvss ! j) \<longleftrightarrow> map_of (kvss ! i) = map_of (kvss ! j))"
proof
  show "\<exists>s'. map_eq eqk eqv (ms ! i) (ms ! j) s = Inr (list_all2 (eq_pair eqk eqv) (kvss ! i) (kvss ! j), s') \<and>
      world_ok tight s' ms kvss"
    by (rule map_eq_lists[OF assms])
  have "eq_pair (=) (=) = ((=) :: 'a \<times> 'b \<Rightarrow> _)" by (auto simp: eq_pair_def fun_eq_iff)
  moreover have "kv_sorted (kvss ! i)" "kv_sorted (kvss ! j)"
    using represents_sorted world_ok_represents[OF assms(1)] assms(2,3) by blast+
  ultimately show "list_all2 (eq_pair (=) (=)) (kvss ! i) (kvss ! j) \<longleftrightarrow> map_of (kvss ! i) = map_of (kvss ! j)"
    using kv_sorted_unique by (auto simp: list.rel_eq)
qed

lemma two_maps: "world_ok False small_store [small_map, new_in] [[(1, 10), (2, 20)], []]"
  using world_ok_create[OF represents_world[OF small_represents]] by simp

theorem map_eq_correct_witness:
  "(\<exists>s'. map_eq (=) (=) small_map small_map small_store = Inr (True, s')) \<and>
   (\<exists>s'. map_eq (=) (=) small_map new_in small_store = Inr (False, s'))"
  using map_eq_correct[OF two_maps, of 0 0 "(=)" "(=)"] map_eq_correct[OF two_maps, of 0 1 "(=)" "(=)"]
  by (auto simp: eq_pair_def)

text \<open>C38. \<open>Ord\<close>: with linearly ordered keys and values, \<open>cmp\<close> is the lexicographic order of the lists of
  entries, so it is a linear order that agrees with equality, and \<open>partial_cmp\<close> is always defined.\<close>

theorem map_cmp_correct:
  assumes "world_ok tight s ms kvss" "i < length ms" "j < length ms"
  shows "(\<exists>s'. map_cmp ord_of ord_of (ms ! i) (ms ! j) s = Inr (ord_of (kvss ! i) (kvss ! j), s') \<and>
      world_ok tight s' ms kvss) \<and>
    (\<exists>s'. map_partial_cmp (total ord_of) (total ord_of) (ms ! i) (ms ! j) s =
      Inr (Some (ord_of (kvss ! i) (kvss ! j)), s') \<and> world_ok tight s' ms kvss)"
proof
  show "\<exists>s'. map_cmp ord_of ord_of (ms ! i) (ms ! j) s = Inr (ord_of (kvss ! i) (kvss ! j), s') \<and>
      world_ok tight s' ms kvss"
    unfolding map_cmp_def
    by (rule world_reads[OF assms], rule runs_bind, rule runs_map_partial_cmp)
      (auto simp: lex_compare_ord intro!: runs_ret_eta)
  show "\<exists>s'. map_partial_cmp (total ord_of) (total ord_of) (ms ! i) (ms ! j) s =
      Inr (Some (ord_of (kvss ! i) (kvss ! j)), s') \<and> world_ok tight s' ms kvss"
    by (rule world_reads[OF assms], rule runs_map_partial_cmp) (auto simp: lex_compare_ord)
qed

theorem map_cmp_correct_witness:
  "(\<exists>s'. map_cmp ord_of ord_of new_in small_map small_store = Inr (Less, s')) \<and>
   (\<exists>s'. map_cmp ord_of ord_of small_map small_map small_store = Inr (Equal, s'))"
  using map_cmp_correct[OF two_maps, of 1 0] map_cmp_correct[OF two_maps, of 0 0]
  by (auto simp: ord_of_def)

lemma hash_cong:
  assumes "list_all2 (eq_pair eqk eqv) xs ys" "\<And>k l. eqk k l \<Longrightarrow> hk k = hk l" "\<And>v w. eqv v w \<Longrightarrow> hv v = hv w"
  shows "fold (\<lambda>(k, v) st. hv v (hk k st)) xs st = fold (\<lambda>(k, v) st. hv v (hk k st)) ys st"
  using assms(1)
proof (induction arbitrary: st rule: list_all2_induct)
  case (Cons x xs y ys)
  then show ?case using assms(2)[of "fst x" "fst y"] assms(3)[of "snd x" "snd y"]
    by (cases x; cases y) (simp add: eq_pair_def)
qed simp

text \<open>C39. \<open>Hash\<close> agrees with \<open>PartialEq\<close>: maps that compare equal feed the hasher alike, whenever the
  hashes of the keys and of the values agree with their equality.\<close>

theorem map_hash_correct:
  assumes "world_ok tight s ms kvss" "i < length ms" "j < length ms"
    "map_eq eqk eqv (ms ! i) (ms ! j) s = Inr (True, s1)"
    "\<And>k l. eqk k l \<Longrightarrow> hk k = hk l" "\<And>v w. eqv v w \<Longrightarrow> hv v = hv w"
  shows "\<exists>h s2 s3. map_hash hk hv (ms ! i) st s = Inr (h, s2) \<and> map_hash hk hv (ms ! j) st s = Inr (h, s3)"
proof -
  let ?h = "\<lambda>i. fold (\<lambda>(k, v) st. hv v (hk k st)) (kvss ! i) st"
  have eq: "list_all2 (eq_pair eqk eqv) (kvss ! i) (kvss ! j)"
    using map_eq_lists[OF assms(1-3), of eqk eqv] assms(4) by auto
  have "\<exists>s'. map_hash hk hv (ms ! l) st s = Inr (?h l, s') \<and> world_ok tight s' ms kvss" if "l < length ms" for l
    by (rule world_reads[OF assms(1) that that], rule runs_map_hash) auto
  from this[OF assms(2)] this[OF assms(3)] hash_cong[OF eq assms(5,6)] show ?thesis by auto
qed

theorem map_hash_correct_witness:
  "\<exists>h s2 s3. map_hash (+) (+) small_map 0 small_store = Inr (h, s2) \<and> map_hash (+) (+) small_map 0 small_store = Inr (h, s3)"
proof -
  have "list_all2 (eq_pair (=) (=)) [(1 :: nat, 10 :: nat), (2, 20)] [(1, 10), (2, 20)]" by (simp add: eq_pair_def)
  then obtain s' where "map_eq (=) (=) small_map small_map small_store = Inr (True, s')"
    using map_eq_lists[OF two_maps, of 0 0 "(=)" "(=)"] by auto
  then have eq: "map_eq (=) (=) ([small_map, new_in] ! 0) ([small_map, new_in] ! 0) small_store = Inr (True, s')"
    by (simp only: nth_Cons_0)
  have "\<exists>h s2 s3. map_hash (+) (+) ([small_map, new_in] ! 0) 0 small_store = Inr (h, s2) \<and>
      map_hash (+) (+) ([small_map, new_in] ! 0) 0 small_store = Inr (h, s3)"
    by (rule map_hash_correct[OF two_maps _ _ eq]) simp_all
  then show ?thesis by (simp only: nth_Cons_0)
qed

end
