(* ===== verification/GcProps.thy ===== *)
theory GcProps
  imports Gc MapProps
begin

text \<open>The properties of the tracing collector: it sweeps exactly the nodes that no map owns when every
  map is a single leaf, and it reads undefined or freed memory as soon as one map has internal nodes.\<close>

lemma copy_from_data: "raw_data (copy_inner (copy_from m)) = m"
  by (simp add: copy_from_def raw_from_def)

text \<open>C29. Tracing garbage collection over all maps of a store, when none of them has internal nodes and
  the closure finds the copies at aligned addresses: it never fails. Every copyable map keeps its invariant
  and its entries. A map that is not copyable is moved into the collector and dropped, so its nodes are freed.
  Afterwards the store holds no node that no copyable map points to (such as the leaf that removing the
  last entry of a map leaves behind).\<close>

theorem tracing_gc_sweeps:
  assumes "visiting visit" "\<forall>b\<in>set bs. ours addr b \<and> arg_height b = 0"
    "world_ok tight s (map (\<lambda>b. arg_map (tree b)) bs) kvss" "2 \<le> fuel"
  shows "\<exists>s'. tracing_gc visit fuel addr bs s = Inr ((), s') \<and>
    world_ok True s' (kept bs (map (\<lambda>b. arg_map (tree b)) bs)) (kept bs kvss)"
  by (rule world_tracing_gc[OF assms])

theorem tracing_gc_sweeps_witness:
  "(\<exists>s'. tracing_gc live_list 2 1 [\<lparr>in_store = 1, tree = Copied 16 (copy_from small_map)\<rparr>] small_store = Inr ((), s') \<and>
      world_ok True s' [small_map] [[(1, 10), (2, 20)]]) \<and>
   (\<exists>s'. tracing_gc live_list 2 1 [\<lparr>in_store = 1, tree = Owned small_map\<rparr>] small_store = Inr ((), s') \<and>
      world_ok True s' [] [])"
  using tracing_gc_sweeps[OF visit_latest.visiting_axioms, of "[\<lparr>in_store = 1, tree = Copied 16 (copy_from small_map)\<rparr>]" 1 False small_store "[[(1, 10), (2, 20)]]" 2]
    tracing_gc_sweeps[OF visit_latest.visiting_axioms, of "[\<lparr>in_store = 1, tree = Owned small_map\<rparr>]" 1 False small_store "[[(1, 10), (2, 20)]]" 2]
    represents_world[OF small_represents] small_is_low
  by (simp add: copy_from_data ours_def map_align_def)

text \<open>C28. The traversal of the collector breaks on internal nodes: whenever one of the maps has height 1
  or more, \<open>tracing_gc\<close> stops with a fault at some map that has internal nodes (or is a copy at an address that
  is not aligned). At a copy it reads the uninitialised parent index of a root, or takes a leaf for
  an internal node; at a map that was moved into the collector it follows the pointer to the root that has
  just been freed. No order of the maps and no arena avoids it.\<close>

theorem tracing_gc_faults:
  assumes "\<forall>b\<in>set bs. in_store b = addr \<and> arg_height b + 2 \<le> fuel"
    "world_ok tight s (map (\<lambda>b. arg_map (tree b)) bs) kvss" "b \<in> set bs" "0 < arg_height b"
  shows "(\<exists>b\<in>set bs. (0 < arg_height b \<or> \<not> arg_aligned (tree b)) \<and> tracing_gc visit fuel addr bs s = Inl (gc_fault (tree b))) \<and>
    ((\<forall>b\<in>set bs. is_copied (tree b) \<and> arg_aligned (tree b)) \<longrightarrow>
      tracing_gc visit fuel addr bs s \<in> {Inl UninitRead, Inl WrongVariant})"
proof -
  have "\<exists>b\<in>set bs. 0 < arg_height b \<or> \<not> arg_aligned (tree b)" using assms(3,4) by blast
  from world_tracing_gc_faults[OF assms(2,1) this, of visit] obtain c where
    c: "c \<in> set bs" "0 < arg_height c \<or> \<not> arg_aligned (tree c)" "tracing_gc visit fuel addr bs s = Inl (gc_fault (tree c))"
    by blast
  have "gc_fault (tree c) \<in> {UninitRead, WrongVariant}" if "is_copied (tree c)" "arg_aligned (tree c)"
    using that by (cases "tree c") simp_all
  with c show ?thesis by auto
qed

theorem tracing_gc_faults_witness:
  "tracing_gc live_list (height tall_map + 2) 1 [\<lparr>in_store = 1, tree = Copied 16 (copy_from tall_map)\<rparr>] tall_store
     \<in> {Inl UninitRead, Inl WrongVariant} \<and>
   tracing_gc live_list (height tall_map + 2) 1 [\<lparr>in_store = 1, tree = Owned tall_map\<rparr>] tall_store = Inl DanglingPointer"
  using tracing_gc_faults[of "[\<lparr>in_store = 1, tree = Copied 16 (copy_from tall_map)\<rparr>]" 1 "height tall_map + 2" False tall_store
      _ "\<lparr>in_store = 1, tree = Copied 16 (copy_from tall_map)\<rparr>" live_list]
    tracing_gc_faults[of "[\<lparr>in_store = 1, tree = Owned tall_map\<rparr>]" 1 "height tall_map + 2" False tall_store
      _ "\<lparr>in_store = 1, tree = Owned tall_map\<rparr>" live_list]
    represents_world[OF tall_represents] tall_is_tall
  by (simp add: copy_from_data map_align_def)

text \<open>C30. A map of another store among those that the collector is given: \<open>assert_store\<close> panics (unless
  the map is a copy at an address that is not aligned, and reading its field \<open>store\<close> is already undefined),
  before any node of that map is read and before the sweep frees any node of the store.\<close>

theorem tracing_gc_foreign_map:
  assumes "world_ok tight s (map (\<lambda>b. arg_map (tree b)) bs1) kvss" "\<forall>b\<in>set bs1. ours addr b \<and> arg_height b = 0"
    "in_store b \<noteq> addr" "2 \<le> fuel"
  shows "tracing_gc visit fuel addr (bs1 @ b # bs2) s = Inl (if arg_aligned (tree b) then AssertFailed else Misaligned)"
  by (rule world_gc_foreign[OF assms])

theorem tracing_gc_foreign_map_witness:
  "tracing_gc live_list 2 1 ([\<lparr>in_store = 1, tree = Copied 16 (copy_from small_map)\<rparr>] @ \<lparr>in_store = 7, tree = Owned tall_map\<rparr> # []) small_store =
    Inl AssertFailed"
  using tracing_gc_foreign_map[where tight = False and kvss = "[[(1, 10), (2, 20)]]" and s = small_store
      and ?bs1.0 = "[\<lparr>in_store = 1, tree = Copied 16 (copy_from small_map)\<rparr>]" and addr = 1 and fuel = 2 and visit = live_list
      and b = "\<lparr>in_store = 7, tree = Owned tall_map\<rparr>" and ?bs2.0 = "[]"]
    represents_world[OF small_represents] small_is_low
  by (simp add: copy_from_data ours_def map_align_def)

end
