(* ===== verification/Validate.thy ===== *)
theory Validate
  imports MapOps
begin

text \<open>
  \<open>BTreeMap::validate\<close> (\<open>src/src/map.rs\<close>): the walk over a map that collects the violations of the
  invariant that it finds, and panics when there are any. The messages are the constructors of a
  datatype. Here: it finds none in a map that satisfies the invariant.
\<close>

subsection \<open>Operations\<close>

datatype violation =
    ParentIncorrect ptr | ParentIndexIncorrect ptr | TooFewEntries ptr | TooManyEntries ptr
  | PrevLeafIncorrect ptr | NextLeafIncorrect ptr | KeyOutOfOrder ptr nat | LengthIncorrect

text \<open>\<open>PtrEq\<close> for an \<open>Option\<close> (\<open>src/src/utils/ptr_eq.rs\<close>).\<close>

fun opt_ptr_eq :: "('a \<Rightarrow> 'a \<Rightarrow> bool) \<Rightarrow> 'a option \<Rightarrow> 'a option \<Rightarrow> bool" where
  "opt_ptr_eq eq (Some a) (Some b) = eq a b"
| "opt_ptr_eq eq None None = True"
| "opt_ptr_eq eq _ _ = False"

lemma opt_ptr_eq_eq [simp]: "opt_ptr_eq (=) a b \<longleftrightarrow> a = b"
  by (cases a; cases b) auto

definition check :: "bool \<Rightarrow> violation \<Rightarrow> violation list" where
  "check b e = (if b then [] else [e])"

text \<open>What a node must have whatever it is: its parent link, and neither too few nor too many keys.\<close>

definition validate_header :: "ptr \<Rightarrow> (ptr \<times> nat) option \<Rightarrow> ('k, 'v, violation list) sprog" where
  "validate_header node par =
     bindP (get_at node node_parent) (\<lambda>p.
     bindP (len_at node) (\<lambda>l.
     ret (check (opt_ptr_eq (=) (map_option fst p) (map_option fst par)) (ParentIncorrect node) @
          check (opt_ptr_eq (=) (map_option snd p) (map_option snd par)) (ParentIndexIncorrect node) @
          check ((case par of None \<Rightarrow> 1 | Some _ \<Rightarrow> M div 2) \<le> l) (TooFewEntries node) @
          check (l \<le> M) (TooManyEntries node))))"

text \<open>\<open>for i in 0..node.len\<close> in a leaf, with the key before.\<close>

fun validate_keys ::
    "ptr \<Rightarrow> nat list \<Rightarrow> ('k::linorder) option \<Rightarrow> ('k, 'v, violation list \<times> 'k option) sprog" where
  "validate_keys node [] prev_key = ret ([], prev_key)"
| "validate_keys node (i # is) prev_key =
     bindP (get_at node (key i)) (\<lambda>k.
     bindP (validate_keys node is (Some k)) (\<lambda>(es, last_key).
     ret ((case prev_key of None \<Rightarrow> []
           | Some pk \<Rightarrow> check (if i = 0 then pk \<le> k else pk < k) (KeyOutOfOrder node i)) @ es, last_key)))"

text \<open>\<open>if height == 1\<close> and there is a previous leaf: its next leaf must be the child.\<close>

definition validate_next :: "nat \<Rightarrow> ptr option \<Rightarrow> ptr \<Rightarrow> ('k, 'v, violation list) sprog" where
  "validate_next h prev_leaf child =
     (case (h, prev_leaf) of
        (Suc 0, Some q) \<Rightarrow> bindP (get_at q node_next) (\<lambda>nx. ret (check (opt_ptr_eq (=) nx (Some child)) (NextLeafIncorrect q)))
      | _ \<Rightarrow> ret [])"

text \<open>The key before the \<open>i\<close>-th child, if there is one.\<close>

definition validate_key_before ::
    "ptr \<Rightarrow> nat \<Rightarrow> ('k::linorder) option \<Rightarrow> ('k, 'v, violation list \<times> 'k option) sprog" where
  "validate_key_before node i prev_key =
     (case i of 0 \<Rightarrow> ret ([], prev_key)
      | Suc ki \<Rightarrow> bindP (get_at node (key ki)) (\<lambda>k.
          ret (case prev_key of None \<Rightarrow> [] | Some pk \<Rightarrow> check (pk < k) (KeyOutOfOrder node i), Some k)))"

text \<open>\<open>validate_node\<close>: the violations below a node, the number of its entries, its last key and last leaf.\<close>

fun validate_node ::
    "nat \<Rightarrow> ptr \<Rightarrow> (ptr \<times> nat) option \<Rightarrow> ('k::linorder) option \<Rightarrow> ptr option \<Rightarrow>
     ('k, 'v, violation list \<times> nat \<times> 'k \<times> ptr) sprog"
and validate_edges ::
    "nat \<Rightarrow> ptr \<Rightarrow> nat list \<Rightarrow> nat \<Rightarrow> ('k::linorder) option \<Rightarrow> ptr option \<Rightarrow>
     ('k, 'v, violation list \<times> nat \<times> 'k option \<times> ptr option) sprog" where
  "validate_node 0 node par prev_key prev_leaf =
     bindP (validate_header node par) (\<lambda>es1.
     bindP (get_at node node_prev) (\<lambda>pv.
     bindP (len_at node) (\<lambda>l.
     bindP (validate_keys node [0..<l] prev_key) (\<lambda>(es2, last_key).
     bindP (liftP (unwrapR last_key)) (\<lambda>k.
     ret (es1 @ check (opt_ptr_eq (=) pv prev_leaf) (PrevLeafIncorrect node) @ es2, l, k, node))))))"
| "validate_node (Suc h) node par prev_key prev_leaf =
     bindP (validate_header node par) (\<lambda>es1.
     bindP (len_at node) (\<lambda>l.
     bindP (liftP (u16_add l 1)) (\<lambda>l1.
     bindP (validate_edges h node [0..<l1] 0 prev_key prev_leaf) (\<lambda>(es2, n, last_key, last_leaf).
     bindP (liftP (unwrapR last_key)) (\<lambda>k.
     bindP (liftP (unwrapR last_leaf)) (\<lambda>q.
     ret (es1 @ es2, n, k, q)))))))"
| "validate_edges h node [] n prev_key prev_leaf = ret ([], n, prev_key, prev_leaf)"
| "validate_edges h node (i # is) n prev_key prev_leaf =
     bindP (validate_key_before node i prev_key) (\<lambda>(es1, prev_key).
     bindP (get_at node (edge i)) (\<lambda>child.
     bindP (validate_next (Suc h) prev_leaf child) (\<lambda>es2.
     bindP (validate_node h child (Some (node, i)) prev_key prev_leaf) (\<lambda>(es3, child_len, last_key, last_leaf).
     bindP (validate_edges h node is (n + child_len) (Some last_key) (Some last_leaf)) (\<lambda>(es4, r).
     ret (es1 @ es2 @ es3 @ es4, r))))))"

definition validate_map :: "bmap \<Rightarrow> ('k::linorder, 'v, violation list) sprog" where
  "validate_map m =
     (case root m of None \<Rightarrow> ret []
      | Some r \<Rightarrow>
          bindP (validate_node (height m) r None None None) (\<lambda>(es, len, _, last_leaf).
          bindP (get_at last_leaf node_next) (\<lambda>nx.
          ret (es @ check (len = mlength m) LengthIncorrect @
               check (opt_ptr_eq (=) nx None) (NextLeafIncorrect last_leaf)))))"

text \<open>\<open>validate\<close> panics when there are violations.\<close>

definition validate :: "bmap \<Rightarrow> ('k::linorder, 'v, unit) sprog" where
  "validate m = bindP (validate_map m) (\<lambda>es. assertP (es = []))"

lemma check_simps [simp]: "check True e = []" "check b e = [] \<longleftrightarrow> b"
  by (simp_all add: check_def)

subsection \<open>A tree in order passes\<close>

text \<open>The items before a node are bounded by a separator: the key that the walk hands down.\<close>

definition after_sep :: "('k::linorder) option \<Rightarrow> ('k, 'v) item list \<Rightarrow> bool" where
  "after_sep pk its \<longleftrightarrow> (\<forall>k. pk = Some k \<longrightarrow> (\<forall>x\<in>set its. SepAt k < mark_of x))"

definition last_entry :: "('k, 'v) item list \<Rightarrow> 'k \<Rightarrow> bool" where
  "last_entry its k \<longleftrightarrow> its \<noteq> [] \<and> mark_of (last its) = EntAt k"

lemma runs_validate_header:
  assumes "A p = Some v" "\<not> raw v" "vpar v = par" "(case par of None \<Rightarrow> 1 | Some _ \<Rightarrow> M div 2) \<le> vlen v" "vlen v \<le> M"
    "Q [] A"
  shows "runs (validate_header p par) A Q"
  unfolding validate_header_def
  by (rule runs_bind, rule runs_get_at[where A = A and r = par, OF assms(1)], simp add: assms(2,3),
      rule runs_bind, rule runs_len_at[where A = A, OF assms(1)], rule runs_ret) (use assms(4-6) in simp)

lemma runs_validate_keys:
  assumes p: "A p = Some (VLeaf par ks vs pv nx)"
  shows "i + n = length ks \<Longrightarrow> sorted_wrt (<) ks \<Longrightarrow>
    (\<And>k. pk = Some k \<Longrightarrow> if i = 0 then \<forall>x\<in>set ks. k \<le> x else k = ks ! (i - 1)) \<Longrightarrow>
    Q ([], if n = 0 then pk else Some (last ks)) A \<Longrightarrow>
    runs (validate_keys p [i..<i + n] pk) A Q"
proof (induction n arbitrary: i pk Q)
  case 0
  then show ?case by (simp add: runs_ret_eta)
next
  case (Suc n)
  have i: "i < length ks" using Suc.prems(1) by simp
  have last: "last ks = ks ! i" if "n = 0"
    using last_conv_nth[of ks] that Suc.prems(1) i by (cases ks) (simp_all add: Suc.prems(1)[symmetric])
  have ok: "case pk of None \<Rightarrow> True | Some k \<Rightarrow> if i = 0 then k \<le> ks ! i else k < ks ! i"
    using Suc.prems(3) i Suc.prems(2) by (cases pk) (auto simp: sorted_wrt_iff_nth_less split: if_splits)
  have upt: "[i..<i + Suc n] = i # [Suc i..<Suc i + n]" by (simp add: upt_rec)
  show ?case unfolding upt validate_keys.simps
  proof (rule runs_bind, rule runs_get_at[where A = A and r = "ks ! i", OF p])
    show "node_view m (VLeaf par ks vs pv nx) \<Longrightarrow> key i m = Inr (ks ! i)" for m
      using key_view(1)[of m par ks vs pv nx i] i by blast
    have "runs (validate_keys p [Suc i..<Suc i + n] (Some (ks ! i))) A
        (\<lambda>r A'. r = ([], Some (last ks)) \<and> A' = A)"
    proof (rule Suc.IH)
      show "(([], if n = 0 then Some (ks ! i) else Some (last ks)) = ([], Some (last ks))) \<and> A = A"
        using last Suc.prems(1) by (cases "n = 0") simp_all
    qed (use Suc.prems in simp_all)
    then show "runs (bindP (validate_keys p [Suc i..<Suc i + n] (Some (ks ! i))) (\<lambda>(es, last_key).
        ret ((case pk of None \<Rightarrow> [] | Some pk \<Rightarrow> check (if i = 0 then pk \<le> ks ! i else pk < ks ! i) (KeyOutOfOrder p i)) @ es,
          last_key))) A Q"
    proof (rule runs_then, unfold prod.case, intro runs_ret)
      show "Q ((case pk of None \<Rightarrow> [] | Some pk \<Rightarrow> check (if i = 0 then pk \<le> ks ! i else pk < ks ! i) (KeyOutOfOrder p i)) @ [],
          Some (last ks)) A"
        using Suc.prems(4) ok by (cases pk; cases "i = 0") simp_all
    qed
  qed
qed

text \<open>The last item of a tree is an entry.\<close>

lemma weave_last: "length ks = length xs \<Longrightarrow> weave ks (xs @ [x]) = sep_after ks xs @ x"
  using weave_split[of ks xs "[]" x "[]"] by simp

lemma flat_last: "bal h t \<Longrightarrow> filled 1 t \<Longrightarrow> flat t \<noteq> [] \<and> is_ent (mark_of (last (flat t)))"
proof (induction h arbitrary: t)
  case 0
  then obtain p ks vs where t: "t = Lf p ks vs" "length vs = length ks" by (auto simp: bal_leaf_cases)
  then have "ks \<noteq> []" using 0 by auto
  with t obtain ks' k vs' v where "ks = ks' @ [k]" "vs = vs' @ [v]" by (cases ks rule: rev_cases; cases vs rule: rev_cases) auto
  then show ?case using t by simp
next
  case (Suc h)
  then obtain p ks ts where t: "t = Nd p ks ts" "length ts = length ks + 1" "\<forall>u\<in>set ts. bal h u"
    by (auto simp: bal_Suc_cases)
  then obtain us u where ts: "ts = us @ [u]" by (cases ts rule: rev_cases) auto
  have "filled (M div 2) u" using Suc.prems(2) t(1) ts by simp
  then have "filled 1 u" by (rule filled_mono) (simp add: M_def)
  then have "flat u \<noteq> [] \<and> is_ent (mark_of (last (flat u)))" using Suc.IH t(3) ts by simp
  then show ?case using t(1,2) ts by (simp add: weave_last)
qed

lemma leaves_not_Nil: "bal h t \<Longrightarrow> leaves t \<noteq> []"
proof (induction h arbitrary: t)
  case (Suc h)
  then obtain p ks ts where t: "t = Nd p ks ts" "length ts = length ks + 1" "\<forall>u\<in>set ts. bal h u"
    by (auto simp: bal_Suc_cases)
  then show ?case using Suc.IH by (cases ts) auto
qed (auto simp: bal_leaf_cases)

definition last_key :: "('k, 'v) item list \<Rightarrow> 'k" where
  "last_key its = mark_key (mark_of (last its))"

lemma last_key_ent: "bal h t \<Longrightarrow> filled 1 t \<Longrightarrow> mark_of (last (flat t)) = EntAt (last_key (flat t))"
  using flat_last[of h t] unfolding last_key_def by (cases "mark_of (last (flat t))") auto

text \<open>The leaf before points to the first of some leaves.\<close>

definition points_to :: "('k, 'v) vheap \<Rightarrow> ptr option \<Rightarrow> ptr list \<Rightarrow> bool" where
  "points_to A pl ls \<longleftrightarrow> (\<forall>q l ls'. pl = Some q \<longrightarrow> ls = l # ls' \<longrightarrow> (\<exists>pv. links A q = Some (pv, Some l)))"

lemma points_to_None [simp]: "points_to A None ls"
  by (simp add: points_to_def)

lemma points_to_append: "ls \<noteq> [] \<Longrightarrow> points_to A pl (ls @ ls') \<longleftrightarrow> points_to A pl ls"
  by (cases ls) (auto simp: points_to_def)

lemma linked_last: "linked A pv ls nx \<Longrightarrow> ls \<noteq> [] \<Longrightarrow> \<exists>pv. links A (last ls) = Some (pv, nx)"
  by (induction A pv ls nx rule: linked.induct) auto

lemma linked_points:
  assumes "linked A pl (ls @ ls') nx" "ls \<noteq> []"
  shows "points_to A (Some (last ls)) ls'" "linked A (Some (last ls)) ls' nx"
proof -
  have l: "linked A pl ls (hd_or ls' nx)" "linked A (last_or pl ls) ls' nx" using assms(1) by (simp_all add: linked_append)
  from linked_last[OF l(1) assms(2)] show "points_to A (Some (last ls)) ls'" by (auto simp: points_to_def)
  show "linked A (Some (last ls)) ls' nx" using l(2) assms(2) by (simp add: last_or_def)
qed

lemma links_view: "links A q = Some (pv, nx) \<longleftrightarrow> (\<exists>par ks vs. A q = Some (VLeaf par ks vs pv nx))"
  by (auto simp: links_def split: option.splits view.splits)

lemma runs_validate_next:
  assumes "points_to A pl (leaves u)" "bal h u" "Q [] A"
  shows "runs (validate_next (Suc h) pl (root_of u)) A Q"
proof (cases "h = 0 \<and> pl \<noteq> None")
  case True
  then obtain q p ks vs where q: "pl = Some q" "u = Lf p ks vs" using assms(2) by (auto simp: bal_leaf_cases)
  then obtain pv par ks' vs' where "A q = Some (VLeaf par ks' vs' pv (Some p))"
    using assms(1) by (auto simp: points_to_def links_view)
  then show ?thesis using True q assms(3)
    by (auto simp: validate_next_def intro!: runs_bind runs_get_at[where A = A, OF _ node_next_view] runs_ret)
next
  case False
  then have "validate_next (Suc h) pl (root_of u) = (ret [] :: ('a, 'b, violation list) sprog)"
    by (cases h; cases pl) (auto simp: validate_next_def)
  then show ?thesis using assms(3) by (simp add: runs_ret)
qed

definition passes ::
    "('k::linorder, 'v) vheap \<Rightarrow> par \<Rightarrow> nat \<Rightarrow> 'k option \<Rightarrow> ptr option \<Rightarrow> ptr option \<Rightarrow> ('k, 'v) bt \<Rightarrow> bool" where
  "passes A par h pk pl nx t \<longleftrightarrow>
     rep A par t \<and> bal h t \<and> filled (case par of None \<Rightarrow> 1 | Some _ \<Rightarrow> M div 2) t \<and> ordered (flat t) \<and>
     after_sep pk (flat t) \<and> linked A pl (leaves t) nx \<and> (0 < h \<longrightarrow> points_to A pl (leaves t))"

lemma after_sep_ordered: "after_sep (Some k) its \<longleftrightarrow> (\<forall>x\<in>set its. SepAt k < mark_of x)"
  by (simp add: after_sep_def)

text \<open>The children behind the first one.\<close>

lemma runs_validate_edges:
  fixes A :: "('k::linorder, 'v) vheap"
  assumes p: "A p = Some (VInt par ks es)"
    and node: "\<And>u i pk pl nx Q. passes A (Some (p, i)) h pk pl nx u \<Longrightarrow>
      Q ([], length (entries u), last_key (flat u), last (leaves u)) A \<Longrightarrow>
      runs (validate_node h (root_of u) (Some (p, i)) pk pl) A Q"
  shows "reps A p (Suc i) ts \<Longrightarrow> drop (Suc i) es = map root_of ts \<Longrightarrow> length ts = length ks - i \<Longrightarrow> length es = length ks + 1 \<Longrightarrow> i \<le> length ks \<Longrightarrow>
    \<forall>u\<in>set ts. bal h u \<and> filled (M div 2) u \<Longrightarrow>
    ordered (sep_before (drop i ks) (map flat ts)) \<Longrightarrow> \<forall>x\<in>set (sep_before (drop i ks) (map flat ts)). EntAt a < mark_of x \<Longrightarrow>
    linked A (Some q) (concat (map leaves ts)) nx \<Longrightarrow> points_to A (Some q) (concat (map leaves ts)) \<Longrightarrow>
    Q ([], n + length (ents (sep_before (drop i ks) (map flat ts))),
       Some (mark_key (last (EntAt a # map mark_of (sep_before (drop i ks) (map flat ts))))),
       Some (last (q # concat (map leaves ts)))) A \<Longrightarrow>
    runs (validate_edges h p [Suc i..<Suc i + length ts] n (Some a) (Some q)) A Q"
proof (induction ts arbitrary: i n a q Q)
  case Nil
  then show ?case by (simp add: runs_ret_eta)
next
  case (Cons u ts)
  have i: "i < length ks" using Cons.prems(3) by simp
  have dr: "drop i ks = ks ! i # drop (Suc i) ks" using i by (simp add: Cons_nth_drop_Suc)
  have e: "es ! Suc i = root_of u" "drop (Suc (Suc i)) es = map root_of ts"
    using Cons.prems(2,4) i by (simp_all add: Cons_nth_drop_Suc[symmetric])
  have upt: "[Suc i..<Suc i + length (u # ts)] = Suc i # [Suc (Suc i)..<Suc (Suc i) + length ts]" by (simp add: upt_rec)
  have u: "bal h u" "filled (M div 2) u" using Cons.prems(6) by simp_all
  have u1: "filled 1 u" by (rule filled_mono[OF u(2)]) (simp add: M_def)
  note fl = flat_last[OF u(1) u1] and lk = last_key_ent[OF u(1) u1] and lv = leaves_not_Nil[OF u(1)]
  have o: "ordered (flat u)" "ordered (sep_before (drop (Suc i) ks) (map flat ts))" "a < ks ! i"
      "after_sep (Some (ks ! i)) (flat u)"
    using Cons.prems(7,8) by (simp_all add: dr ordered_append ordered_Cons after_sep_def)
  have o2: "\<forall>x\<in>set (sep_before (drop (Suc i) ks) (map flat ts)). EntAt (last_key (flat u)) < mark_of x"
  proof -
    have "\<forall>y\<in>set (flat u). \<forall>x\<in>set (sep_before (drop (Suc i) ks) (map flat ts)). mark_of y < mark_of x"
      using Cons.prems(7) by (simp add: dr ordered_append ordered_Cons)
    then show ?thesis using fl lk last_in_set by metis
  qed
  have lnk: "linked A (Some q) (leaves u @ concat (map leaves ts)) nx" using Cons.prems(9) by simp
  have rep: "rep A (Some (p, Suc i)) u" "reps A p (Suc (Suc i)) ts" using Cons.prems(1) by simp_all
  have pt: "points_to A (Some q) (leaves u)" using Cons.prems(10) by (simp add: points_to_append[OF lv])
  have pass: "passes A (Some (p, Suc i)) h (Some (ks ! i)) (Some q) (hd_or (concat (map leaves ts)) nx) u"
    using rep u o lnk pt by (simp add: passes_def linked_append)
  have edge: "runs (get_at p (edge (Suc i))) A (\<lambda>r A'. r = root_of u \<and> A' = A)"
    by (rule runs_edge[where A = A, OF p]) (use i e in simp_all)
  have keyb: "runs (validate_key_before p (Suc i) (Some a)) A (\<lambda>r A'. r = ([], Some (ks ! i)) \<and> A' = A)"
    unfolding validate_key_before_def nat.case
  proof (rule runs_bind, rule runs_get_at[where A = A and r = "ks ! i", OF p])
    show "node_view m (VInt par ks es) \<Longrightarrow> key i m = Inr (ks ! i)" for m
      using key_view(2)[of m par ks es i] i by blast
    show "runs (ret (case Some a of None \<Rightarrow> [] | Some pk \<Rightarrow> check (pk < ks ! i) (KeyOutOfOrder p (Suc i)), Some (ks ! i))) A
        (\<lambda>r A'. r = ([], Some (ks ! i)) \<and> A' = A)"
      by (rule runs_ret) (use o(3) in simp)
  qed
  have vn: "runs (validate_next (Suc h) (Some q) (root_of u)) A (\<lambda>r A'. r = [] \<and> A' = A)"
    by (rule runs_validate_next[OF pt u(1)]) simp
  have nd: "runs (validate_node h (root_of u) (Some (p, Suc i)) (Some (ks ! i)) (Some q)) A
      (\<lambda>r A'. r = ([], length (entries u), last_key (flat u), last (leaves u)) \<and> A' = A)"
    by (rule node[OF pass]) simp
  let ?its = "sep_before (drop (Suc i) ks) (map flat ts)"
  have fin: "Q ([], (n + length (entries u)) + length (ents ?its),
      Some (mark_key (last (EntAt (last_key (flat u)) # map mark_of ?its))),
      Some (last (last (leaves u) # concat (map leaves ts)))) A"
  proof -
    have "last (EntAt a # map mark_of (sep_before (drop i ks) (map flat (u # ts)))) =
        last (EntAt (last_key (flat u)) # map mark_of ?its)"
      using fl lk by (simp add: dr last_append last_map)
    moreover have "last (q # concat (map leaves (u # ts))) = last (last (leaves u) # concat (map leaves ts))"
      using lv by (simp add: last_append)
    ultimately show ?thesis using Cons.prems(11) by (simp add: dr entries_def add.assoc)
  qed
  have tail: "runs (validate_edges h p [Suc (Suc i)..<Suc (Suc i) + length ts] (n + length (entries u))
      (Some (last_key (flat u))) (Some (last (leaves u)))) A Q"
    by (rule Cons.IH[where Q = Q and a = "last_key (flat u)" and i = "Suc i" and q = "last (leaves u)" and
        n = "n + length (entries u)", OF rep(2) e(2) _ _ _ _ o(2) o2 linked_points(2)[OF lnk lv] linked_points(1)[OF lnk lv] fin])
      (use Cons.prems(3,4,6) i in auto)
  show ?case unfolding upt validate_edges.simps
    by (rule runs_then[OF keyb], unfold prod.case, rule runs_then[OF edge], rule runs_then[OF vn], rule runs_then[OF nd],
        unfold prod.case, rule runs_bind, rule runs_conseq[OF tail])
      (simp add: runs_ret split: prod.splits)
qed

lemma runs_validate_node:
  fixes A :: "('k::linorder, 'v) vheap"
  shows "passes A par h pk pl nx t \<Longrightarrow> Q ([], length (entries t), last_key (flat t), last (leaves t)) A \<Longrightarrow>
    runs (validate_node h (root_of t) par pk pl) A Q"
proof (induction h arbitrary: par pk pl nx t Q)
  case 0
  then obtain p ks vs where t: "t = Lf p ks vs" "length vs = length ks" by (auto simp: passes_def bal_leaf_cases)
  let ?min = "case par of None \<Rightarrow> 1 | Some _ \<Rightarrow> M div 2"
  obtain nx' where p: "A p = Some (VLeaf par ks vs pl nx')"
    using 0(1) t(1) by (auto simp: passes_def links_view)
  have ks: "?min \<le> length ks" "length ks \<le> M" "ks \<noteq> []"
    using 0(1) t(1) by (auto simp: passes_def M_def split: option.splits)
  have srt: "sorted_wrt (<) ks" using 0(1) t by (auto simp: passes_def intro!: ordered_leaf_keys)
  have pk: "\<forall>x\<in>set ks. k \<le> x" if "pk = Some k" for k
    using 0(1) t that by (auto simp: passes_def after_sep_def set_zip in_set_conv_nth) blast
  have keys: "runs (validate_keys p [0..<0 + length ks] pk) A (\<lambda>r A'. r = ([], Some (last ks)) \<and> A' = A)"
    by (rule runs_validate_keys[where A = A and i = 0, OF p]) (use ks(3) srt pk in simp_all)
  have last: "last_key (flat t) = last ks"
    using t ks(3) by (cases ks rule: rev_cases; cases vs rule: rev_cases) (simp_all add: last_key_def)
  have fin: "Q ([], length ks, last ks, p) A" using 0(2) t last by (simp add: entries_def)
  show ?case unfolding t(1) root_of.simps validate_node.simps
    by (rule runs_bind, rule runs_validate_header[where A = A, OF p], simp, simp, simp add: ks(1), simp add: ks(2),
        rule runs_bind, rule runs_get_at[where A = A and r = pl, OF p], erule node_prev_view,
        rule runs_bind, rule runs_len_at[where A = A, OF p], rule runs_then,
        use keys in simp, unfold prod.case, rule runs_bind, rule runs_lift[where a = "last ks"], simp)
      (rule runs_ret, simp add: fin)
next
  case (Suc h)
  then obtain p ks ts where t': "t = Nd p ks ts" "length ts = length ks + 1" "\<forall>u\<in>set ts. bal h u"
    by (auto simp: passes_def bal_Suc_cases)
  then obtain u us where ts: "ts = u # us" by (cases ts) auto
  note t = t'[unfolded ts]
  have pass: "rep A par t" "filled (case par of None \<Rightarrow> 1 | Some _ \<Rightarrow> M div 2) t" "ordered (flat t)" "after_sep pk (flat t)"
      "linked A pl (leaves t) nx" "points_to A pl (leaves t)"
    using Suc.prems(1) by (simp_all add: passes_def)
  have p: "A p = Some (VInt par ks (root_of u # map root_of us))" and reps: "rep A (Some (p, 0)) u" "reps A p (Suc 0) us"
    using pass(1) t(1) by simp_all
  have ks: "(case par of None \<Rightarrow> 1 | Some _ \<Rightarrow> M div 2) \<le> length ks" "length ks \<le> M"
    using pass(2) t(1) by simp_all
  have u: "bal h u" "filled (M div 2) u" using t(1,3) pass(2) by simp_all
  have u1: "filled 1 u" by (rule filled_mono[OF u(2)]) (simp add: M_def)
  note fl = flat_last[OF u(1) u1] and lk = last_key_ent[OF u(1) u1] and lv = leaves_not_Nil[OF u(1)]
  let ?its = "sep_before ks (map flat us)" and ?ls = "concat (map leaves us)"
  have flat: "flat t = flat u @ ?its" "leaves t = leaves u @ ?ls" using t(1) by simp_all
  have o: "ordered (flat u)" "ordered ?its" "after_sep pk (flat u)"
    using pass(3,4) unfolding flat by (auto simp: ordered_append after_sep_def)
  have above: "\<forall>x\<in>set ?its. EntAt (last_key (flat u)) < mark_of x"
    using pass(3) fl lk last_in_set unfolding flat ordered_append by metis
  have lnk: "linked A pl (leaves u @ ?ls) nx" and pt: "points_to A pl (leaves u)"
    using pass(5,6) unfolding flat by (simp_all add: points_to_append[OF lv])
  have passu: "passes A (Some (p, 0)) h pk pl (hd_or ?ls nx) u"
    using reps u o lnk pt by (simp add: passes_def linked_append)
  have hdr: "runs (validate_header p par) A (\<lambda>r A'. r = [] \<and> A' = A)"
    by (rule runs_validate_header[where A = A, OF p]) (use ks in simp_all)
  have len: "runs (len_at p) A (\<lambda>r A'. r = length ks \<and> A' = A)"
    by (rule runs_len_at[where A = A, OF p]) simp
  have edge: "runs (get_at p (edge 0)) A (\<lambda>r A'. r = root_of u \<and> A' = A)"
    by (rule runs_edge[where A = A, OF p]) simp_all
  have vn: "runs (validate_next (Suc h) pl (root_of u)) A (\<lambda>r A'. r = [] \<and> A' = A)"
    by (rule runs_validate_next[OF pt u(1)]) simp
  have nd: "runs (validate_node h (root_of u) (Some (p, 0)) pk pl) A
      (\<lambda>r A'. r = ([], length (entries u), last_key (flat u), last (leaves u)) \<and> A' = A)"
    by (rule Suc.IH[OF passu]) simp
  define ress where "ress = ([] :: violation list, length (entries t), Some (last_key (flat t)), Some (last (leaves t)))"
  have tail: "runs (validate_edges h p [Suc 0..<Suc 0 + length us] (0 + length (entries u))
      (Some (last_key (flat u))) (Some (last (leaves u)))) A (\<lambda>r A'. r = ress \<and> A' = A)"
  proof (rule runs_validate_edges[OF p Suc.IH])
    show "linked A (Some (last (leaves u))) ?ls nx" "points_to A (Some (last (leaves u))) ?ls"
      using linked_points[OF lnk lv] by simp_all
    have "mark_key (last (EntAt (last_key (flat u)) # map mark_of ?its)) = last_key (flat t)"
      using fl by (cases "?its = []") (simp_all add: flat last_key_def last_map)
    moreover have "last (last (leaves u) # ?ls) = last (leaves t)" using lv by (simp add: flat)
    ultimately show "([], 0 + length (entries u) + length (ents (sep_before (drop 0 ks) (map flat us))),
        Some (mark_key (last (EntAt (last_key (flat u)) # map mark_of (sep_before (drop 0 ks) (map flat us))))),
        Some (last (last (leaves u) # ?ls))) = ress \<and> A = A"
      by (simp add: ress_def entries_def flat)
  qed (use t reps o above pass(2) in \<open>simp_all\<close>)
  have edges: "runs (validate_edges h p [0..<length ks + 1] 0 pk pl) A (\<lambda>r A'. r = ress \<and> A' = A)"
  proof -
    have upt: "[0..<length ks + 1] = 0 # [Suc 0..<Suc 0 + length us]" using t(2) by (simp add: upt_rec)
    have kb: "validate_key_before p 0 pk = (ret ([], pk) :: ('k, 'v, violation list \<times> 'k option) sprog)"
      by (simp add: validate_key_before_def)
    show ?thesis unfolding upt validate_edges.simps kb
      by (rule runs_bind, rule runs_ret, unfold prod.case, rule runs_then[OF edge], rule runs_then[OF vn], rule runs_then[OF nd],
          unfold prod.case, rule runs_then[OF tail], unfold ress_def prod.case, rule runs_ret)
        simp
  qed
  have add: "u16_add (length ks) 1 = Inr (length ks + 1)" using ks(2) by (simp add: M_def)
  show ?case unfolding t(1) root_of.simps validate_node.simps
    by (rule runs_then[OF hdr], rule runs_then[OF len], rule runs_bind, rule runs_lift[OF add], rule runs_then[OF edges],
        unfold ress_def prod.case, rule runs_bind, rule runs_lift[where a = "last_key (flat t)"], simp,
        rule runs_bind, rule runs_lift[where a = "last (leaves t)"], simp, rule runs_ret)
      (use Suc.prems(2) in simp)
qed

lemma runs_validate_ok:
  assumes "bmap_ok A m T"
  shows "runs (validate m) A (\<lambda>r A'. r = () \<and> A' = A)"
proof (cases T)
  case None
  then show ?thesis using assms
    by (auto simp: validate_def validate_map_def bmap_ok_def assertP_def intro!: runs_bind runs_ret runs_ret_eta runs_lift)
next
  case (Some t)
  have t: "root m = Some (root_of t)" "tree_in A t" "tree_ok (height m) t" "mlength m = length (entries t)"
    using assms Some by (simp_all add: bmap_ok_def)
  have "passes A None (height m) None None None t"
    using t(2,3) by (simp add: passes_def tree_in_def tree_ok_def after_sep_def)
  then have nd: "runs (validate_node (height m) (root_of t) None None None) A
      (\<lambda>r A'. r = ([], length (entries t), last_key (flat t), last (leaves t)) \<and> A' = A)"
    by (rule runs_validate_node) simp
  have "linked A None (leaves t) None" "leaves t \<noteq> []"
    using t(2,3) leaves_not_Nil by (auto simp: tree_in_def tree_ok_def)
  from linked_last[OF this] obtain pv par ks vs where l: "A (last (leaves t)) = Some (VLeaf par ks vs pv None)"
    by (auto simp: links_view)
  show ?thesis unfolding validate_def validate_map_def t(1) option.case
    by (rule runs_bind, rule runs_then[OF nd], unfold prod.case, rule runs_bind,
        rule runs_get_at[where A = A and r = None, OF l], erule node_next_view, rule runs_ret)
      (rule runs_assert, simp_all add: t(4))
qed

end
