(* ===== verification/ValidateSpec.thy ===== *)
theory ValidateSpec
  imports Validate
begin

text \<open>
  What a pass of \<open>validate\<close> tells: in a store whose nodes are leaves and internal nodes with initialised
  slots, linked in any way and with any keys, a walk that records no violation has seen a tree that
  satisfies the invariant. The lemmas invert the operations of \<open>Validate\<close> one after the other. That no
  node is reached twice is not checked by the code: it follows from the parent links.
\<close>

subsection \<open>Reading a store of nodes\<close>

definition typed :: "('k, 'v) store \<Rightarrow> ('k, 'v) vheap \<Rightarrow> bool" where
  "typed s A \<longleftrightarrow> shows_heap s A \<and> (\<forall>p v. A p = Some v \<longrightarrow> \<not> raw v)"

lemma bindP_Inr_iff: "bindP m f s = Inr (b, s') \<longleftrightarrow> (\<exists>a s1. m s = Inr (a, s1) \<and> f a s1 = Inr (b, s'))"
  by (auto simp: bindP_def split: sum.splits)

lemma liftP_Inr_iff: "liftP r s = Inr (a, s') \<longleftrightarrow> r = Inr a \<and> s' = s"
  by (cases r) auto

lemma unwrapR_Inr_iff: "unwrapR x = Inr a \<longleftrightarrow> x = Some a"
  by (cases x) auto

lemma u16_add_Inr_iff: "u16_add a b = Inr c \<Longrightarrow> c = a + b"
  by (auto simp: u16_add_def split: if_splits)

lemma get_at_returns:
  assumes "get_at p f s = Inr (r, s')" "typed s A"
  obtains n v where "A p = Some v" "\<not> raw v" "node_view n v" "f n = Inr r" "s' = s"
proof -
  from assms(1) obtain n where n: "nodes s p = Some n" "f n = Inr r" "s' = s"
    by (auto simp: get_at_def deref_def bindP_Inr_iff liftP_Inr_iff split: option.splits)
  moreover obtain v where "A p = Some v" "node_view n v"
    using assms(2) n(1) unfolding typed_def shows_heap_def by (metis domD domI)
  ultimately show thesis using that assms(2) unfolding typed_def by blast
qed

lemma key_returns:
  assumes "get_at p (key i) s = Inr (k, s')" "typed s A"
    "A p = Some (VLeaf par ks vs pv nx) \<or> A p = Some (VInt par ks es)"
  shows "i < length ks \<and> k = ks ! i \<and> s' = s"
proof -
  obtain n v where v: "A p = Some v" "node_view n v" "key i n = Inr k" "s' = s"
    by (rule get_at_returns[OF assms(1,2)])
  then have "i < len n" by (auto simp: key_def assertR_def split: if_splits)
  then have i: "i < vlen v" using node_view_len[OF v(2)] by simp
  from assms(3) v(1) consider "v = VLeaf par ks vs pv nx" | "v = VInt par ks es" by auto
  then have "i < length ks \<and> key i n = Inr (ks ! i)"
  proof cases
    case 1
    then show ?thesis using i key_view(1)[of n par ks vs pv nx i] v(2) by (simp del: node_view.simps)
  next
    case 2
    then show ?thesis using i key_view(2)[of n par ks es i] v(2) by (simp del: node_view.simps)
  qed
  then show ?thesis using v by simp
qed

lemma edge_returns:
  assumes "get_at p (edge i) s = Inr (c, s')" "typed s A" "A p = Some (VInt par ks es)"
  shows "i \<le> length ks \<and> c = es ! i \<and> s' = s"
proof -
  obtain n v where v: "A p = Some v" "node_view n v" "edge i n = Inr c" "s' = s"
    by (rule get_at_returns[OF assms(1,2)])
  then have "i < len n + 1" by (auto simp: edge_def assertR_def split: if_splits)
  moreover have e: "v = VInt par ks es" using assms(3) v(1) by simp
  ultimately have "i \<le> length ks" using node_view_len[OF v(2)] by simp
  then show ?thesis using v edge_view[of n par ks es i] e by (simp del: node_view.simps)
qed

lemma len_returns:
  assumes "len_at p s = Inr (l, s')" "typed s A" "A p = Some v"
  shows "l = vlen v \<and> s' = s"
proof -
  obtain n v' where v: "A p = Some v'" "node_view n v'" "Inr (len n) = (Inr l :: nat res)" "s' = s"
    by (rule get_at_returns[OF assms(1)[unfolded len_at_def] assms(2)])
  then show ?thesis using assms(3) node_view_len[OF v(2)] by simp
qed

lemma prev_returns:
  assumes "get_at p node_prev s = Inr (q, s')" "typed s A"
  shows "s' = s \<and> (\<exists>par ks vs nx. A p = Some (VLeaf par ks vs q nx))"
proof -
  obtain n v where v: "A p = Some v" "\<not> raw v" "node_view n v" "node_prev n = Inr q" "s' = s"
    by (rule get_at_returns[OF assms])
  then show ?thesis by (cases v) (auto simp: node_prev_def d_leaf_def)
qed

lemma next_returns:
  assumes "get_at p node_next s = Inr (q, s')" "typed s A"
  shows "s' = s \<and> (\<exists>pv. links A p = Some (pv, q))"
proof -
  obtain n v where v: "A p = Some v" "\<not> raw v" "node_view n v" "node_next n = Inr q" "s' = s"
    by (rule get_at_returns[OF assms])
  then show ?thesis by (cases v) (auto simp: node_next_def d_leaf_def links_def)
qed

subsection \<open>One node\<close>

lemma validate_header_returns:
  assumes "validate_header p par s = Inr ([], s')" "typed s A"
  obtains v where "s' = s" "A p = Some v" "\<not> raw v" "vpar v = par"
    "(case par of None \<Rightarrow> 1 | Some _ \<Rightarrow> M div 2) \<le> vlen v" "vlen v \<le> M"
proof -
  from assms(1) obtain q s1 l s2 where q: "get_at p node_parent s = Inr (q, s1)" "len_at p s1 = Inr (l, s2)" "s' = s2"
      "map_option fst q = map_option fst par" "map_option snd q = map_option snd par"
      "(case par of None \<Rightarrow> 1 | Some _ \<Rightarrow> M div 2) \<le> l" "l \<le> M"
    unfolding validate_header_def bindP_Inr_iff by auto
  obtain n v where v: "A p = Some v" "\<not> raw v" "node_view n v" "node_parent n = Inr q" "s1 = s"
    by (rule get_at_returns[OF q(1) assms(2)])
  then have "q = vpar v" by simp
  moreover have "l = vlen v \<and> s2 = s" using len_returns[OF q(2)] v assms(2) by simp
  moreover have "q = par" using q(4,5) by (cases q; cases par) auto
  ultimately show thesis using that v q by auto
qed

lemma validate_keys_returns:
  assumes "typed s A" "A p = Some (VLeaf par ks vs pv nx)"
  shows "validate_keys p [i..<i + n] pk s = Inr (([], lk), s') \<Longrightarrow> i + n = length ks \<Longrightarrow>
    s' = s \<and> sorted_wrt (<) (drop i ks) \<and> lk = (if n = 0 then pk else Some (last ks)) \<and>
    (\<forall>k. pk = Some k \<longrightarrow> (\<forall>x\<in>set (drop i ks). if i = 0 then k \<le> x else k < x))"
proof (induction n arbitrary: i pk lk s')
  case (Suc n)
  have upt: "[i..<i + Suc n] = i # [Suc i..<Suc i + n]" by (simp add: upt_rec)
  obtain k s1 es lk' s2 where k: "get_at p (key i) s = Inr (k, s1)"
      "validate_keys p [Suc i..<Suc i + n] (Some k) s1 = Inr ((es, lk'), s2)"
    and r: "(case pk of None \<Rightarrow> [] | Some pk \<Rightarrow> check (if i = 0 then pk \<le> k else pk < k) (KeyOutOfOrder p i)) @ es = []"
      "lk = lk'" "s' = s2"
    using Suc.prems(1) unfolding upt validate_keys.simps bindP_Inr_iff by auto
  have i: "i < length ks" "k = ks ! i" "s1 = s" using key_returns[OF k(1) assms(1)] assms(2) by auto
  have ks: "validate_keys p [Suc i..<Suc i + n] (Some k) s = Inr (([], lk'), s2)" using k(2) i(3) r(1) by (metis append_is_Nil_conv)
  have IH: "s2 = s \<and> sorted_wrt (<) (drop (Suc i) ks) \<and> lk' = (if n = 0 then Some k else Some (last ks)) \<and>
      (\<forall>x\<in>set (drop (Suc i) ks). k < x)"
    using Suc.IH[OF ks] Suc.prems(2) by simp
  have d: "drop i ks = k # drop (Suc i) ks" using i by (simp add: Cons_nth_drop_Suc)
  have "k = last ks" if "n = 0"
    using last_conv_nth[of ks] that Suc.prems(2) i by (cases ks) (simp_all add: Suc.prems(2)[symmetric])
  then show ?case using IH r d by (cases pk) (auto split: if_splits)
qed auto

lemma ordered_leafI: "sorted_wrt (<) ks \<Longrightarrow> length vs = length ks \<Longrightarrow> ordered (map2 Ent ks vs)"
  by (auto simp: ordered_def sorted_wrt_iff_nth_less)

text \<open>A chain of leaves and the chain behind it.\<close>

lemma linked_join:
  assumes "linked A pl ls nx" "ls \<noteq> []" "linked A (Some (last ls)) ls' nx'" "points_to A (Some (last ls)) ls'"
  shows "\<exists>nx. linked A pl (ls @ ls') nx"
proof (cases ls')
  case (Cons l ls'')
  obtain pv where "links A (last ls) = Some (pv, nx)" using linked_last assms(1,2) by blast
  moreover have "\<exists>pv. links A (last ls) = Some (pv, Some l)" using assms(4) Cons by (simp add: points_to_def)
  ultimately have "nx = Some l" by auto
  then have "linked A pl (ls @ ls') nx'" using assms Cons by (simp add: linked_append last_or_def)
  then show ?thesis by blast
qed (use assms in auto)

lemma ordered_last: "ordered xs \<Longrightarrow> x \<in> set xs \<Longrightarrow> mark_of x \<le> mark_of (last xs)"
  by (cases xs rule: rev_cases) (auto simp: ordered_append)

text \<open>Adding a child to the ordered items behind it.\<close>

lemma ordered_join:
  assumes "ordered xs" "xs \<noteq> []" "mark_of (last xs) = EntAt k" "ordered ys" "\<forall>y\<in>set ys. EntAt k < mark_of y"
  shows "ordered (xs @ ys)"
  using assms ordered_last[OF assms(1)] by (fastforce simp: ordered_append)

lemma after_sep_join:
  assumes "after_sep pk xs" "xs \<noteq> []" "mark_of (last xs) = EntAt k" "\<forall>y\<in>set ys. EntAt k < mark_of y"
  shows "after_sep pk (xs @ ys)"
proof -
  have "SepAt a < mark_of y" if "pk = Some a" "y \<in> set ys" for a y
  proof -
    have "SepAt a < mark_of (last xs)" using assms(1) that(1) last_in_set[OF assms(2)] by (auto simp: after_sep_def)
    then have "SepAt a < EntAt k" using assms(3) by simp
    also have "EntAt k < mark_of y" using assms(4) that(2) by blast
    finally show ?thesis .
  qed
  then show ?thesis using assms(1) by (auto simp: after_sep_def)
qed

lemma validate_next_returns:
  assumes "validate_next (Suc h) pl c s = Inr ([], s')" "typed s A" "bal h u" "c = root_of u"
  shows "s' = s \<and> (h = 0 \<longrightarrow> points_to A pl (leaves u))"
proof (cases "h = 0 \<and> pl \<noteq> None")
  case True
  then obtain q p ks vs where q: "pl = Some q" "u = Lf p ks vs" using assms(3) by (auto simp: bal_leaf_cases)
  with True assms(1,4) have "get_at q node_next s = Inr (Some p, s')"
    by (auto simp: validate_next_def bindP_Inr_iff)
  from next_returns[OF this assms(2)] show ?thesis using q by (auto simp: points_to_def)
next
  case False
  then show ?thesis using assms(1) by (cases h; cases pl) (auto simp: validate_next_def)
qed

lemma passes_child:
  assumes "passes A (Some (p, i)) h pk pl nx u"
  shows "rep A (Some (p, i)) u" "bal h u" "filled (M div 2) u" "ordered (flat u)" "after_sep pk (flat u)"
    "linked A pl (leaves u) nx" "leaves u \<noteq> []" "flat u \<noteq> []" "mark_of (last (flat u)) = EntAt (last_key (flat u))"
proof -
  show *: "rep A (Some (p, i)) u" "bal h u" "filled (M div 2) u" "ordered (flat u)" "after_sep pk (flat u)" "linked A pl (leaves u) nx"
    using assms by (simp_all add: passes_def)
  have "filled 1 u" by (rule filled_mono[OF *(3)]) (simp add: M_def)
  with *(2) show "leaves u \<noteq> []" "flat u \<noteq> []" "mark_of (last (flat u)) = EntAt (last_key (flat u))"
    using flat_last leaves_not_Nil last_key_ent by blast+
qed

lemma passes_points:
  "passes A par h pk pl nx u \<Longrightarrow> (h = 0 \<longrightarrow> points_to A pl (leaves u)) \<Longrightarrow> points_to A pl (leaves u)"
  by (cases h) (auto simp: passes_def)

text \<open>What the walk below a node must have found.\<close>

definition walk_finds ::
    "('k::linorder, 'v) store \<Rightarrow> ('k, 'v) vheap \<Rightarrow> nat \<Rightarrow> bool" where
  "walk_finds s A h \<longleftrightarrow> (\<forall>c par pk pl n lk ll s'. validate_node h c par pk pl s = Inr (([], n, lk, ll), s') \<longrightarrow>
     s' = s \<and> (\<exists>t nx. root_of t = c \<and> passes A par h pk pl nx t \<and> n = length (entries t) \<and>
       lk = last_key (flat t) \<and> ll = last (leaves t)))"

lemma walk_findsE:
  assumes "walk_finds s A h" "validate_node h c par pk pl s = Inr (([], n, lk, ll), s')"
  obtains t nx where "s' = s" "root_of t = c" "passes A par h pk pl nx t" "n = length (entries t)"
    "lk = last_key (flat t)" "ll = last (leaves t)"
  using assms unfolding walk_finds_def by blast

text \<open>The trees behind a child, with the items, the leaves and the results of the walk.\<close>

definition rest_found ::
    "('k::linorder, 'v) vheap \<Rightarrow> ptr \<Rightarrow> nat \<Rightarrow> 'k list \<Rightarrow> ptr list \<Rightarrow> nat \<Rightarrow> nat \<Rightarrow> 'k \<Rightarrow> ptr \<Rightarrow>
     ('k, 'v) bt list \<Rightarrow> nat \<times> 'k option \<times> ptr option \<Rightarrow> bool" where
  "rest_found A p h ks es i n a q ts r \<longleftrightarrow>
     drop (Suc i) es = map root_of ts \<and> reps A p (Suc i) ts \<and> (\<forall>u\<in>set ts. bal h u \<and> filled (M div 2) u) \<and>
     length ts = length ks - i \<and>
     ordered (sep_before (drop i ks) (map flat ts)) \<and>
     (\<forall>x\<in>set (sep_before (drop i ks) (map flat ts)). EntAt a < mark_of x) \<and>
     (\<exists>nx. linked A (Some q) (concat (map leaves ts)) nx) \<and> points_to A (Some q) (concat (map leaves ts)) \<and>
     r = (n + length (ents (sep_before (drop i ks) (map flat ts))),
          Some (mark_key (last (EntAt a # map mark_of (sep_before (drop i ks) (map flat ts))))),
          Some (last (q # concat (map leaves ts))))"

lemma validate_edges_returns:
  fixes A :: "('k::linorder, 'v) vheap"
  assumes s: "typed s A" and p: "A p = Some (VInt par ks es)" and node: "walk_finds s A h" and es: "length es = length ks + 1"
  shows "validate_edges h p [Suc i..<Suc i + m] n (Some a) (Some q) s = Inr (([], r), s') \<Longrightarrow> i + m = length ks \<Longrightarrow>
    s' = s \<and> (\<exists>ts. rest_found A p h ks es i n a q ts r)"
proof (induction m arbitrary: i n a q s')
  case 0
  then have "rest_found A p h ks es i n a q [] r" using es by (auto simp: rest_found_def points_to_def)
  then show ?case using 0 by auto
next
  case (Suc m)
  have i: "i < length ks" using Suc.prems(2) by simp
  have upt: "[Suc i..<Suc i + Suc m] = Suc i # [Suc (Suc i)..<Suc (Suc i) + m]" by (simp add: upt_rec)
  obtain k s1 c s2 s3 cl lk ll s4 where
      k: "get_at p (key i) s = Inr (k, s1)" "a < k"
    and c: "get_at p (edge (Suc i)) s1 = Inr (c, s2)"
    and nx: "validate_next (Suc h) (Some q) c s2 = Inr ([], s3)"
    and nd: "validate_node h c (Some (p, Suc i)) (Some k) (Some q) s3 = Inr (([], cl, lk, ll), s4)"
    and rest: "validate_edges h p [Suc (Suc i)..<Suc (Suc i) + m] (n + cl) (Some lk) (Some ll) s4 = Inr (([], r), s')"
    using Suc.prems(1) unfolding upt validate_edges.simps validate_key_before_def nat.case
    by (auto simp: bindP_Inr_iff simp del: upt_Suc)
  have k': "k = ks ! i" "s1 = s" using key_returns[OF k(1) s] p by auto
  have c': "c = es ! Suc i" "s2 = s" using edge_returns[OF c[unfolded k'(2)] s p] by auto
  have s3: "s3 = s" using nx c'(2) unfolding validate_next_def
    by (auto simp: bindP_Inr_iff get_at_def deref_def liftP_Inr_iff split: nat.splits option.splits)
  obtain u nxu where u: "s4 = s" "root_of u = c" "passes A (Some (p, Suc i)) h (Some k) (Some q) nxu u"
      "cl = length (entries u)" "lk = last_key (flat u)" "ll = last (leaves u)"
    by (rule walk_findsE[OF node nd[unfolded s3]])
  obtain ts where ts: "s' = s" "rest_found A p h ks es (Suc i) (n + cl) lk ll ts r"
    using Suc.IH[OF rest[unfolded u(1)]] Suc.prems(2) by auto
  note pu = passes_child[OF u(3)]
  have vn: "points_to A (Some q) (leaves u)"
    using passes_points[OF u(3)] validate_next_returns[OF nx[unfolded c'(2)] s pu(2) u(2)[symmetric]] by blast
  let ?its = "sep_before (drop (Suc i) ks) (map flat ts)" and ?ls = "concat (map leaves ts)"
  note rf = ts(2)[unfolded rest_found_def u(5,6)]
  have dk: "drop i ks = k # drop (Suc i) ks" "drop (Suc i) es = c # drop (Suc (Suc i)) es"
    using i es k' c' by (simp_all add: Cons_nth_drop_Suc)
  have o: "ordered (flat u @ ?its)" by (rule ordered_join[OF pu(4,8,9)]) (use rf in simp_all)
  have af: "after_sep (Some k) (flat u @ ?its)" by (rule after_sep_join[OF pu(5,8,9)]) (use rf in simp)
  have ab: "EntAt a < SepAt k" using k(2) by simp
  have "\<exists>nx. linked A (Some q) (leaves u @ ?ls) nx" using linked_join[OF pu(6,7)] rf by blast
  moreover have "ordered (Sep k # flat u @ ?its)" using o af by (auto simp: ordered_Cons after_sep_def)
  moreover have "\<forall>x\<in>set (Sep k # flat u @ ?its). EntAt a < mark_of x"
    using af ab less_trans[OF ab] by (auto simp: after_sep_def)
  moreover have "last (EntAt a # map mark_of (Sep k # flat u @ ?its)) = last (EntAt (last_key (flat u)) # map mark_of ?its)"
    using pu(8,9) by (cases "?its = []") (simp_all add: last_map)
  moreover have "last (q # leaves u @ ?ls) = last (last (leaves u) # ?ls)" using pu(7) by (simp add: last_append)
  ultimately have "rest_found A p h ks es i n a q (u # ts) r"
    using rf pu(1-3) u(2,4) dk i vn unfolding rest_found_def by (simp add: points_to_append[OF pu(7)] entries_def)
  then show ?case using ts(1) by blast
qed

lemma found_leaf:
  assumes s: "typed s A"
  shows "walk_finds s A 0"
  unfolding walk_finds_def
proof (intro allI impI)
  fix p par pk pl n lk ll s'
  assume "validate_node 0 p par pk pl s = Inr (([], n, lk, ll), s')"
  then obtain s1 pv s2 l s3 lko s4 where
      h: "validate_header p par s = Inr ([], s1)" and pv: "get_at p node_prev s1 = Inr (pv, s2)"
    and l: "len_at p s2 = Inr (l, s3)" and ks: "validate_keys p [0..<l] pk s3 = Inr (([], lko), s4)"
    and r: "pv = pl" "lko = Some lk" "s' = s4" "n = l" "ll = p"
    unfolding validate_node.simps by (auto simp: bindP_Inr_iff liftP_Inr_iff unwrapR_Inr_iff)
  obtain v where v: "s1 = s" "A p = Some v" "vpar v = par" "(case par of None \<Rightarrow> 1 | Some _ \<Rightarrow> M div 2) \<le> vlen v" "vlen v \<le> M"
    by (rule validate_header_returns[OF h s])
  obtain par' ks' vs nx where p: "s2 = s" "A p = Some (VLeaf par' ks' vs pv nx)"
    using prev_returns[OF pv[unfolded v(1)] s] by blast
  have lv: "l = length ks'" "s3 = s" using len_returns[OF l[unfolded p(1)] s p(2)] by simp_all
  have ne: "ks' \<noteq> []" using v(2,4) p(2) by (auto simp: M_def split: option.splits)
  have "s4 = s \<and> sorted_wrt (<) (drop 0 ks') \<and> lko = (if l = 0 then pk else Some (last ks')) \<and>
      (\<forall>k. pk = Some k \<longrightarrow> (\<forall>x\<in>set (drop 0 ks'). if 0 = (0 :: nat) then k \<le> x else k < x))"
    by (rule validate_keys_returns[OF s p(2), where n = l]) (use ks lv in simp_all)
  then have k: "s4 = s" "sorted_wrt (<) ks'" "lk = last ks'" "\<forall>k. pk = Some k \<longrightarrow> (\<forall>x\<in>set ks'. k \<le> x)" "ks' \<noteq> []"
    using ne lv r(2) by simp_all
  have len: "length vs = length ks'"
    using s p(2) unfolding typed_def shows_heap_def by (metis domD domI node_view.simps(1))
  have "passes A par 0 pk pl nx (Lf p ks' vs)"
    using p v r(1) k len by (auto simp: passes_def links_def after_sep_def set_zip ordered_leafI intro: nth_mem)
  moreover have "last_key (flat (Lf p ks' vs)) = last ks'"
    using len k(5) by (cases ks' rule: rev_cases; cases vs rule: rev_cases) (simp_all add: last_key_def)
  ultimately show "s' = s \<and> (\<exists>t nx. root_of t = p \<and> passes A par 0 pk pl nx t \<and> n = length (entries t) \<and>
      lk = last_key (flat t) \<and> ll = last (leaves t))"
    using r k lv len by (intro conjI exI[of _ "Lf p ks' vs"] exI[of _ nx]) (simp_all add: entries_def)
qed

lemma found_Suc:
  fixes A :: "('k::linorder, 'v) vheap"
  assumes s: "typed s A" and IH: "walk_finds s A h"
  shows "walk_finds s A (Suc h)"
  unfolding walk_finds_def
proof (intro allI impI)
  fix p par pk pl n lk ll s'
  assume "validate_node (Suc h) p par pk pl s = Inr (([], n, lk, ll), s')"
  then obtain s1 l s2 l1 where hd: "validate_header p par s = Inr ([], s1)"
    and l: "len_at p s1 = Inr (l, s2)" and l1: "u16_add l 1 = Inr l1"
    and es: "validate_edges h p [0..<l1] 0 pk pl s2 = Inr (([], n, Some lk, Some ll), s')"
    unfolding validate_node.simps by (auto simp: bindP_Inr_iff liftP_Inr_iff unwrapR_Inr_iff)
  obtain v where v: "s1 = s" "A p = Some v" "vpar v = par" "\<not> raw v" "(case par of None \<Rightarrow> 1 | Some _ \<Rightarrow> M div 2) \<le> vlen v" "vlen v \<le> M"
    by (rule validate_header_returns[OF hd s])
  have l': "l1 = vlen v + 1" "s2 = s" using len_returns[OF l[unfolded v(1)] s v(2)] u16_add_Inr_iff[OF l1] by simp_all
  have upt: "[0..<l1] = 0 # [Suc 0..<Suc 0 + vlen v]" using l' by (simp add: upt_rec)
  obtain c s3 s4 cl k q s5 where
      c: "get_at p (edge 0) s = Inr (c, s3)" and nx: "validate_next (Suc h) pl c s3 = Inr ([], s4)"
    and nd: "validate_node h c (Some (p, 0)) pk pl s4 = Inr (([], cl, k, q), s5)"
    and rest: "validate_edges h p [Suc 0..<Suc 0 + vlen v] cl (Some k) (Some q) s5 = Inr (([], n, Some lk, Some ll), s')"
    using es unfolding upt l'(2) validate_edges.simps validate_key_before_def nat.case
    by (auto simp: bindP_Inr_iff simp del: upt_Suc)
  obtain ks es where p: "A p = Some (VInt par ks es)" "length es = length ks + 1"
  proof -
    obtain m v' where m: "A p = Some v'" "node_view m v'" "edge 0 m = Inr c" by (rule get_at_returns[OF c s])
    then show thesis using that v(2-4) edge_wrong[of m] by (cases v) auto
  qed
  have vl: "vlen v = length ks" using p(1) v(2) by simp
  have c': "c = es ! 0" "s3 = s" using edge_returns[OF c s p(1)] by auto
  have s4: "s4 = s" using nx c'(2) unfolding validate_next_def
    by (auto simp: bindP_Inr_iff get_at_def deref_def liftP_Inr_iff split: nat.splits option.splits)
  obtain u nxu where u: "s5 = s" "root_of u = c" "passes A (Some (p, 0)) h pk pl nxu u"
      "cl = length (entries u)" "k = last_key (flat u)" "q = last (leaves u)"
    by (rule walk_findsE[OF IH nd[unfolded s4]])
  note pu = passes_child[OF u(3)]
  have vn: "points_to A pl (leaves u)"
    using passes_points[OF u(3)] validate_next_returns[OF nx[unfolded c'(2)] s pu(2) u(2)[symmetric]] by blast
  obtain ts where ts: "s' = s" "rest_found A p h ks es 0 cl k q ts (n, Some lk, Some ll)"
    using validate_edges_returns[OF s p(1) IH p(2) rest[unfolded u(1) vl]] by auto
  note rf = ts(2)[unfolded rest_found_def u(4-6)]
  let ?its = "sep_before ks (map flat ts)" and ?ls = "concat (map leaves ts)" and ?t = "Nd p ks (u # ts)"
  have o: "ordered (flat u @ ?its)" by (rule ordered_join[OF pu(4,8,9)]) (use rf in simp_all)
  have af: "after_sep pk (flat u @ ?its)" by (rule after_sep_join[OF pu(5,8,9)]) (use rf in simp)
  obtain nx where nx: "linked A pl (leaves u @ ?ls) nx" using linked_join[OF pu(6,7)] rf by blast
  have es0: "es = root_of u # map root_of ts" using rf p(2) c'(1) u(2) by (cases es) auto
  have "filled (case par of None \<Rightarrow> 1 | Some _ \<Rightarrow> M div 2) ?t" using v(5,6) vl rf pu(3) by simp
  then have "passes A par (Suc h) pk pl nx ?t"
    using p es0 pu(1,2) rf o af nx vn by (simp add: passes_def points_to_append[OF pu(7)])
  moreover have "lk = last_key (flat ?t)"
  proof -
    have "lk = mark_key (last (EntAt (last_key (flat u)) # map mark_of ?its))" using rf by simp
    then show ?thesis by (cases "?its = []") (simp_all add: last_key_def last_map)
  qed
  moreover have "ll = last (leaves ?t)" using rf pu(7) by (simp add: last_append)
  moreover have "n = length (entries ?t)" using rf by (simp add: entries_def)
  ultimately show "s' = s \<and> (\<exists>t nx. root_of t = p \<and> passes A par (Suc h) pk pl nx t \<and> n = length (entries t) \<and>
      lk = last_key (flat t) \<and> ll = last (leaves t))"
    using ts(1) by (intro conjI exI[of _ ?t] exI[of _ nx]) simp_all
qed

lemma found_all: "typed s A \<Longrightarrow> walk_finds s A h"
  by (induction h) (auto intro: found_leaf found_Suc)

subsection \<open>No node twice\<close>

definition up :: "('k, 'v) vheap \<Rightarrow> ptr \<Rightarrow> ptr" where
  "up A q = (case A q of Some v \<Rightarrow> (case vpar v of Some (p, i) \<Rightarrow> p | None \<Rightarrow> q) | None \<Rightarrow> q)"

lemma rep_root_par: "rep A par t \<Longrightarrow> \<exists>v. A (root_of t) = Some v \<and> vpar v = par"
  by (cases t) auto

lemma rep_unique:
  "rep A par t \<Longrightarrow> rep A par' t' \<Longrightarrow> root_of t = root_of t' \<Longrightarrow> bal h t \<Longrightarrow> bal h' t' \<Longrightarrow> t = t'"
proof (induction t arbitrary: par par' t' h h')
  case (Lf p ks vs)
  then show ?case by (cases t') auto
next
  case (Nd p ks ts)
  obtain ks' ts' where t': "t' = Nd p ks' ts'" using Nd.prems by (cases t') auto
  have eq: "ks' = ks" "map root_of ts' = map root_of ts" using Nd.prems(1,2) t' by auto
  obtain k k' where h: "h = Suc k" "h' = Suc k'" using Nd.prems(4,5) t' by (auto split: nat.splits)
  have r: "reps A p 0 ts" "reps A p 0 ts'" using Nd.prems(1,2) t' by auto
  have "ts = ts'"
  proof (rule nth_equalityI)
    show l: "length ts = length ts'" using eq(2) by (metis length_map)
    fix i assume i: "i < length ts"
    show "ts ! i = ts' ! i"
    proof (rule Nd.IH)
      show "root_of (ts ! i) = root_of (ts' ! i)" using eq(2) i l by (metis nth_map)
      show "rep A (Some (p, 0 + i)) (ts ! i)" "rep A (Some (p, 0 + i)) (ts' ! i)"
        using reps_nth r i l by metis+
      show "bal k (ts ! i)" "bal k' (ts' ! i)" using Nd.prems(4,5) h t' i l by simp_all
    qed (use i in simp)
  qed
  then show ?case using t' eq by simp
qed

lemma bal_unique: "bal h t \<Longrightarrow> bal h' t \<Longrightarrow> h = h'"
proof (induction h arbitrary: h' t)
  case (Suc h)
  then obtain p ks ts where t: "t = Nd p ks ts" "length ts = length ks + 1" "\<forall>u\<in>set ts. bal h u"
    by (auto simp: bal_Suc_cases)
  then show ?case using Suc by (cases h'; cases ts) auto
qed (auto simp: bal_leaf_cases)

text \<open>Every pointer of a tree is the root of a subtree, and its ancestors lead to the root.\<close>

lemma subtree_at:
  "rep A par t \<Longrightarrow> bal h t \<Longrightarrow> q \<in> set (ptrs t) \<Longrightarrow>
   \<exists>k u par'. k \<le> h \<and> bal k u \<and> rep A par' u \<and> root_of u = q \<and> (up A ^^ (h - k)) q = root_of t"
proof (induction h arbitrary: par t)
  case 0
  then have "root_of t = q" by (auto simp: bal_leaf_cases)
  then show ?case using 0 by (intro exI[of _ 0] exI[of _ t] exI[of _ par]) simp
next
  case (Suc h)
  then obtain p ks ts where t: "t = Nd p ks ts" "\<forall>u\<in>set ts. bal h u" by (auto simp: bal_Suc_cases)
  show ?case
  proof (cases "q = p")
    case True
    then show ?thesis using Suc.prems t(1) by (intro exI[of _ "Suc h"] exI[of _ t] exI[of _ par]) simp
  next
    case False
    then obtain i where i: "i < length ts" "q \<in> set (ptrs (ts ! i))"
      using Suc.prems(3) t(1) by (auto simp: in_set_conv_nth[of _ ts])
    have r: "rep A (Some (p, 0 + i)) (ts ! i)" using reps_nth Suc.prems(1) t(1) i(1) by (metis rep.simps(2))
    obtain k u par' where u: "k \<le> h" "bal k u" "rep A par' u" "root_of u = q" "(up A ^^ (h - k)) q = root_of (ts ! i)"
      using Suc.IH[OF r _ i(2)] t(2) i(1) by auto
    have "up A (root_of (ts ! i)) = p" using rep_root_par[OF r] by (auto simp: up_def)
    then have "(up A ^^ (Suc h - k)) q = p" using u(1,5) by (simp add: Suc_diff_le)
    then show ?thesis using u t(1) by (intro exI[of _ k] exI[of _ u] exI[of _ par']) simp
  qed
qed

lemma distinct_concat_lists:
  "(\<And>i. i < length xs \<Longrightarrow> distinct (xs ! i)) \<Longrightarrow>
   (\<And>i j. i < j \<Longrightarrow> j < length xs \<Longrightarrow> set (xs ! i) \<inter> set (xs ! j) = {}) \<Longrightarrow> distinct (concat xs)"
proof (induction xs)
  case (Cons x xs)
  have "distinct (concat xs)"
  proof (rule Cons.IH)
    show "distinct (xs ! i)" if "i < length xs" for i using Cons.prems(1)[of "Suc i"] that by simp
    show "set (xs ! i) \<inter> set (xs ! j) = {}" if "i < j" "j < length xs" for i j
      using Cons.prems(2)[of "Suc i" "Suc j"] that by simp
  qed
  moreover have "set x \<inter> set y = {}" if y: "y \<in> set xs" for y
  proof -
    obtain j where "j < length xs" "y = xs ! j" using y by (auto simp: in_set_conv_nth)
    then show ?thesis using Cons.prems(2)[of 0 "Suc j"] by simp
  qed
  moreover have "distinct x" using Cons.prems(1)[of 0] by simp
  ultimately show ?case by auto
qed simp

lemma rep_distinct: "rep A par t \<Longrightarrow> bal h t \<Longrightarrow> distinct (ptrs t)"
proof (induction h arbitrary: par t)
  case 0
  then show ?case by (auto simp: bal_leaf_cases)
next
  case (Suc h)
  then obtain p ks ts where t: "t = Nd p ks ts" "\<forall>u\<in>set ts. bal h u" by (auto simp: bal_Suc_cases)
  have r: "rep A (Some (p, i)) (ts ! i)" if "i < length ts" for i
    using reps_nth[of A p 0 ts i] Suc.prems(1) t(1) that by simp
  have "p \<notin> set (ptrs (ts ! i))" if i: "i < length ts" for i
  proof
    assume "p \<in> set (ptrs (ts ! i))"
    from subtree_at[OF r[OF i] _ this] obtain k u par' where u: "k \<le> h" "bal k u" "rep A par' u" "root_of u = p"
      using t(2) i by force
    have "u = t" by (rule rep_unique[OF u(3) Suc.prems(1) _ u(2) Suc.prems(2)]) (simp add: u(4) t(1))
    then show False using bal_unique[OF u(2), of "Suc h"] Suc.prems(2) u(1) by simp
  qed
  moreover have "distinct (concat (map ptrs ts))"
  proof (rule distinct_concat_lists)
    fix i assume "i < length (map ptrs ts)"
    then show "distinct (map ptrs ts ! i)" using Suc.IH[OF r] t(2) by simp
  next
    fix i j assume ij: "i < j" "j < length (map ptrs ts)"
    show "set (map ptrs ts ! i) \<inter> set (map ptrs ts ! j) = {}"
    proof (rule ccontr)
      assume "set (map ptrs ts ! i) \<inter> set (map ptrs ts ! j) \<noteq> {}"
      then obtain q where q: "q \<in> set (ptrs (ts ! i))" "q \<in> set (ptrs (ts ! j))" using ij by auto
      have l: "i < length ts" "j < length ts" "bal h (ts ! i)" "bal h (ts ! j)" using ij t(2) by simp_all
      obtain k u pu where u: "k \<le> h" "bal k u" "rep A pu u" "root_of u = q" "(up A ^^ (h - k)) q = root_of (ts ! i)"
        using subtree_at[OF r[OF l(1)] l(3) q(1)] by blast
      obtain k' u' pu' where u': "k' \<le> h" "bal k' u'" "rep A pu' u'" "root_of u' = q" "(up A ^^ (h - k')) q = root_of (ts ! j)"
        using subtree_at[OF r[OF l(2)] l(4) q(2)] by blast
      have "u = u'" by (rule rep_unique[OF u(3) u'(3) _ u(2) u'(2)]) (simp add: u(4) u'(4))
      then have "root_of (ts ! i) = root_of (ts ! j)" using bal_unique[OF u(2), of k'] u'(2) u(5) u'(5) by simp
      then show False using rep_root_par[OF r[OF l(1)]] rep_root_par[OF r[OF l(2)]] ij(1) by auto
    qed
  qed
  moreover have "p \<notin> ptrss ts" using calculation(1) by (auto simp: in_set_conv_nth[of _ ts])
  ultimately show ?case using t(1) by simp
qed

subsection \<open>The map\<close>

lemma validate_returns:
  assumes s: "typed s A" and v: "validate m s = Inr ((), s')" and r: "root m \<noteq> None"
  shows "s' = s \<and> (\<exists>T. bmap_ok A m T)"
proof -
  obtain c where c: "root m = Some c" using r by auto
  obtain n lk ll s1 nx s2 where
      w: "validate_node (height m) c None None None s = Inr (([], n, lk, ll), s1)"
    and nx: "get_at ll node_next s1 = Inr (nx, s2)" and e: "n = mlength m" "nx = None" "s' = s2"
    using v c unfolding validate_def validate_map_def
    by (auto simp: bindP_Inr_iff assertP_def liftP_Inr_iff assertR_def split: if_splits)
  obtain t nx' where t: "s1 = s" "root_of t = c" "passes A None (height m) None None nx' t" "n = length (entries t)"
      "ll = last (leaves t)"
    by (rule walk_findsE[OF found_all[OF s] w])
  note p = t(3)[unfolded passes_def]
  have "leaves t \<noteq> []" using p leaves_not_Nil by blast
  then have "nx' = None" using linked_last[of A None "leaves t" nx'] p next_returns[OF nx[unfolded t(1)] s] e(2) t(5) by auto
  then have "bmap_ok A m (Some t)"
    using p c t e(1) rep_distinct by (auto simp: bmap_ok_def tree_in_def tree_ok_def)
  then show ?thesis using next_returns[OF nx[unfolded t(1)] s] e(3) by blast
qed

text \<open>Without a root nothing is checked, neither the length nor the height.\<close>

lemma validate_iff:
  assumes s: "typed s A"
  shows "validate m s = Inr ((), s') \<longleftrightarrow> s' = s \<and> (root m = None \<or> (\<exists>T. bmap_ok A m T))"
proof (cases "root m = None")
  case True
  then show ?thesis by (auto simp: validate_def validate_map_def)
next
  case False
  have "validate m s = Inr ((), s)" if ok: "bmap_ok A m T" for T
  proof -
    have h: "shows_heap s A" using s by (simp add: typed_def)
    obtain s2 where s2: "validate m s = Inr ((), s2)" using runsD[OF runs_validate_ok[OF ok] h] by auto
    then show ?thesis using validate_returns[OF s s2 False] by simp
  qed
  then show ?thesis using validate_returns[OF s _ False] False by auto
qed

end
