(* ===== verification/ValidateProps.thy ===== *)
theory ValidateProps
  imports ValidateSpec MapProps
begin

text \<open>The property of \<open>validate\<close>: the checker of the library decides the invariant of this development.\<close>

text \<open>C25. \<open>validate\<close> is exact on maps with a root: in a store of well-typed nodes, linked in any way and
  with any keys, it returns, and changes nothing, if and only if the map satisfies the invariant (balance,
  fill, order of all keys and separators, parent links, the chain of the leaves in both directions, length, no
  node reached twice), and panics or faults otherwise. On a map without a root it always returns, whatever
  length and height the map records: the map that \<open>clear\<close> leaves of a tall one passes although it is
  broken.\<close>

theorem validate_exact:
  assumes "shows_heap s A" "\<And>p v. A p = Some v \<Longrightarrow> \<not> raw v"
  shows "(root m \<noteq> None \<longrightarrow> (validate m s = Inr ((), s') \<longleftrightarrow> s' = s \<and> (\<exists>T. bmap_ok A m T))) \<and>
    (root m = None \<longrightarrow> validate m s = Inr ((), s))"
proof -
  have "validate m s = Inr ((), s') \<longleftrightarrow> s' = s \<and> (root m = None \<or> (\<exists>T. bmap_ok A m T))" for s'
    by (rule validate_iff) (use assms in \<open>auto simp: typed_def\<close>)
  then show ?thesis by auto
qed

text \<open>A store with one leaf, for the witness.\<close>

definition one_leaf :: "nat list \<Rightarrow> (nat, unit) store" where
  "one_leaf ks = \<lparr>nodes = [0 \<mapsto> leaf_node\<lparr>len := length ks, keys := map Some ks @ replicate (M - length ks) None,
     node_d := Leaf \<lparr>vals = map (\<lambda>_. Some ()) ks @ replicate (M - length ks) None, leaf_prev = None, leaf_next = None\<rparr>\<rparr>],
     slab_log = [Alloc 0]\<rparr>"

abbreviation leaf_view :: "nat list \<Rightarrow> (nat, unit) view" where
  "leaf_view ks \<equiv> VLeaf None ks (map (\<lambda>_. ()) ks) None None"

lemma one_leaf_shows: "length ks \<le> M \<Longrightarrow> shows_heap (one_leaf ks) [0 \<mapsto> leaf_view ks]"
  by (auto simp: shows_heap_def one_leaf_def holds_def leaf_node_def)

definition leaf_map :: "nat \<Rightarrow> bmap" where
  "leaf_map n = \<lparr>root = Some 0, mlength = n, height = 0\<rparr>"

lemma leaf_map_ok: "bmap_ok [0 \<mapsto> leaf_view [5, 6]] (leaf_map 2) (Some (Lf 0 [5, 6] [(), ()]))"
  by (simp add: bmap_ok_def leaf_map_def tree_in_def tree_ok_def links_def ordered_def entries_def M_def)

lemma leaf_map_bad: "\<not> bmap_ok [0 \<mapsto> leaf_view [6, 5]] (leaf_map 2) T"
proof
  assume b: "bmap_ok [0 \<mapsto> leaf_view [6, 5]] (leaf_map 2) T"
  then obtain t where t: "root_of t = 0" "tree_in [0 \<mapsto> leaf_view [6, 5]] t" "tree_ok 0 t"
    by (cases T) (auto simp: bmap_ok_def leaf_map_def)
  then have "t = Lf 0 [6, 5] [(), ()]" by (auto simp: tree_ok_def bal_leaf_cases tree_in_def)
  then show False using t(3) by (simp add: tree_ok_def ordered_def)
qed

theorem validate_exact_witness:
  "validate (leaf_map 2) (one_leaf [5, 6]) = Inr ((), one_leaf [5, 6]) \<and>
   (\<forall>s'. validate (leaf_map 2) (one_leaf [6, 5]) \<noteq> Inr ((), s')) \<and>
   validate \<lparr>root = None, mlength = 0, height = 2\<rparr> (one_leaf []) = Inr ((), one_leaf []) \<and>
   (\<forall>A :: (nat, unit) vheap. \<nexists>T. bmap_ok A \<lparr>root = None, mlength = 0, height = 2\<rparr> T)"
proof -
  have raw: "[0 \<mapsto> leaf_view ks] p = Some v \<Longrightarrow> \<not> raw v" for ks p v by (auto split: if_splits)
  have l: "length [5, 6 :: nat] \<le> M" "length [6, 5 :: nat] \<le> M" "length [] \<le> M" by (simp_all add: M_def)
  have exact: "(root m \<noteq> None \<longrightarrow> (validate m (one_leaf ks) = Inr ((), s') \<longleftrightarrow> s' = one_leaf ks \<and> (\<exists>T. bmap_ok [0 \<mapsto> leaf_view ks] m T))) \<and>
      (root m = None \<longrightarrow> validate m (one_leaf ks) = Inr ((), one_leaf ks))" if "length ks \<le> M" for m ks s'
    by (rule validate_exact[OF one_leaf_shows[OF that]]) (erule raw)
  have "root (leaf_map 2) \<noteq> None" by (simp add: leaf_map_def)
  then have good: "validate (leaf_map 2) (one_leaf [5, 6]) = Inr ((), s') \<longleftrightarrow>
      s' = one_leaf [5, 6] \<and> (\<exists>T. bmap_ok [0 \<mapsto> leaf_view [5, 6]] (leaf_map 2) T)"
    and bad: "validate (leaf_map 2) (one_leaf [6, 5]) = Inr ((), s') \<longleftrightarrow>
      s' = one_leaf [6, 5] \<and> (\<exists>T. bmap_ok [0 \<mapsto> leaf_view [6, 5]] (leaf_map 2) T)" for s'
    using exact[OF l(1), of "leaf_map 2" s'] exact[OF l(2), of "leaf_map 2" s'] by blast+
  have "validate \<lparr>root = None, mlength = 0, height = 2\<rparr> (one_leaf []) = Inr ((), one_leaf [])"
    using exact[OF l(3), of "\<lparr>root = None, mlength = 0, height = 2\<rparr>"] by simp
  moreover have "\<not> bmap_ok A \<lparr>root = None, mlength = 0, height = 2\<rparr> T" for A :: "(nat, unit) vheap" and T
    by (cases T) simp_all
  moreover have "\<exists>T. bmap_ok [0 \<mapsto> leaf_view [5, 6]] (leaf_map 2) T" using leaf_map_ok by (rule exI)
  moreover have "\<nexists>T. bmap_ok [0 \<mapsto> leaf_view [6, 5]] (leaf_map 2) T" using leaf_map_bad by simp
  ultimately show ?thesis unfolding good bad by simp
qed

end
