(* ===== verification/CopyProps.thy ===== *)
theory CopyProps
  imports Copyable MapProps IntoIter
begin

text \<open>The properties of the copyable maps, and of a map made from entries and taken apart again.\<close>

text \<open>C40. A copyable map built by any operations on a new map holds their entries, and any clone of it that
  lies at an aligned address answers every sequence of lookups as the sorted list of the entries does: no
  lookup faults and the store is left as it is. A clone at any other address, which an array of bytes may
  have, makes the first lookup dereference a misaligned pointer.\<close>

theorem copies_agree:
  assumes "slab pick" "represents s new_in []" "kvs = snd (spec_ops spec_op ops [])"
  shows "\<exists>c s1. copy_build (\<lambda>m. bindP (run_ops (run_op pick) ops m) (\<lambda>(_, m). ret m)) s = Inr (c, s1) \<and>
    represents s1 (raw_data (copy_inner c)) kvs \<and>
    (map_align dvd at \<longrightarrow>
      run_ops (run_read at) queries (copy_clone c) s1 = Inr ((fst (spec_ops read_spec queries kvs), copy_clone c), s1)) \<and>
    (\<not> map_align dvd at \<and> queries \<noteq> [] \<longrightarrow> run_ops (run_read at) queries (copy_clone c) s1 = Inl Misaligned)"
proof -
  obtain m s1 where m: "run_ops (run_op pick) ops new_in s = Inr ((fst (spec_ops spec_op ops []), m), s1)" "represents s1 m kvs"
    using simulation.run_simulates[OF map_simulation[OF assms(1)] assms(2)] unfolding assms(3) by blast
  have "copy_build (\<lambda>m. bindP (run_ops (run_op pick) ops m) (\<lambda>(_, m). ret m)) s = Inr (copy_from m, s1)"
    using m(1) by (simp add: copy_build_def bindP_apply)
  moreover have "raw_data (copy_inner (copy_clone (copy_from m))) = m"
    by (simp add: copy_clone_def copy_from_def raw_from_def)
  then have "map_align dvd at \<longrightarrow> run_ops (run_read at) queries (copy_clone (copy_from m)) s1 =
      Inr ((fst (spec_ops read_spec queries kvs), copy_clone (copy_from m)), s1)"
    using reads_answer m(2) by metis
  moreover have "\<not> map_align dvd at \<and> queries \<noteq> [] \<longrightarrow>
      run_ops (run_read at) queries (copy_clone (copy_from m)) s1 = Inl Misaligned"
    by (cases queries) (simp_all add: read_misaligned bindP_apply)
  moreover have "represents s1 (raw_data (copy_inner (copy_from m))) kvs" using m(2) by (simp add: copy_from_def raw_from_def)
  ultimately show ?thesis by blast
qed

theorem copies_agree_witness:
  "(\<exists>c s1. copy_build (\<lambda>m. bindP (run_ops (run_op bump) [Insert 4 True, Insert 2 False] m) (\<lambda>(_, m). ret m)) new_store = Inr (c, s1) \<and>
      run_ops (run_read 24) [RGet 4, RGet (3 :: nat), RLen, RFirst] (copy_clone c) s1 =
        Inr (([OptVal (Some True), OptVal None, Num 2, OptEntry (Some (2, False))], copy_clone c), s1)) \<and>
   (\<exists>c s1. copy_build (\<lambda>m. bindP (run_ops (run_op bump) [Insert 4 True, Insert 2 False] m) (\<lambda>(_, m). ret m)) new_store = Inr (c, s1) \<and>
      run_ops (run_read 9) [RGet (4 :: nat)] (copy_clone c) s1 = Inl Misaligned)"
  using copies_agree[OF bump_slab.slab_axioms represents_new,
      of "[(2, False), (4, True)]" "[Insert (4 :: nat) True, Insert 2 False]" 24 "[RGet 4, RGet 3, RLen, RFirst]"]
    copies_agree[OF bump_slab.slab_axioms represents_new,
      of "[(2, False), (4, True)]" "[Insert (4 :: nat) True, Insert 2 False]" 9 "[RGet 4]"]
  by (auto simp: read_spec_def map_align_def)

text \<open>Inserting ascending entries one after the other.\<close>

lemma fold_insert_sorted:
  "kv_sorted (xs @ kvs) \<Longrightarrow> fold (\<lambda>(k, v). kv_insert k v) kvs xs = xs @ kvs"
proof (induction kvs arbitrary: xs)
  case (Cons e kvs)
  obtain k v where e: "e = (k, v)" by fastforce
  have "\<forall>x\<in>set xs. fst x < k" using Cons.prems e by (auto simp: kv_sorted_append)
  then have "kv_insert k v xs = xs @ [(k, v)]" using kv_insert_between[of xs k "[]" v] by simp
  then show ?case using Cons.IH[of "xs @ [(k, v)]"] Cons.prems e by simp
qed simp

text \<open>C27. Round trip: extending a new map with entries, each key once and in order, and iterating over the
  consumed map gives the same entries back and leaves the store without nodes; any other entries come
  back sorted, the last value of each key.\<close>

theorem collect_round_trip:
  assumes "slab pick"
  shows "\<exists>m s s'. map_extend pick new_in kvs (new_store :: ('k::linorder, 'v) store) = Inr (m, s) \<and>
    into_iter_all m s = Inr (fold (\<lambda>(k, v). kv_insert k v) kvs [], s') \<and> nodes s' = Map.empty \<and>
    (if kv_sorted kvs then fold (\<lambda>(k, v). kv_insert k v) kvs [] = kvs
     else kv_sorted (fold (\<lambda>(k, v). kv_insert k v) kvs []))"
proof -
  let ?out = "fold (\<lambda>(k, v). kv_insert k v) kvs []"
  have w: "world_ok True (new_store :: ('k, 'v) store) [new_in] [[]]"
    using world_ok_create[OF world_ok_new[of True]] by simp
  obtain m s where m: "run_op pick (Extend kvs) new_in (new_store :: ('k, 'v) store) = Inr ((Done, m), s)" "world_ok True s [m] [?out]"
    using world_operate[OF assms w, of 0 "Extend kvs"] by auto
  then have ext: "map_extend pick new_in kvs (new_store :: ('k, 'v) store) = Inr (m, s)" by (auto simp: opened)
  obtain s' where s': "into_iter_all m s = Inr (?out, s')" "world_ok True s' [] []"
    using world_into_iter[OF m(2), of 0] by auto
  have "kv_sorted ?out" using represents_sorted world_ok_represents[OF m(2), of 0] by auto
  then show ?thesis using ext s'(1) world_tight_empty[OF s'(2)] fold_insert_sorted[of "[]" kvs] by auto
qed

theorem collect_round_trip_witness:
  "\<exists>m s s'. map_extend bump new_in [(3 :: nat, True), (5, False)] new_store = Inr (m, s) \<and>
    into_iter_all m s = Inr ([(3, True), (5, False)], s') \<and> nodes s' = Map.empty"
  using collect_round_trip[OF bump_slab.slab_axioms, of "[(3 :: nat, True), (5, False)]"] by auto

end
