(* ===== verification/Print.thy ===== *)
theory Print
  imports MapOps
begin

text \<open>
  \<open>BTreeMap::print\<close> and \<open>Debug\<close> (\<open>src/src/map.rs\<close>): the walk that writes a map as text. The lines are the
  constructors of a datatype, in the order in which they are written; the texts of keys and values are the
  caller's. On a map that satisfies the invariant it ends, and the entries are written in order.
\<close>

subsection \<open>Operations\<close>

text \<open>The first argument of a line is its indentation.\<close>

datatype ('k, 'v) line =
    LeafLine nat ptr "(ptr \<times> nat) option" "ptr option" "ptr option"
  | EntryLine nat bool 'k 'v
  | NodeLine nat ptr "(ptr \<times> nat) option"
  | KeyLine nat 'k
  | EndLine nat
  | EmptyLine

fun print_entries :: "nat \<Rightarrow> ptr \<Rightarrow> nat list \<Rightarrow> ('k, 'v, ('k, 'v) line list) sprog" where
  "print_entries ind node [] = ret []"
| "print_entries ind node (i # is) =
     bindP (len_at node) (\<lambda>l.
     bindP (liftP (nat_sub l 1)) (\<lambda>last_idx.
     bindP (get_at node (key i)) (\<lambda>k.
     bindP (get_at node (val i)) (\<lambda>v.
     bindP (print_entries ind node is) (\<lambda>ls.
     ret (EntryLine ind (i = last_idx) k v # ls))))))"

definition print_key_before :: "nat \<Rightarrow> ptr \<Rightarrow> nat \<Rightarrow> ('k, 'v, ('k, 'v) line list) sprog" where
  "print_key_before ind node i =
     (case i of 0 \<Rightarrow> ret []
      | Suc ki \<Rightarrow> bindP (get_at node (key ki)) (\<lambda>k. ret [KeyLine ind k]))"

fun print_node :: "nat \<Rightarrow> nat \<Rightarrow> ptr \<Rightarrow> ('k, 'v, ('k, 'v) line list) sprog"
and print_edges :: "nat \<Rightarrow> nat \<Rightarrow> nat \<Rightarrow> ptr \<Rightarrow> nat list \<Rightarrow> ('k, 'v, ('k, 'v) line list) sprog" where
  "print_node max_height 0 node =
     bindP (liftP (nat_sub max_height 0)) (\<lambda>ind.
     bindP (get_at node node_parent) (\<lambda>par.
     bindP (get_at node node_prev) (\<lambda>pv.
     bindP (get_at node node_next) (\<lambda>nx.
     bindP (len_at node) (\<lambda>l.
     bindP (print_entries ind node [0..<l]) (\<lambda>ls.
     ret (LeafLine ind node par pv nx # ls)))))))"
| "print_node max_height (Suc h) node =
     bindP (liftP (nat_sub max_height (Suc h))) (\<lambda>ind.
     bindP (get_at node node_parent) (\<lambda>par.
     bindP (len_at node) (\<lambda>l.
     bindP (liftP (u16_add l 1)) (\<lambda>l1.
     bindP (print_edges max_height h ind node [0..<l1]) (\<lambda>ls.
     ret (NodeLine ind node par # ls @ [EndLine ind]))))))"
| "print_edges max_height h ind node [] = ret []"
| "print_edges max_height h ind node (i # is) =
     bindP (print_key_before ind node i) (\<lambda>ls1.
     bindP (get_at node (edge i)) (\<lambda>child.
     bindP (print_node max_height h child) (\<lambda>ls2.
     bindP (print_edges max_height h ind node is) (\<lambda>ls3.
     ret (ls1 @ ls2 @ ls3)))))"

definition print_map :: "bmap \<Rightarrow> ('k, 'v, ('k, 'v) line list) sprog" where
  "print_map m =
     (case root m of Some r \<Rightarrow> print_node (height m) (height m) r | None \<Rightarrow> ret [EmptyLine])"

subsection \<open>What is written\<close>

fun printed :: "('k, 'v) line list \<Rightarrow> ('k \<times> 'v) list" where
  "printed [] = []"
| "printed (EntryLine ind b k v # ls) = (k, v) # printed ls"
| "printed (_ # ls) = printed ls"

lemma printed_append [simp]: "printed (xs @ ys) = printed xs @ printed ys"
  by (induction xs rule: printed.induct) auto

text \<open>Entries are indented as deep as the leaves lie, nothing deeper.\<close>

fun fits :: "nat \<Rightarrow> ('k, 'v) line \<Rightarrow> bool" where
  "fits d (LeafLine ind p par pv nx) \<longleftrightarrow> ind = d"
| "fits d (EntryLine ind b k v) \<longleftrightarrow> ind = d"
| "fits d (NodeLine ind p par) \<longleftrightarrow> ind < d"
| "fits d (KeyLine ind k) \<longleftrightarrow> ind < d"
| "fits d (EndLine ind) \<longleftrightarrow> ind < d"
| "fits d EmptyLine \<longleftrightarrow> d = 0"

definition well_indented :: "nat \<Rightarrow> ('k, 'v) line list \<Rightarrow> bool" where
  "well_indented d ls \<longleftrightarrow> (\<forall>l\<in>set ls. fits d l)"

lemma well_indented_simps [simp]:
  "well_indented d []"
  "well_indented d (l # ls) \<longleftrightarrow> fits d l \<and> well_indented d ls"
  "well_indented d (xs @ ys) \<longleftrightarrow> well_indented d xs \<and> well_indented d ys"
  by (auto simp: well_indented_def)

abbreviation prints ::
    "('k, 'v, ('k, 'v) line list) sprog \<Rightarrow> ('k, 'v) vheap \<Rightarrow> nat \<Rightarrow> ('k \<times> 'v) list \<Rightarrow> bool" where
  "prints prog A d kvs \<equiv> runs prog A (\<lambda>ls A'. A' = A \<and> printed ls = kvs \<and> well_indented d ls)"

lemma runs_print_entries:
  assumes p: "A p = Some (VLeaf par ks vs pv nx)" and len: "length vs = length ks"
  shows "i + n = length ks \<Longrightarrow> prints (print_entries ind p [i..<i + n]) A ind (zip (drop i ks) (drop i vs))"
proof (induction n arbitrary: i)
  case 0
  then show ?case using len by (simp add: runs_ret_eta)
next
  case (Suc n)
  have i: "i < length ks" "i < length vs" using Suc.prems len by simp_all
  have upt: "[i..<i + Suc n] = i # [Suc i..<Suc i + n]" by (simp add: upt_rec)
  have d: "zip (drop i ks) (drop i vs) = (ks ! i, vs ! i) # zip (drop (Suc i) ks) (drop (Suc i) vs)"
    using i by (metis Cons_nth_drop_Suc zip_Cons_Cons)
  have sub: "nat_sub (length ks) 1 = Inr (length ks - 1)" using i by simp
  have rest: "prints (print_entries ind p [Suc i..<Suc i + n]) A ind (zip (drop (Suc i) ks) (drop (Suc i) vs))"
    by (rule Suc.IH) (use Suc.prems in simp)
  show ?case unfolding upt print_entries.simps d
    by (rule runs_bind, rule runs_len_at[where A = A, OF p], unfold vlen.simps, rule runs_bind, rule runs_lift[OF sub],
        rule runs_bind, rule runs_get_at[where A = A and r = "ks ! i", OF p], erule key_view(1)[OF _ i(1)],
        rule runs_bind, rule runs_get_at[where A = A and r = "vs ! i", OF p], erule val_view[OF _ i(1)],
        rule runs_bind, rule runs_conseq[OF rest], rule runs_ret) simp
qed

lemma runs_print_edges:
  fixes A :: "('k, 'v) vheap"
  assumes p: "A p = Some (VInt par ks es)" and es: "length es = length ks + 1" and ind: "ind < d"
    and node: "\<And>u j. rep A (Some (p, j)) u \<Longrightarrow> u \<in> set us \<Longrightarrow> prints (print_node mx h (root_of u)) A d (entries u)"
  shows "reps A p i ts \<Longrightarrow> set ts \<subseteq> set us \<Longrightarrow> drop i es = map root_of ts \<Longrightarrow> i + length ts = length ks + 1 \<Longrightarrow>
    prints (print_edges mx h ind p [i..<i + length ts]) A d (concat (map entries ts))"
proof (induction ts arbitrary: i)
  case Nil
  then show ?case by (simp add: runs_ret_eta)
next
  case (Cons u ts)
  have i: "i \<le> length ks" using Cons.prems(4) by simp
  have upt: "[i..<i + length (u # ts)] = i # [Suc i..<Suc i + length ts]" by (simp add: upt_rec)
  have e: "es ! i = root_of u" "drop (Suc i) es = map root_of ts"
    using Cons.prems(3) i es by (simp_all add: Cons_nth_drop_Suc[symmetric])
  have kb: "prints (print_key_before ind p i :: ('k, 'v, ('k, 'v) line list) sprog) A d []"
  proof (cases i)
    case (Suc ki)
    then have "ki < length ks" using i by simp
    then show ?thesis unfolding print_key_before_def Suc nat.case
      by (intro runs_bind runs_get_at[where A = A and r = "ks ! ki", OF p] runs_ret)
        (use ind in \<open>auto simp: key_view(2) simp del: node_view.simps\<close>)
  qed (simp add: print_key_before_def runs_ret)
  have u: "prints (print_node mx h (root_of u)) A d (entries u)"
    by (rule node[of i]) (use Cons.prems(1,2) in simp_all)
  have rest: "prints (print_edges mx h ind p [Suc i..<Suc i + length ts]) A d (concat (map entries ts))"
    by (rule Cons.IH) (use Cons.prems e in simp_all)
  show ?case unfolding upt print_edges.simps
  proof (rule runs_bind, rule runs_conseq[OF kb], elim conjE, hypsubst, rule runs_bind,
      rule runs_edge[where A = A, OF p i], unfold e(1), rule runs_bind, rule runs_conseq[OF u], elim conjE, hypsubst,
      rule runs_bind, rule runs_conseq[OF rest], elim conjE, hypsubst, rule runs_ret)
  qed simp
qed

lemma node_parent_views:
  "node_view n (VLeaf par ks vs pv nx) \<Longrightarrow> node_parent n = Inr par"
  "node_view n (VInt par ks es) \<Longrightarrow> node_parent n = Inr par"
  using node_parent_view[of n "VLeaf par ks vs pv nx"] node_parent_view[of n "VInt par ks es"]
  by (simp_all del: node_view.simps)

lemma runs_print_node:
  fixes A :: "('k, 'v) vheap"
  shows "rep A par t \<Longrightarrow> bal h t \<Longrightarrow> filled m t \<Longrightarrow> h \<le> mx \<Longrightarrow> prints (print_node mx h (root_of t)) A mx (entries t)"
proof (induction h arbitrary: par t m)
  case 0
  then obtain p ks vs pv nx where t: "t = Lf p ks vs" "length vs = length ks" and p: "A p = Some (VLeaf par ks vs pv nx)"
    by (auto simp: bal_leaf_cases)
  have e: "prints (print_entries mx p [0..<0 + length ks]) A mx (zip (drop 0 ks) (drop 0 vs))"
    by (rule runs_print_entries[where A = A and i = 0, OF p t(2)]) simp
  have z: "zip ks vs = entries t" using t by (simp add: entries_def)
  show ?case unfolding t(1) root_of.simps print_node.simps
    by (rule runs_bind, rule runs_lift[where a = mx], simp, rule runs_bind, rule runs_get_at[where A = A and r = par, OF p],
        erule node_parent_views, rule runs_bind, rule runs_get_at[where A = A and r = pv, OF p], erule node_prev_view,
        rule runs_bind, rule runs_get_at[where A = A and r = nx, OF p], erule node_next_view,
        rule runs_bind, rule runs_len_at[where A = A, OF p], unfold vlen.simps, rule runs_bind, rule runs_conseq[OF e[simplified]],
        rule runs_ret) (simp add: z t(1)[symmetric])
next
  case (Suc h)
  then obtain p ks ts where t: "t = Nd p ks ts" "length ts = length ks + 1" "\<forall>u\<in>set ts. bal h u"
    by (auto simp: bal_Suc_cases)
  have p: "A p = Some (VInt par ks (map root_of ts))" and reps: "reps A p 0 ts" using Suc.prems(1) t(1) by simp_all
  have f: "length ks \<le> M" "\<forall>u\<in>set ts. filled (M div 2) u" using Suc.prems(3) t(1) by simp_all
  have es: "prints (print_edges mx h (mx - Suc h) p [0..<0 + length ts]) A mx (concat (map entries ts))"
  proof (rule runs_print_edges[where A = A and us = ts and i = 0, OF p])
    show "prints (print_node mx h (root_of u)) A mx (entries u)" if "rep A (Some (p, j)) u" "u \<in> set ts" for u j
      by (rule Suc.IH[OF that(1)]) (use that(2) t(3) f(2) Suc.prems(4) in auto)
  qed (use reps t(2) Suc.prems(4) in simp_all)
  have add: "u16_add (length ks) 1 = Inr (length ts)" using f(1) t(2) by (simp add: M_def)
  show ?case unfolding t(1) root_of.simps print_node.simps
    by (rule runs_bind, rule runs_lift[where a = "mx - Suc h"], simp add: Suc.prems(4),
        rule runs_bind, rule runs_get_at[where A = A and r = par, OF p],
        erule node_parent_views, rule runs_bind, rule runs_len_at[where A = A, OF p], unfold vlen.simps, rule runs_bind, rule runs_lift[OF add],
        rule runs_bind, rule runs_conseq[OF es[simplified]], rule runs_ret) (use Suc.prems(4) in \<open>simp add: entries_Nd t(2)\<close>)
qed

lemma runs_print_map:
  assumes "bmap_ok A m T"
  shows "prints (print_map m) A (height m) (contents T)"
proof (cases T)
  case None
  then show ?thesis using assms by (simp add: print_map_def runs_ret)
next
  case (Some t)
  then show ?thesis using assms runs_print_node[of A None t "height m" 1 "height m"]
    by (simp add: print_map_def tree_in_def tree_ok_def)
qed

end
