(* ===== verification/AccessorProps.thy ===== *)
theory AccessorProps
  imports Accessors Print MapProps
begin

text \<open>The properties of the mutable accessors and of printing.\<close>

text \<open>C22. \<open>get_key_value_mut\<close>, \<open>first_key_value_mut\<close> and \<open>last_key_value_mut\<close> never fail, hand out the entry that
  the read-only accessors give, and a write through the reference changes the value of that entry only.\<close>

theorem mut_accessors_correct:
  assumes "represents s m kvs"
  shows "(\<exists>s1. get_key_value_mut m k f s = Inr (map_option (Pair k) (map_of kvs k), s1) \<and>
      represents s1 m (case map_of kvs k of None \<Rightarrow> kvs | Some v \<Rightarrow> kv_insert k (f v) kvs)) \<and>
    (\<exists>s2. first_key_value_mut m f s = Inr (kv_first kvs, s2) \<and>
      represents s2 m (case kvs of [] \<Rightarrow> [] | (k, v) # r \<Rightarrow> (k, f v) # r)) \<and>
    (\<exists>s3. last_key_value_mut m f s = Inr (kv_last kvs, s3) \<and>
      represents s3 m (if kvs = [] then [] else butlast kvs @ [(fst (last kvs), f (snd (last kvs)))]))"
proof (intro conjI)
  obtain A T where A: "shows_heap s A" "bmap_ok A m T" "contents T = kvs"
    using assms by (auto simp: represents_def)
  let ?res = "\<lambda>out kvs' r A'. r = out \<and> (\<exists>T'. bmap_ok A' m T' \<and> contents T' = kvs')"
  have fin: "\<exists>s'. prog s = Inr (out, s') \<and> represents s' m kvs'" if "runs prog A (?res out kvs')" for prog out kvs'
    using runsD[OF that A(1)] unfolding represents_def by metis
  have nth: "\<exists>s'. prog s = Inr (Some (kvs ! n), s') \<and> represents s' m (kvs[n := (fst (kvs ! n), f (snd (kvs ! n)))])"
    if "writes_nth prog f A m T n" for prog n
    by (rule fin, rule runs_conseq[OF that[unfolded writes_nth_def A(3)]]) (auto split: prod.splits)
  show "\<exists>s1. get_key_value_mut m k f s = Inr (map_option (Pair k) (map_of kvs k), s1) \<and>
      represents s1 m (case map_of kvs k of None \<Rightarrow> kvs | Some v \<Rightarrow> kv_insert k (f v) kvs)"
    by (rule fin, rule runs_get_key_value_mut[OF A(2)]) (use A in auto)
  have "\<exists>s2. first_key_value_mut m f s = Inr (None, s2) \<and> represents s2 m []"
      "\<exists>s3. last_key_value_mut m f s = Inr (None, s3) \<and> represents s3 m []" if "kvs = []"
  proof -
    have "bmap_ok A m None" using A(2,3) that contents_Nil_iff[OF A(2)] by simp
    then show "\<exists>s2. first_key_value_mut m f s = Inr (None, s2) \<and> represents s2 m []"
      "\<exists>s3. last_key_value_mut m f s = Inr (None, s3) \<and> represents s3 m []"
      by (intro fin writes_empty, simp, fastforce simp: contents_def)+
  qed
  moreover have "0 < length (contents T)" if "kvs \<noteq> []" using A(3) that by simp
  ultimately show "\<exists>s2. first_key_value_mut m f s = Inr (kv_first kvs, s2) \<and>
      represents s2 m (case kvs of [] \<Rightarrow> [] | (k, v) # r \<Rightarrow> (k, f v) # r)"
    and "\<exists>s3. last_key_value_mut m f s = Inr (kv_last kvs, s3) \<and>
      represents s3 m (if kvs = [] then [] else butlast kvs @ [(fst (last kvs), f (snd (last kvs)))])"
    using nth[OF writes_first[OF A(2)]] nth[OF writes_last[OF A(2)]]
    by (cases kvs rule: rev_cases; auto simp: A(3) kv_last_def kv_first_def hd_conv_nth split: list.splits)+
qed

theorem mut_accessors_correct_witness:
  "\<exists>s1 s2. get_key_value_mut small_map 2 Suc small_store = Inr (Some (2, 20), s1) \<and> represents s1 small_map [(1, 10), (2, 21)] \<and>
    last_key_value_mut small_map Suc small_store = Inr (Some (2, 20), s2)"
  using mut_accessors_correct[OF small_represents, of 2 Suc] by (auto simp: kv_last_def)

text \<open>C23. \<open>print\<close> never fails on a map that satisfies the invariant (the subtraction of the heights and
  \<open>node.len - 1\<close> do not underflow), changes nothing, and writes every entry once and in order, indented by
  the height of the map.\<close>

theorem print_lists_entries:
  assumes "represents s m kvs"
  shows "\<exists>ls s'. print_map m s = Inr (ls, s') \<and> printed ls = kvs \<and> well_indented (height m) ls \<and> represents s' m kvs"
proof -
  obtain A T where A: "shows_heap s A" "bmap_ok A m T" "contents T = kvs"
    using assms by (auto simp: represents_def)
  from runsD[OF runs_print_map[OF A(2)] A(1)] show ?thesis using A(2,3) unfolding represents_def by metis
qed

theorem print_lists_entries_witness:
  "\<exists>ls s'. print_map tall_map tall_store = Inr (ls, s') \<and> printed ls = tall_entries"
  using print_lists_entries[OF tall_represents] by blast

end
