(* ===== verification/Delegates.thy ===== *)
theory Delegates
  imports Copyable Validate Print Accessors RangeMut
begin

text \<open>
  The functions of \<open>src/src/map.rs\<close>, \<open>src/src/set.rs\<close>, \<open>src/src/copyable/map.rs\<close> and \<open>src/src/copyable/set.rs\<close> that
  only call another function: the constructors of iterators, the \<open>IntoIterator\<close> instances, checking and
  printing of sets and copies, and the comparison traits of sets, which are derived from the field, a map
  whose values are units.
\<close>

subsection \<open>Maps\<close>

definition map_iter :: "bmap \<Rightarrow> ('k, 'v, iter) sprog" where
  "map_iter m = iter_new m"

definition map_iter_mut :: "bmap \<Rightarrow> ('k, 'v, iter) sprog" where
  "map_iter_mut m = iter_mut_new m"

definition map_keys :: "bmap \<Rightarrow> ('k, 'v, iter) sprog" where
  "map_keys m = map_iter m"

definition map_values :: "bmap \<Rightarrow> ('k, 'v, iter) sprog" where
  "map_values m = map_iter m"

definition map_values_mut :: "bmap \<Rightarrow> ('k, 'v, iter) sprog" where
  "map_values_mut m = map_iter_mut m"

definition ref_into_iter :: "bmap \<Rightarrow> ('k, 'v, iter) sprog" where
  "ref_into_iter m = map_iter m"

definition mut_into_iter :: "bmap \<Rightarrow> ('k, 'v, iter) sprog" where
  "mut_into_iter m = map_iter_mut m"

definition map_into_iter :: "bmap \<Rightarrow> ('k, 'v, iter) sprog" where
  "map_into_iter m = into_iter_new m"

definition map_range :: "bmap \<Rightarrow> ('k::linorder) bounds \<Rightarrow> ('k, 'v, range) sprog" where
  "map_range m bs = range_new m bs"

definition map_range_mut :: "bmap \<Rightarrow> ('k::linorder) bounds \<Rightarrow> ('k, 'v, range) sprog" where
  "map_range_mut m bs = range_mut_new m bs"

subsection \<open>Sets\<close>

definition set_eq :: "('k \<Rightarrow> 'k \<Rightarrow> bool) \<Rightarrow> bset \<Rightarrow> bset \<Rightarrow> ('k, unit, bool) sprog" where
  "set_eq eqk b c = map_eq eqk (\<lambda>_ _. True) (set_map b) (set_map c)"

definition set_partial_cmp :: "('k \<Rightarrow> 'k \<Rightarrow> ordering option) \<Rightarrow> bset \<Rightarrow> bset \<Rightarrow> ('k, unit, ordering option) sprog" where
  "set_partial_cmp ck b c = map_partial_cmp ck (\<lambda>_ _. Some Equal) (set_map b) (set_map c)"

definition set_cmp :: "('k \<Rightarrow> 'k \<Rightarrow> ordering) \<Rightarrow> bset \<Rightarrow> bset \<Rightarrow> ('k, unit, ordering) sprog" where
  "set_cmp ck b c = map_cmp ck (\<lambda>_ _. Equal) (set_map b) (set_map c)"

definition set_hash :: "('k \<Rightarrow> 'h \<Rightarrow> 'h) \<Rightarrow> bset \<Rightarrow> 'h \<Rightarrow> ('k, unit, 'h) sprog" where
  "set_hash hk b st = map_hash hk (\<lambda>_ st. st) (set_map b) st"

definition set_validate :: "bset \<Rightarrow> ('k::linorder, unit, unit) sprog" where
  "set_validate b = validate (set_map b)"

definition set_print :: "bset \<Rightarrow> ('k, unit, ('k, unit) line list) sprog" where
  "set_print b = print_map (set_map b)"

definition set_nodes :: "bset \<Rightarrow> node_iter" where
  "set_nodes b = map_nodes (set_map b)"

definition set_ref_into_iter :: "bset \<Rightarrow> ('k, unit, iter) sprog" where
  "set_ref_into_iter b = set_iter_new b"

definition set_into_iter_size_hint :: "iter \<Rightarrow> nat \<times> nat option" where
  "set_into_iter_size_hint it = into_iter_size_hint it"

definition set_into_iter_len :: "iter \<Rightarrow> nat" where
  "set_into_iter_len it = into_iter_len it"

subsection \<open>Copies\<close>

definition copy_validate :: "nat \<Rightarrow> copy_map \<Rightarrow> ('k::linorder, 'v, unit) sprog" where
  "copy_validate at c = bindP (raw_deref at (copy_inner c)) (\<lambda>m. validate m)"

definition copy_print :: "nat \<Rightarrow> copy_map \<Rightarrow> ('k, 'v, ('k, 'v) line list) sprog" where
  "copy_print at c = bindP (raw_deref at (copy_inner c)) (\<lambda>m. print_map m)"

definition copy_keys :: "nat \<Rightarrow> copy_map \<Rightarrow> ('k, 'v, iter) sprog" where
  "copy_keys at c = bindP (raw_deref at (copy_inner c)) (\<lambda>m. map_keys m)"

definition copy_values :: "nat \<Rightarrow> copy_map \<Rightarrow> ('k, 'v, iter) sprog" where
  "copy_values at c = bindP (raw_deref at (copy_inner c)) (\<lambda>m. map_values m)"

definition copy_range_keys :: "nat \<Rightarrow> copy_map \<Rightarrow> ('k::linorder) bounds \<Rightarrow> ('k, 'v, range) sprog" where
  "copy_range_keys at c bs = bindP (raw_deref at (copy_inner c)) (\<lambda>m. map_range m bs)"

definition copy_range_values :: "nat \<Rightarrow> copy_map \<Rightarrow> ('k::linorder) bounds \<Rightarrow> ('k, 'v, range) sprog" where
  "copy_range_values at c bs = bindP (raw_deref at (copy_inner c)) (\<lambda>m. map_range m bs)"

definition copy_ne ::
    "('k \<Rightarrow> 'k \<Rightarrow> bool) \<Rightarrow> ('v \<Rightarrow> 'v \<Rightarrow> bool) \<Rightarrow> nat \<Rightarrow> copy_map \<Rightarrow> nat \<Rightarrow> copy_map \<Rightarrow> ('k, 'v, bool) sprog" where
  "copy_ne eqk eqv at c at' d =
     bindP (raw_deref at (copy_inner c)) (\<lambda>m. bindP (raw_deref at' (copy_inner d)) (\<lambda>n.
       bindP (map_eq eqk eqv m n) (\<lambda>r. ret (\<not> r))))"

definition copy_ref_into_iter :: "nat \<Rightarrow> copy_map \<Rightarrow> ('k, 'v, iter) sprog" where
  "copy_ref_into_iter at c = copy_iter at c"

definition copy_set_clone :: "copy_set \<Rightarrow> copy_set" where
  "copy_set_clone c = \<lparr>copy_set_inner = copy_set_inner c\<rparr>"

definition copy_set_validate :: "nat \<Rightarrow> copy_set \<Rightarrow> ('k::linorder, unit, unit) sprog" where
  "copy_set_validate at c = bindP (raw_set_deref at (copy_set_inner c)) (\<lambda>b. set_validate b)"

definition copy_set_print :: "nat \<Rightarrow> copy_set \<Rightarrow> ('k, unit, ('k, unit) line list) sprog" where
  "copy_set_print at c = bindP (raw_set_deref at (copy_set_inner c)) (\<lambda>b. set_print b)"

definition copy_set_eq :: "('k \<Rightarrow> 'k \<Rightarrow> bool) \<Rightarrow> nat \<Rightarrow> copy_set \<Rightarrow> nat \<Rightarrow> copy_set \<Rightarrow> ('k, unit, bool) sprog" where
  "copy_set_eq eqk at c at' d =
     bindP (raw_set_deref at (copy_set_inner c)) (\<lambda>b. bindP (raw_set_deref at' (copy_set_inner d)) (\<lambda>b'. set_eq eqk b b'))"

definition copy_set_ne :: "('k \<Rightarrow> 'k \<Rightarrow> bool) \<Rightarrow> nat \<Rightarrow> copy_set \<Rightarrow> nat \<Rightarrow> copy_set \<Rightarrow> ('k, unit, bool) sprog" where
  "copy_set_ne eqk at c at' d =
     bindP (raw_set_deref at (copy_set_inner c)) (\<lambda>b. bindP (raw_set_deref at' (copy_set_inner d)) (\<lambda>b'.
       bindP (set_eq eqk b b') (\<lambda>r. ret (\<not> r))))"

definition copy_set_partial_cmp ::
    "('k \<Rightarrow> 'k \<Rightarrow> ordering option) \<Rightarrow> nat \<Rightarrow> copy_set \<Rightarrow> nat \<Rightarrow> copy_set \<Rightarrow> ('k, unit, ordering option) sprog" where
  "copy_set_partial_cmp ck at c at' d =
     bindP (raw_set_deref at (copy_set_inner c)) (\<lambda>b. bindP (raw_set_deref at' (copy_set_inner d)) (\<lambda>b'. set_partial_cmp ck b b'))"

definition copy_set_cmp ::
    "('k \<Rightarrow> 'k \<Rightarrow> ordering) \<Rightarrow> nat \<Rightarrow> copy_set \<Rightarrow> nat \<Rightarrow> copy_set \<Rightarrow> ('k, unit, ordering) sprog" where
  "copy_set_cmp ck at c at' d =
     bindP (raw_set_deref at (copy_set_inner c)) (\<lambda>b. bindP (raw_set_deref at' (copy_set_inner d)) (\<lambda>b'. set_cmp ck b b'))"

definition copy_set_hash :: "('k \<Rightarrow> 'h \<Rightarrow> 'h) \<Rightarrow> nat \<Rightarrow> copy_set \<Rightarrow> 'h \<Rightarrow> ('k, unit, 'h) sprog" where
  "copy_set_hash hk at c st = bindP (raw_set_deref at (copy_set_inner c)) (\<lambda>b. set_hash hk b st)"

definition copy_set_nodes :: "nat \<Rightarrow> copy_set \<Rightarrow> ('k, unit, node_iter) sprog" where
  "copy_set_nodes at c = bindP (raw_set_deref at (copy_set_inner c)) (\<lambda>b. ret (set_nodes b))"

definition copy_set_ref_into_iter :: "nat \<Rightarrow> copy_set \<Rightarrow> ('k, unit, iter) sprog" where
  "copy_set_ref_into_iter at c = copy_set_iter at c"

subsection \<open>Debug output and store identity\<close>

definition store_default :: "('k, 'v) store" where
  "store_default = new_store"

definition map_fmt :: "bmap \<Rightarrow> ('k, 'v, ('k, 'v) line list) sprog" where
  "map_fmt m = print_map m"

definition set_fmt :: "bset \<Rightarrow> ('k, unit, ('k, unit) line list) sprog" where
  "set_fmt b = set_print b"

definition copy_fmt :: "nat \<Rightarrow> copy_map \<Rightarrow> ('k, 'v, ('k, 'v) line list) sprog" where
  "copy_fmt at c = bindP (raw_deref at (copy_inner c)) (\<lambda>m. map_fmt m)"

definition copy_set_fmt :: "nat \<Rightarrow> copy_set \<Rightarrow> ('k, unit, ('k, unit) line list) sprog" where
  "copy_set_fmt at c = bindP (raw_set_deref at (copy_set_inner c)) (\<lambda>b. set_fmt b)"

text \<open>The field \<open>store\<close> of a set or a copy is that of the map it wraps.\<close>

definition set_assert_store :: "bset placed \<Rightarrow> nat \<Rightarrow> ('k, unit, unit) sprog" where
  "set_assert_store b addr = assert_store \<lparr>in_store = in_store b, tree = set_map (tree b)\<rparr> addr"

definition copy_set_assert_store :: "nat \<Rightarrow> copy_set placed \<Rightarrow> nat \<Rightarrow> ('k, unit, unit) sprog" where
  "copy_set_assert_store at c addr =
     bindP (raw_set_deref at (copy_set_inner (tree c))) (\<lambda>b. set_assert_store \<lparr>in_store = in_store c, tree = b\<rparr> addr)"

end
