(* ===== verification/SetCompareProps.thy ===== *)
theory SetCompareProps
  imports Delegates CompareProps BSetProps
begin

text \<open>The comparison traits of sets: derived from a map to units, they compare the elements.\<close>

lemma eq_pair_unit: "list_all2 (eq_pair (=) (\<lambda>_ _. True)) xs ys \<longleftrightarrow> map fst xs = map fst ys"
  by (auto simp: eq_pair_def list_eq_iff_nth_eq list_all2_conv_all_nth)

lemma lex_compare_unit:
  fixes xs ys :: "('k::linorder \<times> unit) list"
  shows "lex_compare (cmp_pair (total ord_of) (total (\<lambda>_ _. Equal))) xs ys = Some (ord_of (map fst xs) (map fst ys))"
proof (induction "cmp_pair (total ord_of) (total (\<lambda>_ _. Equal)) :: 'k \<times> unit \<Rightarrow> _" xs ys rule: lex_compare.induct)
  case (4 x xs y ys)
  then show ?case by (cases "fst x" "fst y" rule: linorder_cases) (auto simp: cmp_pair_def total_def ord_of_def)
qed (auto simp: ord_of_def)

text \<open>C24. \<open>PartialEq\<close> and \<open>Ord\<close> of \<open>BTreeSet\<close>: two sets of a store compare equal exactly when they have the
  same elements, and otherwise as their ascending lists of elements do lexicographically.\<close>

theorem set_compare_correct:
  assumes "world_ok tight s ms kvss" "i < length ms" "j < length ms"
    "b = \<lparr>set_map = ms ! i\<rparr>" "c = \<lparr>set_map = ms ! j\<rparr>" "S = fst ` set (kvss ! i)" "R = fst ` set (kvss ! j)"
  shows "(\<exists>s'. set_eq (=) b c s = Inr (S = R, s') \<and> world_ok tight s' ms kvss) \<and>
    (\<exists>s'. set_cmp ord_of b c s = Inr (ord_of (sorted_list_of_set S) (sorted_list_of_set R), s') \<and>
      world_ok tight s' ms kvss)"
proof
  have srt: "kv_sorted (kvss ! i)" "kv_sorted (kvss ! j)"
    using represents_sorted world_ok_represents[OF assms(1)] assms(2,3) by blast+
  have l: "map fst (kvss ! i) = sorted_list_of_set S" "map fst (kvss ! j) = sorted_list_of_set R"
    using keys_sorted_list srt assms(6,7) by metis+
  have eq: "sorted_list_of_set S = sorted_list_of_set R \<longleftrightarrow> S = R"
    using assms(6,7) by (metis List.finite_set finite_imageI sorted_list_of_set.set_sorted_key_list_of_set)
  show "\<exists>s'. set_eq (=) b c s = Inr (S = R, s') \<and> world_ok tight s' ms kvss"
    using map_eq_lists[OF assms(1-3), of "(=)" "\<lambda>_ _. True"]
    unfolding eq_pair_unit l eq assms(4,5) set_eq_def by simp
  show "\<exists>s'. set_cmp ord_of b c s = Inr (ord_of (sorted_list_of_set S) (sorted_list_of_set R), s') \<and>
      world_ok tight s' ms kvss"
    unfolding assms(4,5) set_cmp_def map_cmp_def l[symmetric]
    by (rule world_reads[OF assms(1-3)], rule runs_bind, rule runs_map_partial_cmp)
      (auto simp: lex_compare_unit intro!: runs_ret_eta)
qed

theorem set_compare_correct_witness:
  "\<exists>s'. set_eq (=) (fst small_set) (fst small_set) (snd small_set) = Inr (True, s')"
proof -
  obtain kvs where kvs: "represents (snd small_set) (set_map (fst small_set)) kvs"
    using small_set_represents unfolding represents_set_def by blast
  have b: "fst small_set = \<lparr>set_map = [set_map (fst small_set)] ! 0\<rparr>" by simp
  show ?thesis using set_compare_correct[OF represents_world[OF kvs] _ _ b b refl refl] by auto
qed

end
