(* ===== verification/Spec2Isabelle.thy ===== *)
theory Spec2Isabelle
  imports NodeProps IterProps RangeProps BSetProps CompareProps GcProps ValidateProps CopyProps AccessorProps SetCompareProps
begin

text \<open>
  A model of btree-plus-store (\<open>src/src\<close>), a Rust library of B+ trees whose nodes live in a shared arena,
  and the theorems that make it correct, or say exactly where it is not.

  \<^bold>\<open>The program.\<close> A \<open>BTreeStore\<close> (\<open>store.rs\<close>) is a slab arena of nodes. A node (\<open>node.rs\<close>) has a parent link,
  arrays of at most \<open>M = 8\<close> keys, and an untagged union of a leaf (values, links to the neighbouring
  leaves) and an internal part (edges). A \<open>BTreeMap\<close> (\<open>map.rs\<close>) is a root pointer, a length and a height in
  such a store; it finds, inserts (splitting nodes upwards), removes (borrowing from and merging with
  siblings upwards), updates, clears and drops. A \<open>Cursor\<close> (\<open>cursor.rs\<close>) is a place in the chain of leaves,
  on which the double-ended iterators and the ranges of \<open>map.rs\<close> are built. \<open>BTreeSet\<close> (\<open>set.rs\<close>) is a map to
  units. The module \<open>copyable\<close> has read-only maps and sets that share nodes without owning them, and a
  tracing collector for them.

  \<^bold>\<open>How it is modelled.\<close> Every function is a program in a state monad with faults (theory Prelude): it ends in
  \<open>Inr\<close> of a result and a store, or in \<open>Inl\<close> of a fault. A failed \<open>assert!\<close> or \<open>debug_assert!\<close>, an \<open>unwrap\<close> of
  \<open>None\<close>, an index out of bounds, an overflow of \<open>u16\<close> are faults; so is what would be undefined behaviour:
  reading an uninitialised slot (a slot is an option), reading the wrong variant of the union, following a
  pointer into a discarded slot. So \<open>Inr\<close> means that none of these happens. \<open>len\<close> and indices are natural
  numbers with checked \<open>u16\<close> arithmetic; \<open>length\<close> and \<open>height\<close>, \<open>usize\<close> in the code, are natural numbers. Keys
  are of any linear order (a lawful \<open>Ord\<close>); cloning a key or comparing it has no effect. A mutable reference
  handed to the caller is modelled by the function that the caller applies to the value behind it. The
  arena is a third-party crate: where it places a new node is the parameter \<open>pick\<close>, in which order it visits
  its nodes the parameter \<open>visit\<close>, and the locales \<open>slab\<close> and \<open>visiting\<close> state what is relied on (a new slot
  is not in use; the visit covers the slots in use); both are interpreted, \<open>slab\<close> by an arena that never
  reuses slots and one that does.

  \<^bold>\<open>The theories\<close>, in the order they build on each other.
  \<^item> Prelude, Simulation, SortedMap: the monads, the contract of a component with its client (locale
    \<open>simulation\<close>: each step simulates an abstract step, hence any run does), the abstract ordered map.
  \<^item> Node, Store, NodeOps: \<open>node.rs\<close>, \<open>store.rs\<close>. NodeView, NodeSpec, EdgeSpec, SplitSpec, MergeSpec: a node shows
    a view (lists without the unused slots), a store an abstract heap of views, with a Hoare-like rule
    (\<open>runs\<close>) for each operation. NodeProps: properties.
  \<^item> Tree, Path: the tree that a heap represents, balance, fill, order of the keys and separators, and paths
    to the root as lists of frames. BMap: \<open>map.rs\<close> up to teardown. FindSpec, InsertSpec, InsertUp,
    InsertMap: lookup and insertion. Reshape, Siblings, Borrow, Merging, Rebalance, Removal, RemoveMap:
    removal. UpdateMap, DropMap: update, clear, drop. MapInv: the invariant \<open>bmap_ok\<close>. MapOps: \<open>represents\<close>,
    and the map as a simulation of a sorted association list. Looks: lookups leave the store as it is, and the
    descent of \<open>find\<close> compared with a scan. World: several maps in one store. MutUse, ConsumeUse: mutable
    accessors, iterators and ranges used in any way, and consuming iteration from both ends dropped anywhere.
    Programs: the states that programs reach with several maps. Layout: the raw layout of the nodes level by
    level. Space: how many nodes maps need, after any operations. MapProps: properties.
  \<^item> Cursor, Iter, IterMut, IntoIter, IntoIterBack, Range, RangeBack, RangeMut, BothEnds: \<open>cursor.rs\<close> and the iterators
    of \<open>map.rs\<close>. IterProps, RangeProps: properties.
  \<^item> Accessors, Print, AccessorProps: the mutable accessors and \<open>print\<close>. Delegates: the functions that only call
    another one. SetCompareProps: comparison of sets.
  \<^item> Compare, CompareProps: \<open>PartialEq\<close>, \<open>PartialOrd\<close>, \<open>Ord\<close>, \<open>Hash\<close>. Validate, ValidateSpec, ValidateProps: the checker
    \<open>validate\<close>. BSet, BSetProps: \<open>set.rs\<close>. Copyable, CopyProps: \<open>copyable/map.rs\<close> and \<open>copyable/set.rs\<close>. NodeIter, Gc, GcProps:
    \<open>copyable/sealed.rs\<close> and \<open>copyable/store.rs\<close>, the tracing collector.

  \<^bold>\<open>What is proved.\<close> On any map that satisfies the invariant, every operation but \<open>clear\<close> of a map with
  internal nodes ends without a fault, returns what the sorted association list returns, and keeps the
  invariant; other maps of the store are untouched, and teardown empties the store. After any operations the height is
  logarithmic and the number of nodes linear in the number of entries. In every state that programs reach, by any whole uses, one after
  the other, that return, but for \<open>clear\<close> of a map with internal nodes, every map satisfies the invariant and is apart from the
  others; and the union of each node is in the variant, and the slots are as initialised, as the height from the root says. The iterators refine taking entries from both ends of a
  list; consuming iteration in one direction frees every node. \<open>validate\<close> decides the
  invariant of a map with a root. The set refines finite sets; comparison and hashing agree with the contents, and so do
  copies that lie at aligned addresses.

  \<^bold>\<open>Where the code goes wrong\<close>, each as a theorem: \<open>clear\<close> keeps the height, so that the next insertion and
  lookup misread a leaf (\<open>clear_breaks_map\<close>); removing the last entry leaks its leaf (\<open>last_removal_leaks\<close>);
  ranges yield an entry too few or run past their end, forwards, backwards and mutably, and inverted bounds
  are not recognised (\<open>range_yields_wrong_entries\<close>, \<open>range_back_yields_wrong_entries\<close>, \<open>range_mut_writes\<close>,
  \<open>inverted_range_yields\<close>); \<open>IntoIter\<close> used from both ends follows a freed pointer or leaks,
  and leaks when it is dropped before its end (\<open>into_iter_use_after_free\<close>, \<open>into_iter_both_leaks\<close>,
  \<open>into_iter_early_leaks\<close>); the collector breaks on internal nodes
  (\<open>tracing_gc_faults\<close>), while on maps of one leaf it frees exactly what no copyable map points to, including the nodes
  of the maps that are moved into it (\<open>tracing_gc_sweeps\<close>), and it refuses a map of another store; a copyable map is an
  array of bytes, and a lookup in one that does not lie at an aligned address is undefined (\<open>copies_agree\<close>); \<open>validate\<close>
  passes any map without a root (\<open>validate_exact\<close>).

  \<^bold>\<open>Bounds and fuel.\<close> Descents recurse on the height and need no fuel; \<open>search_loop\<close>, \<open>node_iter_up\<close> and the loops
  of a node end by a measure. The loops up the tree carry fuel that their callers set above the height of the
  map (\<open>insert_up\<close>, \<open>rebalance\<close>) or above the length of the arena's history (\<open>up_lasts\<close>, \<open>up_firsts\<close>), and
  the theorems state that they end; loops over an
  iterator have fuel one above the length of the map. The traversal of the collector has a fuel that the theorems ask to be above the height by 2.
  \<open>OutOfFuel\<close> is a fault of its own, so no theorem can
  profit from it.

  \<^bold>\<open>Not modelled.\<close> The texts of keys and values in \<open>print\<close> and of panics (a printed line is a constructor of a
  datatype, and writing to the formatter does not fail); the single bytes of a copyable map (they stand for the map, and
  the address where they lie is a parameter of every operation); iterators that are alive while other maps of the
  store change; unlawful orders; panics inside a comparison or a destructor; the auto traits; benches and tests.
\<close>

end
